(* ===== verification/Gateway_Prelude.thy ===== *)
theory Gateway_Prelude
  imports Main "HOL-Library.Word"
begin

text \<open>
  Shared ground of the development: the machine types of the gateway, the symbols and the
  address classification it takes from the eBUS protocol library, the collections the
  component theories fill, and the generic lemmas on lists, words and runs they share.

  The gateway imports the package \<^verbatim>\<open>helianthus-ebusgo/protocol\<close>, whose code is not part of
  the repository. What the gateway uses of it (five symbol constants and one address
  predicate) is the record \<open>ebus_protocol\<close>; every definition that reads a symbol takes a value
  of it as its first argument. \<open>std_protocol\<close> carries the values the eBUS specification
  fixes and is used only to evaluate closed examples.
\<close>

unbundle bit_operations_syntax

type_synonym byte = "8 word"
type_synonym uint64 = "64 word"

record ebus_protocol =
  SymbolSyn :: byte
  SymbolAck :: byte
  SymbolNack :: byte
  SymbolEscape :: byte
  AddressBroadcast :: byte
  IsInitiatorCapableAddress :: "byte \<Rightarrow> bool"

definition std_initiator_capable :: "byte \<Rightarrow> bool" where
  "std_initiator_capable a \<longleftrightarrow>
     (a AND 15) \<in> {0, 1, 3, 7, 15} \<and> drop_bit 4 a \<in> {0, 1, 3, 7, 15}"

definition std_protocol :: ebus_protocol where
  "std_protocol =
     \<lparr> SymbolSyn = 0xAA, SymbolAck = 0x00, SymbolNack = 0xFF, SymbolEscape = 0xA9,
       AddressBroadcast = 0xFE, IsInitiatorCapableAddress = std_initiator_capable \<rparr>"

section \<open>Collections the components fill\<close>

named_theorems phase_defs \<open>the definitions of the wire-phase handlers\<close>
named_theorems wf_keep \<open>an operation preserves the well-formedness invariant of its component\<close>
named_theorems frame \<open>fields an operation leaves alone\<close>

section \<open>Runs of a deterministic machine\<close>

text \<open>
  \<open>run step s xs\<close> feeds the inputs \<open>xs\<close> in order and collects the outputs. Every component
  that is driven by a stream of bytes or calls is run this way.
\<close>

fun run :: "('s \<Rightarrow> 'i \<Rightarrow> 's \<times> 'o) \<Rightarrow> 's \<Rightarrow> 'i list \<Rightarrow> 's \<times> 'o list" where
  "run step s [] = (s, [])"
| "run step s (x # xs) =
     (let (s', out) = step s x; (s'', outs) = run step s' xs in (s'', out # outs))"

lemma run_Cons_fst [simp]: "fst (run step s (x # xs)) = fst (run step (fst (step s x)) xs)"
  and run_Cons_snd [simp]:
    "snd (run step s (x # xs)) = snd (step s x) # snd (run step (fst (step s x)) xs)"
  by (simp_all add: Let_def case_prod_beta)

lemma run_append_fst [simp]: "fst (run step s (xs @ ys)) = fst (run step (fst (run step s xs)) ys)"
  by (induction xs arbitrary: s) (simp_all del: run.simps(2))

lemma run_append_snd [simp]:
  "snd (run step s (xs @ ys)) = snd (run step s xs) @ snd (run step (fst (run step s xs)) ys)"
  by (induction xs arbitrary: s) (simp_all del: run.simps(2))

lemma fst_run_foldl: "fst (run step s xs) = foldl (\<lambda>t x. fst (step t x)) s xs"
  by (induction xs arbitrary: s) (simp_all del: run.simps(2))

lemma run_length: "length (snd (run step s xs)) = length xs"
  by (induction xs arbitrary: s) (simp_all del: run.simps(2))

lemma run_invariant:
  assumes "\<And>s x. I s \<Longrightarrow> I (fst (step s x))" and "I s"
  shows "I (fst (run step s xs))"
  using assms(2) by (induction xs arbitrary: s) (simp_all add: assms(1) del: run.simps(2))

declare run.simps(2) [simp del]

section \<open>Machines with an invariant\<close>

text \<open>
  The contract several components share: a state, the operations their callers may invoke in
  any order, and an invariant every operation keeps. The reachable states are those of a
  sequence of operations, and the invariant holds in all of them. A component interprets the
  locale on its own operations.
\<close>

locale kept_invariant =
  fixes step :: "'s \<Rightarrow> 'op \<Rightarrow> 's" and inv :: "'s \<Rightarrow> bool"
  assumes step_keeps: "inv s \<Longrightarrow> inv (step s op)"
begin

lemma run_keeps: "inv s \<Longrightarrow> inv (foldl step s ops)"
  by (induction ops arbitrary: s) (simp_all add: step_keeps)

lemma run_consequence: "inv s \<Longrightarrow> (\<And>t. inv t \<Longrightarrow> Q t) \<Longrightarrow> Q (foldl step s ops)"
  using run_keeps by blast

end

text \<open>
  A machine that spends a budget: while it is busy every step lowers a non-negative measure,
  so a long enough run ends at rest, and rest is final.
\<close>

locale spending = kept_invariant +
  fixes busy :: "'a \<Rightarrow> bool" and cost :: "'a \<Rightarrow> int"
  assumes cost_pos: "inv s \<Longrightarrow> busy s \<Longrightarrow> 0 < cost s"
    and spends: "inv s \<Longrightarrow> busy s \<Longrightarrow> cost (step s op) < cost s"
    and rests: "inv s \<Longrightarrow> \<not> busy s \<Longrightarrow> \<not> busy (step s op)"
begin

lemma stays_at_rest: "inv s \<Longrightarrow> \<not> busy s \<Longrightarrow> \<not> busy (foldl step s ops)"
  by (induction ops arbitrary: s) (simp_all add: step_keeps rests)

lemma comes_to_rest: "inv s \<Longrightarrow> cost s \<le> int (length ops) \<Longrightarrow> \<not> busy (foldl step s ops)"
proof (induction ops arbitrary: s)
  case Nil
  then show ?case using cost_pos[of s] by (cases "busy s") auto
next
  case (Cons op ops)
  show ?case
  proof (cases "busy s")
    case True
    with Cons.prems spends[of s op] show ?thesis
      by (simp add: Cons.IH step_keeps)
  next
    case False
    with Cons.prems(1) show ?thesis by (rule stays_at_rest)
  qed
qed

end

section \<open>Words and lists\<close>

lemma unat_byte_bound [simp]: "unat (b :: byte) \<le> 255"
  using unsigned_less[of b, where 'a = nat] by simp

lemma uint_byte_bound [simp]: "uint (b :: byte) \<le> 255" "uint (b :: byte) < 256"
  using unsigned_less[of b, where 'a = int] by simp_all

lemma uint_of_nat_byte [simp]: "n \<le> 255 \<Longrightarrow> uint (of_nat n :: byte) = int n"
  by (simp add: unsigned_of_nat take_bit_nat_eq_self)

lemma unat_of_nat_byte [simp]: "n \<le> 255 \<Longrightarrow> unat (of_nat n :: byte) = n"
  by (simp add: unat_of_nat)

lemma count_list_le_one_Cons:
  "count_list (x # xs) y \<le> Suc 0 \<longleftrightarrow> (x = y \<longrightarrow> count_list xs y = 0) \<and> count_list xs y \<le> Suc 0"
  by auto

end
