(* ===== verification/Wire_Phase.thy ===== *)
theory Wire_Phase
  imports Gateway_Prelude
begin

text \<open>
  The byte-level phase tracker of the adapter multiplexer,
  \<^verbatim>\<open>src/internal/adaptermux/wire_phase.go\<close>: the tracker record, one function per method, and
  the claims about it. The tracker counts bytes of an initiator-target transaction

    SRC DST PB SB LEN DATA CRC / ACK / LEN DATA CRC / ACK / SYN

  and reports the structural events the multiplexer acts on. Go \<^verbatim>\<open>int\<close> counters are HOL
  \<open>int\<close>; \<open>tracker_wf\<close> bounds them by 261, so the machine width never matters.
\<close>

section \<open>Data\<close>

datatype wirePhase =
    wirePhaseIdle
  | wirePhaseCollectRequest
  | wirePhaseWaitCmdAck
  | wirePhaseWaitResponseLen
  | wirePhaseWaitResponseBody
  | wirePhaseWaitResponseAck
  | wirePhaseWaitTerminalSyn

datatype wirePhaseEvent =
    wirePhaseEventNone
  | wirePhaseEventRequestComplete
  | wirePhaseEventCmdACK
  | wirePhaseEventCmdNACK
  | wirePhaseEventResponseDone
  | wirePhaseEventTransactionDone
  | wirePhaseEventCmdNACKRetry
  | wirePhaseEventSYNIdle
  | wirePhaseEventSYNTimeout

record wirePhaseTracker =
  phase :: wirePhase
  requestBytesSeen :: int
  requestDataLength :: int
  requestSrc :: byte
  requestDst :: byte
  cmdRetried :: bool
  responseRetried :: bool
  responseBytesRemain :: int
  ownerWrote :: bool

fun isSYNTimeoutBoundary :: "wirePhase \<Rightarrow> bool" where
  "isSYNTimeoutBoundary wirePhaseWaitCmdAck = True"
| "isSYNTimeoutBoundary wirePhaseWaitResponseLen = True"
| "isSYNTimeoutBoundary wirePhaseWaitResponseBody = True"
| "isSYNTimeoutBoundary wirePhaseWaitResponseAck = True"
| "isSYNTimeoutBoundary _ = False"

section \<open>Operations\<close>

definition phase_reset :: "wirePhase \<Rightarrow> wirePhaseTracker \<Rightarrow> wirePhaseTracker" where
  "phase_reset p t = t\<lparr> phase := p, requestBytesSeen := 0, requestDataLength := -1,
     requestSrc := 0, requestDst := 0, responseBytesRemain := 0, cmdRetried := False,
     responseRetried := False, ownerWrote := False \<rparr>"

definition markOwnerWrite :: "wirePhaseTracker \<Rightarrow> wirePhaseTracker" where
  "markOwnerWrite t = t\<lparr> ownerWrote := True \<rparr>"

definition telegramLive :: "wirePhaseTracker \<Rightarrow> bool" where
  "telegramLive t =
     (if \<not> ownerWrote t then False
      else case phase t of
        wirePhaseCollectRequest \<Rightarrow> requestBytesSeen t > 1
      | wirePhaseWaitCmdAck \<Rightarrow> True
      | wirePhaseWaitResponseLen \<Rightarrow> True
      | wirePhaseWaitResponseBody \<Rightarrow> True
      | wirePhaseWaitResponseAck \<Rightarrow> True
      | _ \<Rightarrow> False)"

definition advanceCollectRequest ::
    "wirePhaseTracker \<Rightarrow> byte \<Rightarrow> wirePhaseTracker \<times> wirePhaseEvent" where
  "advanceCollectRequest t symbol =
     (let t1 = t\<lparr> requestBytesSeen := requestBytesSeen t + 1 \<rparr>;
          t2 = (if requestBytesSeen t1 = 1 then t1\<lparr> requestSrc := symbol \<rparr>
                else if requestBytesSeen t1 = 2 then t1\<lparr> requestDst := symbol \<rparr>
                else if requestBytesSeen t1 = 5
                  then t1\<lparr> requestDataLength := int (unat symbol) \<rparr>
                else t1)
      in if requestDataLength t2 \<ge> 0 \<and> requestBytesSeen t2 \<ge> 6 + requestDataLength t2
         then (t2\<lparr> phase := wirePhaseWaitCmdAck \<rparr>, wirePhaseEventRequestComplete)
         else (t2, wirePhaseEventNone))"

definition advanceWaitCmdAck ::
    "ebus_protocol \<Rightarrow> wirePhaseTracker \<Rightarrow> byte \<Rightarrow> wirePhaseTracker \<times> wirePhaseEvent" where
  "advanceWaitCmdAck P t symbol =
     (if symbol = SymbolAck P then
        (if requestDst t = AddressBroadcast P
           then (t\<lparr> phase := wirePhaseWaitTerminalSyn \<rparr>, wirePhaseEventNone)
         else if IsInitiatorCapableAddress P (requestDst t)
           then (t\<lparr> phase := wirePhaseWaitTerminalSyn \<rparr>, wirePhaseEventNone)
         else (t\<lparr> phase := wirePhaseWaitResponseLen \<rparr>, wirePhaseEventCmdACK))
      else if symbol = SymbolNack P then
        (if \<not> cmdRetried t
           then (t\<lparr> cmdRetried := True, requestBytesSeen := 0, requestDataLength := -1,
                   phase := wirePhaseCollectRequest \<rparr>, wirePhaseEventCmdNACKRetry)
         else (t\<lparr> phase := wirePhaseWaitTerminalSyn \<rparr>, wirePhaseEventNone))
      else (phase_reset wirePhaseIdle t, wirePhaseEventCmdNACK))"

definition advanceWaitResponseLen ::
    "wirePhaseTracker \<Rightarrow> byte \<Rightarrow> wirePhaseTracker \<times> wirePhaseEvent" where
  "advanceWaitResponseLen t symbol =
     (t\<lparr> responseBytesRemain := int (unat symbol) + 1, phase := wirePhaseWaitResponseBody \<rparr>,
      wirePhaseEventNone)"

definition advanceWaitResponseBody ::
    "wirePhaseTracker \<Rightarrow> byte \<Rightarrow> wirePhaseTracker \<times> wirePhaseEvent" where
  "advanceWaitResponseBody t symbol =
     (let t1 = t\<lparr> responseBytesRemain := responseBytesRemain t - 1 \<rparr>
      in if responseBytesRemain t1 \<le> 0
         then (t1\<lparr> phase := wirePhaseWaitResponseAck \<rparr>, wirePhaseEventResponseDone)
         else (t1, wirePhaseEventNone))"

definition advanceWaitResponseAck ::
    "ebus_protocol \<Rightarrow> wirePhaseTracker \<Rightarrow> byte \<Rightarrow> wirePhaseTracker \<times> wirePhaseEvent" where
  "advanceWaitResponseAck P t symbol =
     (if symbol = SymbolNack P then
        (if \<not> responseRetried t
           then (t\<lparr> responseRetried := True, phase := wirePhaseWaitResponseLen \<rparr>,
                 wirePhaseEventNone)
         else (t\<lparr> phase := wirePhaseWaitTerminalSyn \<rparr>, wirePhaseEventNone))
      else (t\<lparr> phase := wirePhaseWaitTerminalSyn \<rparr>, wirePhaseEventNone))"

definition advanceWaitTerminalSyn ::
    "wirePhaseTracker \<Rightarrow> byte \<Rightarrow> wirePhaseTracker \<times> wirePhaseEvent" where
  "advanceWaitTerminalSyn t symbol =
     (phase_reset wirePhaseIdle t, wirePhaseEventTransactionDone)"

definition advanceWithProvenance ::
    "ebus_protocol \<Rightarrow> wirePhaseTracker \<Rightarrow> byte \<Rightarrow> bool \<Rightarrow> wirePhaseTracker \<times> wirePhaseEvent"
  where
  "advanceWithProvenance P t symbol isWireSyn =
     (if phase t = wirePhaseWaitTerminalSyn then advanceWaitTerminalSyn t symbol
      else if isWireSyn then
        (if isSYNTimeoutBoundary (phase t)
           then (phase_reset wirePhaseIdle t, wirePhaseEventSYNTimeout)
         else if phase t = wirePhaseCollectRequest then
           (if requestBytesSeen t \<le> 1
              then (phase_reset wirePhaseIdle t, wirePhaseEventSYNIdle)
            else (phase_reset wirePhaseIdle t, wirePhaseEventSYNTimeout))
         else (phase_reset wirePhaseIdle t, wirePhaseEventSYNIdle))
      else case phase t of
        wirePhaseIdle \<Rightarrow> (t, wirePhaseEventNone)
      | wirePhaseCollectRequest \<Rightarrow> advanceCollectRequest t symbol
      | wirePhaseWaitCmdAck \<Rightarrow> advanceWaitCmdAck P t symbol
      | wirePhaseWaitResponseLen \<Rightarrow> advanceWaitResponseLen t symbol
      | wirePhaseWaitResponseBody \<Rightarrow> advanceWaitResponseBody t symbol
      | wirePhaseWaitResponseAck \<Rightarrow> advanceWaitResponseAck P t symbol
      | _ \<Rightarrow> (t, wirePhaseEventNone))"

definition advance ::
    "ebus_protocol \<Rightarrow> wirePhaseTracker \<Rightarrow> byte \<Rightarrow> wirePhaseTracker \<times> wirePhaseEvent" where
  "advance P t symbol = advanceWithProvenance P t symbol (symbol = SymbolSyn P)"

definition startRequest :: "wirePhaseTracker \<Rightarrow> wirePhaseTracker" where
  "startRequest t = phase_reset wirePhaseCollectRequest t"

definition startRequestWithSource :: "byte \<Rightarrow> wirePhaseTracker \<Rightarrow> wirePhaseTracker" where
  "startRequestWithSource src t =
     (phase_reset wirePhaseCollectRequest t)\<lparr> requestBytesSeen := 1, requestSrc := src \<rparr>"

definition isIdle :: "wirePhaseTracker \<Rightarrow> bool" where
  "isIdle t \<longleftrightarrow> phase t = wirePhaseIdle"

definition tracker_initiator :: "wirePhaseTracker \<Rightarrow> byte" where
  "tracker_initiator t = requestSrc t"

definition tracker_target :: "wirePhaseTracker \<Rightarrow> byte" where
  "tracker_target t = requestDst t"

text \<open>
  The tracker the multiplexer starts with (the zero value of the struct, a field of
  \<^verbatim>\<open>Mux\<close>), and the stream of observed symbols with their provenance flag.
\<close>

definition zero_tracker :: wirePhaseTracker where
  "zero_tracker = \<lparr> phase = wirePhaseIdle, requestBytesSeen = 0, requestDataLength = 0,
     requestSrc = 0, requestDst = 0, cmdRetried = False, responseRetried = False,
     responseBytesRemain = 0, ownerWrote = False \<rparr>"

definition observe_symbol ::
    "ebus_protocol \<Rightarrow> wirePhaseTracker \<Rightarrow> byte \<times> bool \<Rightarrow> wirePhaseTracker \<times> wirePhaseEvent" where
  "observe_symbol P t x = advanceWithProvenance P t (fst x) (snd x)"

section \<open>Specification\<close>

text \<open>
  Well-formedness: the counters stay in the ranges the transaction grammar gives them. While
  a request is collected the LEN field is known exactly from the fifth byte on, and the
  request is not complete yet; while a response body is awaited at least one byte is missing.
\<close>

definition tracker_wf :: "wirePhaseTracker \<Rightarrow> bool" where
  "tracker_wf t \<longleftrightarrow>
     0 \<le> requestBytesSeen t \<and> requestBytesSeen t \<le> 261 \<and>
     -1 \<le> requestDataLength t \<and> requestDataLength t \<le> 255 \<and>
     0 \<le> responseBytesRemain t \<and> responseBytesRemain t \<le> 256 \<and>
     (phase t = wirePhaseCollectRequest \<longrightarrow>
        (if requestDataLength t = -1 then requestBytesSeen t \<le> 4
         else 5 \<le> requestBytesSeen t \<and> requestBytesSeen t < 6 + requestDataLength t)) \<and>
     (phase t = wirePhaseWaitResponseBody \<longrightarrow> 1 \<le> responseBytesRemain t)"

text \<open>
  The transaction grammar as byte strings: a master part with its length field, and a
  response part with its length field. Every symbol is data (provenance flag \<open>False\<close>), so an
  escape-decoded 0xAA may occur anywhere in them.
\<close>

definition request_bytes :: "byte \<Rightarrow> byte \<Rightarrow> byte \<Rightarrow> byte \<Rightarrow> byte list \<Rightarrow> byte \<Rightarrow> byte list" where
  "request_bytes src dst pb sb payload crc =
     [src, dst, pb, sb, of_nat (length payload)] @ payload @ [crc]"

definition response_bytes :: "byte list \<Rightarrow> byte \<Rightarrow> byte list" where
  "response_bytes payload crc = of_nat (length payload) # payload @ [crc]"

definition as_data :: "byte list \<Rightarrow> (byte \<times> bool) list" where
  "as_data bs = map (\<lambda>b. (b, False)) bs"

definition reported :: "wirePhaseEvent list \<Rightarrow> wirePhaseEvent list" where
  "reported evs = filter (\<lambda>e. e \<noteq> wirePhaseEventNone) evs"

text \<open>
  The documented state machine on phases alone: which phase may follow which, with which
  event. The tracker refines it (the counters and flags decide among its steps).
\<close>

inductive phase_step :: "wirePhase \<Rightarrow> wirePhaseEvent \<Rightarrow> wirePhase \<Rightarrow> bool" where
  idle_ignore: "phase_step wirePhaseIdle wirePhaseEventNone wirePhaseIdle"
| idle_syn: "phase_step wirePhaseIdle wirePhaseEventSYNIdle wirePhaseIdle"
| collect_more: "phase_step wirePhaseCollectRequest wirePhaseEventNone wirePhaseCollectRequest"
| collect_done: "phase_step wirePhaseCollectRequest wirePhaseEventRequestComplete wirePhaseWaitCmdAck"
| collect_syn_fresh: "phase_step wirePhaseCollectRequest wirePhaseEventSYNIdle wirePhaseIdle"
| syn_timeout: "p \<noteq> wirePhaseIdle \<Longrightarrow> p \<noteq> wirePhaseWaitTerminalSyn \<Longrightarrow>
     phase_step p wirePhaseEventSYNTimeout wirePhaseIdle"
| cmd_ack: "phase_step wirePhaseWaitCmdAck wirePhaseEventCmdACK wirePhaseWaitResponseLen"
| cmd_final: "phase_step wirePhaseWaitCmdAck wirePhaseEventNone wirePhaseWaitTerminalSyn"
| cmd_retry: "phase_step wirePhaseWaitCmdAck wirePhaseEventCmdNACKRetry wirePhaseCollectRequest"
| cmd_garbled: "phase_step wirePhaseWaitCmdAck wirePhaseEventCmdNACK wirePhaseIdle"
| response_len: "phase_step wirePhaseWaitResponseLen wirePhaseEventNone wirePhaseWaitResponseBody"
| response_more: "phase_step wirePhaseWaitResponseBody wirePhaseEventNone wirePhaseWaitResponseBody"
| response_done: "phase_step wirePhaseWaitResponseBody wirePhaseEventResponseDone wirePhaseWaitResponseAck"
| response_retry: "phase_step wirePhaseWaitResponseAck wirePhaseEventNone wirePhaseWaitResponseLen"
| response_final: "phase_step wirePhaseWaitResponseAck wirePhaseEventNone wirePhaseWaitTerminalSyn"
| terminal: "phase_step wirePhaseWaitTerminalSyn wirePhaseEventTransactionDone wirePhaseIdle"

inductive_cases phase_step_doneE: "phase_step p wirePhaseEventTransactionDone q"
inductive_cases phase_step_terminalE: "phase_step wirePhaseWaitTerminalSyn e q"

text \<open>
  An upper bound on the number of symbols the tracker can still consume before it is idle:
  the rest of the request, the acknowledge, the response, each with its one retry.
\<close>

definition budget_ack :: "bool \<Rightarrow> int" where
  "budget_ack respRetried = (if respRetried then 2 else 260)"

definition budget_cmd :: "bool \<Rightarrow> bool \<Rightarrow> int" where
  "budget_cmd cmdRetr respRetr =
     (if cmdRetr then 258 + budget_ack respRetr else 520 + budget_ack respRetr)"

definition budget :: "wirePhaseTracker \<Rightarrow> int" where
  "budget t = (case phase t of
       wirePhaseIdle \<Rightarrow> 0
     | wirePhaseCollectRequest \<Rightarrow>
         (if requestDataLength t < 0 then 261 else 6 + requestDataLength t)
           - requestBytesSeen t + budget_cmd (cmdRetried t) (responseRetried t)
     | wirePhaseWaitCmdAck \<Rightarrow> budget_cmd (cmdRetried t) (responseRetried t)
     | wirePhaseWaitResponseLen \<Rightarrow> 257 + budget_ack (responseRetried t)
     | wirePhaseWaitResponseBody \<Rightarrow> responseBytesRemain t + budget_ack (responseRetried t)
     | wirePhaseWaitResponseAck \<Rightarrow> budget_ack (responseRetried t)
     | wirePhaseWaitTerminalSyn \<Rightarrow> 1)"

text \<open>The calls the multiplexer makes on its tracker, as one operation type.\<close>

datatype tracker_op =
    ObserveSymbol byte bool
  | StartRequest
  | StartRequestWithSource byte
  | ResetIdle
  | MarkOwnerWrite

fun tracker_apply :: "ebus_protocol \<Rightarrow> wirePhaseTracker \<Rightarrow> tracker_op \<Rightarrow> wirePhaseTracker" where
  "tracker_apply P t (ObserveSymbol b syn) = fst (advanceWithProvenance P t b syn)"
| "tracker_apply P t StartRequest = startRequest t"
| "tracker_apply P t (StartRequestWithSource src) = startRequestWithSource src t"
| "tracker_apply P t ResetIdle = phase_reset wirePhaseIdle t"
| "tracker_apply P t MarkOwnerWrite = markOwnerWrite t"

text \<open>
  The symbols of one complete initiator-target transaction. The target may reject the command
  once (\<open>cmdNack\<close>) and the initiator may reject the response once (\<open>respNack\<close>); each rejected
  part is sent again without a new arbitration. The events it must report.
\<close>

definition transaction_symbols ::
    "ebus_protocol \<Rightarrow> bool \<Rightarrow> bool \<Rightarrow> byte list \<Rightarrow> byte list \<Rightarrow> (byte \<times> bool) list" where
  "transaction_symbols P cmdNack respNack req resp =
     (if cmdNack then as_data (req @ [SymbolNack P]) else []) @ as_data (req @ [SymbolAck P]) @
     (if respNack then as_data (resp @ [SymbolNack P]) else []) @
     as_data (resp @ [SymbolAck P]) @ [(SymbolSyn P, True)]"

definition transaction_events :: "bool \<Rightarrow> bool \<Rightarrow> wirePhaseEvent list" where
  "transaction_events cmdNack respNack =
     (if cmdNack then [wirePhaseEventRequestComplete, wirePhaseEventCmdNACKRetry] else []) @
     [wirePhaseEventRequestComplete, wirePhaseEventCmdACK] @
     (if respNack then [wirePhaseEventResponseDone] else []) @
     [wirePhaseEventResponseDone, wirePhaseEventTransactionDone]"

section \<open>Lemmas\<close>

lemmas tracker_defs [phase_defs] =
  phase_reset_def advanceCollectRequest_def advanceWaitCmdAck_def advanceWaitResponseLen_def
  advanceWaitResponseBody_def advanceWaitResponseAck_def advanceWaitTerminalSyn_def
  advanceWithProvenance_def observe_symbol_def

lemma reset_fields [simp]:
  "phase (phase_reset p t) = p" "requestBytesSeen (phase_reset p t) = 0"
  "requestDataLength (phase_reset p t) = -1" "cmdRetried (phase_reset p t) = False"
  "responseRetried (phase_reset p t) = False" "responseBytesRemain (phase_reset p t) = 0"
  "requestSrc (phase_reset p t) = 0" "requestDst (phase_reset p t) = 0"
  "ownerWrote (phase_reset p t) = False"
  by (simp_all add: phase_reset_def)

lemma reset_wf [wf_keep]: "p \<noteq> wirePhaseWaitResponseBody \<Longrightarrow> tracker_wf (phase_reset p t)"
  by (simp add: tracker_wf_def)

lemma collect_wf [wf_keep]:
  "tracker_wf t \<Longrightarrow> phase t = wirePhaseCollectRequest \<Longrightarrow>
     tracker_wf (fst (advanceCollectRequest t b))"
  by (auto simp: tracker_wf_def advanceCollectRequest_def Let_def split: if_splits)

lemma cmd_ack_wf [wf_keep]:
  "tracker_wf t \<Longrightarrow> tracker_wf (fst (advanceWaitCmdAck P t b))"
  by (auto simp: tracker_wf_def advanceWaitCmdAck_def)

lemma response_len_wf [wf_keep]:
  "tracker_wf t \<Longrightarrow> tracker_wf (fst (advanceWaitResponseLen t b))"
  by (simp add: tracker_wf_def advanceWaitResponseLen_def)

lemma response_body_wf [wf_keep]:
  "tracker_wf t \<Longrightarrow> phase t = wirePhaseWaitResponseBody \<Longrightarrow>
     tracker_wf (fst (advanceWaitResponseBody t b))"
  by (auto simp: tracker_wf_def advanceWaitResponseBody_def Let_def)

lemma response_ack_wf [wf_keep]:
  "tracker_wf t \<Longrightarrow> tracker_wf (fst (advanceWaitResponseAck P t b))"
  by (auto simp: tracker_wf_def advanceWaitResponseAck_def)

lemma advance_wf [wf_keep]:
  assumes "tracker_wf t"
  shows "tracker_wf (fst (advanceWithProvenance P t b syn))"
  using assms
  by (cases "phase t")
     (auto simp: advanceWithProvenance_def advanceWaitTerminalSyn_def intro!: wf_keep)

lemma advance_phase_step:
  "phase_step (phase t) (snd (advanceWithProvenance P t b syn))
     (phase (fst (advanceWithProvenance P t b syn)))"
  by (cases "phase t") (auto simp: tracker_defs Let_def intro: phase_step.intros)

lemma budget_decreases:
  assumes "tracker_wf t" and "phase t \<noteq> wirePhaseIdle"
  shows "budget (fst (advanceWithProvenance P t b syn)) < budget t"
  using assms
  by (cases "phase t")
     (auto simp: tracker_defs budget_def budget_cmd_def budget_ack_def tracker_wf_def Let_def
           split: if_splits)

lemma advance_idle_data [simp]:
  "phase t = wirePhaseIdle \<Longrightarrow> phase (fst (advanceWithProvenance P t b syn)) = wirePhaseIdle"
  by (simp add: advanceWithProvenance_def)

subsection \<open>Whole transactions\<close>

abbreviation feed :: "ebus_protocol \<Rightarrow> wirePhaseTracker \<Rightarrow> (byte \<times> bool) list \<Rightarrow>
    wirePhaseTracker \<times> wirePhaseEvent list" where
  "feed P \<equiv> run (observe_symbol P)"

lemma as_data_simps [simp]:
  "as_data [] = []" "as_data (b # bs) = (b, False) # as_data bs"
  "as_data (bs @ cs) = as_data bs @ as_data cs"
  by (simp_all add: as_data_def)

lemma reported_simps [simp]:
  "reported [] = []" "reported (wirePhaseEventNone # es) = reported es"
  "e \<noteq> wirePhaseEventNone \<Longrightarrow> reported (e # es) = e # reported es"
  "reported (es @ fs) = reported es @ reported fs"
  by (simp_all add: reported_def)

text \<open>
  The tail of a request: with the LEN field known and \<open>n\<close> bytes missing, the next \<open>n\<close> data
  bytes complete the request and only the last one is reported.
\<close>

lemma feed_request_tail:
  assumes "phase t = wirePhaseCollectRequest" and "0 \<le> requestDataLength t"
    and "5 \<le> requestBytesSeen t"
    and "requestBytesSeen t + int (length bs) = 6 + requestDataLength t" and "bs \<noteq> []"
  shows "fst (feed P t (as_data bs)) =
           t\<lparr> requestBytesSeen := 6 + requestDataLength t, phase := wirePhaseWaitCmdAck \<rparr>"
    and "reported (snd (feed P t (as_data bs))) = [wirePhaseEventRequestComplete]"
proof -
  have "fst (feed P t (as_data bs)) =
           t\<lparr> requestBytesSeen := 6 + requestDataLength t, phase := wirePhaseWaitCmdAck \<rparr> \<and>
        reported (snd (feed P t (as_data bs))) = [wirePhaseEventRequestComplete]"
    using assms
  proof (induction bs arbitrary: t)
    case (Cons b bs)
    let ?t = "t\<lparr> requestBytesSeen := requestBytesSeen t + 1 \<rparr>"
    show ?case
    proof (cases "bs = []")
      case True
      with Cons.prems show ?thesis by (auto simp: tracker_defs Let_def)
    next
      case False
      then obtain c cs where bs: "bs = c # cs" by (cases bs) auto
      have step: "observe_symbol P t (b, False) = (?t, wirePhaseEventNone)"
        using Cons.prems by (auto simp: tracker_defs Let_def bs)
      from Cons.prems False show ?thesis
        using Cons.IH[of ?t] by (simp add: step)
    qed
  qed simp
  then show "fst (feed P t (as_data bs)) =
           t\<lparr> requestBytesSeen := 6 + requestDataLength t, phase := wirePhaseWaitCmdAck \<rparr>"
    and "reported (snd (feed P t (as_data bs))) = [wirePhaseEventRequestComplete]"
    by simp_all
qed

lemma feed_response_tail:
  assumes "phase t = wirePhaseWaitResponseBody"
    and "responseBytesRemain t = int (length bs)" and "bs \<noteq> []"
  shows "fst (feed P t (as_data bs)) =
           t\<lparr> responseBytesRemain := 0, phase := wirePhaseWaitResponseAck \<rparr> \<and>
         reported (snd (feed P t (as_data bs))) = [wirePhaseEventResponseDone]"
  using assms
proof (induction bs arbitrary: t)
  case (Cons b bs)
  let ?t = "t\<lparr> responseBytesRemain := responseBytesRemain t - 1 \<rparr>"
  show ?case
  proof (cases "bs = []")
    case True
    with Cons.prems show ?thesis by (auto simp: tracker_defs Let_def)
  next
    case False
    then obtain c cs where bs: "bs = c # cs" by (cases bs) auto
    have step: "observe_symbol P t (b, False) = (?t, wirePhaseEventNone)"
      using Cons.prems by (auto simp: tracker_defs Let_def bs)
    from Cons.prems False show ?thesis
      using Cons.IH[of ?t] by (simp add: step)
  qed
qed simp

text \<open>A whole request, from a tracker at the start of the collection.\<close>

lemma feed_request:
  assumes "phase t = wirePhaseCollectRequest" and "requestBytesSeen t = 0"
    and "requestDataLength t = -1" and "length payload \<le> 255"
  shows "fst (feed P t (as_data (request_bytes src dst pb sb payload crc))) =
           t\<lparr> requestBytesSeen := 6 + int (length payload), requestSrc := src, requestDst := dst,
             requestDataLength := int (length payload), phase := wirePhaseWaitCmdAck \<rparr>"
    and "reported (snd (feed P t (as_data (request_bytes src dst pb sb payload crc)))) =
           [wirePhaseEventRequestComplete]"
proof -
  let ?h = "as_data [src, dst, pb, sb, of_nat (length payload)]"
  let ?t = "t\<lparr> requestBytesSeen := 5, requestSrc := src, requestDst := dst,
               requestDataLength := int (length payload) \<rparr>"
  have head: "fst (feed P t ?h) = ?t" "reported (snd (feed P t ?h)) = []"
    using assms by (simp_all add: tracker_defs Let_def)
  have split: "as_data (request_bytes src dst pb sb payload crc) = ?h @ as_data (payload @ [crc])"
    by (simp add: request_bytes_def)
  have tail: "fst (feed P ?t (as_data (payload @ [crc]))) =
      ?t\<lparr> requestBytesSeen := 6 + requestDataLength ?t, phase := wirePhaseWaitCmdAck \<rparr>"
    "reported (snd (feed P ?t (as_data (payload @ [crc])))) = [wirePhaseEventRequestComplete]"
    by (rule feed_request_tail; use assms in simp)+
  show "fst (feed P t (as_data (request_bytes src dst pb sb payload crc))) =
           t\<lparr> requestBytesSeen := 6 + int (length payload), requestSrc := src, requestDst := dst,
             requestDataLength := int (length payload), phase := wirePhaseWaitCmdAck \<rparr>"
    unfolding split run_append_fst head(1) tail(1) by simp
  show "reported (snd (feed P t (as_data (request_bytes src dst pb sb payload crc)))) =
           [wirePhaseEventRequestComplete]"
    unfolding split run_append_snd head(1) reported_simps(4) head(2) tail(2) by simp
qed

text \<open>A whole response, from a tracker that waits for its LEN field.\<close>

lemma feed_response:
  assumes "phase t = wirePhaseWaitResponseLen" and "length payload \<le> 255"
  shows "fst (feed P t (as_data (response_bytes payload crc))) =
           t\<lparr> responseBytesRemain := 0, phase := wirePhaseWaitResponseAck \<rparr>"
    and "reported (snd (feed P t (as_data (response_bytes payload crc)))) =
           [wirePhaseEventResponseDone]"
proof -
  let ?t = "t\<lparr> responseBytesRemain := int (length payload) + 1, phase := wirePhaseWaitResponseBody \<rparr>"
  have step: "observe_symbol P t (of_nat (length payload), False) = (?t, wirePhaseEventNone)"
    using assms by (simp add: tracker_defs)
  have tail: "fst (feed P ?t (as_data (payload @ [crc]))) =
      ?t\<lparr> responseBytesRemain := 0, phase := wirePhaseWaitResponseAck \<rparr> \<and>
      reported (snd (feed P ?t (as_data (payload @ [crc])))) = [wirePhaseEventResponseDone]"
    by (rule feed_response_tail) simp_all
  have split: "as_data (response_bytes payload crc) =
      (of_nat (length payload), False) # as_data (payload @ [crc])"
    by (simp add: response_bytes_def)
  from tail show "fst (feed P t (as_data (response_bytes payload crc))) =
           t\<lparr> responseBytesRemain := 0, phase := wirePhaseWaitResponseAck \<rparr>"
    and "reported (snd (feed P t (as_data (response_bytes payload crc)))) =
           [wirePhaseEventResponseDone]"
    unfolding split run_Cons_fst run_Cons_snd step by simp_all
qed

lemma budget_pos: "tracker_wf t \<Longrightarrow> \<not> isIdle t \<Longrightarrow> 0 < budget t"
  by (cases "phase t")
     (auto simp: budget_def budget_cmd_def budget_ack_def tracker_wf_def isIdle_def split: if_splits)

text \<open>The tracker as a machine that observes symbols: it spends its budget and comes to rest.\<close>

interpretation tracker: spending "\<lambda>t x. fst (observe_symbol P t x)" tracker_wf "\<lambda>t. \<not> isIdle t" budget
proof unfold_locales
  fix t :: wirePhaseTracker and x :: "byte \<times> bool"
  show "tracker_wf t \<Longrightarrow> tracker_wf (fst (observe_symbol P t x))"
    by (simp add: observe_symbol_def advance_wf)
  show "tracker_wf t \<Longrightarrow> \<not> isIdle t \<Longrightarrow> 0 < budget t" by (rule budget_pos)
  show "tracker_wf t \<Longrightarrow> \<not> isIdle t \<Longrightarrow> budget (fst (observe_symbol P t x)) < budget t"
    by (simp add: observe_symbol_def budget_decreases isIdle_def)
  show "tracker_wf t \<Longrightarrow> \<not> \<not> isIdle t \<Longrightarrow> \<not> \<not> isIdle (fst (observe_symbol P t x))"
    by (simp add: observe_symbol_def isIdle_def)
qed

text \<open>
  Which events may still be counted: a tracker that is idle or has spent its retry reports no
  further command retry, and an idle tracker reports no transaction end.
\<close>

lemma feed_idle_events:
  "phase t = wirePhaseIdle \<Longrightarrow>
     set (snd (feed P t xs)) \<subseteq> {wirePhaseEventNone, wirePhaseEventSYNIdle}"
proof (induction xs arbitrary: t)
  case (Cons x xs)
  then show ?case
    using Cons.IH[of "fst (observe_symbol P t x)"]
    by (auto simp: observe_symbol_def advanceWithProvenance_def split: if_splits)
qed simp

lemma count_idle:
  "phase t = wirePhaseIdle \<Longrightarrow> count_list (snd (feed P t xs)) wirePhaseEventCmdNACKRetry = 0"
  "phase t = wirePhaseIdle \<Longrightarrow> count_list (snd (feed P t xs)) wirePhaseEventTransactionDone = 0"
  using feed_idle_events[of t P xs] by (auto simp: count_list_0_iff)

lemma retry_sets_flag:
  "snd (observe_symbol P t x) = wirePhaseEventCmdNACKRetry \<Longrightarrow>
     \<not> cmdRetried t \<and> cmdRetried (fst (observe_symbol P t x))"
  by (cases "phase t") (auto simp: tracker_defs Let_def split: if_splits)

lemma retry_flag_kept:
  "cmdRetried t \<Longrightarrow>
     cmdRetried (fst (observe_symbol P t x)) \<or> phase (fst (observe_symbol P t x)) = wirePhaseIdle"
  by (cases "phase t") (auto simp: tracker_defs Let_def split: if_splits)

lemma count_retry_flag:
  "cmdRetried t \<Longrightarrow> count_list (snd (feed P t xs)) wirePhaseEventCmdNACKRetry = 0"
proof (induction xs arbitrary: t)
  case (Cons x xs)
  from Cons.prems retry_sets_flag[of P t x]
  have no: "snd (observe_symbol P t x) \<noteq> wirePhaseEventCmdNACKRetry" by blast
  from retry_flag_kept[OF Cons.prems, of P x] show ?case
    using no Cons.IH count_idle(1) by auto
qed simp

lemma count_retry:
  "count_list (snd (feed P t xs)) wirePhaseEventCmdNACKRetry \<le> 1"
proof (induction xs arbitrary: t)
  case (Cons x xs)
  show ?case
  proof (cases "snd (observe_symbol P t x) = wirePhaseEventCmdNACKRetry")
    case True
    then show ?thesis
      using count_retry_flag[of "fst (observe_symbol P t x)" P xs] retry_sets_flag by simp
  next
    case False
    then show ?thesis using Cons.IH by simp
  qed
qed simp

lemma done_goes_idle:
  "snd (observe_symbol P t x) = wirePhaseEventTransactionDone \<Longrightarrow>
     phase t = wirePhaseWaitTerminalSyn \<and> phase (fst (observe_symbol P t x)) = wirePhaseIdle"
  using advance_phase_step[of t P "fst x" "snd x"]
  by (auto simp: observe_symbol_def elim: phase_step_doneE)

lemma count_done:
  "count_list (snd (feed P t xs)) wirePhaseEventTransactionDone \<le> 1"
proof (induction xs arbitrary: t)
  case (Cons x xs)
  show ?case
  proof (cases "snd (observe_symbol P t x) = wirePhaseEventTransactionDone")
    case True
    then show ?thesis
      using count_idle(2)[of "fst (observe_symbol P t x)" P xs] done_goes_idle by simp
  next
    case False
    then show ?thesis using Cons.IH by simp
  qed
qed simp

lemma markOwnerWrite_wf [wf_keep]: "tracker_wf t \<Longrightarrow> tracker_wf (markOwnerWrite t)"
  by (simp add: tracker_wf_def markOwnerWrite_def)

lemma tracker_apply_wf: "tracker_wf t \<Longrightarrow> tracker_wf (tracker_apply P t op)"
  by (cases op)
     (auto simp: startRequest_def startRequestWithSource_def tracker_wf_def[of "_\<lparr>requestSrc := _\<rparr>"]
           intro!: wf_keep)

interpretation tracker_calls: kept_invariant "tracker_apply P" tracker_wf
  by unfold_locales (rule tracker_apply_wf)

text \<open>The two acknowledge bytes of a transaction, accepting or rejecting for the first time.\<close>

lemma observe_cmd_ack:
  assumes "phase t = wirePhaseWaitCmdAck" and "requestDst t \<noteq> AddressBroadcast P"
    and "\<not> IsInitiatorCapableAddress P (requestDst t)"
  shows "observe_symbol P t (SymbolAck P, False) =
           (t\<lparr> phase := wirePhaseWaitResponseLen \<rparr>, wirePhaseEventCmdACK)"
  using assms by (simp add: tracker_defs)

lemma observe_cmd_nack:
  assumes "phase t = wirePhaseWaitCmdAck" and "\<not> cmdRetried t" and "SymbolNack P \<noteq> SymbolAck P"
  shows "observe_symbol P t (SymbolNack P, False) =
           (t\<lparr> cmdRetried := True, requestBytesSeen := 0, requestDataLength := -1,
              phase := wirePhaseCollectRequest \<rparr>, wirePhaseEventCmdNACKRetry)"
  using assms by (simp add: tracker_defs)

lemma observe_response_ack:
  assumes "phase t = wirePhaseWaitResponseAck" and "SymbolNack P \<noteq> SymbolAck P"
  shows "observe_symbol P t (SymbolAck P, False) =
           (t\<lparr> phase := wirePhaseWaitTerminalSyn \<rparr>, wirePhaseEventNone)"
  using assms by (simp add: tracker_defs)

lemma observe_response_nack:
  assumes "phase t = wirePhaseWaitResponseAck" and "\<not> responseRetried t"
  shows "observe_symbol P t (SymbolNack P, False) =
           (t\<lparr> responseRetried := True, phase := wirePhaseWaitResponseLen \<rparr>, wirePhaseEventNone)"
  using assms by (simp add: tracker_defs)

lemma observe_terminal:
  "phase t = wirePhaseWaitTerminalSyn \<Longrightarrow>
     observe_symbol P t x = (phase_reset wirePhaseIdle t, wirePhaseEventTransactionDone)"
  by (simp add: tracker_defs)

lemmas observe_acks =
  observe_cmd_ack observe_cmd_nack observe_response_ack observe_response_nack observe_terminal

section \<open>Claims\<close>

text \<open>
  C2. A complete initiator-target transaction, with or without the one permitted command
  retry and the one permitted response retry, is followed exactly: from any tracker put in the
  request phase, the reported events are the request completions and acknowledges of the
  grammar in order, the transaction ends with its terminal SYN, and the tracker is idle again.
  Payload bytes are arbitrary, including an escape-decoded 0xAA.
\<close>

theorem wire_transaction_followed:
  assumes "length payload \<le> 255" and "length answer \<le> 255"
    and "dst \<noteq> AddressBroadcast P" and "\<not> IsInitiatorCapableAddress P dst"
    and "SymbolNack P \<noteq> SymbolAck P"
  shows "let symbols = transaction_symbols P cmdNack respNack
                         (request_bytes src dst pb sb payload crc) (response_bytes answer rcrc)
         in isIdle (fst (feed P (startRequest t) symbols)) \<and>
            reported (snd (feed P (startRequest t) symbols)) = transaction_events cmdNack respNack"
  by (simp add: transaction_symbols_def transaction_events_def startRequest_def
        isIdle_def feed_request feed_response observe_acks assms)

theorem wire_transaction_followed_witness:
  "reported (snd (feed std_protocol (startRequest zero_tracker)
     (transaction_symbols std_protocol True True
        (request_bytes 0x31 0x08 0xB5 0x09 [0x0D, 0xAA] 0x17) (response_bytes [0xAA] 0x42)))) =
   transaction_events True True"
  by (rule wire_transaction_followed[unfolded Let_def, THEN conjunct2])
     (simp_all add: std_protocol_def std_initiator_capable_def)

text \<open>
  A broadcast and an initiator-initiator telegram have no response part: after the
  acknowledge the tracker waits for the terminal SYN only, and the transaction ends there.
\<close>

theorem wire_no_response_telegram:
  assumes "length payload \<le> 255" and "dst = AddressBroadcast P \<or> IsInitiatorCapableAddress P dst"
  shows "reported (snd (feed P (startRequest t)
           (as_data (request_bytes src dst pb sb payload crc @ [SymbolAck P]) @ [(SymbolSyn P, True)]))) =
         [wirePhaseEventRequestComplete, wirePhaseEventTransactionDone]"
proof -
  have ack: "observe_symbol P u (SymbolAck P, False) =
      (u\<lparr> phase := wirePhaseWaitTerminalSyn \<rparr>, wirePhaseEventNone)"
    if "phase u = wirePhaseWaitCmdAck" and "requestDst u = dst" for u
    using that assms(2) by (auto simp: tracker_defs)
  show ?thesis
    using assms(1) by (simp add: startRequest_def feed_request ack observe_terminal)
qed

theorem wire_no_response_telegram_witness:
  "reported (snd (feed std_protocol (startRequest zero_tracker)
     (as_data (request_bytes 0x31 0xFE 0x07 0x00 [] 0x17 @ [SymbolAck std_protocol]) @
        [(SymbolSyn std_protocol, True)]))) =
   [wirePhaseEventRequestComplete, wirePhaseEventTransactionDone]"
  by (rule wire_no_response_telegram) (simp_all add: std_protocol_def)

text \<open>
  Whatever is on the wire, between two grants the tracker reports at most one command
  retry and at most one end of transaction: the multiplexer never releases an ownership twice
  for one telegram.
\<close>

theorem wire_single_retry_single_done:
  "count_list (snd (feed P t xs)) wirePhaseEventCmdNACKRetry \<le> 1 \<and>
   count_list (snd (feed P t xs)) wirePhaseEventTransactionDone \<le> 1"
  by (intro conjI count_retry count_done)

text \<open>
  C35. A granted request cannot hold the tracker forever: after at most 1041 observed symbols,
  of any value and provenance, the tracker is idle.
\<close>

theorem wire_returns_to_idle:
  assumes "1041 \<le> length xs"
  shows "isIdle (fst (feed P (startRequest t) xs))"
proof -
  have "tracker_wf (startRequest t)" by (simp add: startRequest_def reset_wf)
  moreover have "budget (startRequest t) = 1041"
    by (simp add: startRequest_def budget_def budget_cmd_def budget_ack_def)
  ultimately show ?thesis
    using assms tracker.comes_to_rest[of "startRequest t" xs P] by (simp add: fst_run_foldl)
qed

theorem wire_returns_to_idle_witness:
  "isIdle (fst (feed std_protocol (startRequest zero_tracker) (replicate 1041 (0, False))))"
  by (rule wire_returns_to_idle) simp


text \<open>
  Starting from the multiplexer's initial tracker, every sequence of calls keeps the
  counters in their grammatical ranges; in particular no counter exceeds 261, so none can
  overflow.
\<close>

theorem wire_counters_bounded:
  "tracker_wf (foldl (tracker_apply P) zero_tracker ops)"
  by (rule tracker_calls.run_keeps) (simp add: tracker_wf_def zero_tracker_def)

text \<open>
  A wire SYN always returns the tracker to idle, and the event tells the multiplexer why:
  the end of a transaction exactly when a structural terminal was reached, a timeout exactly
  when real request bytes or a later field were pending, an idle SYN otherwise.
\<close>

theorem wire_syn_classified:
  "phase (fst (advanceWithProvenance P t b True)) = wirePhaseIdle \<and>
   snd (advanceWithProvenance P t b True) =
     (if phase t = wirePhaseWaitTerminalSyn then wirePhaseEventTransactionDone
      else if isSYNTimeoutBoundary (phase t) \<or>
              (phase t = wirePhaseCollectRequest \<and> 1 < requestBytesSeen t)
        then wirePhaseEventSYNTimeout
      else wirePhaseEventSYNIdle)"
  by (cases "phase t") (auto simp: tracker_defs)

end
