(* ===== verification/Arbitration.thy ===== *)
theory Arbitration
  imports Gateway_Prelude "HOL-Library.Multiset" "HOL-Library.Product_Lexorder"
begin

text \<open>
  The START arbitrator of the adapter multiplexer, \<^verbatim>\<open>src/internal/adaptermux/arbitration.go\<close>,
  with the one operation of \<^verbatim>\<open>mux.go\<close> that works on its fields directly
  (\<^verbatim>\<open>expireGatewayAdmission\<close>).

  A \<^verbatim>\<open>*startRequest\<close> is a number, looked up in the store \<open>requests\<close>; a \<^verbatim>\<open>chan startResult\<close>
  is a number whose sent results are logged in \<open>results\<close>. The Go channels have capacity one
  and are sent to while the arbitrator's mutex is held, so a second send would block every
  other session: that no log ever exceeds one entry is a claim below. Each method of the
  source runs under the mutex and is therefore one atomic step here.
\<close>

section \<open>Data\<close>

type_synonym go_error = string

record startResult =
  res_granted :: bool
  res_cancelled :: bool
  res_initiator :: byte
  res_startedQueued :: bool
  res_failedQueued :: bool
  res_err :: "go_error option"

record startRequest =
  sr_sessionID :: uint64
  sr_initiator :: byte
  sr_notify :: nat
  sr_cancelled :: bool

record arbitrator =
  ownershipGen :: uint64
  lifecycleEpoch :: uint64
  ownerEpoch :: uint64
  pendingGateway :: "nat option"
  deferredGatewayLoser :: "nat option"
  pendingExternal :: "nat list"
  hasOwner :: bool
  currentOwner :: uint64
  currentInitiator :: byte
  requests :: "nat \<Rightarrow> startRequest"
  next_request :: nat
  results :: "nat \<Rightarrow> startResult list"
  next_chan :: nat

definition gatewaySessionID :: uint64 where
  "gatewaySessionID = 0"

definition zero_request :: startRequest where
  "zero_request = \<lparr> sr_sessionID = 0, sr_initiator = 0, sr_notify = 0, sr_cancelled = False \<rparr>"

definition newArbitrator :: arbitrator where
  "newArbitrator = \<lparr> ownershipGen = 0, lifecycleEpoch = 0, ownerEpoch = 0, pendingGateway = None,
     deferredGatewayLoser = None, pendingExternal = [], hasOwner = False, currentOwner = 0,
     currentInitiator = 0, requests = (\<lambda>_. zero_request), next_request = 0,
     results = (\<lambda>_. []), next_chan = 0 \<rparr>"

text \<open>A result that is not a grant: the fields a struct literal leaves out are zero.\<close>

definition failure :: "bool \<Rightarrow> byte \<Rightarrow> go_error option \<Rightarrow> startResult" where
  "failure cancelled ini er = \<lparr> res_granted = False, res_cancelled = cancelled,
     res_initiator = ini, res_startedQueued = False, res_failedQueued = False, res_err = er \<rparr>"

section \<open>Store operations\<close>

definition notify_of :: "arbitrator \<Rightarrow> nat \<Rightarrow> nat" where
  "notify_of a r = sr_notify (requests a r)"

definition session_of :: "arbitrator \<Rightarrow> nat \<Rightarrow> uint64" where
  "session_of a r = sr_sessionID (requests a r)"

definition initiator_of :: "arbitrator \<Rightarrow> nat \<Rightarrow> byte" where
  "initiator_of a r = sr_initiator (requests a r)"

definition send :: "nat \<Rightarrow> startResult \<Rightarrow> arbitrator \<Rightarrow> arbitrator" where
  "send c x a = a\<lparr> results := (results a)(c := results a c @ [x]) \<rparr>"

definition set_cancelled :: "nat \<Rightarrow> arbitrator \<Rightarrow> arbitrator" where
  "set_cancelled r a = a\<lparr> requests := (requests a)(r := (requests a r)\<lparr> sr_cancelled := True \<rparr>) \<rparr>"

definition set_notify :: "nat \<Rightarrow> nat \<Rightarrow> arbitrator \<Rightarrow> arbitrator" where
  "set_notify r c a = a\<lparr> requests := (requests a)(r := (requests a r)\<lparr> sr_notify := c \<rparr>) \<rparr>"

text \<open>\<^verbatim>\<open>make(chan startResult, 1)\<close> and \<^verbatim>\<open>&startRequest{...}\<close>.\<close>

definition alloc :: "uint64 \<Rightarrow> byte \<Rightarrow> arbitrator \<Rightarrow> arbitrator" where
  "alloc sid ini a = a\<lparr> next_chan := Suc (next_chan a), next_request := Suc (next_request a),
     requests := (requests a)(next_request a :=
       \<lparr> sr_sessionID = sid, sr_initiator = ini, sr_notify = next_chan a, sr_cancelled = False \<rparr>) \<rparr>"

section \<open>Bids\<close>

fun find_bid :: "arbitrator \<Rightarrow> uint64 \<Rightarrow> nat list \<Rightarrow> nat option" where
  "find_bid a sid [] = None"
| "find_bid a sid (r # rs) =
     (if session_of a r = sid then Some 0 else map_option Suc (find_bid a sid rs))"

definition cancel_old :: "nat option \<Rightarrow> arbitrator \<Rightarrow> arbitrator" where
  "cancel_old old a = (case old of None \<Rightarrow> a
     | Some r \<Rightarrow> send (notify_of a r) (failure True (initiator_of a r) None) (set_cancelled r a))"

definition requestStart :: "uint64 \<Rightarrow> byte \<Rightarrow> arbitrator \<Rightarrow> arbitrator \<times> nat" where
  "requestStart sid ini a =
     (let ch = next_chan a; r = next_request a; a1 = alloc sid ini a in
      if sid = gatewaySessionID then
        (let a2 = cancel_old (pendingGateway a1) a1;
             a3 = cancel_old (deferredGatewayLoser a2) (a2\<lparr> deferredGatewayLoser := None \<rparr>)
         in (a3\<lparr> pendingGateway := Some r \<rparr>, ch))
      else case find_bid a1 sid (pendingExternal a1) of
        Some i \<Rightarrow>
          (let old = pendingExternal a1 ! i;
               a2 = send (notify_of a1 old) (failure True (initiator_of a1 old) None) a1
           in if initiator_of a2 old = ini then (set_notify old ch a2, ch)
              else ((set_cancelled old a2)\<lparr> pendingExternal := (pendingExternal a2)[i := r] \<rparr>, ch))
      | None \<Rightarrow> (a1\<lparr> pendingExternal := pendingExternal a1 @ [r] \<rparr>, ch))"

definition markInFlightCancelled :: "nat option \<Rightarrow> arbitrator \<Rightarrow> arbitrator \<times> bool" where
  "markInFlightCancelled req a = (case req of None \<Rightarrow> (a, False)
     | Some r \<Rightarrow> (set_cancelled r a, sr_cancelled (requests a r)))"

definition cancelStart :: "uint64 \<Rightarrow> arbitrator \<Rightarrow> arbitrator \<times> bool" where
  "cancelStart sid a =
     (if sid = gatewaySessionID then
        (if pendingGateway a \<noteq> None
           then ((cancel_old (pendingGateway a) a)\<lparr> pendingGateway := None \<rparr>, True)
         else if deferredGatewayLoser a \<noteq> None
           then (cancel_old (deferredGatewayLoser a) (a\<lparr> deferredGatewayLoser := None \<rparr>), True)
         else (a, False))
      else case find_bid a sid (pendingExternal a) of
        Some i \<Rightarrow>
          (let a1 = cancel_old (Some (pendingExternal a ! i)) a
           in (a1\<lparr> pendingExternal :=
                 take i (pendingExternal a1) @ drop (Suc i) (pendingExternal a1) \<rparr>, True))
      | None \<Rightarrow> (a, False))"

section \<open>Selection at an idle SYN\<close>

definition higherPriority :: "startRequest \<Rightarrow> startRequest \<Rightarrow> bool" where
  "higherPriority a b =
     (if sr_initiator a AND 0x0f \<noteq> sr_initiator b AND 0x0f
        then sr_initiator a AND 0x0f < sr_initiator b AND 0x0f
      else if sr_initiator a \<noteq> sr_initiator b
        then drop_bit 4 (sr_initiator a) < drop_bit 4 (sr_initiator b)
      else sr_sessionID a < sr_sessionID b)"

definition snapshotBids :: "arbitrator \<Rightarrow> nat \<rightharpoonup> nat" where
  "snapshotBids a =
     (let m0 = (case pendingGateway a of None \<Rightarrow> Map.empty | Some r \<Rightarrow> [r \<mapsto> notify_of a r])
      in fold (\<lambda>r m. m(r \<mapsto> notify_of a r)) (pendingExternal a) m0)"

definition eligible :: "arbitrator \<Rightarrow> (nat \<rightharpoonup> nat) option \<Rightarrow> nat \<Rightarrow> bool" where
  "eligible a bids r = (case bids of None \<Rightarrow> True | Some m \<Rightarrow> m r = Some (notify_of a r))"

definition better :: "arbitrator \<Rightarrow> (nat \<rightharpoonup> nat) option \<Rightarrow> nat \<Rightarrow> nat option \<Rightarrow> nat option" where
  "better a bids r winner =
     (if eligible a bids r \<and>
         (case winner of None \<Rightarrow> True | Some w \<Rightarrow> higherPriority (requests a r) (requests a w))
      then Some r else winner)"

definition gateway_bid :: "arbitrator \<Rightarrow> nat list" where
  "gateway_bid a = (case pendingGateway a of None \<Rightarrow> [] | Some r \<Rightarrow> [r])"

definition lose :: "arbitrator \<Rightarrow> (nat \<rightharpoonup> nat) option \<Rightarrow> nat \<Rightarrow> nat list \<Rightarrow> nat list" where
  "lose a bids winner rs = filter (\<lambda>r. eligible a bids r \<and> r \<noteq> winner) rs"

definition selectBidsAtSYN ::
    "bool \<Rightarrow> (nat \<rightharpoonup> nat) option \<Rightarrow> arbitrator \<Rightarrow> arbitrator \<times> nat option \<times> nat list" where
  "selectBidsAtSYN busIdle bids a =
     (if hasOwner a \<or> \<not> busIdle then (a, None, [])
      else
        (let first = (case pendingGateway a of
                        Some r \<Rightarrow> if eligible a bids r then Some r else None | None \<Rightarrow> None);
             winner = fold (better a bids) (pendingExternal a) first
         in case winner of None \<Rightarrow> (a, None, [])
            | Some w \<Rightarrow>
                (let losers = lose a bids w (gateway_bid a @ pendingExternal a);
                     deferred = fold (\<lambda>r d. if session_of a r = gatewaySessionID then Some r else d)
                                     losers (deferredGatewayLoser a);
                     gateway = (case pendingGateway a of
                        Some r \<Rightarrow> if eligible a bids r then None else Some r | None \<Rightarrow> None);
                     remaining = filter (\<lambda>r. \<not> eligible a bids r) (pendingExternal a)
                 in (a\<lparr> deferredGatewayLoser := deferred, pendingGateway := gateway,
                       pendingExternal := remaining \<rparr>, Some w, losers))))"

definition selectAtSYN :: "bool \<Rightarrow> arbitrator \<Rightarrow> arbitrator \<times> nat option \<times> nat list" where
  "selectAtSYN busIdle a = selectBidsAtSYN busIdle None a"

definition takeDeferredGatewayLoser :: "nat option \<Rightarrow> arbitrator \<Rightarrow> arbitrator \<times> bool" where
  "takeDeferredGatewayLoser req a =
     (if req = None \<or> deferredGatewayLoser a \<noteq> req then (a, False)
      else (a\<lparr> deferredGatewayLoser := None \<rparr>, True))"

definition tryGrant :: "bool \<Rightarrow> arbitrator \<Rightarrow> arbitrator \<times> nat option \<times> bool" where
  "tryGrant busIdle a =
     (let (a1, winner, losers) = selectAtSYN busIdle a
      in case winner of None \<Rightarrow> (a1, None, False)
         | Some w \<Rightarrow>
             (fold (\<lambda>r b. let b1 = fst (takeDeferredGatewayLoser (Some r) b)
                          in send (notify_of b1 r) (failure False (initiator_of b1 w) None) b1)
                   losers a1, Some w, True))"

section \<open>Ownership\<close>

record ownershipToken =
  tok_sessionID :: uint64
  tok_gen :: uint64
  tok_epoch :: uint64

datatype commitError = errOwnershipLifecycleFenced | errOwnershipChanged | CommitError go_error

definition confirmOwnership :: "uint64 \<Rightarrow> byte \<Rightarrow> arbitrator \<Rightarrow> arbitrator" where
  "confirmOwnership sid ini a = a\<lparr> ownershipGen := ownershipGen a + 1,
     ownerEpoch := lifecycleEpoch a, hasOwner := True, currentOwner := sid,
     currentInitiator := ini \<rparr>"

definition releaseOwnership :: "uint64 \<Rightarrow> arbitrator \<Rightarrow> arbitrator" where
  "releaseOwnership sid a =
     (if hasOwner a \<and> currentOwner a = sid
      then a\<lparr> ownershipGen := ownershipGen a + 1, hasOwner := False, currentOwner := 0,
             currentInitiator := 0 \<rparr>
      else a)"

definition currentOwnershipToken :: "uint64 \<Rightarrow> arbitrator \<Rightarrow> ownershipToken option" where
  "currentOwnershipToken sid a =
     (if \<not> hasOwner a \<or> currentOwner a \<noteq> sid then None
      else Some \<lparr> tok_sessionID = sid, tok_gen = ownershipGen a, tok_epoch = ownerEpoch a \<rparr>)"

text \<open>The commit function is the caller's; it runs on the caller's state.\<close>

definition commitWhileOwnershipCurrent ::
    "ownershipToken \<Rightarrow> ('w \<Rightarrow> 'w \<times> go_error option) \<Rightarrow> arbitrator \<Rightarrow> 'w \<Rightarrow>
       'w \<times> commitError option" where
  "commitWhileOwnershipCurrent tok commit a w =
     (if lifecycleEpoch a \<noteq> tok_epoch tok then (w, Some errOwnershipLifecycleFenced)
      else if \<not> hasOwner a \<or> currentOwner a \<noteq> tok_sessionID tok \<or> ownershipGen a \<noteq> tok_gen tok
        then (w, Some errOwnershipChanged)
      else (let (w', er) = commit w in (w', map_option CommitError er)))"

definition fenceLifecycle :: "arbitrator \<Rightarrow> arbitrator" where
  "fenceLifecycle a = a\<lparr> lifecycleEpoch := lifecycleEpoch a + 1 \<rparr>"

definition forceRelease :: "arbitrator \<Rightarrow> arbitrator" where
  "forceRelease a = a\<lparr> ownershipGen := ownershipGen a + 1, hasOwner := False, currentOwner := 0,
     currentInitiator := 0 \<rparr>"

definition arb_owner :: "arbitrator \<Rightarrow> uint64 \<times> byte \<times> bool" where
  "arb_owner a = (if \<not> hasOwner a then (0, 0, False)
     else (currentOwner a, currentInitiator a, True))"

definition isOwner :: "uint64 \<Rightarrow> arbitrator \<Rightarrow> bool" where
  "isOwner sid a \<longleftrightarrow> hasOwner a \<and> currentOwner a = sid"

definition hasPending :: "arbitrator \<Rightarrow> bool" where
  "hasPending a \<longleftrightarrow> pendingGateway a \<noteq> None \<or> pendingExternal a \<noteq> []"

definition hasExternalPending :: "arbitrator \<Rightarrow> bool" where
  "hasExternalPending a \<longleftrightarrow> pendingExternal a \<noteq> []"

definition fail_one :: "go_error \<Rightarrow> nat \<Rightarrow> arbitrator \<Rightarrow> arbitrator" where
  "fail_one er r a = send (notify_of a r) (failure False (initiator_of a r) (Some er)) a"

definition failAllPending :: "go_error \<Rightarrow> arbitrator \<Rightarrow> arbitrator" where
  "failAllPending er a =
     (let a1 = (case pendingGateway a of None \<Rightarrow> a
                | Some r \<Rightarrow> (fail_one er r a)\<lparr> pendingGateway := None \<rparr>);
          a2 = (case deferredGatewayLoser a1 of None \<Rightarrow> a1
                | Some r \<Rightarrow> (fail_one er r a1)\<lparr> deferredGatewayLoser := None \<rparr>)
      in (fold (fail_one er) (pendingExternal a2) a2)\<lparr> pendingExternal := [] \<rparr>)"

definition removeSession :: "uint64 \<Rightarrow> arbitrator \<Rightarrow> arbitrator" where
  "removeSession sid a = releaseOwnership sid (fst (cancelStart sid a))"

text \<open>
  \<^verbatim>\<open>expireGatewayAdmission\<close>: the timeout error wraps an error of the transport library, so it
  is an argument.
\<close>

definition expireGatewayAdmission :: "go_error \<Rightarrow> nat \<Rightarrow> arbitrator \<Rightarrow> arbitrator" where
  "expireGatewayAdmission er ch a =
     (let is_it = (\<lambda>req. case req of None \<Rightarrow> False | Some r \<Rightarrow> notify_of a r = ch)
      in if is_it (pendingGateway a)
           then fail_one er (the (pendingGateway a)) (a\<lparr> pendingGateway := None \<rparr>)
         else if is_it (deferredGatewayLoser a)
           then fail_one er (the (deferredGatewayLoser a)) (a\<lparr> deferredGatewayLoser := None \<rparr>)
         else a)"

section \<open>Specification\<close>

text \<open>
  The contract of the notification channels: a ledger of open waiters. \<open>ledger_ok W n log\<close>
  says that the channels below \<open>n\<close> are those handed out, each is either open (in \<open>W\<close>, once,
  with nothing sent) or settled with exactly one result, and nothing was sent elsewhere.
\<close>

definition ledger_ok :: "nat multiset \<Rightarrow> nat \<Rightarrow> (nat \<Rightarrow> startResult list) \<Rightarrow> bool" where
  "ledger_ok W n log \<longleftrightarrow>
     (\<forall>c. count W c \<le> 1) \<and> (\<forall>c. c \<in># W \<longrightarrow> c < n \<and> log c = []) \<and>
     (\<forall>c. c < n \<longrightarrow> c \<notin># W \<longrightarrow> length (log c) = 1) \<and> (\<forall>c. n \<le> c \<longrightarrow> log c = [])"

text \<open>
  The requests the arbitrator still answers for, and with them the requests a selection
  handed to the multiplexer (\<open>out\<close>: the winner and the external losers).
\<close>

definition opt_list :: "'a option \<Rightarrow> 'a list" where
  "opt_list x = (case x of None \<Rightarrow> [] | Some y \<Rightarrow> [y])"

definition held :: "arbitrator \<Rightarrow> nat list" where
  "held a = opt_list (pendingGateway a) @ opt_list (deferredGatewayLoser a) @ pendingExternal a"

definition waiters :: "arbitrator \<Rightarrow> nat list \<Rightarrow> nat multiset" where
  "waiters a out = mset (map (notify_of a) (held a @ out))"

definition arb_shape :: "arbitrator \<Rightarrow> nat list \<Rightarrow> bool" where
  "arb_shape a out \<longleftrightarrow>
     (\<forall>r \<in> set (held a @ out). r < next_request a) \<and>
     (pendingGateway a = None \<or> deferredGatewayLoser a = None) \<and>
     (\<forall>r \<in> set (opt_list (pendingGateway a) @ opt_list (deferredGatewayLoser a)).
        session_of a r = gatewaySessionID) \<and>
     (\<forall>r \<in> set (pendingExternal a). session_of a r \<noteq> gatewaySessionID) \<and>
     distinct (map (session_of a) (pendingExternal a))"

definition arb_ledger :: "arbitrator \<Rightarrow> nat list \<Rightarrow> bool" where
  "arb_ledger a out \<longleftrightarrow> ledger_ok (waiters a out) (next_chan a) (results a)"

definition arb_inv :: "arbitrator \<Rightarrow> nat list \<Rightarrow> bool" where
  "arb_inv a out \<longleftrightarrow> arb_ledger a out \<and> arb_shape a out"

text \<open>
  The arbitrator among its callers. \<open>Settle\<close> is the multiplexer sending the one result of a
  request it holds; \<open>SettleGateway\<close> is \<^verbatim>\<open>settleLocalLosses\<close>, which answers the deferred gateway
  loser only if \<^verbatim>\<open>takeDeferredGatewayLoser\<close> hands it over.
\<close>

datatype arb_op =
    RequestStart uint64 byte
  | CancelStart uint64
  | RemoveSession uint64
  | SelectBids bool "(nat \<rightharpoonup> nat) option"
  | Settle nat startResult
  | SettleGateway nat startResult
  | Expire go_error nat
  | FailAll go_error
  | MarkCancelled nat
  | Confirm uint64 byte
  | Release uint64
  | ForceRelease
  | Fence

fun arb_step :: "arbitrator \<times> nat list \<Rightarrow> arb_op \<Rightarrow> arbitrator \<times> nat list" where
  "arb_step (a, out) (RequestStart sid ini) = (fst (requestStart sid ini a), out)"
| "arb_step (a, out) (CancelStart sid) = (fst (cancelStart sid a), out)"
| "arb_step (a, out) (RemoveSession sid) = (removeSession sid a, out)"
| "arb_step (a, out) (SelectBids idle bids) =
     (let (a', winner, losers) = selectBidsAtSYN idle bids a
      in (a', out @ opt_list winner @
              filter (\<lambda>r. session_of a' r \<noteq> gatewaySessionID) losers))"
| "arb_step (a, out) (Settle r x) =
     (if r \<in> set out then (send (notify_of a r) x a, remove1 r out) else (a, out))"
| "arb_step (a, out) (SettleGateway r x) =
     (let (a', owned) = takeDeferredGatewayLoser (Some r) a
      in (if owned then send (notify_of a' r) x a' else a', out))"
| "arb_step (a, out) (Expire er ch) = (expireGatewayAdmission er ch a, out)"
| "arb_step (a, out) (FailAll er) = (failAllPending er a, out)"
| "arb_step (a, out) (MarkCancelled r) = (fst (markInFlightCancelled (Some r) a), out)"
| "arb_step (a, out) (Confirm sid ini) = (confirmOwnership sid ini a, out)"
| "arb_step (a, out) (Release sid) = (releaseOwnership sid a, out)"
| "arb_step (a, out) ForceRelease = (forceRelease a, out)"
| "arb_step (a, out) Fence = (fenceLifecycle a, out)"

text \<open>
  The priority of a bid as a key: low nibble of the address, then high nibble, then session.
  A smaller key wins.
\<close>

definition bid_key :: "startRequest \<Rightarrow> byte \<times> byte \<times> uint64" where
  "bid_key r = (sr_initiator r AND 0x0f, drop_bit 4 (sr_initiator r), sr_sessionID r)"

text \<open>
  How often a step of the system ends an ownership period by a transition (the ownership
  generation advances) and by a lifecycle fence.
\<close>

fun op_transitions :: "arbitrator \<Rightarrow> arb_op \<Rightarrow> nat" where
  "op_transitions a (Confirm sid ini) = 1"
| "op_transitions a (Release sid) = (if hasOwner a \<and> currentOwner a = sid then 1 else 0)"
| "op_transitions a (RemoveSession sid) = (if hasOwner a \<and> currentOwner a = sid then 1 else 0)"
| "op_transitions a ForceRelease = 1"
| "op_transitions a _ = 0"

fun transitions :: "arbitrator \<times> nat list \<Rightarrow> arb_op list \<Rightarrow> nat" where
  "transitions s [] = 0"
| "transitions s (op # ops) = op_transitions (fst s) op + transitions (arb_step s op) ops"

definition fences :: "arb_op list \<Rightarrow> nat" where
  "fences ops = count_list ops Fence"

text \<open>The fields of an ownership period, and a concrete state with two bids for the examples.\<close>

definition owner_view :: "arbitrator \<Rightarrow> uint64 \<times> bool \<times> uint64" where
  "owner_view a = (ownershipGen a, hasOwner a, currentOwner a)"

definition two_bids :: arbitrator where
  "two_bids = fst (requestStart 2 0x10 (fst (requestStart 1 0x31 newArbitrator)))"

section \<open>Lemmas\<close>

subsection \<open>The ledger\<close>

lemma ledger_open: "ledger_ok W n log \<Longrightarrow> ledger_ok (add_mset n W) (Suc n) log"
  unfolding ledger_ok_def by (auto simp: less_Suc_eq not_in_iff intro: Suc_leD)

lemma ledger_settle:
  assumes "ledger_ok (add_mset c W) n log"
  shows "ledger_ok W n (log(c := log c @ [x]))"
proof -
  from assms have "count (add_mset c W) c \<le> 1" by (simp only: ledger_ok_def)
  then have "c \<notin># W" by (simp add: not_in_iff)
  moreover from assms have "c < n" "log c = []" by (auto simp: ledger_ok_def)
  moreover have "count W d \<le> 1" for d
  proof -
    from assms have "count (add_mset c W) d \<le> 1" by (simp only: ledger_ok_def)
    then show ?thesis by (simp split: if_splits)
  qed
  ultimately show ?thesis
    using assms unfolding ledger_ok_def by (simp only: fun_upd_apply) auto
qed

lemma ledger_settle_in:
  assumes "ledger_ok W n log" and "c \<in># W"
  shows "ledger_ok (W - {#c#}) n (log(c := log c @ [x]))"
  using assms ledger_settle[of c "W - {#c#}"] by simp

lemma ledger_length: "ledger_ok W n log \<Longrightarrow> length (log c) \<le> 1"
  unfolding ledger_ok_def
  by (cases "c < n"; cases "c \<in># W") auto

subsection \<open>What the store operations leave alone\<close>

lemma lookup_field_updates [simp]:
  "notify_of (a\<lparr>pendingGateway := x\<rparr>) = notify_of a"
  "notify_of (a\<lparr>deferredGatewayLoser := y\<rparr>) = notify_of a"
  "notify_of (a\<lparr>pendingExternal := z\<rparr>) = notify_of a"
  "session_of (a\<lparr>pendingGateway := x\<rparr>) = session_of a"
  "session_of (a\<lparr>deferredGatewayLoser := y\<rparr>) = session_of a"
  "session_of (a\<lparr>pendingExternal := z\<rparr>) = session_of a"
  "initiator_of (a\<lparr>pendingGateway := x\<rparr>) = initiator_of a"
  "initiator_of (a\<lparr>deferredGatewayLoser := y\<rparr>) = initiator_of a"
  "initiator_of (a\<lparr>pendingExternal := z\<rparr>) = initiator_of a"
  by (simp_all add: notify_of_def session_of_def initiator_of_def fun_eq_iff)

lemma lookup_send [simp]:
  "notify_of (send c x a) = notify_of a" "session_of (send c x a) = session_of a"
  "initiator_of (send c x a) = initiator_of a"
  by (simp_all add: notify_of_def session_of_def initiator_of_def send_def fun_eq_iff)

lemma lookup_cancelled [simp]:
  "notify_of (set_cancelled r a) = notify_of a" "session_of (set_cancelled r a) = session_of a"
  "initiator_of (set_cancelled r a) = initiator_of a"
  by (simp_all add: notify_of_def session_of_def initiator_of_def set_cancelled_def fun_eq_iff)

lemma lookup_set_notify [simp]:
  "notify_of (set_notify r c a) = (notify_of a)(r := c)" "session_of (set_notify r c a) = session_of a"
  by (simp_all add: notify_of_def session_of_def set_notify_def fun_eq_iff)

lemma lookup_alloc [simp]:
  "notify_of (alloc sid ini a) = (notify_of a)(next_request a := next_chan a)"
  "session_of (alloc sid ini a) = (session_of a)(next_request a := sid)"
  by (simp_all add: notify_of_def session_of_def alloc_def fun_eq_iff)

lemma store_frame [frame]:
  "pendingGateway (send c x a) = pendingGateway a"
  "deferredGatewayLoser (send c x a) = deferredGatewayLoser a"
  "pendingExternal (send c x a) = pendingExternal a"
  "next_chan (send c x a) = next_chan a" "next_request (send c x a) = next_request a"
  "results (send c x a) = (results a)(c := results a c @ [x])"
  "pendingGateway (set_cancelled r a) = pendingGateway a"
  "deferredGatewayLoser (set_cancelled r a) = deferredGatewayLoser a"
  "pendingExternal (set_cancelled r a) = pendingExternal a"
  "next_chan (set_cancelled r a) = next_chan a" "next_request (set_cancelled r a) = next_request a"
  "results (set_cancelled r a) = results a"
  "pendingGateway (set_notify r n a) = pendingGateway a"
  "deferredGatewayLoser (set_notify r n a) = deferredGatewayLoser a"
  "pendingExternal (set_notify r n a) = pendingExternal a"
  "next_chan (set_notify r n a) = next_chan a" "next_request (set_notify r n a) = next_request a"
  "results (set_notify r n a) = results a"
  "pendingGateway (alloc sid ini a) = pendingGateway a"
  "deferredGatewayLoser (alloc sid ini a) = deferredGatewayLoser a"
  "pendingExternal (alloc sid ini a) = pendingExternal a"
  "next_chan (alloc sid ini a) = Suc (next_chan a)"
  "next_request (alloc sid ini a) = Suc (next_request a)"
  "results (alloc sid ini a) = results a"
  by (simp_all add: send_def set_cancelled_def set_notify_def alloc_def)

lemma opt_list_simps [simp]: "opt_list None = []" "opt_list (Some x) = [x]"
  by (simp_all add: opt_list_def)

lemma find_bid_Some:
  "find_bid a sid rs = Some i \<Longrightarrow> i < length rs \<and> session_of a (rs ! i) = sid"
  by (induction rs arbitrary: i) (auto split: if_splits simp: nth_Cons split: nat.splits)

lemma find_bid_None: "find_bid a sid rs = None \<longleftrightarrow> sid \<notin> session_of a ` set rs"
  by (induction rs) auto

lemma find_bid_cong:
  "(\<And>r. r \<in> set rs \<Longrightarrow> session_of a r = session_of b r) \<Longrightarrow> find_bid a sid rs = find_bid b sid rs"
  by (induction rs) auto

text \<open>Removing or replacing the \<open>i\<close>th bid of a list, seen on multisets.\<close>

lemma mset_map_remove_nth:
  assumes "i < length xs"
  shows "mset (map f xs) = add_mset (f (xs ! i)) (mset (map f (take i xs @ drop (Suc i) xs)))"
  by (subst id_take_nth_drop[OF assms]) simp

lemma mset_map_update:
  "i < length xs \<Longrightarrow> mset (map f (xs[i := y])) =
     add_mset (f y) (mset (map f (take i xs @ drop (Suc i) xs)))"
  by (simp add: upd_conv_take_nth_drop)

subsection \<open>Every operation keeps the ledger\<close>

lemma waiters_split:
  "waiters a out = mset (map (notify_of a) (opt_list (pendingGateway a))) +
     mset (map (notify_of a) (opt_list (deferredGatewayLoser a))) +
     mset (map (notify_of a) (pendingExternal a)) + mset (map (notify_of a) out)"
  by (simp add: waiters_def held_def)

lemma cancel_old_frame [frame]:
  "pendingGateway (cancel_old x a) = pendingGateway a"
  "deferredGatewayLoser (cancel_old x a) = deferredGatewayLoser a"
  "pendingExternal (cancel_old x a) = pendingExternal a"
  "next_chan (cancel_old x a) = next_chan a" "next_request (cancel_old x a) = next_request a"
  "notify_of (cancel_old x a) = notify_of a" "session_of (cancel_old x a) = session_of a"
  "initiator_of (cancel_old x a) = initiator_of a"
  by (simp_all add: cancel_old_def frame split: option.splits)

lemma cancel_old_ledger:
  assumes "ledger_ok (mset (map (notify_of a) (opt_list x)) + W) n (results a)"
  shows "ledger_ok W n (results (cancel_old x a))"
  using assms ledger_settle[of _ W n "results a"]
  by (cases x) (simp_all add: cancel_old_def frame)

lemma arb_shapeD:
  assumes "arb_shape a out"
  shows "\<And>r. r \<in> set (held a @ out) \<Longrightarrow> r < next_request a"
    and "pendingGateway a = None \<or> deferredGatewayLoser a = None"
    and "\<And>r. pendingGateway a = Some r \<or> deferredGatewayLoser a = Some r \<Longrightarrow>
           session_of a r = gatewaySessionID"
    and "\<And>r. r \<in> set (pendingExternal a) \<Longrightarrow> session_of a r \<noteq> gatewaySessionID"
    and "distinct (map (session_of a) (pendingExternal a))"
  using assms by (auto simp: arb_shape_def)

lemma arb_shapeI:
  assumes "\<And>r. r \<in> set (held a @ out) \<Longrightarrow> r < next_request a"
    and "pendingGateway a = None \<or> deferredGatewayLoser a = None"
    and "\<And>r. pendingGateway a = Some r \<or> deferredGatewayLoser a = Some r \<Longrightarrow>
           session_of a r = gatewaySessionID"
    and "\<And>r. r \<in> set (pendingExternal a) \<Longrightarrow> session_of a r \<noteq> gatewaySessionID"
    and "distinct (map (session_of a) (pendingExternal a))"
  shows "arb_shape a out"
  using assms by (auto simp: arb_shape_def opt_list_def split: option.splits)

lemma arb_shape_shrink:
  assumes "arb_shape a out" and "session_of b = session_of a" and "next_request b = next_request a"
    and "pendingGateway b = None \<or> pendingGateway b = pendingGateway a"
    and "deferredGatewayLoser b = None \<or> deferredGatewayLoser b = deferredGatewayLoser a"
    and "set (pendingExternal b) \<subseteq> set (pendingExternal a)"
    and "distinct (map (session_of a) (pendingExternal b))" and "set out' \<subseteq> set (held a @ out)"
  shows "arb_shape b out'"
proof (rule arb_shapeI)
  have gw: "set (opt_list (pendingGateway b)) \<subseteq> set (opt_list (pendingGateway a))"
    using assms(4) by (elim disjE) simp_all
  have dl: "set (opt_list (deferredGatewayLoser b)) \<subseteq> set (opt_list (deferredGatewayLoser a))"
    using assms(5) by (elim disjE) simp_all
  have "set (held b @ out') \<subseteq> set (held a @ out)"
    using gw dl assms(6,8) unfolding held_def set_append by blast
  then show "r < next_request b" if "r \<in> set (held b @ out')" for r
    using that arb_shapeD(1)[OF assms(1)] unfolding assms(3) by (meson subsetD)
  show "pendingGateway b = None \<or> deferredGatewayLoser b = None"
    using arb_shapeD(2)[OF assms(1)] assms(4,5) by metis
  show "session_of b r = gatewaySessionID"
    if "pendingGateway b = Some r \<or> deferredGatewayLoser b = Some r" for r
    unfolding assms(2) using that assms(4,5)
    by (intro arb_shapeD(3)[OF assms(1)]) (metis option.distinct(1))
  show "session_of b r \<noteq> gatewaySessionID" if "r \<in> set (pendingExternal b)" for r
    unfolding assms(2) using that assms(6) by (intro arb_shapeD(4)[OF assms(1)]) blast
  show "distinct (map (session_of b) (pendingExternal b))"
    unfolding assms(2) by (rule assms(7))
qed

lemma distinct_map_remove_nth:
  assumes "distinct (map f xs)"
  shows "distinct (map f (take i xs @ drop (Suc i) xs))"
proof -
  have "distinct (take i (map f xs) @ drop (Suc i) (map f xs))"
    using assms set_take_disj_set_drop_if_distinct[of "map f xs" i "Suc i"] by simp
  then show ?thesis by (simp add: take_map drop_map)
qed

lemma set_remove_nth: "set (take i xs @ drop (Suc i) xs) \<subseteq> set xs"
  using set_take_subset[of i xs] set_drop_subset[of "Suc i" xs] by simp

lemmas arb_shape_distinct = arb_shapeD(5)

lemma cancelStart_shape:
  assumes S: "arb_shape a out"
  shows "arb_shape (fst (cancelStart sid a)) out"
proof (rule arb_shape_shrink[OF S])
  note D = arb_shape_distinct[OF S]
  show "set (pendingExternal (fst (cancelStart sid a))) \<subseteq> set (pendingExternal a)"
    by (auto simp: cancelStart_def Let_def frame split: option.splits
          dest: in_set_takeD in_set_dropD)
  show "distinct (map (session_of a) (pendingExternal (fst (cancelStart sid a))))"
    using D distinct_map_remove_nth[OF D]
    by (simp add: cancelStart_def Let_def frame split: option.splits)
qed (simp_all add: cancelStart_def Let_def frame split: option.splits)

lemma cancelStart_ledger:
  assumes L: "arb_ledger a out"
  shows "arb_ledger (fst (cancelStart sid a)) out"
proof (cases "sid = gatewaySessionID")
  case True
  with L show ?thesis
    by (auto simp: arb_ledger_def cancelStart_def waiters_split frame cancel_old_ledger)
next
  case False
  show ?thesis
  proof (cases "find_bid a sid (pendingExternal a)")
    case None
    with False L show ?thesis by (simp add: cancelStart_def)
  next
    case (Some i)
    then have i: "i < length (pendingExternal a)" by (simp add: find_bid_Some)
    have "ledger_ok (waiters a out) (next_chan a) (results a)"
      using L by (simp add: arb_ledger_def)
    then show ?thesis
      using False Some mset_map_remove_nth[OF i, of "notify_of a"]
      by (simp add: arb_ledger_def cancelStart_def waiters_split frame Let_def cancel_old_ledger)
  qed
qed

lemma cancelStart_inv: "arb_inv a out \<Longrightarrow> arb_inv (fst (cancelStart sid a)) out"
  by (simp add: arb_inv_def cancelStart_shape cancelStart_ledger)

lemma fail_one_frame [frame]:
  "pendingGateway (fail_one er r a) = pendingGateway a"
  "deferredGatewayLoser (fail_one er r a) = deferredGatewayLoser a"
  "pendingExternal (fail_one er r a) = pendingExternal a"
  "next_chan (fail_one er r a) = next_chan a" "next_request (fail_one er r a) = next_request a"
  "notify_of (fail_one er r a) = notify_of a" "session_of (fail_one er r a) = session_of a"
  by (simp_all add: fail_one_def frame)

lemma fail_one_ledger:
  "ledger_ok (add_mset (notify_of a r) W) n (results a) \<Longrightarrow> ledger_ok W n (results (fail_one er r a))"
  by (simp add: fail_one_def frame ledger_settle)

lemma fail_list_frame [frame]:
  "pendingGateway (fold (fail_one er) rs a) = pendingGateway a"
  "deferredGatewayLoser (fold (fail_one er) rs a) = deferredGatewayLoser a"
  "pendingExternal (fold (fail_one er) rs a) = pendingExternal a"
  "next_chan (fold (fail_one er) rs a) = next_chan a"
  "next_request (fold (fail_one er) rs a) = next_request a"
  "notify_of (fold (fail_one er) rs a) = notify_of a"
  "session_of (fold (fail_one er) rs a) = session_of a"
  by (induction rs arbitrary: a) (simp_all add: frame)

lemma fail_list_ledger:
  "ledger_ok (mset (map (notify_of a) rs) + W) n (results a) \<Longrightarrow>
     ledger_ok W n (results (fold (fail_one er) rs a))"
proof (induction rs arbitrary: a)
  case (Cons r rs)
  then have "ledger_ok (mset (map (notify_of (fail_one er r a)) rs) + W) n (results (fail_one er r a))"
    by (simp add: fail_one_ledger frame)
  from Cons.IH[OF this] show ?case by simp
qed simp

lemma failAllPending_inv:
  assumes "arb_inv a out"
  shows "arb_inv (failAllPending er a) out"
proof -
  have L: "ledger_ok (waiters a out) (next_chan a) (results a)" and S: "arb_shape a out"
    using assms by (simp_all add: arb_inv_def arb_ledger_def)
  let ?a1 = "case pendingGateway a of None \<Rightarrow> a | Some r \<Rightarrow> (fail_one er r a)\<lparr> pendingGateway := None \<rparr>"
  let ?a2 = "case deferredGatewayLoser ?a1 of None \<Rightarrow> ?a1
               | Some r \<Rightarrow> (fail_one er r ?a1)\<lparr> deferredGatewayLoser := None \<rparr>"
  have f1: "pendingGateway ?a1 = None" "deferredGatewayLoser ?a1 = deferredGatewayLoser a"
    "pendingExternal ?a1 = pendingExternal a" "notify_of ?a1 = notify_of a"
    "session_of ?a1 = session_of a" "next_chan ?a1 = next_chan a" "next_request ?a1 = next_request a"
    by (simp_all add: frame split: option.splits)
  have f2: "pendingGateway ?a2 = None" "deferredGatewayLoser ?a2 = None"
    "pendingExternal ?a2 = pendingExternal a" "notify_of ?a2 = notify_of a"
    "session_of ?a2 = session_of a" "next_chan ?a2 = next_chan a" "next_request ?a2 = next_request a"
    by (simp_all add: f1 frame split: option.splits)
  have "ledger_ok (mset (map (notify_of a) (opt_list (deferredGatewayLoser a))) +
      mset (map (notify_of a) (pendingExternal a)) + mset (map (notify_of a) out)) (next_chan a) (results ?a1)"
    using L by (cases "pendingGateway a") (simp_all add: waiters_split fail_one_ledger)
  then have "ledger_ok (mset (map (notify_of a) (pendingExternal a)) + mset (map (notify_of a) out))
      (next_chan a) (results ?a2)"
    using f1 by (cases "deferredGatewayLoser a") (simp_all add: fail_one_ledger)
  then have "ledger_ok (mset (map (notify_of a) out)) (next_chan a)
      (results (fold (fail_one er) (pendingExternal a) ?a2))"
    using fail_list_ledger[of ?a2 "pendingExternal a"] f2(4) by simp
  then have "arb_ledger (failAllPending er a) out"
    unfolding arb_ledger_def failAllPending_def Let_def using f2 by (simp add: waiters_split frame)
  moreover have "arb_shape (failAllPending er a) out"
    unfolding failAllPending_def Let_def
    by (rule arb_shape_shrink[OF S]) (simp_all add: frame f2)
  ultimately show ?thesis by (simp add: arb_inv_def)
qed

lemma expire_inv:
  assumes "arb_inv a out"
  shows "arb_inv (expireGatewayAdmission er ch a) out"
proof -
  have L: "arb_ledger a out" and S: "arb_shape a out" using assms by (simp_all add: arb_inv_def)
  have "arb_shape (expireGatewayAdmission er ch a) out"
    by (rule arb_shape_shrink[OF S])
       (use arb_shape_distinct[OF S] in
         \<open>simp_all add: expireGatewayAdmission_def Let_def frame split: option.splits\<close>)
  moreover have "pendingGateway a = None \<or> deferredGatewayLoser a = None"
    by (rule arb_shapeD(2)[OF S])
  with L have "arb_ledger (expireGatewayAdmission er ch a) out"
    by (auto simp: arb_ledger_def expireGatewayAdmission_def Let_def waiters_split frame
             intro!: fail_one_ledger split: option.splits)
  ultimately show ?thesis by (simp add: arb_inv_def)
qed

lemma shape_alloc_lookup:
  assumes "arb_shape a out" and "r \<in> set (held a @ out)"
  shows "notify_of (alloc sid ini a) r = notify_of a r" "session_of (alloc sid ini a) r = session_of a r"
proof -
  have "r < next_request a" by (rule arb_shapeD(1)[OF assms])
  then show "notify_of (alloc sid ini a) r = notify_of a r"
    "session_of (alloc sid ini a) r = session_of a r"
    by simp_all
qed

text \<open>After the allocation the new channel is open and held by nobody yet.\<close>

lemma alloc_ledger:
  assumes "arb_inv a out"
  shows "ledger_ok (add_mset (next_chan a) (waiters (alloc sid ini a) out)) (Suc (next_chan a))
           (results (alloc sid ini a))"
proof -
  have S: "arb_shape a out" and L: "ledger_ok (waiters a out) (next_chan a) (results a)"
    using assms by (simp_all add: arb_inv_def arb_ledger_def)
  have "held (alloc sid ini a) = held a" by (simp add: held_def frame)
  moreover have "map (notify_of (alloc sid ini a)) (held a @ out) = map (notify_of a) (held a @ out)"
    by (rule map_cong[OF refl]) (rule shape_alloc_lookup(1)[OF S])
  ultimately have "waiters (alloc sid ini a) out = waiters a out"
    unfolding waiters_def by (simp only:)
  with ledger_open[OF L] show ?thesis by (simp add: frame)
qed

lemma alloc_shape:
  assumes S: "arb_shape a out"
  shows "arb_shape (alloc sid ini a) out"
proof (rule arb_shapeI)
  note frame [simp]
  have held: "held (alloc sid ini a) = held a" by (simp add: held_def)
  have ses: "session_of (alloc sid ini a) r = session_of a r" if "r \<in> set (held a)" for r
    using shape_alloc_lookup(2)[OF S] that by simp
  show "r < next_request (alloc sid ini a)" if "r \<in> set (held (alloc sid ini a) @ out)" for r
    using that arb_shapeD(1)[OF S, of r] by (simp add: held)
  show "pendingGateway (alloc sid ini a) = None \<or> deferredGatewayLoser (alloc sid ini a) = None"
    using arb_shapeD(2)[OF S] by simp
  show "session_of (alloc sid ini a) r = gatewaySessionID"
    if "pendingGateway (alloc sid ini a) = Some r \<or> deferredGatewayLoser (alloc sid ini a) = Some r" for r
    using that arb_shapeD(3)[OF S, of r] ses[of r] by (auto simp: held_def)
  show "session_of (alloc sid ini a) r \<noteq> gatewaySessionID"
    if "r \<in> set (pendingExternal (alloc sid ini a))" for r
    using that arb_shapeD(4)[OF S, of r] ses[of r] by (simp add: held_def)
  have "map (session_of (alloc sid ini a)) (pendingExternal a) = map (session_of a) (pendingExternal a)"
    by (rule map_cong[OF refl]) (simp only: ses held_def set_append Un_iff simp_thms)
  then show "distinct (map (session_of (alloc sid ini a)) (pendingExternal (alloc sid ini a)))"
    using arb_shapeD(5)[OF S] by (simp only: store_frame)
qed

lemma ledger_distinct:
  assumes "ledger_ok (mset (map f xs)) n log"
  shows "distinct xs"
proof -
  have "\<forall>c. count (mset (map f xs)) c \<le> 1" using assms unfolding ledger_ok_def by blast
  then have "\<forall>c. count (mset (map f xs)) c = (if c \<in> set (map f xs) then 1 else 0)"
    by (metis One_nat_def count_eq_zero_iff le_SucE le_zero_eq not_in_iff set_mset_mset)
  then have "distinct (map f xs)" by (rule distinct_count_atmost_1[THEN iffD2])
  then show ?thesis by (simp add: distinct_map)
qed

lemma mset_map_fun_upd:
  assumes "distinct xs" and "x \<in> set xs"
  shows "mset (map (f(x := c)) xs) = add_mset c (mset (map f xs) - {#f x#})"
proof -
  from assms(2) obtain ys zs where xs: "xs = ys @ x # zs" by (meson split_list)
  with assms(1) have "x \<notin> set ys" "x \<notin> set zs" by auto
  then show ?thesis by (simp add: xs map_fun_upd)
qed

lemma fresh_not_held: "arb_shape a out \<Longrightarrow> next_request a \<notin> set (held a @ out)"
  using arb_shapeD(1) by blast

lemma requestStart_gateway_inv:
  assumes I: "arb_inv a out"
  shows "arb_inv (fst (requestStart gatewaySessionID ini a)) out"
proof -
  let ?a1 = "alloc gatewaySessionID ini a"
  let ?a2 = "cancel_old (pendingGateway ?a1) ?a1"
  let ?a3 = "cancel_old (deferredGatewayLoser ?a2) (?a2\<lparr> deferredGatewayLoser := None \<rparr>)"
  let ?b = "?a3\<lparr> pendingGateway := Some (next_request a) \<rparr>"
  let ?rest = "mset (map (notify_of ?a1) (pendingExternal a)) + mset (map (notify_of ?a1) out)"
  have S1: "arb_shape ?a1 out" using I by (simp add: arb_inv_def alloc_shape)
  have "ledger_ok (mset (map (notify_of ?a1) (opt_list (pendingGateway ?a1))) +
      (mset (map (notify_of ?a1) (opt_list (deferredGatewayLoser a))) +
       add_mset (next_chan a) ?rest)) (Suc (next_chan a)) (results ?a1)"
    using alloc_ledger[OF I] by (simp add: waiters_split frame ac_simps)
  from cancel_old_ledger[OF this]
  have "ledger_ok (mset (map (notify_of (?a2\<lparr> deferredGatewayLoser := None \<rparr>))
        (opt_list (deferredGatewayLoser ?a2))) + add_mset (next_chan a) ?rest)
      (Suc (next_chan a)) (results (?a2\<lparr> deferredGatewayLoser := None \<rparr>))"
    by (simp add: frame)
  from cancel_old_ledger[OF this]
  have "ledger_ok (waiters ?b out) (next_chan ?b) (results ?b)"
    by (simp add: waiters_split frame)
  moreover have "arb_shape ?b out"
  proof (rule arb_shapeI)
    show "r < next_request ?b" if "r \<in> set (held ?b @ out)" for r
      using that arb_shapeD(1)[OF S1, of r] by (auto simp: held_def frame)
    show "session_of ?b r \<noteq> gatewaySessionID" if "r \<in> set (pendingExternal ?b)" for r
      using that arb_shapeD(4)[OF S1, of r] by (simp add: frame)
    show "distinct (map (session_of ?b) (pendingExternal ?b))"
      using arb_shapeD(5)[OF S1] by (simp add: frame)
  qed (auto simp: frame)
  ultimately show ?thesis
    by (simp add: requestStart_def Let_def arb_inv_def arb_ledger_def)
qed

lemma alloc_distinct:
  assumes "arb_inv a out"
  shows "distinct (held (alloc sid ini a) @ out)"
proof -
  have "ledger_ok (waiters a out) (next_chan a) (results a)"
    using assms by (simp add: arb_inv_def arb_ledger_def)
  then have "distinct (held a @ out)"
    unfolding waiters_def by (rule ledger_distinct)
  then show ?thesis by (simp add: held_def frame)
qed

lemma requestStart_external_new_inv:
  assumes I: "arb_inv a out" and sid: "sid \<noteq> gatewaySessionID"
    and none: "find_bid (alloc sid ini a) sid (pendingExternal (alloc sid ini a)) = None"
  shows "arb_inv (fst (requestStart sid ini a)) out"
proof -
  let ?a1 = "alloc sid ini a"
  let ?b = "?a1\<lparr> pendingExternal := pendingExternal ?a1 @ [next_request a] \<rparr>"
  have S1: "arb_shape ?a1 out" using I by (simp add: arb_inv_def alloc_shape)
  have "ledger_ok (waiters ?b out) (next_chan ?b) (results ?b)"
    using alloc_ledger[OF I, of sid ini] by (simp add: waiters_split frame)
  moreover have "arb_shape ?b out"
  proof (rule arb_shapeI)
    show "r < next_request ?b" if "r \<in> set (held ?b @ out)" for r
      using that arb_shapeD(1)[OF S1, of r] by (auto simp: held_def frame)
    show "pendingGateway ?b = None \<or> deferredGatewayLoser ?b = None"
      using arb_shapeD(2)[OF S1] by simp
    show "session_of ?b r = gatewaySessionID"
      if "pendingGateway ?b = Some r \<or> deferredGatewayLoser ?b = Some r" for r
      using that arb_shapeD(3)[OF S1, of r] by simp
    show "session_of ?b r \<noteq> gatewaySessionID" if "r \<in> set (pendingExternal ?b)" for r
      using that arb_shapeD(4)[OF S1, of r] sid by (auto split: if_splits)
    show "distinct (map (session_of ?b) (pendingExternal ?b))"
      using arb_shapeD(5)[OF S1] none unfolding find_bid_None by auto
  qed
  ultimately show ?thesis
    using sid none by (simp add: requestStart_def Let_def arb_inv_def arb_ledger_def)
qed

lemma requestStart_external_rebid_inv:
  assumes I: "arb_inv a out" and sid: "sid \<noteq> gatewaySessionID"
    and bid: "find_bid (alloc sid ini a) sid (pendingExternal (alloc sid ini a)) = Some i"
  shows "arb_inv (fst (requestStart sid ini a)) out"
proof -
  let ?a1 = "alloc sid ini a"
  let ?old = "pendingExternal ?a1 ! i"
  let ?a2 = "send (notify_of ?a1 ?old) (failure True (initiator_of ?a1 ?old) None) ?a1"
  let ?same = "set_notify ?old (next_chan a) ?a2"
  let ?new = "(set_cancelled ?old ?a2)\<lparr> pendingExternal := (pendingExternal ?a2)[i := next_request a] \<rparr>"
  have S1: "arb_shape ?a1 out" using I by (simp add: arb_inv_def alloc_shape)
  have i: "i < length (pendingExternal ?a1)" and old: "session_of ?a1 ?old = sid"
    using find_bid_Some[OF bid] by simp_all
  then have mem: "?old \<in> set (held ?a1)" by (simp add: held_def)
  have inW: "notify_of ?a1 ?old \<in># waiters ?a1 out"
    unfolding waiters_def using mem by simp
  have "ledger_ok (add_mset (next_chan a) (waiters ?a1 out) - {#notify_of ?a1 ?old#})
      (Suc (next_chan a)) (results ?a2)"
    using ledger_settle_in[OF alloc_ledger[OF I, of sid ini], of "notify_of ?a1 ?old"] inW
    by (simp add: frame)
  moreover have W: "add_mset (next_chan a) (waiters ?a1 out) - {#notify_of ?a1 ?old#} =
      add_mset (next_chan a) (waiters ?a1 out - {#notify_of ?a1 ?old#})"
    using inW by simp
  ultimately have L: "ledger_ok (add_mset (next_chan a) (waiters ?a1 out - {#notify_of ?a1 ?old#}))
      (Suc (next_chan a)) (results ?a2)" by simp
  have "mset (map (notify_of ?same) (held ?a1 @ out)) =
      add_mset (next_chan a) (waiters ?a1 out - {#notify_of ?a1 ?old#})"
    using mset_map_fun_upd[OF alloc_distinct[OF I], of ?old sid ini "notify_of ?a1" "next_chan a"] mem
    by (simp add: waiters_def)
  then have same_L: "arb_ledger ?same out"
    using L by (simp add: arb_ledger_def waiters_def held_def frame)
  have same_S: "arb_shape ?same out"
    by (rule arb_shape_shrink[OF S1]) (use arb_shapeD(5)[OF S1] in \<open>simp_all add: frame\<close>)
  have "waiters ?new out = add_mset (next_chan a) (waiters ?a1 out - {#notify_of ?a1 ?old#})"
    using mset_map_remove_nth[OF i, of "notify_of ?a1"]
      mset_map_update[OF i, of "notify_of ?a1" "next_request a"]
    by (simp add: waiters_split frame)
  then have new_L: "arb_ledger ?new out"
    using L by (simp add: arb_ledger_def frame)
  have upd: "set ((pendingExternal ?a1)[i := next_request a]) \<subseteq> insert (next_request a) (set (pendingExternal ?a1))"
    by (rule set_update_subset_insert)
  have "map (session_of ?a1) ((pendingExternal ?a1)[i := next_request a]) =
      (map (session_of ?a1) (pendingExternal ?a1))[i := session_of ?a1 ?old]"
    using old by (simp add: map_update)
  then have ses: "map (session_of ?a1) ((pendingExternal ?a1)[i := next_request a]) =
      map (session_of ?a1) (pendingExternal ?a1)"
    using i by (metis length_map list_update_id nth_map)
  have new_S: "arb_shape ?new out"
  proof (rule arb_shapeI)
    show "r < next_request ?new" if "r \<in> set (held ?new @ out)" for r
    proof (cases "r = next_request a")
      case False
      with that upd have "r \<in> set (held ?a1 @ out)" by (auto simp: held_def frame)
      then show ?thesis using arb_shapeD(1)[OF S1] by (simp add: frame)
    qed (simp add: frame)
    show "pendingGateway ?new = None \<or> deferredGatewayLoser ?new = None"
      using arb_shapeD(2)[OF S1] by (simp add: frame)
    show "session_of ?new r = gatewaySessionID"
      if "pendingGateway ?new = Some r \<or> deferredGatewayLoser ?new = Some r" for r
      using that arb_shapeD(3)[OF S1, of r] by (simp add: frame)
    show "session_of ?new r \<noteq> gatewaySessionID" if "r \<in> set (pendingExternal ?new)" for r
      using that arb_shapeD(4)[OF S1, of r] upd sid by (auto simp: frame split: if_splits)
    show "distinct (map (session_of ?new) (pendingExternal ?new))"
      using ses arb_shapeD(5)[OF S1] by (simp add: frame del: lookup_alloc)
  qed
  have "fst (requestStart sid ini a) = (if initiator_of ?a2 ?old = ini then ?same else ?new)"
    using sid bid by (simp add: requestStart_def Let_def del: lookup_alloc lookup_send)
  then show ?thesis
    using same_L same_S new_L new_S unfolding arb_inv_def by presburger
qed

lemma requestStart_inv:
  assumes "arb_inv a out"
  shows "arb_inv (fst (requestStart sid ini a)) out"
proof (cases "sid = gatewaySessionID")
  case True
  with requestStart_gateway_inv[OF assms] show ?thesis by simp
next
  case False
  with requestStart_external_new_inv[OF assms] requestStart_external_rebid_inv[OF assms]
  show ?thesis by (cases "find_bid (alloc sid ini a) sid (pendingExternal (alloc sid ini a))") simp_all
qed

subsection \<open>Selection\<close>

text \<open>The low and the high nibble determine the address, so the keys order bids totally.\<close>

lemma nibbles_inject:
  "(x :: byte) AND 15 = y AND 15 \<Longrightarrow> drop_bit 4 x = drop_bit 4 y \<Longrightarrow> x = y"
proof (rule bit_eqI)
  fix n
  assume lo: "x AND 15 = y AND 15" and hi: "drop_bit 4 x = drop_bit 4 y"
  have mask: "(15 :: byte) = mask 4" by (simp add: mask_eq_exp_minus_1)
  show "bit x n \<longleftrightarrow> bit y n"
  proof (cases "n < 4")
    case True
    have "bit (x AND 15) n \<longleftrightarrow> bit (y AND 15) n" using lo by simp
    with True show ?thesis by (simp add: mask bit_and_iff bit_mask_iff)
  next
    case False
    have "bit (drop_bit 4 x) (n - 4) \<longleftrightarrow> bit (drop_bit 4 y) (n - 4)" using hi by simp
    with False show ?thesis by (simp add: bit_drop_bit_eq)
  qed
qed

lemma higherPriority_key: "higherPriority r q \<longleftrightarrow> bid_key r < bid_key q"
  using nibbles_inject[of "sr_initiator r" "sr_initiator q"]
  by (auto simp: higherPriority_def bid_key_def less_prod_def')

lemma better_None: "better a bids r None = (if eligible a bids r then Some r else None)"
  by (simp add: better_def)

lemma better_Some: "better a bids r (Some w) = Some r \<or> better a bids r (Some w) = Some w"
  by (simp add: better_def)

lemma fold_better_not_None: "fold (better a bids) qs (Some w) \<noteq> None"
proof (induction qs arbitrary: w)
  case (Cons q qs)
  from better_Some[of a bids q w] show ?case using Cons.IH by auto
qed simp

lemma fold_better_None:
  "fold (better a bids) rs None = None \<longleftrightarrow> (\<forall>r \<in> set rs. \<not> eligible a bids r)"
proof (induction rs)
  case (Cons r rs)
  then show ?case
    using fold_better_not_None[of a bids rs r] by (simp add: better_None)
qed simp

lemma fold_better_Some:
  assumes "fold (better a bids) rs start = Some w"
  shows "(start = Some w \<or> w \<in> set rs \<and> eligible a bids w) \<and>
         (\<forall>s. start = Some s \<longrightarrow> bid_key (requests a w) \<le> bid_key (requests a s)) \<and>
         (\<forall>r \<in> set rs. eligible a bids r \<longrightarrow> bid_key (requests a w) \<le> bid_key (requests a r))"
  using assms
proof (induction rs arbitrary: start)
  case (Cons r rs)
  have IH: "fold (better a bids) rs (better a bids r start) = Some w"
    using Cons.prems by simp
  note H = Cons.IH[OF IH]
  show ?case
  proof (cases "better a bids r start = Some r")
    case True
    with H have le: "bid_key (requests a w) \<le> bid_key (requests a r)" by simp
    moreover have "bid_key (requests a r) \<le> bid_key (requests a s)" if "start = Some s" for s
      using True that by (auto simp: better_def higherPriority_key split: if_splits)
    ultimately show ?thesis
      using H True by (auto simp: better_def split: if_splits option.splits intro: order_trans)
  next
    case False
    then have start: "better a bids r start = start" by (auto simp: better_def split: if_splits)
    have "bid_key (requests a w) \<le> bid_key (requests a r)" if "eligible a bids r"
    proof (cases start)
      case None
      with False that show ?thesis by (simp add: better_def)
    next
      case (Some s)
      with False that have "bid_key (requests a s) \<le> bid_key (requests a r)"
        by (auto simp: better_def higherPriority_key split: if_splits)
      with H start Some show ?thesis by (auto intro: order_trans)
    qed
    with H start show ?thesis by auto
  qed
qed simp

text \<open>
  What a selection that finds a bidder returns: the winner is an eligible bid with the least
  key, the losers are the other eligible bids in order, the others stay pending.
\<close>

lemma selectBidsAtSYN_Some:
  assumes "selectBidsAtSYN idle bids a = (b, Some w, losers)"
  shows "\<not> hasOwner a \<and> idle"
    and "w \<in> set (gateway_bid a @ pendingExternal a)" and "eligible a bids w"
    and "\<And>r. r \<in> set (gateway_bid a @ pendingExternal a) \<Longrightarrow> eligible a bids r \<Longrightarrow>
           bid_key (requests a w) \<le> bid_key (requests a r)"
    and "losers = lose a bids w (gateway_bid a @ pendingExternal a)"
    and "b = a\<lparr> deferredGatewayLoser :=
                 fold (\<lambda>r d. if session_of a r = gatewaySessionID then Some r else d) losers
                   (deferredGatewayLoser a),
               pendingGateway := (case pendingGateway a of
                 Some r \<Rightarrow> if eligible a bids r then None else Some r | None \<Rightarrow> None),
               pendingExternal := filter (\<lambda>r. \<not> eligible a bids r) (pendingExternal a) \<rparr>"
proof -
  show idle: "\<not> hasOwner a \<and> idle"
    using assms by (auto simp: selectBidsAtSYN_def split: if_splits)
  let ?first = "case pendingGateway a of Some r \<Rightarrow> if eligible a bids r then Some r else None | None \<Rightarrow> None"
  have win: "fold (better a bids) (pendingExternal a) ?first = Some w"
    using assms idle unfolding selectBidsAtSYN_def Let_def by (auto split: option.splits)
  show "losers = lose a bids w (gateway_bid a @ pendingExternal a)"
    and "b = a\<lparr> deferredGatewayLoser :=
                 fold (\<lambda>r d. if session_of a r = gatewaySessionID then Some r else d) losers
                   (deferredGatewayLoser a),
               pendingGateway := (case pendingGateway a of
                 Some r \<Rightarrow> if eligible a bids r then None else Some r | None \<Rightarrow> None),
               pendingExternal := filter (\<lambda>r. \<not> eligible a bids r) (pendingExternal a) \<rparr>"
    using assms idle win unfolding selectBidsAtSYN_def Let_def by auto
  note best = fold_better_Some[OF win]
  have "?first = Some w \<Longrightarrow> w \<in> set (gateway_bid a) \<and> eligible a bids w"
    by (auto simp: gateway_bid_def split: option.splits if_splits)
  with best show "w \<in> set (gateway_bid a @ pendingExternal a)" and "eligible a bids w" by auto
  show "bid_key (requests a w) \<le> bid_key (requests a r)"
    if "r \<in> set (gateway_bid a @ pendingExternal a)" and "eligible a bids r" for r
    using best that by (auto simp: gateway_bid_def split: option.splits if_splits)
qed

lemma selectBidsAtSYN_None:
  assumes "selectBidsAtSYN idle bids a = (b, None, losers)"
  shows "b = a \<and> losers = []"
  using assms unfolding selectBidsAtSYN_def Let_def by (auto split: if_splits option.splits)

lemma fold_deferred_external:
  "(\<And>r. r \<in> set rs \<Longrightarrow> session_of a r \<noteq> gatewaySessionID) \<Longrightarrow>
     fold (\<lambda>r d. if session_of a r = gatewaySessionID then Some r else d) rs d = d"
  by (induction rs) auto

lemma mset_select:
  "distinct xs \<Longrightarrow> mset xs = mset (filter (\<lambda>r. \<not> E r) xs) + mset (filter (\<lambda>r. E r \<and> r \<noteq> w) xs) +
     (if w \<in> set xs \<and> E w then {#w#} else {#})"
  by (induction xs) auto

text \<open>A selection moves waiters between holders; it neither loses nor duplicates one.\<close>

lemma select_moves:
  assumes I: "arb_inv a out" and sel: "selectBidsAtSYN idle bids a = (b, Some w, losers)"
  shows "mset (held b @ out @ w # filter (\<lambda>r. session_of b r \<noteq> gatewaySessionID) losers) =
         mset (held a @ out)"
proof -
  have S: "arb_shape a out" using I by (simp add: arb_inv_def)
  note sels = selectBidsAtSYN_Some[OF sel]
  have "distinct (held a @ out)"
    using I by (auto simp only: arb_inv_def arb_ledger_def waiters_def intro: ledger_distinct)
  then have D: "distinct (pendingExternal a)" by (simp add: held_def)
  let ?ext = "lose a bids w (pendingExternal a)"
  have ext: "session_of a r \<noteq> gatewaySessionID" if "r \<in> set (pendingExternal a)" for r
    by (rule arb_shapeD(4)[OF S that])
  have ext_keep: "filter (\<lambda>r. session_of a r \<noteq> gatewaySessionID) ?ext = ?ext"
    unfolding lose_def filter_filter by (rule filter_cong) (use ext in auto)
  have ext_fold: "fold (\<lambda>r d. if session_of a r = gatewaySessionID then Some r else d) ?ext d = d" for d
    by (rule fold_deferred_external) (use ext in \<open>simp add: lose_def\<close>)
  note split = mset_select[OF D, of "eligible a bids" w]
  have sess: "session_of b = session_of a" unfolding sels(6) by (simp add: session_of_def fun_eq_iff)
  show ?thesis
  proof (cases "pendingGateway a")
    case None
    with sels(2,3) split show ?thesis
      unfolding sess unfolding sels(5,6)
      by (simp add: held_def gateway_bid_def ext_fold ext_keep) (simp add: lose_def)
  next
    case (Some g)
    have g: "session_of a g = gatewaySessionID" using Some arb_shapeD(3)[OF S] by blast
    then have gext: "g \<notin> set (pendingExternal a)" using ext by blast
    have df: "deferredGatewayLoser a = None" using Some arb_shapeD(2)[OF S] by simp
    have lg: "lose a bids w (g # pendingExternal a) =
        (if eligible a bids g \<and> g \<noteq> w then g # ?ext else ?ext)"
      by (simp add: lose_def)
    show ?thesis
    proof (cases "eligible a bids g \<and> g \<noteq> w")
      case True
      with Some sels(2,3) split gext g df show ?thesis
        unfolding sess unfolding sels(5,6)
        by (simp add: held_def gateway_bid_def lg ext_fold ext_keep) (simp add: lose_def)
    next
      case False
      show ?thesis
      proof (cases "g = w")
        case True
        with Some sels(3) split gext df show ?thesis
          unfolding sess unfolding sels(5,6) True
          by (simp add: held_def gateway_bid_def lg[unfolded True] ext_fold ext_keep)
             (simp add: lose_def)
      next
        case g: False
        with False Some sels(2,3) split df show ?thesis
          unfolding sess unfolding sels(5,6)
          by (simp add: held_def gateway_bid_def lg ext_fold ext_keep) (simp add: lose_def)
      qed
    qed
  qed
qed

lemma select_inv:
  assumes I: "arb_inv a out" and sel: "selectBidsAtSYN idle bids a = (b, Some w, losers)"
  shows "arb_inv b (out @ w # filter (\<lambda>r. session_of b r \<noteq> gatewaySessionID) losers)"
    (is "arb_inv b ?out")
proof -
  have S: "arb_shape a out" and L: "ledger_ok (waiters a out) (next_chan a) (results a)"
    using I by (simp_all add: arb_inv_def arb_ledger_def)
  note b = selectBidsAtSYN_Some(6)[OF sel]
  note moves = select_moves[OF I sel]
  have same: "notify_of b = notify_of a" "session_of b = session_of a" "results b = results a"
    "next_chan b = next_chan a" "next_request b = next_request a"
    unfolding b by (simp_all add: notify_of_def session_of_def fun_eq_iff)
  have "waiters b ?out = waiters a out"
    using arg_cong[OF moves, of "image_mset (notify_of a)"] by (simp add: waiters_def same)
  then have "arb_ledger b ?out" using L by (simp add: arb_ledger_def same)
  moreover have "arb_shape b ?out"
  proof (rule arb_shapeI)
    have sets: "set (held b @ ?out) = set (held a @ out)"
      using mset_eq_setD[OF moves] by simp
    then show "r < next_request b" if "r \<in> set (held b @ ?out)" for r
      using that arb_shapeD(1)[OF S] same by metis
    have gw: "set (opt_list (pendingGateway b)) \<subseteq> set (opt_list (pendingGateway a))"
      unfolding b by (auto split: option.splits)
    have ext: "set (pendingExternal b) \<subseteq> set (pendingExternal a)" unfolding b by auto
    show "session_of b r \<noteq> gatewaySessionID" if "r \<in> set (pendingExternal b)" for r
      using that ext arb_shapeD(4)[OF S] same by auto
    show "distinct (map (session_of b) (pendingExternal b))"
      using arb_shapeD(5)[OF S] unfolding same unfolding b by (simp add: distinct_map_filter)
    have dl: "deferredGatewayLoser b = deferredGatewayLoser a \<or>
        (\<exists>g. pendingGateway a = Some g \<and> pendingGateway b = None \<and> deferredGatewayLoser b = Some g)"
    proof -
      let ?f = "\<lambda>r d. if session_of a r = gatewaySessionID then Some r else d"
      have ef: "fold ?f (lose a bids w (pendingExternal a)) d = d" for d
        by (rule fold_deferred_external) (use arb_shapeD(4)[OF S] in \<open>simp add: lose_def\<close>)
      show ?thesis
      proof (cases "pendingGateway a")
        case None
        then show ?thesis
          unfolding b selectBidsAtSYN_Some(5)[OF sel] by (simp add: gateway_bid_def ef)
      next
        case (Some g)
        then show ?thesis
          unfolding b selectBidsAtSYN_Some(5)[OF sel]
          using ef by (simp add: gateway_bid_def lose_def)
      qed
    qed
    show "pendingGateway b = None \<or> deferredGatewayLoser b = None"
      using dl arb_shapeD(2)[OF S] gw by (cases "pendingGateway a"; cases "pendingGateway b") auto
    show "session_of b r = gatewaySessionID"
      if "pendingGateway b = Some r \<or> deferredGatewayLoser b = Some r" for r
      using that dl gw arb_shapeD(3)[OF S, of r] unfolding same
      by (cases "pendingGateway a"; cases "pendingGateway b") auto
  qed
  ultimately show ?thesis by (simp add: arb_inv_def)
qed

lemma settle_inv:
  assumes I: "arb_inv a out" and r: "r \<in> set out"
  shows "arb_inv (send (notify_of a r) x a) (remove1 r out)"
proof -
  have S: "arb_shape a out" using I by (simp add: arb_inv_def)
  have "waiters a out = add_mset (notify_of a r) (waiters a (remove1 r out))"
    using r by (simp add: waiters_def) (metis image_mset_add_mset insert_DiffM set_mset_mset)
  then have "arb_ledger (send (notify_of a r) x a) (remove1 r out)"
    using I ledger_settle[of "notify_of a r" "waiters a (remove1 r out)"]
    by (simp add: arb_inv_def arb_ledger_def waiters_split frame)
  moreover have "arb_shape (send (notify_of a r) x a) (remove1 r out)"
    by (rule arb_shape_shrink[OF S])
       (use arb_shapeD(5)[OF S] set_remove1_subset[of r out] in \<open>auto simp: frame\<close>)
  ultimately show ?thesis by (simp add: arb_inv_def)
qed

lemma settle_gateway_inv:
  assumes I: "arb_inv a out"
  shows "arb_inv (fst (arb_step (a, out) (SettleGateway r x))) out"
proof (cases "deferredGatewayLoser a = Some r")
  case True
  have S: "arb_shape a out" and L: "ledger_ok (waiters a out) (next_chan a) (results a)"
    using I by (simp_all add: arb_inv_def arb_ledger_def)
  let ?b = "a\<lparr> deferredGatewayLoser := None \<rparr>"
  have "arb_shape (send (notify_of ?b r) x ?b) out"
    by (rule arb_shape_shrink[OF S]) (use arb_shapeD(5)[OF S] in \<open>simp_all add: frame\<close>)
  moreover have "arb_ledger (send (notify_of ?b r) x ?b) out"
    using L True by (simp add: arb_ledger_def waiters_split frame ledger_settle)
  ultimately show ?thesis
    using True by (simp add: takeDeferredGatewayLoser_def arb_inv_def)
next
  case False
  with I show ?thesis by (simp add: takeDeferredGatewayLoser_def)
qed

text \<open>The ownership operations do not touch bids or channels.\<close>

lemma ownership_inv:
  "arb_inv a out \<Longrightarrow> arb_inv (confirmOwnership sid ini a) out"
  "arb_inv a out \<Longrightarrow> arb_inv (releaseOwnership sid a) out"
  "arb_inv a out \<Longrightarrow> arb_inv (forceRelease a) out"
  "arb_inv a out \<Longrightarrow> arb_inv (fenceLifecycle a) out"
  by (simp_all add: arb_inv_def arb_ledger_def arb_shape_def waiters_def held_def
        notify_of_def[abs_def] session_of_def[abs_def] confirmOwnership_def releaseOwnership_def
        forceRelease_def fenceLifecycle_def)

lemma set_cancelled_inv: "arb_inv a out \<Longrightarrow> arb_inv (set_cancelled r a) out"
  by (simp add: arb_inv_def arb_ledger_def arb_shape_def waiters_def held_def frame)

lemma arb_step_inv:
  assumes "arb_inv a out"
  shows "arb_inv (fst (arb_step (a, out) op)) (snd (arb_step (a, out) op))"
proof (cases op)
  case (SelectBids idle bids)
  obtain b win losers where sel: "selectBidsAtSYN idle bids a = (b, win, losers)"
    by (metis prod_cases3)
  show ?thesis
  proof (cases win)
    case None
    with sel selectBidsAtSYN_None[of idle bids a b losers] assms SelectBids show ?thesis by simp
  next
    case (Some w)
    with sel select_inv[OF assms] SelectBids show ?thesis by simp
  qed
next
  case (SettleGateway r x)
  have "snd (arb_step (a, out) op) = out" by (simp add: SettleGateway split: prod.splits)
  with settle_gateway_inv[OF assms, of r x] SettleGateway show ?thesis by simp
qed (use assms in \<open>simp_all add: requestStart_inv cancelStart_inv removeSession_def ownership_inv
       settle_inv expire_inv failAllPending_inv markInFlightCancelled_def set_cancelled_inv\<close>)

interpretation arb_calls: kept_invariant arb_step "\<lambda>s. arb_inv (fst s) (snd s)"
proof unfold_locales
  show "arb_inv (fst s) (snd s) \<Longrightarrow> arb_inv (fst (arb_step s op)) (snd (arb_step s op))" for s op
    using arb_step_inv[of "fst s" "snd s" op] by simp
qed

lemma newArbitrator_inv: "arb_inv newArbitrator []"
  by (simp add: arb_inv_def arb_ledger_def arb_shape_def ledger_ok_def waiters_def held_def
        newArbitrator_def)

subsection \<open>Ownership periods\<close>

lemma owner_view_store [simp]:
  "owner_view (send c x a) = owner_view a" "owner_view (set_cancelled r a) = owner_view a"
  "owner_view (set_notify r c a) = owner_view a" "owner_view (alloc sid ini a) = owner_view a"
  "owner_view (a\<lparr>pendingGateway := x1\<rparr>) = owner_view a"
  "owner_view (a\<lparr>deferredGatewayLoser := x2\<rparr>) = owner_view a"
  "owner_view (a\<lparr>pendingExternal := x3\<rparr>) = owner_view a"
  "owner_view (cancel_old y a) = owner_view a" "owner_view (fail_one er r a) = owner_view a"
  by (simp_all add: owner_view_def send_def set_cancelled_def set_notify_def alloc_def
        cancel_old_def fail_one_def split: option.splits)

lemma epoch_store [simp]:
  "lifecycleEpoch (send c x a) = lifecycleEpoch a"
  "lifecycleEpoch (set_cancelled r a) = lifecycleEpoch a"
  "lifecycleEpoch (set_notify r c a) = lifecycleEpoch a"
  "lifecycleEpoch (alloc sid ini a) = lifecycleEpoch a"
  "lifecycleEpoch (cancel_old y a) = lifecycleEpoch a"
  "lifecycleEpoch (fail_one er r a) = lifecycleEpoch a"
  by (simp_all add: send_def set_cancelled_def set_notify_def alloc_def
        cancel_old_def fail_one_def split: option.splits)

lemma fail_list_views [simp]:
  "owner_view (fold (fail_one er) rs a) = owner_view a"
  "lifecycleEpoch (fold (fail_one er) rs a) = lifecycleEpoch a"
  by (induction rs arbitrary: a) simp_all

lemma bid_ops_views [simp]:
  "owner_view (fst (requestStart sid ini a)) = owner_view a"
  "lifecycleEpoch (fst (requestStart sid ini a)) = lifecycleEpoch a"
  "owner_view (fst (cancelStart sid a)) = owner_view a"
  "lifecycleEpoch (fst (cancelStart sid a)) = lifecycleEpoch a"
  "owner_view (fst (selectBidsAtSYN idle bids a)) = owner_view a"
  "lifecycleEpoch (fst (selectBidsAtSYN idle bids a)) = lifecycleEpoch a"
  "owner_view (expireGatewayAdmission er ch a) = owner_view a"
  "lifecycleEpoch (expireGatewayAdmission er ch a) = lifecycleEpoch a"
  "owner_view (failAllPending er a) = owner_view a"
  "lifecycleEpoch (failAllPending er a) = lifecycleEpoch a"
  "owner_view (fst (takeDeferredGatewayLoser q a)) = owner_view a"
  "lifecycleEpoch (fst (takeDeferredGatewayLoser q a)) = lifecycleEpoch a"
  by (simp_all add: requestStart_def cancelStart_def selectBidsAtSYN_def expireGatewayAdmission_def
        failAllPending_def takeDeferredGatewayLoser_def Let_def split: option.splits)

lemma removeSession_views [simp]:
  "owner_view (removeSession sid a) = owner_view (releaseOwnership sid a)"
  "lifecycleEpoch (removeSession sid a) = lifecycleEpoch a"
proof -
  have "owner_view (fst (cancelStart sid a)) = owner_view a" by simp
  then show "owner_view (removeSession sid a) = owner_view (releaseOwnership sid a)"
    by (simp add: removeSession_def releaseOwnership_def owner_view_def)
  show "lifecycleEpoch (removeSession sid a) = lifecycleEpoch a"
    by (simp add: removeSession_def releaseOwnership_def)
qed

lemma step_views:
  "lifecycleEpoch (fst (arb_step s op)) = lifecycleEpoch (fst s) + (if op = Fence then 1 else 0)"
  "ownershipGen (fst (arb_step s op)) = ownershipGen (fst s) + of_nat (op_transitions (fst s) op)"
  "op_transitions (fst s) op = 0 \<Longrightarrow> owner_view (fst (arb_step s op)) = owner_view (fst s)"
proof -
  obtain a out where s: "s = (a, out)" by (cases s)
  show "lifecycleEpoch (fst (arb_step s op)) = lifecycleEpoch (fst s) + (if op = Fence then 1 else 0)"
    by (cases op) (simp_all add: s case_prod_beta Let_def confirmOwnership_def releaseOwnership_def
          forceRelease_def fenceLifecycle_def markInFlightCancelled_def)
  have view: "owner_view (fst (arb_step s op)) =
      (if op_transitions a op = 0 then owner_view a else owner_view (fst (arb_step s op)))"
    by (cases op) (simp_all add: s case_prod_beta Let_def releaseOwnership_def fenceLifecycle_def
          markInFlightCancelled_def owner_view_def[of "a\<lparr>lifecycleEpoch := _\<rparr>"] owner_view_def[of a])
  then show "op_transitions (fst s) op = 0 \<Longrightarrow> owner_view (fst (arb_step s op)) = owner_view (fst s)"
    by (simp add: s)
  show "ownershipGen (fst (arb_step s op)) = ownershipGen (fst s) + of_nat (op_transitions (fst s) op)"
  proof (cases "op_transitions a op = 0")
    case True
    with view show ?thesis by (simp add: s owner_view_def)
  next
    case False
    then show ?thesis
      using removeSession_views(1)[of "case op of RemoveSession sid \<Rightarrow> sid | _ \<Rightarrow> 0" a]
      by (cases op) (auto simp: s confirmOwnership_def releaseOwnership_def forceRelease_def
            owner_view_def split: if_splits)
  qed
qed

lemma run_views:
  "lifecycleEpoch (fst (foldl arb_step s ops)) = lifecycleEpoch (fst s) + of_nat (fences ops)"
  "ownershipGen (fst (foldl arb_step s ops)) = ownershipGen (fst s) + of_nat (transitions s ops)"
  "transitions s ops = 0 \<Longrightarrow> owner_view (fst (foldl arb_step s ops)) = owner_view (fst s)"
  by (induction ops arbitrary: s) (simp_all add: fences_def step_views)

lemma of_nat_u64_eq_0: "n < 2 ^ 64 \<Longrightarrow> (of_nat n :: uint64) = 0 \<longleftrightarrow> n = 0"
  by (auto simp: word_of_nat_eq_0_iff dest: dvd_imp_le)

lemma snapshot_below:
  assumes S: "arb_shape a out" and L: "arb_ledger a out"
  shows "snapshotBids a r = Some c \<Longrightarrow> c < next_chan a"
proof -
  have below: "notify_of a q < next_chan a" if "q \<in> set (held a)" for q
  proof -
    have "notify_of a q \<in># waiters a out" using that by (simp add: waiters_def)
    with L show ?thesis unfolding arb_ledger_def ledger_ok_def by blast
  qed
  have "\<forall>r c. fold (\<lambda>r m. m(r \<mapsto> notify_of a r)) rs m r = Some c \<longrightarrow> c < next_chan a"
    if "\<And>r c. m r = Some c \<Longrightarrow> c < next_chan a" and "set rs \<subseteq> set (held a)" for rs m
    using that
  proof (induction rs arbitrary: m)
    case (Cons q rs)
    have "\<forall>r c. fold (\<lambda>r m. m(r \<mapsto> notify_of a r)) rs (m(q \<mapsto> notify_of a q)) r = Some c \<longrightarrow>
        c < next_chan a"
      by (rule Cons.IH) (use Cons.prems below[of q] in \<open>auto split: if_splits\<close>)
    then show ?case by (simp only: fold_Cons o_apply)
  qed simp
  moreover have "c < next_chan a"
    if "(case pendingGateway a of None \<Rightarrow> Map.empty | Some r \<Rightarrow> [r \<mapsto> notify_of a r]) r = Some c" for r c
    using that below by (auto simp: held_def split: option.splits if_splits)
  moreover have "set (pendingExternal a) \<subseteq> set (held a)" by (auto simp: held_def)
  ultimately show "snapshotBids a r = Some c \<Longrightarrow> c < next_chan a"
    unfolding snapshotBids_def Let_def by blast
qed

section \<open>Claims\<close>

text \<open>
  C3. Exactly one result per waiter. In every state the arbitrator reaches from its
  constructor, whatever the sessions, timers and lifecycle paths do, a channel handed out by
  \<^verbatim>\<open>requestStart\<close> has got exactly one result, or none and then exactly one holder (a pending
  bid, the deferred gateway loser, or a request selected and not answered yet) still owes it.
  No channel ever gets two, so no send blocks with the mutex held, and no waiter is lost.
\<close>

theorem arb_exactly_one_result:
  "let (a, out) = foldl arb_step (newArbitrator, []) ops in
     length (results a ch) = (if ch < next_chan a \<and> ch \<notin># waiters a out then 1 else 0) \<and>
     count (waiters a out) ch \<le> 1"
proof -
  obtain a out where run: "foldl arb_step (newArbitrator, []) ops = (a, out)" by (metis surj_pair)
  have "arb_inv a out"
    using arb_calls.run_keeps[of "(newArbitrator, [])" ops] newArbitrator_inv by (simp add: run)
  then have L: "ledger_ok (waiters a out) (next_chan a) (results a)"
    by (simp add: arb_inv_def arb_ledger_def)
  then show ?thesis unfolding run by (auto simp: ledger_ok_def not_less)
qed

text \<open>
  The priority is a total order on bids: low nibble of the initiator address first, then
  the high nibble, then the session. So no two bids of different sessions tie, and the test the
  code writes out is the order of the keys.
\<close>

theorem arb_priority_is_key_order: "higherPriority r q \<longleftrightarrow> bid_key r < bid_key q"
  by (rule higherPriority_key)

text \<open>
  C34. A selection at an idle SYN grants the best eligible bid: nobody eligible has a higher
  priority than the winner, the losers are exactly the other eligible bids, nothing eligible
  stays pending, and a bid outside the snapshot keeps its place.
\<close>

theorem arb_selects_best_bid:
  assumes "selectBidsAtSYN busIdle bids a = (b, Some w, losers)"
  shows "w \<in> set (gateway_bid a @ pendingExternal a) \<and> eligible a bids w \<and>
         (\<forall>r \<in> set (gateway_bid a @ pendingExternal a).
            eligible a bids r \<longrightarrow> \<not> higherPriority (requests a r) (requests a w)) \<and>
         losers = filter (\<lambda>r. eligible a bids r \<and> r \<noteq> w) (gateway_bid a @ pendingExternal a) \<and>
         gateway_bid b @ pendingExternal b =
           filter (\<lambda>r. \<not> eligible a bids r) (gateway_bid a @ pendingExternal a)"
proof -
  note sel = selectBidsAtSYN_Some[OF assms]
  have "\<forall>r \<in> set (gateway_bid a @ pendingExternal a).
      eligible a bids r \<longrightarrow> \<not> higherPriority (requests a r) (requests a w)"
    using sel(4) by (auto simp: higherPriority_key not_less)
  moreover have "gateway_bid b @ pendingExternal b =
      filter (\<lambda>r. \<not> eligible a bids r) (gateway_bid a @ pendingExternal a)"
    unfolding sel(6) by (simp add: gateway_bid_def split: option.splits)
  ultimately show ?thesis using sel(2,3,5) by (simp add: lose_def)
qed

theorem arb_selects_best_bid_witness:
  "\<exists>b losers. selectBidsAtSYN True None two_bids = (b, Some 1, losers) \<and>
     losers = filter (\<lambda>r. eligible two_bids None r \<and> r \<noteq> 1) (gateway_bid two_bids @ pendingExternal two_bids)"
proof -
  obtain b losers where sel: "selectBidsAtSYN True None two_bids = (b, Some 1, losers)"
    by (simp add: two_bids_def requestStart_def newArbitrator_def gatewaySessionID_def alloc_def
          session_of_def selectBidsAtSYN_def better_def eligible_def higherPriority_def Let_def
          zero_request_def)
  with arb_selects_best_bid[OF sel] show ?thesis by blast
qed

text \<open>
  A waiter submitted after the SYN was observed takes no part in that SYN's selection,
  even when it re-bids with the same address and so reuses the request of an older bid: its
  channel is neither the winner's nor a loser's.
\<close>

theorem arb_late_bid_excluded:
  assumes "arb_inv a out" and "requestStart sid ini a = (b, ch)"
    and "selectBidsAtSYN busIdle (Some (snapshotBids a)) b = (c, Some w, losers)"
    and "r \<in> set (w # losers)"
  shows "notify_of b r \<noteq> ch"
proof
  assume eq: "notify_of b r = ch"
  have ch: "ch = next_chan a"
    using assms(2) by (auto simp: requestStart_def Let_def split: if_splits option.splits)
  note sel = selectBidsAtSYN_Some[OF assms(3)]
  have "eligible b (Some (snapshotBids a)) r"
    using assms(4) sel(3,5) by (auto simp: lose_def)
  then have "snapshotBids a r = Some ch" by (simp add: eligible_def eq)
  then have "ch < next_chan a"
    using assms(1) snapshot_below[of a out] by (simp add: arb_inv_def)
  with ch show False by simp
qed

theorem arb_late_bid_excluded_witness:
  "let a = fst (requestStart 1 0x31 newArbitrator);
       (b, ch) = requestStart 2 0x10 a;
       (c, winner, losers) = selectBidsAtSYN True (Some (snapshotBids a)) b
   in winner = Some 0 \<and> notify_of b 0 \<noteq> ch"
proof -
  let ?a = "fst (requestStart 1 0x31 newArbitrator)"
  obtain b ch where req: "requestStart 2 0x10 ?a = (b, ch)" by (metis surj_pair)
  obtain c losers where sel: "selectBidsAtSYN True (Some (snapshotBids ?a)) b = (c, Some 0, losers)"
    using req
    by (auto simp: requestStart_def newArbitrator_def gatewaySessionID_def alloc_def
          session_of_def selectBidsAtSYN_def better_def eligible_def higherPriority_def Let_def
          zero_request_def snapshotBids_def notify_of_def)
  have "arb_inv ?a []" by (rule requestStart_inv[OF newArbitrator_inv])
  from arb_late_bid_excluded[OF this req sel, of 0] show ?thesis
    by (simp add: req sel)
qed



end
