(* ===== verification/Echo_Tracker.thy ===== *)
theory Echo_Tracker
  imports Gateway_Prelude
begin

text \<open>
  The echo tracker of a bus session, \<^verbatim>\<open>src/internal/adaptermux/echo_tracker.go\<close>: the bytes a
  session wrote and expects to see echoed, the parallel queues of provenance flags and write
  times, and the snapshot that makes a capacity reset transactional with the adapter write.

  Go slices are lists; a slice that may be nil and is tested for nil is an \<open>option\<close>. A
  \<^verbatim>\<open>time.Time\<close> is an integer number of nanoseconds since the zero time, so \<^verbatim>\<open>IsZero\<close> is
  equality with 0. The statistics are 64-bit words.
\<close>

section \<open>Data\<close>

type_synonym gotime = int

definition maxPendingEchoes :: nat where
  "maxPendingEchoes = 256"

definition maxSeenEchoes :: nat where
  "maxSeenEchoes = 256"

record echoTracker =
  expectedEchoes :: "byte list"
  expectedStructural :: "bool list"
  preOverflowStructural :: "bool list option"
  expectedWriteTimes :: "gotime list"
  seenEchoes :: "byte list"
  atRequestStart :: bool
  totalSuppressed :: uint64
  totalWritten :: uint64
  totalMismatches :: uint64
  totalOverflowResets :: uint64
  preOverflowEchoes :: "byte list option"
  preOverflowWriteTimes :: "gotime list option"
  queueJustDrained :: bool

datatype echoMatchResult = echoMatchNone | echoMatchSuppressed | echoMatchFlushed

definition newEchoTracker :: echoTracker where
  "newEchoTracker = \<lparr> expectedEchoes = [], expectedStructural = [], preOverflowStructural = None,
     expectedWriteTimes = [], seenEchoes = [], atRequestStart = False, totalSuppressed = 0,
     totalWritten = 0, totalMismatches = 0, totalOverflowResets = 0, preOverflowEchoes = None,
     preOverflowWriteTimes = None, queueJustDrained = False \<rparr>"

section \<open>Recording and rolling back a write\<close>

definition recordSentInternal ::
    "byte \<Rightarrow> bool \<Rightarrow> gotime \<Rightarrow> bool \<Rightarrow> echoTracker \<Rightarrow> echoTracker" where
  "recordSentInternal data structural writeAt withTime t =
     (let t1 = t\<lparr> queueJustDrained := False \<rparr>;
          t2 = (if length (expectedEchoes t1) \<ge> maxPendingEchoes
                then t1\<lparr> preOverflowEchoes := Some (expectedEchoes t1),
                         preOverflowStructural := Some (expectedStructural t1),
                         preOverflowWriteTimes :=
                           (if withTime then Some (expectedWriteTimes t1) else None),
                         expectedEchoes := [], expectedStructural := [],
                         expectedWriteTimes := [],
                         totalOverflowResets := totalOverflowResets t1 + 1 \<rparr>
                else t1\<lparr> preOverflowEchoes := None, preOverflowStructural := None,
                         preOverflowWriteTimes := None \<rparr>)
      in t2\<lparr> expectedEchoes := expectedEchoes t2 @ [data],
            expectedStructural := expectedStructural t2 @ [structural],
            expectedWriteTimes :=
              (if withTime then expectedWriteTimes t2 @ [writeAt] else expectedWriteTimes t2),
            totalWritten := totalWritten t2 + 1 \<rparr>)"

definition recordSent :: "byte \<Rightarrow> echoTracker \<Rightarrow> echoTracker" where
  "recordSent data t = recordSentInternal data False 0 False t"

definition recordSentStructural :: "byte \<Rightarrow> bool \<Rightarrow> echoTracker \<Rightarrow> echoTracker" where
  "recordSentStructural data structural t = recordSentInternal data structural 0 False t"

definition recordSentWithTimeStructural ::
    "byte \<Rightarrow> gotime \<Rightarrow> bool \<Rightarrow> echoTracker \<Rightarrow> echoTracker" where
  "recordSentWithTimeStructural data writeAt structural t =
     recordSentInternal data structural writeAt True t"

definition rollbackSent :: "echoTracker \<Rightarrow> echoTracker" where
  "rollbackSent t =
     (case preOverflowEchoes t of
        Some es \<Rightarrow>
          t\<lparr> expectedEchoes := es, preOverflowEchoes := None,
             totalOverflowResets :=
               (if totalOverflowResets t > 0 then totalOverflowResets t - 1
                else totalOverflowResets t),
             expectedStructural :=
               (case preOverflowStructural t of Some ss \<Rightarrow> ss | None \<Rightarrow> []),
             preOverflowStructural := None,
             expectedWriteTimes :=
               (case preOverflowWriteTimes t of Some ts \<Rightarrow> ts | None \<Rightarrow> []),
             preOverflowWriteTimes := None \<rparr>
      | None \<Rightarrow>
          (if expectedEchoes t \<noteq> []
           then t\<lparr> expectedEchoes := butlast (expectedEchoes t),
                   expectedStructural := butlast (expectedStructural t),
                   expectedWriteTimes := butlast (expectedWriteTimes t) \<rparr>
           else t))"

section \<open>Matching an echo\<close>

definition echo_boundary :: "echoTracker \<Rightarrow> echoTracker" where
  "echo_boundary t = t\<lparr> expectedEchoes := [], expectedStructural := [], expectedWriteTimes := [] \<rparr>"

definition matchEchoWithTime ::
    "byte \<Rightarrow> bool \<Rightarrow> echoTracker \<Rightarrow>
       echoTracker \<times> echoMatchResult \<times> byte list \<times> gotime \<times> bool" where
  "matchEchoWithTime received receivedWasEscaped t =
     (case expectedEchoes t of
        [] \<Rightarrow> (t, echoMatchNone, [], 0, False)
      | e # es \<Rightarrow>
          (let t0 = t\<lparr> preOverflowEchoes := None, preOverflowWriteTimes := None \<rparr> in
           if received = e then
             (let (writeAt, times, hasWriteAt) =
                    (case expectedWriteTimes t0 of
                       [] \<Rightarrow> (0, [], False) | w # ws \<Rightarrow> (w, ws, w \<noteq> 0));
                  seen = (if length (seenEchoes t0) \<ge> maxSeenEchoes
                          then tl (seenEchoes t0) else seenEchoes t0);
                  isRealWireSyn = (received = 0xAA \<and> \<not> receivedWasEscaped)
              in (t0\<lparr> expectedWriteTimes := times,
                     expectedStructural := tl (expectedStructural t0),
                     expectedEchoes := es, seenEchoes := seen @ [received],
                     totalSuppressed := totalSuppressed t0 + 1,
                     queueJustDrained :=
                       (if es = [] then \<not> isRealWireSyn else queueJustDrained t0) \<rparr>,
                  echoMatchSuppressed, [], writeAt, hasWriteAt))
           else
             ((echo_boundary (t0\<lparr> totalMismatches := totalMismatches t0 + 1, seenEchoes := [] \<rparr>))
                \<lparr> atRequestStart := False \<rparr>,
              echoMatchFlushed, seenEchoes t0, 0, False)))"

definition matchEcho :: "byte \<Rightarrow> bool \<Rightarrow> echoTracker \<Rightarrow> echoTracker \<times> echoMatchResult \<times> byte list" where
  "matchEcho received receivedWasEscaped t =
     (let (t', res, fb, _, _) = matchEchoWithTime received receivedWasEscaped t in (t', res, fb))"

section \<open>Boundaries and queries\<close>

definition drop_snapshot :: "echoTracker \<Rightarrow> echoTracker" where
  "drop_snapshot t = t\<lparr> preOverflowEchoes := None, preOverflowStructural := None,
     preOverflowWriteTimes := None, queueJustDrained := False \<rparr>"

definition flushOnSYN :: "echoTracker \<Rightarrow> echoTracker \<times> byte list \<times> bool" where
  "flushOnSYN t = (drop_snapshot (echo_boundary (t\<lparr> seenEchoes := [] \<rparr>)), seenEchoes t, atRequestStart t)"

definition markRequestStart :: "echoTracker \<Rightarrow> echoTracker" where
  "markRequestStart t =
     drop_snapshot (echo_boundary (t\<lparr> atRequestStart := True, seenEchoes := [],
       totalSuppressed := 0, totalWritten := 0 \<rparr>))"

definition hasPendingEchoes :: "echoTracker \<Rightarrow> bool" where
  "hasPendingEchoes t \<longleftrightarrow> expectedEchoes t \<noteq> []"

definition peekNextExpected :: "echoTracker \<Rightarrow> byte \<times> bool" where
  "peekNextExpected t = (case expectedEchoes t of [] \<Rightarrow> (0, False) | e # _ \<Rightarrow> (e, True))"

definition peekNextExpectedWithFlags :: "echoTracker \<Rightarrow> byte \<times> bool \<times> bool" where
  "peekNextExpectedWithFlags t = (case expectedEchoes t of [] \<Rightarrow> (0, False, False)
     | e # _ \<Rightarrow> (e, (case expectedStructural t of [] \<Rightarrow> False | s # _ \<Rightarrow> s), True))"

definition echo_reset :: "echoTracker \<Rightarrow> echoTracker" where
  "echo_reset t = drop_snapshot (echo_boundary (t\<lparr> seenEchoes := [], atRequestStart := False,
     totalSuppressed := 0, totalWritten := 0 \<rparr>))"

definition IsQueueJustDrained :: "echoTracker \<Rightarrow> bool" where
  "IsQueueJustDrained t = queueJustDrained t"

definition ClearQueueJustDrained :: "echoTracker \<Rightarrow> echoTracker" where
  "ClearQueueJustDrained t = t\<lparr> queueJustDrained := False \<rparr>"

definition echo_stats :: "echoTracker \<Rightarrow> uint64 \<times> uint64" where
  "echo_stats t = (totalSuppressed t, totalMismatches t)"

definition matchCount :: "echoTracker \<Rightarrow> uint64" where
  "matchCount t = totalSuppressed t"

definition writeCount :: "echoTracker \<Rightarrow> uint64" where
  "writeCount t = totalWritten t"

definition overflowResets :: "echoTracker \<Rightarrow> uint64" where
  "overflowResets t = totalOverflowResets t"

section \<open>Specification\<close>

text \<open>
  The lockstep invariant. A tracker belongs to one mode for its lifetime: \<open>timed\<close> (every
  write carries its time, the classifier is on) or not (no write does). In both modes the
  provenance queue is as long as the byte queue; the time queue is as long, or empty. The
  queues respect their caps. A snapshot exists only right after a capacity reset, is complete,
  and the drained flag is only set while nothing is expected.
\<close>

definition echo_wf :: "bool \<Rightarrow> echoTracker \<Rightarrow> bool" where
  "echo_wf timed t \<longleftrightarrow>
     length (expectedStructural t) = length (expectedEchoes t) \<and>
     length (expectedWriteTimes t) = (if timed then length (expectedEchoes t) else 0) \<and>
     length (expectedEchoes t) \<le> maxPendingEchoes \<and> length (seenEchoes t) \<le> maxSeenEchoes \<and>
     (case preOverflowEchoes t of None \<Rightarrow> True
      | Some es \<Rightarrow> length es = maxPendingEchoes \<and> length (expectedEchoes t) = 1 \<and>
          (\<exists>ss. preOverflowStructural t = Some ss \<and> length ss = length es) \<and>
          (if timed then \<exists>ts. preOverflowWriteTimes t = Some ts \<and> length ts = length es
           else preOverflowWriteTimes t = None)) \<and>
     (queueJustDrained t \<longrightarrow> expectedEchoes t = [])"

datatype echo_op =
    RecordSent byte bool gotime
  | RollbackSent
  | MatchEcho byte bool
  | FlushOnSYN
  | MarkRequestStart
  | EchoReset
  | ClearDrained

fun echo_apply :: "bool \<Rightarrow> echoTracker \<Rightarrow> echo_op \<Rightarrow> echoTracker" where
  "echo_apply timed t (RecordSent b st w) = recordSentInternal b st w timed t"
| "echo_apply timed t RollbackSent = rollbackSent t"
| "echo_apply timed t (MatchEcho b esc) = fst (matchEchoWithTime b esc t)"
| "echo_apply timed t FlushOnSYN = fst (flushOnSYN t)"
| "echo_apply timed t MarkRequestStart = markRequestStart t"
| "echo_apply timed t EchoReset = echo_reset t"
| "echo_apply timed t ClearDrained = ClearQueueJustDrained t"

text \<open>
  The abstract echo queue: pairs of an expected byte and its provenance, one queue instead of
  three in lockstep, with the queue a capacity reset threw away. A write appends, unless the
  queue is full: then it starts over and remembers the old queue. Rolling a write back restores
  that queue or drops the last entry. A match pops the head, a mismatch or a boundary empties
  the queue; each of them makes the last write final.
\<close>

type_synonym echo_queue = "(byte \<times> bool) list \<times> (byte \<times> bool) list option"

fun queue_apply :: "echo_queue \<Rightarrow> echo_op \<Rightarrow> echo_queue" where
  "queue_apply (q, u) (RecordSent b st w) =
     (if length q \<ge> maxPendingEchoes then ([(b, st)], Some q) else (q @ [(b, st)], None))"
| "queue_apply (q, u) RollbackSent = (case u of Some q0 \<Rightarrow> (q0, None) | None \<Rightarrow> (butlast q, None))"
| "queue_apply (q, u) (MatchEcho b esc) =
     (case q of [] \<Rightarrow> (q, u) | (e, _) # q' \<Rightarrow> (if b = e then q' else [], None))"
| "queue_apply (q, u) ClearDrained = (q, u)"
| "queue_apply (q, u) _ = ([], None)"

definition echo_abs :: "echoTracker \<Rightarrow> echo_queue" where
  "echo_abs t = (zip (expectedEchoes t) (expectedStructural t),
     case preOverflowEchoes t of None \<Rightarrow> None
     | Some es \<Rightarrow> Some (zip es (case preOverflowStructural t of None \<Rightarrow> [] | Some ss \<Rightarrow> ss)))"

text \<open>
  Streams of writes and observations in which every observed byte is the next outstanding
  echo, whatever the interleaving, as long as fewer than the cap are outstanding.
\<close>

datatype wire_io = Wrote byte bool gotime | Observed byte bool

fun echoing :: "byte list \<Rightarrow> wire_io list \<Rightarrow> byte list option" where
  "echoing q [] = Some q"
| "echoing q (Wrote b st w # xs) =
     (if length q < maxPendingEchoes then echoing (q @ [b]) xs else None)"
| "echoing q (Observed b esc # xs) = (case q of e # q' \<Rightarrow> if b = e then echoing q' xs else None | [] \<Rightarrow> None)"

definition echo_io :: "bool \<Rightarrow> echoTracker \<Rightarrow> wire_io \<Rightarrow> echoTracker \<times> echoMatchResult option" where
  "echo_io timed t io = (case io of
       Wrote b st w \<Rightarrow> (recordSentInternal b st w timed t, None)
     | Observed b esc \<Rightarrow> (let (t', res, _) = matchEchoWithTime b esc t in (t', Some res)))"

text \<open>A tracker at its cap, for the examples.\<close>

definition full_tracker :: echoTracker where
  "full_tracker = newEchoTracker\<lparr> expectedEchoes := replicate 256 0x10,
     expectedStructural := replicate 256 False \<rparr>"

section \<open>Lemmas\<close>

lemmas echo_defs = recordSentInternal_def rollbackSent_def matchEchoWithTime_def flushOnSYN_def
  markRequestStart_def echo_reset_def ClearQueueJustDrained_def echo_boundary_def drop_snapshot_def
  maxPendingEchoes_def maxSeenEchoes_def

lemma record_wf [wf_keep]:
  "echo_wf timed t \<Longrightarrow> echo_wf timed (recordSentInternal b st w timed t)"
  by (auto simp: echo_wf_def echo_defs Let_def split: option.splits)

lemma rollback_wf [wf_keep]: "echo_wf timed t \<Longrightarrow> echo_wf timed (rollbackSent t)"
  by (auto simp: echo_wf_def echo_defs split: option.splits)

lemma match_wf [wf_keep]: "echo_wf timed t \<Longrightarrow> echo_wf timed (fst (matchEchoWithTime b esc t))"
  by (auto simp: echo_wf_def echo_defs Let_def split: list.splits option.splits if_splits)

lemma boundary_wf [wf_keep]:
  "echo_wf timed t \<Longrightarrow> echo_wf timed (fst (flushOnSYN t))"
  "echo_wf timed t \<Longrightarrow> echo_wf timed (markRequestStart t)"
  "echo_wf timed t \<Longrightarrow> echo_wf timed (echo_reset t)"
  "echo_wf timed t \<Longrightarrow> echo_wf timed (ClearQueueJustDrained t)"
  by (auto simp: echo_wf_def echo_defs split: option.splits)

lemma echo_apply_wf: "echo_wf timed t \<Longrightarrow> echo_wf timed (echo_apply timed t op)"
  by (cases op) (simp_all add: wf_keep)

interpretation echo: kept_invariant "echo_apply timed" "echo_wf timed"
  by unfold_locales (rule echo_apply_wf)

lemma newEchoTracker_wf: "echo_wf timed newEchoTracker"
  by (simp add: echo_wf_def newEchoTracker_def)

subsection \<open>Refinement of the abstract queue\<close>

lemma abs_record:
  assumes "echo_wf timed t"
  shows "echo_abs (recordSentInternal b st w timed t) = queue_apply (echo_abs t) (RecordSent b st w)"
  using assms by (auto simp: echo_wf_def echo_abs_def echo_defs Let_def)

lemma zip_butlast:
  "length xs = length ys \<Longrightarrow> zip (butlast xs) (butlast ys) = butlast (zip xs ys)"
  by (simp add: butlast_conv_take take_zip)

lemma abs_rollback:
  assumes "echo_wf timed t"
  shows "echo_abs (rollbackSent t) = queue_apply (echo_abs t) RollbackSent"
  using assms
  by (auto simp: echo_wf_def echo_abs_def rollbackSent_def zip_butlast split: option.splits)

lemma abs_match:
  assumes "echo_wf timed t"
  shows "echo_abs (fst (matchEchoWithTime b esc t)) = queue_apply (echo_abs t) (MatchEcho b esc)"
  using assms
  by (cases "expectedEchoes t"; cases "expectedStructural t")
     (auto simp: echo_wf_def echo_abs_def matchEchoWithTime_def echo_boundary_def Let_def
           split: prod.splits option.splits)

lemma abs_boundary:
  "echo_abs (fst (flushOnSYN t)) = ([], None)" "echo_abs (markRequestStart t) = ([], None)"
  "echo_abs (echo_reset t) = ([], None)" "echo_abs (ClearQueueJustDrained t) = echo_abs t"
  by (simp_all add: echo_abs_def echo_defs split: option.splits)

lemma echo_refines:
  assumes "echo_wf timed t"
  shows "echo_abs (echo_apply timed t op) = queue_apply (echo_abs t) op"
proof -
  obtain q u where "echo_abs t = (q, u)" by (cases "echo_abs t")
  then show ?thesis
    using assms by (cases op) (simp_all add: abs_record abs_rollback abs_match abs_boundary)
qed

lemma echo_run_refines:
  assumes "echo_wf timed t"
  shows "echo_abs (foldl (echo_apply timed) t ops) = foldl queue_apply (echo_abs t) ops"
  using assms
  by (induction ops arbitrary: t) (simp_all add: echo_refines echo_apply_wf)

subsection \<open>Own echoes\<close>

lemma record_queue:
  "length (expectedEchoes t) < maxPendingEchoes \<Longrightarrow>
     expectedEchoes (recordSentInternal b st w timed t) = expectedEchoes t @ [b]"
  by (simp add: recordSentInternal_def Let_def)

lemma match_head:
  "expectedEchoes t = b # q \<Longrightarrow>
     expectedEchoes (fst (matchEchoWithTime b esc t)) = q \<and>
     fst (snd (matchEchoWithTime b esc t)) = echoMatchSuppressed"
  by (simp add: matchEchoWithTime_def Let_def split: list.splits prod.splits)

lemma echo_io_simps [simp]:
  "echo_io timed t (Wrote b st w) = (recordSentInternal b st w timed t, None)"
  "echo_io timed t (Observed b esc) =
     (fst (matchEchoWithTime b esc t), Some (fst (snd (matchEchoWithTime b esc t))))"
  by (simp_all add: echo_io_def Let_def case_prod_beta)

lemma echoing_suppressed:
  assumes "echoing (expectedEchoes t) xs = Some q"
  shows "expectedEchoes (fst (run (echo_io timed) t xs)) = q \<and>
         set (snd (run (echo_io timed) t xs)) \<subseteq> {None, Some echoMatchSuppressed}"
  using assms
proof (induction xs arbitrary: t)
  case (Cons x xs)
  show ?case
  proof (cases x)
    case (Wrote b st w)
    with Cons.prems have "length (expectedEchoes t) < maxPendingEchoes"
      by (simp split: if_splits)
    with Wrote Cons.prems Cons.IH[of "recordSentInternal b st w timed t"] show ?thesis
      by (simp add: record_queue)
  next
    case (Observed b esc)
    with Cons.prems obtain q' where "expectedEchoes t = b # q'" and "echoing q' xs = Some q"
      by (auto split: list.splits if_splits)
    with Observed match_head[of t b q' esc] Cons.IH[of "fst (matchEchoWithTime b esc t)"]
    show ?thesis by simp
  qed
qed simp

text \<open>The bytes matched since the last boundary are kept in order, up to the cap.\<close>

lemma match_list_seen:
  assumes "expectedEchoes t = map fst obs @ rest" and "length (seenEchoes t) + length obs \<le> maxSeenEchoes"
  shows "seenEchoes (foldl (\<lambda>t x. fst (matchEchoWithTime (fst x) (snd x) t)) t obs) =
           seenEchoes t @ map fst obs \<and>
         expectedEchoes (foldl (\<lambda>t x. fst (matchEchoWithTime (fst x) (snd x) t)) t obs) = rest"
  using assms
proof (induction obs arbitrary: t)
  case (Cons x obs)
  let ?t = "fst (matchEchoWithTime (fst x) (snd x) t)"
  have "expectedEchoes ?t = map fst obs @ rest" and "seenEchoes ?t = seenEchoes t @ [fst x]"
    using Cons.prems by (auto simp: matchEchoWithTime_def Let_def split: list.splits prod.splits)
  with Cons.IH[of ?t] Cons.prems(2) show ?case by simp
qed simp

lemma match_mismatch:
  assumes "expectedEchoes t = e # es" and "b \<noteq> e"
  shows "fst (snd (matchEchoWithTime b esc t)) = echoMatchFlushed"
    and "fst (snd (snd (matchEchoWithTime b esc t))) = seenEchoes t"
  using assms by (simp_all add: matchEchoWithTime_def Let_def)

section \<open>Claims\<close>

text \<open>
  Lockstep: from a fresh tracker, whatever sequence of writes, rollbacks, matches and
  boundaries follows, the provenance queue is exactly as long as the byte queue, the time
  queue is as long or (when the classifier is off) empty, both caps of 256 hold, and the
  inter-write flag is only ever set while no echo is expected.
\<close>

theorem echo_lockstep:
  "echo_wf timed (foldl (echo_apply timed) newEchoTracker ops)"
  by (rule echo.run_keeps) (rule newEchoTracker_wf)

text \<open>
  C25. Rolling back a failed adapter write is exact, also when that write hit the cap of 256
  pending echoes and reset the queue: bytes, provenance flags, write times and the count of
  capacity resets are those before the write.
\<close>

theorem echo_rollback_exact:
  assumes "echo_wf timed t" and "totalOverflowResets t \<noteq> -1"
  shows "let t' = rollbackSent (recordSentInternal data structural writeAt timed t) in
         expectedEchoes t' = expectedEchoes t \<and> expectedStructural t' = expectedStructural t \<and>
         expectedWriteTimes t' = expectedWriteTimes t \<and>
         totalOverflowResets t' = totalOverflowResets t"
proof -
  have "totalOverflowResets t + 1 \<noteq> 0"
    using assms(2) by (metis add_eq_0_iff2)
  then have "0 < totalOverflowResets t + 1" by (simp add: word_neq_0_conv)
  with assms(1) show ?thesis
    by (auto simp: echo_wf_def recordSentInternal_def rollbackSent_def Let_def)
qed

theorem echo_rollback_exact_witness:
  "expectedEchoes (rollbackSent (recordSentInternal 0x55 True 0 False full_tracker)) = replicate 256 0x10 \<and>
   length (expectedEchoes (recordSentInternal 0x55 True 0 False full_tracker)) = 1"
proof -
  have "echo_wf False full_tracker"
    by (simp add: echo_wf_def full_tracker_def newEchoTracker_def maxPendingEchoes_def)
  moreover have "totalOverflowResets full_tracker \<noteq> -1"
    by (simp add: full_tracker_def newEchoTracker_def)
  ultimately have "expectedEchoes (rollbackSent (recordSentInternal 0x55 True 0 False full_tracker)) =
      expectedEchoes full_tracker"
    by (rule echo_rollback_exact[unfolded Let_def, THEN conjunct1])
  then show ?thesis
    by (simp add: full_tracker_def recordSentInternal_def maxPendingEchoes_def Let_def)
qed


text \<open>
  No own echo reaches the observer stream: however writes and observations interleave, as
  long as each observed byte is the next outstanding echo and fewer than 256 are outstanding,
  every observation is suppressed and the queue holds exactly the echoes still outstanding.
\<close>

theorem echo_own_bytes_suppressed:
  assumes "echoing (expectedEchoes t) xs = Some q"
  shows "expectedEchoes (fst (run (echo_io timed) t xs)) = q \<and>
         set (snd (run (echo_io timed) t xs)) \<subseteq> {None, Some echoMatchSuppressed}"
  using assms by (rule echoing_suppressed)

theorem echo_own_bytes_suppressed_witness:
  "expectedEchoes (fst (run (echo_io True) newEchoTracker
     [Wrote 0x10 False 5, Wrote 0xAA False 6, Observed 0x10 False, Wrote 0xAA True 7,
      Observed 0xAA True])) = [0xAA]"
proof -
  have "echoing (expectedEchoes newEchoTracker)
     [Wrote 0x10 False 5, Wrote 0xAA False 6, Observed 0x10 False, Wrote 0xAA True 7,
      Observed 0xAA True] = Some [0xAA]"
    by (simp add: newEchoTracker_def maxPendingEchoes_def)
  from echo_own_bytes_suppressed[OF this, of True] show ?thesis by simp
qed

text \<open>
  A broken echo sequence loses no observed byte: when \<open>obs\<close> was matched since the last
  boundary (up to the cap) and the next byte does not match, the tracker returns exactly those
  bytes, in order, for delivery before it, and expects nothing any more.
\<close>

theorem echo_mismatch_returns_seen:
  assumes "expectedEchoes t = map fst obs @ e # rest" and "seenEchoes t = []"
    and "length obs \<le> maxSeenEchoes" and "b \<noteq> e"
  shows "\<exists>t2. matchEcho b esc (foldl (\<lambda>t x. fst (matchEchoWithTime (fst x) (snd x) t)) t obs) =
             (t2, echoMatchFlushed, map fst obs) \<and>
           expectedEchoes t2 = [] \<and> seenEchoes t2 = []"
proof -
  let ?t1 = "foldl (\<lambda>t x. fst (matchEchoWithTime (fst x) (snd x) t)) t obs"
  have "seenEchoes ?t1 = map fst obs" and queue: "expectedEchoes ?t1 = e # rest"
    using match_list_seen[of t obs "e # rest"] assms(1-3) by simp_all
  then show ?thesis
    using match_mismatch[OF queue assms(4), of esc] assms(4)
    by (simp add: matchEcho_def matchEchoWithTime_def echo_boundary_def Let_def)
qed

theorem echo_mismatch_returns_seen_witness:
  "\<exists>t2. matchEcho 0x77 False
     (fst (matchEchoWithTime 0x31 False (newEchoTracker\<lparr> expectedEchoes := [0x31, 0x08] \<rparr>))) =
     (t2, echoMatchFlushed, [0x31])"
  using echo_mismatch_returns_seen[of "newEchoTracker\<lparr> expectedEchoes := [0x31, 0x08] \<rparr>"
      "[(0x31, False)]" "0x08" "[]" "0x77" False]
  by (auto simp: newEchoTracker_def maxSeenEchoes_def)

text \<open>
  The inter-write flag marks exactly the window between two body writes: matching the
  last expected echo sets it unless that echo is a raw (unescaped) 0xAA terminator, and any
  write, boundary or explicit clear takes it back.
\<close>

theorem echo_drained_window:
  assumes "expectedEchoes t = [b]"
  shows "(IsQueueJustDrained (fst (matchEchoWithTime b esc t)) \<longleftrightarrow> b \<noteq> 0xAA \<or> esc) \<and>
         \<not> IsQueueJustDrained (recordSentInternal c st w timed u) \<and>
         \<not> IsQueueJustDrained (fst (flushOnSYN u)) \<and>
         \<not> IsQueueJustDrained (markRequestStart u) \<and>
         \<not> IsQueueJustDrained (ClearQueueJustDrained u)"
  using assms
  by (auto simp: IsQueueJustDrained_def echo_defs Let_def split: prod.splits list.splits)

theorem echo_drained_window_witness:
  "IsQueueJustDrained (fst (matchEchoWithTime 0xAA True (newEchoTracker\<lparr> expectedEchoes := [0xAA] \<rparr>)))"
  using echo_drained_window[of "newEchoTracker\<lparr> expectedEchoes := [0xAA] \<rparr>" "0xAA" True] by simp

end
