(* ===== verification/Raw_Symbols.thy ===== *)
theory Raw_Symbols
  imports Arbitration
begin

text \<open>
  The raw-symbol boundary of the adapter multiplexer,
  \<^verbatim>\<open>src/internal/adaptermux/raw_symbols.go\<close>: how a logical gateway write becomes raw wire
  symbols, and how the two symbols of an escape pair are written and verified while the read
  loop, the ownership transitions and the lifecycle boundaries run beside the writer.

  A \<^verbatim>\<open>*gatewayLeadWait\<close> is a number looked up in the store \<open>waits\<close>; its result channel of
  capacity one is the list \<open>lw_result\<close> (a second send would block the read loop: that the list
  never exceeds one entry is part of a claim). \<^verbatim>\<open>writeSymbols\<close> is cut at the points where other
  goroutines can interleave: between taking the token, arming the wait, committing the lead,
  pacing, committing the suffix and awaiting the echoes. A commit is one step: the only things
  that can happen between its check and its write (a lifecycle fence, the retiring of the wait,
  an observed symbol) commute with either the check or the write. A \<^verbatim>\<open>select\<close> takes the ready
  case the scheduler names; naming a case that is not ready leaves the writer blocked.
  Everything the wire sees and shows is appended to the log \<open>io\<close>.
\<close>

section \<open>Encoding gateway writes\<close>

definition gatewaySendSymbols :: "ebus_protocol \<Rightarrow> byte \<Rightarrow> bool \<Rightarrow> byte list" where
  "gatewaySendSymbols P data structural =
     (if data = SymbolSyn P \<and> structural then [SymbolSyn P]
      else if data = SymbolEscape P then [SymbolEscape P, 0x00]
      else if data = SymbolSyn P then [SymbolEscape P, 0x01]
      else [data])"

definition upstreamSendIsRawSymbol :: "string \<Rightarrow> bool" where
  "upstreamSendIsRawSymbol protocol \<longleftrightarrow> protocol \<in> {''enh'', ''ens'', ''''}"

definition activePathIsLogical :: "bool \<Rightarrow> string \<Rightarrow> bool" where
  "activePathIsLogical bytesAreUnescaped protocol \<longleftrightarrow>
     bytesAreUnescaped \<and> upstreamSendIsRawSymbol protocol"

section \<open>The echo expectation of an escape pair\<close>

datatype stream_kind =
  StreamEventNone | StreamEventByte | StreamEventStarted | StreamEventFailed | StreamEventReset |
  StreamEventWireSyn

record stream_event =
  ev_Kind :: stream_kind
  ev_Byte :: byte
  ev_WasEscaped :: bool

definition structural_syn :: "ebus_protocol \<Rightarrow> stream_event \<Rightarrow> bool" where
  "structural_syn P e \<longleftrightarrow> ev_Kind e = StreamEventWireSyn \<or>
     ev_Kind e = StreamEventByte \<and> ev_Byte e = SymbolSyn P \<and> \<not> ev_WasEscaped e"

datatype suffix_state = suffixPending | suffixCommitted | suffixRefuted

record gatewayLeadOutcome =
  out_observed :: byte
  out_early :: bool
  out_suffixStep :: bool
  out_err :: "go_error option"

record gatewayLeadWait =
  lw_lead :: byte
  lw_suffix :: byte
  lw_result :: "gatewayLeadOutcome list"
  lw_leadEchoed :: bool
  lw_leadSeen :: bool
  lw_suffixState :: suffix_state

datatype gatewayEscapeStep = gatewayEscapeStepLead | gatewayEscapeStepSuffix

datatype escape_cause = ErrBusCollision | ErrTimeout

record gatewayEscapeEchoError =
  ee_step :: gatewayEscapeStep
  ee_lead :: byte
  ee_written :: byte
  ee_observed :: byte
  ee_echoObserved :: bool
  ee_beforeWrite :: bool
  ee_cause :: escape_cause

text \<open>The errors of \<^verbatim>\<open>writeSymbols\<close>: wrapped ones carry \<^verbatim>\<open>errGatewayLeadEcho\<close>.\<close>

datatype pair_error =
  NotBusOwner | WithheldAdapterReset gatewayEscapeStep | WithheldNotOwner gatewayEscapeStep |
  EchoFailure gatewayEscapeEchoError | ContextDone go_error | Retired go_error

datatype write_error = GatewayLeadEcho pair_error | TransportError go_error

record GatewayEscapeEchoSnapshot =
  LeadFailures :: uint64
  SuffixFailures :: uint64
  LastStep :: "gatewayEscapeStep option"
  LastWritten :: byte
  LastObserved :: byte
  LastEchoObserved :: bool

record gatewayEscapeEchoDiag =
  snapshot :: GatewayEscapeEchoSnapshot
  lastLogAt :: "int option"
  suppressed :: uint64

datatype wire_log = Armed | Sent byte "go_error option" | Seen byte stream_event | Called arb_op

definition gatewayEscapeEchoLogInterval :: int where
  "gatewayEscapeEchoLogInterval = 30 * 1000000000"

text \<open>
  Where \<^verbatim>\<open>writeSymbols\<close> stands; the numbers are waits, absent without the raw view. \<open>WDone\<close> holds
  the returned error.
\<close>

datatype writer_pc =
  WIdle | WArm ownershipToken byte byte | WLead ownershipToken byte byte "nat option" |
  WPace ownershipToken byte byte "nat option" | WSuffix ownershipToken byte byte "nat option" |
  WAwait "nat option" | WDone "write_error option"

record pair_world =
  arb :: arbitrator
  arb_out :: "nat list"
  leadWait :: "nat option"
  waits :: "nat \<Rightarrow> gatewayLeadWait"
  next_wait :: nat
  diag :: gatewayEscapeEchoDiag
  failures_total :: "gatewayEscapeStep \<times> byte option \<Rightarrow> nat"
  logged :: "(int \<times> gatewayEscapeEchoError \<times> uint64) list"
  io :: "wire_log list"
  pc :: writer_pc

definition set_wait :: "nat \<Rightarrow> gatewayLeadWait \<Rightarrow> pair_world \<Rightarrow> pair_world" where
  "set_wait i w s = s\<lparr> waits := (waits s)(i := w) \<rparr>"

definition armGatewayLeadWait :: "byte \<Rightarrow> byte \<Rightarrow> pair_world \<Rightarrow> pair_world \<times> nat" where
  "armGatewayLeadWait lead suffix s =
     (let i = next_wait s;
          w = \<lparr> lw_lead = lead, lw_suffix = suffix, lw_result = [], lw_leadEchoed = False,
                lw_leadSeen = False, lw_suffixState = suffixPending \<rparr>
      in ((set_wait i w s)\<lparr> leadWait := Some i, next_wait := Suc i, io := io s @ [Armed] \<rparr>, i))"

text \<open>
  \<^verbatim>\<open>retireGatewayLeadWait\<close> is two steps for the other goroutines: the fence, which is the
  arbitrator's, and the swap that resolves an outstanding wait.
\<close>

definition retire_swap :: "go_error \<Rightarrow> pair_world \<Rightarrow> pair_world" where
  "retire_swap er s =
     (case leadWait s of None \<Rightarrow> s
      | Some i \<Rightarrow>
          set_wait i ((waits s i)\<lparr> lw_result := lw_result (waits s i) @
             [\<lparr> out_observed = 0, out_early = False, out_suffixStep = False, out_err = Some er \<rparr>] \<rparr>)
            (s\<lparr> leadWait := None \<rparr>))"

definition retireGatewayLeadWait :: "go_error \<Rightarrow> pair_world \<Rightarrow> pair_world" where
  "retireGatewayLeadWait er s = retire_swap er (s\<lparr> arb := fenceLifecycle (arb s) \<rparr>)"

definition resolveGatewayLeadWait :: "nat \<Rightarrow> byte \<Rightarrow> bool \<Rightarrow> pair_world \<Rightarrow> pair_world" where
  "resolveGatewayLeadWait i symbol suffixStep s =
     (if leadWait s = Some i then
        (let w = waits s i; early = (lw_suffixState w = suffixPending) in
         set_wait i (w\<lparr> lw_suffixState := (if early then suffixRefuted else lw_suffixState w),
                        lw_result := lw_result w @
                          [\<lparr> out_observed = symbol, out_early = early,
                             out_suffixStep = suffixStep, out_err = None \<rparr>] \<rparr>)
           (s\<lparr> leadWait := None \<rparr>))
      else s)"

definition observeGatewayLeadEcho ::
    "ebus_protocol \<Rightarrow> byte \<Rightarrow> stream_event \<Rightarrow> pair_world \<Rightarrow> pair_world" where
  "observeGatewayLeadEcho P symbol logical s =
     (case leadWait s of None \<Rightarrow> s
      | Some i \<Rightarrow>
          (let w = waits s i in
           if \<not> lw_leadSeen w then
             (if structural_syn P logical then s
              else if symbol = lw_lead w then
                set_wait i (w\<lparr> lw_leadSeen := True, lw_leadEchoed := True \<rparr>) s
              else resolveGatewayLeadWait i symbol False s)
           else resolveGatewayLeadWait i symbol True s))"

definition dropGatewayLeadWait :: "nat option \<Rightarrow> pair_world \<Rightarrow> pair_world" where
  "dropGatewayLeadWait wo s =
     (if wo \<noteq> None \<and> leadWait s = wo then s\<lparr> leadWait := None \<rparr> else s)"

definition recordGatewayEscapeEchoFailure ::
    "gatewayEscapeEchoError \<Rightarrow> int \<Rightarrow> pair_world \<Rightarrow> pair_world" where
  "recordGatewayEscapeEchoFailure e now s =
     (let key = (ee_step e, if ee_echoObserved e then Some (ee_observed e) else None);
          d = diag s;
          sn = snapshot d;
          sn = (if ee_step e = gatewayEscapeStepLead then sn\<lparr> LeadFailures := LeadFailures sn + 1 \<rparr>
                else sn\<lparr> SuffixFailures := SuffixFailures sn + 1 \<rparr>);
          sn = sn\<lparr> LastStep := Some (ee_step e), LastWritten := ee_written e,
                   LastObserved := ee_observed e, LastEchoObserved := ee_echoObserved e \<rparr>;
          emit = (case lastLogAt d of None \<Rightarrow> True
                  | Some t \<Rightarrow> gatewayEscapeEchoLogInterval \<le> now - t);
          d = (if emit then d\<lparr> snapshot := sn, lastLogAt := Some now, suppressed := 0 \<rparr>
               else d\<lparr> snapshot := sn, suppressed := suppressed d + 1 \<rparr>)
      in s\<lparr> failures_total := (failures_total s)(key := failures_total s key + 1), diag := d,
           logged := (if emit then logged s @ [(now, e, suppressed (diag s))] else logged s) \<rparr>)"

definition gatewayPairFailure ::
    "int \<Rightarrow> gatewayLeadWait \<Rightarrow> gatewayLeadOutcome \<Rightarrow> pair_world \<Rightarrow> pair_world \<times> pair_error option" where
  "gatewayPairFailure now w out s =
     (case out_err out of Some er \<Rightarrow> (s, Some (Retired er))
      | None \<Rightarrow>
          (let e = \<lparr> ee_step = gatewayEscapeStepLead, ee_lead = lw_lead w, ee_written = lw_lead w,
                     ee_observed = out_observed out, ee_echoObserved = True,
                     ee_beforeWrite = False, ee_cause = ErrBusCollision \<rparr>;
               suffixWritten = (\<not> out_early out)
           in if out_suffixStep out \<and> suffixWritten \<and> out_observed out = lw_suffix w then (s, None)
              else (let e = (if out_suffixStep out
                             then e\<lparr> ee_step := gatewayEscapeStepSuffix, ee_written := lw_suffix w,
                                     ee_beforeWrite := \<not> suffixWritten \<rparr> else e)
                    in (recordGatewayEscapeEchoFailure e now s, Some (EchoFailure e)))))"

section \<open>Writing the pair\<close>

datatype select_case = LeadEchoed | Timer | ResultReady | CtxDone go_error

text \<open>Receiving from the result channel; nothing when it is empty.\<close>

definition recv_result :: "nat \<Rightarrow> pair_world \<Rightarrow> (pair_world \<times> gatewayLeadOutcome) option" where
  "recv_result i s =
     (case lw_result (waits s i) of [] \<Rightarrow> None
      | out # rest \<Rightarrow> Some (set_wait i ((waits s i)\<lparr> lw_result := rest \<rparr>) s, out))"

definition recv_failure :: "int \<Rightarrow> nat \<Rightarrow> pair_world \<Rightarrow> (pair_world \<times> pair_error option) option" where
  "recv_failure now i s =
     (case recv_result i s of None \<Rightarrow> None
      | Some (s', out) \<Rightarrow> Some (gatewayPairFailure now (waits s' i) out s'))"

definition paceGatewaySuffix ::
    "select_case \<Rightarrow> int \<Rightarrow> nat option \<Rightarrow> pair_world \<Rightarrow> (pair_world \<times> pair_error option) option" where
  "paceGatewaySuffix ch now wo s =
     (let second = (case wo of None \<Rightarrow> (s, None)
                    | Some i \<Rightarrow> (case recv_failure now i s of None \<Rightarrow> (s, None) | Some r \<Rightarrow> r))
      in case ch of
           LeadEchoed \<Rightarrow> (case wo of Some i \<Rightarrow> if lw_leadEchoed (waits s i) then Some second else None
                          | None \<Rightarrow> None)
         | Timer \<Rightarrow> Some second
         | ResultReady \<Rightarrow> (case wo of Some i \<Rightarrow> recv_failure now i s | None \<Rightarrow> None)
         | CtxDone er \<Rightarrow> Some (dropGatewayLeadWait wo s, Some (ContextDone er)))"

definition awaitGatewayLeadEcho ::
    "select_case \<Rightarrow> int \<Rightarrow> nat \<Rightarrow> pair_world \<Rightarrow> (pair_world \<times> pair_error option) option" where
  "awaitGatewayLeadEcho ch now i s =
     (case ch of
        ResultReady \<Rightarrow> recv_failure now i s
      | Timer \<Rightarrow>
          (let s = dropGatewayLeadWait (Some i) s;
               w = waits s i;
               e = \<lparr> ee_step = gatewayEscapeStepLead, ee_lead = lw_lead w, ee_written = lw_lead w,
                     ee_observed = 0, ee_echoObserved = False, ee_beforeWrite = False,
                     ee_cause = ErrTimeout \<rparr>;
               e = (if lw_leadEchoed w
                    then e\<lparr> ee_step := gatewayEscapeStepSuffix, ee_written := lw_suffix w \<rparr> else e)
           in Some (recordGatewayEscapeEchoFailure e now s, Some (EchoFailure e)))
      | CtxDone er \<Rightarrow> Some (dropGatewayLeadWait (Some i) s, Some (ContextDone er))
      | LeadEchoed \<Rightarrow> None)"

text \<open>One \<^verbatim>\<open>tr.Write\<close> of one symbol; the adapter decides the error.\<close>

definition tr_write :: "byte \<Rightarrow> go_error option \<Rightarrow> pair_world \<Rightarrow> pair_world \<times> go_error option" where
  "tr_write b er s = (s\<lparr> io := io s @ [Sent b er] \<rparr>, er)"

definition withheld :: "gatewayEscapeStep \<Rightarrow> commitError \<Rightarrow> write_error" where
  "withheld st ce = (case ce of
       errOwnershipLifecycleFenced \<Rightarrow> GatewayLeadEcho (WithheldAdapterReset st)
     | errOwnershipChanged \<Rightarrow> GatewayLeadEcho (WithheldNotOwner st)
     | CommitError er \<Rightarrow> TransportError er)"

text \<open>
  The suffix commit: the claim and the write under the wait's mutex. The outcome that refuted
  the pair is taken from the channel; an empty channel would block the commit for ever.
\<close>

datatype suffix_claim = Unclaimed | Written | Refuted gatewayLeadOutcome | Blocked

definition claim_suffix ::
    "nat option \<Rightarrow> byte \<Rightarrow> go_error option \<Rightarrow> pair_world \<times> suffix_claim \<Rightarrow>
      (pair_world \<times> suffix_claim) \<times> go_error option" where
  "claim_suffix wo suffix er sc =
     (let s = fst sc;
          refuted = (case wo of None \<Rightarrow> False | Some i \<Rightarrow> lw_suffixState (waits s i) \<noteq> suffixPending)
      in if refuted then
           (case recv_result (the wo) s of
              Some (s', out) \<Rightarrow> ((s', Refuted out), None)
            | None \<Rightarrow> ((s, Blocked), None))
         else
           (let s = (case wo of None \<Rightarrow> s
                     | Some i \<Rightarrow> set_wait i ((waits s i)\<lparr> lw_suffixState := suffixCommitted \<rparr>) s);
                (s, er) = tr_write suffix er s
            in ((s, Written), er)))"

text \<open>
  The steps of \<^verbatim>\<open>writeSymbols\<close> for an escape pair. The first argument tells whether the
  upstream supplies the raw view; \<open>er\<close> is the adapter's answer to a write.
\<close>

definition write_lead :: "go_error option \<Rightarrow> pair_world \<Rightarrow> pair_world" where
  "write_lead er s = (case pc s of
       WLead tok lead suffix wo \<Rightarrow>
         (case commitWhileOwnershipCurrent tok (tr_write lead er) (arb s) s of
            (s, None) \<Rightarrow> s\<lparr> pc := WPace tok lead suffix wo \<rparr>
          | (s, Some ce) \<Rightarrow>
              (dropGatewayLeadWait wo s)\<lparr> pc := WDone (Some (withheld gatewayEscapeStepLead ce)) \<rparr>)
     | _ \<Rightarrow> s)"

definition write_suffix :: "int \<Rightarrow> go_error option \<Rightarrow> pair_world \<Rightarrow> pair_world" where
  "write_suffix now er s0 = (case pc s0 of
       WSuffix tok lead suffix wo \<Rightarrow>
         (case commitWhileOwnershipCurrent tok (claim_suffix wo suffix er) (arb s0) (s0, Unclaimed) of
            ((s, cl), Some ce) \<Rightarrow>
              (dropGatewayLeadWait wo s)\<lparr> pc := WDone (Some (withheld gatewayEscapeStepSuffix ce)) \<rparr>
          | ((s, cl), None) \<Rightarrow>
              (case cl of
                 Refuted out \<Rightarrow>
                   (let (s, e) = gatewayPairFailure now (waits s (the wo)) out s
                    in s\<lparr> pc := WDone (Some (GatewayLeadEcho (the e))) \<rparr>)
               | Blocked \<Rightarrow> s0
               | _ \<Rightarrow> s\<lparr> pc := WAwait wo \<rparr>))
     | _ \<Rightarrow> s0)"

datatype pair_label =
  Start byte byte | Arm | WriteLead "go_error option" | Pace select_case int |
  WriteSuffix int "go_error option" | Await select_case int |
  Observe byte stream_event | RetireSwap go_error | ArbCall arb_op

fun writeSymbols :: "bool \<Rightarrow> pair_world \<Rightarrow> pair_label \<Rightarrow> pair_world" where
  "writeSymbols raw s (Start lead suffix) =
     (if pc s \<noteq> WIdle then s else
      case currentOwnershipToken gatewaySessionID (arb s) of
        None \<Rightarrow> s\<lparr> pc := WDone (Some (GatewayLeadEcho NotBusOwner)) \<rparr>
      | Some tok \<Rightarrow> s\<lparr> pc := WArm tok lead suffix \<rparr>)"
| "writeSymbols raw s Arm =
     (case pc s of
        WArm tok lead suffix \<Rightarrow>
          if raw then (let (s, i) = armGatewayLeadWait lead suffix s
                       in s\<lparr> pc := WLead tok lead suffix (Some i) \<rparr>)
          else s\<lparr> pc := WLead tok lead suffix None \<rparr>
      | _ \<Rightarrow> s)"
| "writeSymbols raw s (WriteLead er) = write_lead er s"
| "writeSymbols raw s (Pace ch now) =
     (case pc s of
        WPace tok lead suffix wo \<Rightarrow>
          (case paceGatewaySuffix ch now wo s of
             None \<Rightarrow> s
           | Some (s, None) \<Rightarrow> s\<lparr> pc := WSuffix tok lead suffix wo \<rparr>
           | Some (s, Some e) \<Rightarrow> s\<lparr> pc := WDone (Some (GatewayLeadEcho e)) \<rparr>)
      | _ \<Rightarrow> s)"
| "writeSymbols raw s (WriteSuffix now er) = write_suffix now er s"
| "writeSymbols raw s (Await ch now) =
     (case pc s of
        WAwait None \<Rightarrow> s\<lparr> pc := WDone None \<rparr>
      | WAwait (Some i) \<Rightarrow>
          (case awaitGatewayLeadEcho ch now i s of
             None \<Rightarrow> s
           | Some (s, e) \<Rightarrow> s\<lparr> pc := WDone (map_option GatewayLeadEcho e) \<rparr>)
      | _ \<Rightarrow> s)"
| "writeSymbols raw s _ = s"

text \<open>One step of the writer or of the goroutines around it.\<close>

definition pair_step :: "ebus_protocol \<Rightarrow> bool \<Rightarrow> pair_world \<Rightarrow> pair_label \<Rightarrow> pair_world" where
  "pair_step P raw s l = (case l of
       Observe symbol logical \<Rightarrow>
         observeGatewayLeadEcho P symbol logical (s\<lparr> io := io s @ [Seen symbol logical] \<rparr>)
     | RetireSwap er \<Rightarrow> retire_swap er s
     | ArbCall op \<Rightarrow>
         (let (a, out) = arb_step (arb s, arb_out s) op
          in s\<lparr> arb := a, arb_out := out, io := io s @ [Called op] \<rparr>)
     | _ \<Rightarrow> writeSymbols raw s l)"

section \<open>What the wire log shows\<close>

fun sends :: "wire_log list \<Rightarrow> (byte \<times> go_error option) list" where
  "sends [] = []"
| "sends (Sent b er # log) = (b, er) # sends log"
| "sends (_ # log) = sends log"

fun seens :: "wire_log list \<Rightarrow> (byte \<times> stream_event) list" where
  "seens [] = []"
| "seens (Seen b e # log) = (b, e) # seens log"
| "seens (_ # log) = seens log"

fun calls :: "wire_log list \<Rightarrow> arb_op list" where
  "calls [] = []"
| "calls (Called op # log) = op # calls log"
| "calls (_ # log) = calls log"

definition syns_only :: "ebus_protocol \<Rightarrow> (byte \<times> stream_event) list \<Rightarrow> bool" where
  "syns_only P xs \<longleftrightarrow> list_all (\<lambda>(b, e). structural_syn P e) xs"

text \<open>
  The log since the wait was armed acknowledges a pair: the lead was written, then the suffix;
  up to the symbol \<open>obs\<close> that answers the suffix the bus showed nothing but structural SYN
  symbols and one lead; and \<open>obs\<close> came after the suffix was written.
\<close>

definition answered :: "ebus_protocol \<Rightarrow> byte \<Rightarrow> byte \<Rightarrow> byte \<Rightarrow> wire_log list \<Rightarrow> bool" where
  "answered P lead suffix obs t \<longleftrightarrow>
     (\<exists>l1 l2 l3 e e' ss. t = l1 @ Sent suffix None # l2 @ Seen obs e # l3 \<and>
        sends l1 = [(lead, None)] \<and> sends (l2 @ l3) = [] \<and>
        seens (l1 @ l2) = ss @ [(lead, e')] \<and> syns_only P ss)"

definition pair_start :: "arbitrator \<Rightarrow> nat list \<Rightarrow> (nat \<Rightarrow> gatewayLeadWait) \<Rightarrow> nat \<Rightarrow>
    gatewayEscapeEchoDiag \<Rightarrow> pair_world" where
  "pair_start a out ws n d =
     \<lparr> arb = a, arb_out = out, leadWait = None, waits = ws, next_wait = n, diag = d,
       failures_total = (\<lambda>_. 0), logged = [], io = [], pc = WIdle \<rparr>"

text \<open>
  What a receiver makes of raw symbols: an escape lead and its suffix are one logical byte with
  escape provenance, every other symbol stands for itself; an unfinished or malformed pair
  yields nothing.
\<close>

fun unescape :: "ebus_protocol \<Rightarrow> byte list \<Rightarrow> (byte \<times> bool) list" where
  "unescape P [] = []"
| "unescape P [b] = (if b = SymbolEscape P then [] else [(b, False)])"
| "unescape P (b # c # bs) =
     (if b \<noteq> SymbolEscape P then (b, False) # unescape P (c # bs)
      else if c = 0 then (SymbolEscape P, True) # unescape P bs
      else if c = 1 then (SymbolSyn P, True) # unescape P bs
      else unescape P bs)"

section \<open>The invariant of a write\<close>

definition lead_step :: "ebus_protocol \<Rightarrow> gatewayLeadWait \<Rightarrow> (byte \<times> stream_event) list \<Rightarrow> bool" where
  "lead_step P w xs \<longleftrightarrow>
     (if lw_leadSeen w then \<exists>ss e. xs = ss @ [(lw_lead w, e)] \<and> syns_only P ss
      else syns_only P xs)"

definition published_ok :: "ebus_protocol \<Rightarrow> gatewayLeadWait \<Rightarrow> wire_log list \<Rightarrow> bool" where
  "published_ok P w t \<longleftrightarrow>
     lw_result w = [] \<and> lw_suffixState w \<noteq> suffixRefuted \<and> lead_step P w (seens t)"

definition resolved_ok :: "ebus_protocol \<Rightarrow> gatewayLeadWait \<Rightarrow> wire_log list \<Rightarrow> bool" where
  "resolved_ok P w t \<longleftrightarrow>
     (\<exists>out. lw_result w = [out] \<and>
        (lw_suffixState w = suffixRefuted \<longleftrightarrow> out_err out = None \<and> out_early out) \<and>
        (out_err out = None \<and> out_suffixStep out \<and> \<not> out_early out \<longrightarrow>
           answered P (lw_lead w) (lw_suffix w) (out_observed out) t))"

definition log_phase :: "writer_pc \<Rightarrow> gatewayLeadWait \<Rightarrow> wire_log list \<Rightarrow> bool" where
  "log_phase p w t = (case p of
       WLead tok lead suffix wo \<Rightarrow>
         sends t = [] \<and> lw_lead w = lead \<and> lw_suffix w = suffix \<and> lw_suffixState w \<noteq> suffixCommitted
     | WPace tok lead suffix wo \<Rightarrow>
         sends t = [(lead, None)] \<and> lw_lead w = lead \<and> lw_suffix w = suffix \<and>
         lw_suffixState w \<noteq> suffixCommitted
     | WSuffix tok lead suffix wo \<Rightarrow>
         sends t = [(lead, None)] \<and> lw_lead w = lead \<and> lw_suffix w = suffix \<and>
         lw_suffixState w \<noteq> suffixCommitted
     | WAwait wo \<Rightarrow>
         lw_suffixState w = suffixCommitted \<and>
         (\<exists>l1 l2. t = l1 @ Sent (lw_suffix w) None # l2 \<and> sends l1 = [(lw_lead w, None)] \<and> sends l2 = [])
     | _ \<Rightarrow> False)"

definition wait_inv :: "ebus_protocol \<Rightarrow> nat \<Rightarrow> pair_world \<Rightarrow> bool" where
  "wait_inv P i s \<longleftrightarrow>
     (\<exists>l0 t. io s = l0 @ Armed # t \<and> sends l0 = [] \<and> log_phase (pc s) (waits s i) t \<and>
        lw_leadEchoed (waits s i) = lw_leadSeen (waits s i) \<and>
        (leadWait s = Some i \<and> published_ok P (waits s i) t \<or>
         leadWait s = None \<and> resolved_ok P (waits s i) t))"

text \<open>A finished write: nothing is expected any more, and success means the pair was answered.\<close>

definition done_inv :: "ebus_protocol \<Rightarrow> bool \<Rightarrow> pair_world \<Rightarrow> write_error option \<Rightarrow> bool" where
  "done_inv P raw s er \<longleftrightarrow>
     leadWait s = None \<and> length (sends (io s)) \<le> 2 \<and>
     (er = None \<and> raw \<longrightarrow>
        (\<exists>lead suffix l0 t. io s = l0 @ Armed # t \<and> sends l0 = [] \<and> answered P lead suffix suffix t))"

fun pc_wait :: "writer_pc \<Rightarrow> nat option" where
  "pc_wait (WLead tok lead suffix wo) = wo"
| "pc_wait (WPace tok lead suffix wo) = wo"
| "pc_wait (WSuffix tok lead suffix wo) = wo"
| "pc_wait (WAwait wo) = wo"
| "pc_wait _ = None"

fun sent_count :: "writer_pc \<Rightarrow> nat" where
  "sent_count (WPace tok lead suffix wo) = 1"
| "sent_count (WSuffix tok lead suffix wo) = 1"
| "sent_count (WAwait wo) = 2"
| "sent_count _ = 0"

definition pair_inv :: "ebus_protocol \<Rightarrow> bool \<Rightarrow> pair_world \<Rightarrow> bool" where
  "pair_inv P raw s \<longleftrightarrow> (case pc s of
       WDone er \<Rightarrow> done_inv P raw s er
     | p \<Rightarrow> length (sends (io s)) = sent_count p \<and>
         (case pc_wait p of None \<Rightarrow> leadWait s = None \<and> (raw \<longrightarrow> p = WIdle \<or> (\<exists>tok l sf. p = WArm tok l sf))
          | Some i \<Rightarrow> wait_inv P i s))"

text \<open>What a position still intends: the token it holds and the two symbols it will write.\<close>

fun pc_aim :: "writer_pc \<Rightarrow> (ownershipToken \<times> byte \<times> byte) option" where
  "pc_aim (WArm tok lead suffix) = Some (tok, lead, suffix)"
| "pc_aim (WLead tok lead suffix wo) = Some (tok, lead, suffix)"
| "pc_aim (WPace tok lead suffix wo) = Some (tok, lead, suffix)"
| "pc_aim (WSuffix tok lead suffix wo) = Some (tok, lead, suffix)"
| "pc_aim _ = None"

definition tok_current :: "ownershipToken \<Rightarrow> arbitrator \<Rightarrow> bool" where
  "tok_current tok a \<longleftrightarrow> lifecycleEpoch a = tok_epoch tok \<and> hasOwner a \<and>
     currentOwner a = tok_sessionID tok \<and> ownershipGen a = tok_gen tok"

text \<open>
  The writer's side of the log: only the lead and then the suffix are written, each at a moment
  the token was current.
\<close>

definition log_owned :: "arbitrator \<Rightarrow> nat list \<Rightarrow> ownershipToken \<Rightarrow> byte \<Rightarrow> byte \<Rightarrow> wire_log list \<Rightarrow> bool" where
  "log_owned a out tok lead suffix log \<longleftrightarrow>
     map fst (sends log) \<in> {[], [lead], [lead, suffix]} \<and>
     (\<forall>l1 b er l2. log = l1 @ Sent b er # l2 \<longrightarrow>
        tok_current tok (fst (foldl arb_step (a, out) (calls l1))))"

definition pair_track :: "arbitrator \<Rightarrow> nat list \<Rightarrow> ownershipToken \<Rightarrow> byte \<Rightarrow> byte \<Rightarrow> pair_world \<Rightarrow> bool" where
  "pair_track a out tok lead suffix s \<longleftrightarrow>
     pc s \<noteq> WIdle \<and> pc_aim (pc s) \<in> {None, Some (tok, lead, suffix)} \<and>
     (arb s, arb_out s) = foldl arb_step (a, out) (calls (io s)) \<and>
     log_owned a out tok lead suffix (io s)"

text \<open>Two runs of a write of the pair \<^verbatim>\<open>A9 00\<close> by a gateway that owns the bus.\<close>

definition owned_start :: pair_world where
  "owned_start = pair_start (confirmOwnership 0 0x31 newArbitrator) []
     (\<lambda>_. \<lparr> lw_lead = 0, lw_suffix = 0, lw_result = [], lw_leadEchoed = False, lw_leadSeen = False,
            lw_suffixState = suffixPending \<rparr>) 0
     \<lparr> snapshot = \<lparr> LeadFailures = 0, SuffixFailures = 0, LastStep = None, LastWritten = 0,
         LastObserved = 0, LastEchoObserved = False \<rparr>, lastLogAt = None, suppressed = 0 \<rparr>"

definition raw_only :: stream_event where
  "raw_only = \<lparr> ev_Kind = StreamEventNone, ev_Byte = 0, ev_WasEscaped = False \<rparr>"

definition clean_echo :: "pair_label list" where
  "clean_echo = [Arm, WriteLead None, Observe 0xA9 raw_only, Pace LeadEchoed 0, WriteSuffix 0 None,
     Observe 0x00 raw_only, Await ResultReady 0]"

section \<open>Lemmas\<close>

lemma log_append [simp]:
  "sends (xs @ ys) = sends xs @ sends ys"
  "seens (xs @ ys) = seens xs @ seens ys"
  "calls (xs @ ys) = calls xs @ calls ys"
  by (induction xs rule: sends.induct; simp)+

lemma syns_only_simps [simp]:
  "syns_only P []" "syns_only P (xs @ ys) \<longleftrightarrow> syns_only P xs \<and> syns_only P ys"
  "syns_only P ((b, e) # xs) \<longleftrightarrow> structural_syn P e \<and> syns_only P xs"
  by (simp_all add: syns_only_def)

lemma answered_grows:
  "answered P lead suffix obs t \<Longrightarrow> sends [x] = [] \<Longrightarrow> answered P lead suffix obs (t @ [x])"
proof -
  assume "answered P lead suffix obs t" and x: "sends [x] = []"
  then obtain l1 l2 l3 e e' ss where
    "t = l1 @ Sent suffix None # l2 @ Seen obs e # l3" "sends l1 = [(lead, None)]"
    "sends (l2 @ l3) = []" "seens (l1 @ l2) = ss @ [(lead, e')]" "syns_only P ss"
    unfolding answered_def by blast
  then show ?thesis
    unfolding answered_def
    by (intro exI[of _ l1] exI[of _ l2] exI[of _ "l3 @ [x]"] exI[of _ e] exI[of _ e'] exI[of _ ss])
       (simp add: x)
qed

lemma log_phase_grows:
  "log_phase p w t \<Longrightarrow> sends [x] = [] \<Longrightarrow> log_phase p w (t @ [x])"
proof -
  assume ph: "log_phase p w t" and x: "sends [x] = []"
  show ?thesis
  proof (cases p)
    case (WAwait wo)
    with ph obtain l1 l2 where
      "t = l1 @ Sent (lw_suffix w) None # l2" "sends l1 = [(lw_lead w, None)]" "sends l2 = []"
      "lw_suffixState w = suffixCommitted"
      by (auto simp: log_phase_def)
    with WAwait x show ?thesis
      by (simp add: log_phase_def) (metis append.assoc append_Cons append_Nil2 log_append(1))
  qed (use ph x in \<open>auto simp: log_phase_def\<close>)
qed

lemma resolved_grows:
  "resolved_ok P w t \<Longrightarrow> sends [x] = [] \<Longrightarrow> resolved_ok P w (t @ [x])"
  unfolding resolved_ok_def using answered_grows by blast

lemma published_silent:
  "published_ok P w t \<Longrightarrow> seens [x] = [] \<Longrightarrow> published_ok P w (t @ [x])"
  by (simp add: published_ok_def)

lemma wait_inv_call:
  assumes "wait_inv P i s"
  shows "wait_inv P i (s\<lparr> arb := a, arb_out := out, io := io s @ [Called op] \<rparr>)"
proof -
  from assms obtain l0 t where "io s = l0 @ Armed # t" "sends l0 = []"
    "log_phase (pc s) (waits s i) t" "lw_leadEchoed (waits s i) = lw_leadSeen (waits s i)"
    "leadWait s = Some i \<and> published_ok P (waits s i) t \<or>
     leadWait s = None \<and> resolved_ok P (waits s i) t"
    unfolding wait_inv_def by blast
  then show ?thesis
    using log_phase_grows[of "pc s" "waits s i" t "Called op"]
      resolved_grows[of P "waits s i" t "Called op"] published_silent[of P "waits s i" t "Called op"]
    unfolding wait_inv_def by (intro exI[of _ l0] exI[of _ "t @ [Called op]"]) auto
qed

text \<open>
  The tail of the log at the moment a published wait is resolved: if the suffix was committed,
  the symbol answers it.
\<close>

lemma committed_answer:
  assumes "log_phase p w t" "published_ok P w t" "lw_leadSeen w" "lw_suffixState w = suffixCommitted"
  shows "answered P (lw_lead w) (lw_suffix w) b (t @ [Seen b e])"
proof -
  from assms(1,4) obtain l1 l2 where t: "t = l1 @ Sent (lw_suffix w) None # l2"
    "sends l1 = [(lw_lead w, None)]" "sends l2 = []"
    by (cases p) (auto simp: log_phase_def)
  moreover from assms(2,3) obtain ss e' where "seens t = ss @ [(lw_lead w, e')]" "syns_only P ss"
    by (auto simp: published_ok_def lead_step_def)
  ultimately show ?thesis
    unfolding answered_def
    by (intro exI[of _ l1] exI[of _ l2] exI[of _ "[]"] exI[of _ e] exI[of _ e'] exI[of _ ss]) simp
qed

lemma log_phase_keep:
  "log_phase p w t \<Longrightarrow> lw_lead w' = lw_lead w \<Longrightarrow> lw_suffix w' = lw_suffix w \<Longrightarrow>
   (lw_suffixState w' = suffixCommitted \<longleftrightarrow> lw_suffixState w = suffixCommitted) \<Longrightarrow>
   log_phase p w' t"
  by (simp add: log_phase_def split: writer_pc.splits)

lemma set_wait_simps [simp]:
  "waits (set_wait i w s) = (waits s)(i := w)" "leadWait (set_wait i w s) = leadWait s"
  "io (set_wait i w s) = io s" "pc (set_wait i w s) = pc s" "arb (set_wait i w s) = arb s"
  "arb_out (set_wait i w s) = arb_out s" "diag (set_wait i w s) = diag s"
  "logged (set_wait i w s) = logged s" "failures_total (set_wait i w s) = failures_total s"
  by (simp_all add: set_wait_def)

lemma wait_invI:
  assumes "io s = l0 @ Armed # t" "sends l0 = []" "log_phase (pc s) (waits s i) t"
    "lw_leadEchoed (waits s i) = lw_leadSeen (waits s i)"
    "leadWait s = Some i \<and> published_ok P (waits s i) t \<or>
     leadWait s = None \<and> resolved_ok P (waits s i) t"
  shows "wait_inv P i s"
  using assms unfolding wait_inv_def by blast

lemma wait_invE:
  assumes "wait_inv P i s"
  obtains (published) l0 t where "io s = l0 @ Armed # t" "sends l0 = []"
      "log_phase (pc s) (waits s i) t" "lw_leadEchoed (waits s i) = lw_leadSeen (waits s i)"
      "leadWait s = Some i" "published_ok P (waits s i) t"
    | (resolved) l0 t where "io s = l0 @ Armed # t" "sends l0 = []"
      "log_phase (pc s) (waits s i) t" "lw_leadEchoed (waits s i) = lw_leadSeen (waits s i)"
      "leadWait s = None" "resolved_ok P (waits s i) t"
  using assms unfolding wait_inv_def by blast

text \<open>A published wait that takes an outcome: the pair of state and log it ends in.\<close>

definition take_outcome :: "nat \<Rightarrow> suffix_state \<Rightarrow> gatewayLeadOutcome \<Rightarrow> pair_world \<Rightarrow> pair_world" where
  "take_outcome i st out s =
     set_wait i ((waits s i)\<lparr> lw_suffixState := st, lw_result := [out] \<rparr>) (s\<lparr> leadWait := None \<rparr>)"

lemma wait_inv_outcome:
  assumes "io s = l0 @ Armed # t" "sends l0 = []" "log_phase (pc s) (waits s i) t"
    "lw_leadEchoed (waits s i) = lw_leadSeen (waits s i)"
    and st: "st = suffixCommitted \<longleftrightarrow> lw_suffixState (waits s i) = suffixCommitted"
    and out: "st = suffixRefuted \<longleftrightarrow> out_err out = None \<and> out_early out"
    and ans: "out_err out = None \<Longrightarrow> out_suffixStep out \<Longrightarrow> \<not> out_early out \<Longrightarrow>
      answered P (lw_lead (waits s i)) (lw_suffix (waits s i)) (out_observed out) t"
  shows "wait_inv P i (take_outcome i st out s)"
proof (rule wait_invI[of _ l0 t])
  show "log_phase (pc (take_outcome i st out s)) (waits (take_outcome i st out s) i) t"
    using log_phase_keep[OF assms(3)] st by (simp add: take_outcome_def)
  show "leadWait (take_outcome i st out s) = Some i \<and>
      published_ok P (waits (take_outcome i st out s) i) t \<or>
    leadWait (take_outcome i st out s) = None \<and> resolved_ok P (waits (take_outcome i st out s) i) t"
    using out ans by (simp add: take_outcome_def resolved_ok_def)
qed (simp_all add: take_outcome_def assms(1,2,4))

lemma resolve_outcome:
  assumes "leadWait s = Some i" "lw_result (waits s i) = []"
  shows "resolveGatewayLeadWait i b step s =
    take_outcome i (if lw_suffixState (waits s i) = suffixPending then suffixRefuted
                    else lw_suffixState (waits s i))
      \<lparr> out_observed = b, out_early = (lw_suffixState (waits s i) = suffixPending),
        out_suffixStep = step, out_err = None \<rparr> s"
  using assms by (simp add: resolveGatewayLeadWait_def take_outcome_def Let_def)

lemma wait_inv_observe:
  assumes "wait_inv P i s"
  shows "wait_inv P i (observeGatewayLeadEcho P b e (s\<lparr> io := io s @ [Seen b e] \<rparr>))"
  using assms
proof (cases rule: wait_invE)
  case (resolved l0 t)
  then show ?thesis
    by (intro wait_invI[of _ l0 "t @ [Seen b e]"])
       (simp_all add: observeGatewayLeadEcho_def log_phase_grows resolved_grows)
next
  case (published l0 t)
  let ?w = "waits s i" and ?s = "s\<lparr> io := io s @ [Seen b e] \<rparr>"
  have res: "lw_result ?w = []" and nref: "lw_suffixState ?w \<noteq> suffixRefuted"
    and ld: "lead_step P ?w (seens t)"
    using published(6) by (simp_all add: published_ok_def)
  have ph: "log_phase (pc s) ?w (t @ [Seen b e])" using published(3) by (simp add: log_phase_grows)
  have resolve: "wait_inv P i (resolveGatewayLeadWait i b step ?s)" if "step \<longrightarrow> lw_leadSeen ?w" for step
  proof (subst resolve_outcome)
    have "answered P (lw_lead ?w) (lw_suffix ?w) b (t @ [Seen b e])"
      if "step" "lw_suffixState ?w \<noteq> suffixPending"
      using committed_answer[OF published(3,6)] that \<open>step \<longrightarrow> _\<close> nref
      by (cases "lw_suffixState ?w") auto
    then show "wait_inv P i (take_outcome i (if lw_suffixState (waits ?s i) = suffixPending
        then suffixRefuted else lw_suffixState (waits ?s i))
      \<lparr> out_observed = b, out_early = (lw_suffixState (waits ?s i) = suffixPending),
        out_suffixStep = step, out_err = None \<rparr> ?s)"
      by (intro wait_inv_outcome[of _ l0 "t @ [Seen b e]"])
         (use published nref ph in \<open>simp_all split: if_splits\<close>)
  qed (simp_all add: published res)
  have lead: "wait_inv P i (set_wait i (?w\<lparr> lw_leadSeen := True, lw_leadEchoed := True \<rparr>) ?s)"
    if "\<not> lw_leadSeen ?w" "b = lw_lead ?w"
    using published ld nref res that log_phase_keep[OF ph]
    by (intro wait_invI[of _ l0 "t @ [Seen b e]"]) (simp_all add: published_ok_def lead_step_def)
  have noise: "wait_inv P i ?s" if "\<not> lw_leadSeen ?w" "structural_syn P e"
    using published ph ld nref res that
    by (intro wait_invI[of _ l0 "t @ [Seen b e]"]) (simp_all add: published_ok_def lead_step_def)
  show ?thesis
    using resolve lead noise published(5) by (simp add: observeGatewayLeadEcho_def Let_def)
qed

lemma wait_inv_retire:
  assumes "wait_inv P i s" shows "wait_inv P i (retire_swap er s)"
  using assms
proof (cases rule: wait_invE)
  case (resolved l0 t)
  then show ?thesis using assms by (simp add: retire_swap_def)
next
  case (published l0 t)
  have "retire_swap er s = take_outcome i (lw_suffixState (waits s i))
      \<lparr> out_observed = 0, out_early = False, out_suffixStep = False, out_err = Some er \<rparr> s"
    using published by (simp add: retire_swap_def take_outcome_def published_ok_def)
  with published show ?thesis
    by (auto simp: published_ok_def intro!: wait_inv_outcome[of _ l0 t])
qed

lemma answered_sends:
  "answered P lead suffix obs t \<Longrightarrow> sends t = [(lead, None), (suffix, None)]"
  by (auto simp: answered_def)

lemma record_frame [frame]:
  "leadWait (recordGatewayEscapeEchoFailure e now s) = leadWait s"
  "waits (recordGatewayEscapeEchoFailure e now s) = waits s"
  "io (recordGatewayEscapeEchoFailure e now s) = io s"
  "pc (recordGatewayEscapeEchoFailure e now s) = pc s"
  "arb (recordGatewayEscapeEchoFailure e now s) = arb s"
  "arb_out (recordGatewayEscapeEchoFailure e now s) = arb_out s"
  by (simp_all add: recordGatewayEscapeEchoFailure_def Let_def)

lemma failure_frame [frame]:
  "leadWait (fst (gatewayPairFailure now w out s)) = leadWait s"
  "waits (fst (gatewayPairFailure now w out s)) = waits s"
  "io (fst (gatewayPairFailure now w out s)) = io s"
  "pc (fst (gatewayPairFailure now w out s)) = pc s"
  "arb (fst (gatewayPairFailure now w out s)) = arb s"
  "arb_out (fst (gatewayPairFailure now w out s)) = arb_out s"
  by (simp_all add: gatewayPairFailure_def Let_def record_frame split: option.split)

lemma failure_none:
  "snd (gatewayPairFailure now w out s) = None \<longleftrightarrow>
   out_err out = None \<and> out_suffixStep out \<and> \<not> out_early out \<and> out_observed out = lw_suffix w"
  by (simp add: gatewayPairFailure_def Let_def split: option.split)

lemma wait_inv_sent_lead:
  assumes "wait_inv P i s" "pc s = WLead tok l sf (Some i)"
  shows "wait_inv P i (s\<lparr> io := io s @ [Sent l None], pc := WPace tok l sf (Some i) \<rparr>)"
  using assms(1)
proof (cases rule: wait_invE)
  case (published l0 t)
  then show ?thesis using assms(2)
    by (intro wait_invI[of _ l0 "t @ [Sent l None]"]) (simp_all add: log_phase_def published_ok_def)
next
  case (resolved l0 t)
  then have "resolved_ok P (waits s i) (t @ [Sent l None])"
    using assms(2) by (auto simp: log_phase_def resolved_ok_def dest: answered_sends)
  with resolved show ?thesis using assms(2)
    by (intro wait_invI[of _ l0 "t @ [Sent l None]"]) (simp_all add: log_phase_def)
qed

lemma wait_inv_paced:
  assumes "wait_inv P i s" "pc s = WPace tok l sf (Some i)"
  shows "wait_inv P i (s\<lparr> pc := WSuffix tok l sf (Some i) \<rparr>)"
  using assms(1) by (cases rule: wait_invE; intro wait_invI) (use assms(2) in \<open>auto simp: log_phase_def\<close>)

lemma log_phase_claimed:
  assumes "log_phase (WSuffix tok l sf wo) w t"
  shows "log_phase (WAwait wo) (w\<lparr> lw_suffixState := suffixCommitted \<rparr>) (t @ [Sent sf None])"
  unfolding log_phase_def writer_pc.case
  by (intro conjI, simp, rule exI[of _ t], rule exI[of _ "[]"])
     (use assms in \<open>auto simp: log_phase_def\<close>)

lemma wait_inv_claim:
  assumes "wait_inv P i s" "pc s = WSuffix tok l sf (Some i)"
    "lw_suffixState (waits s i) = suffixPending"
  shows "wait_inv P i ((set_wait i ((waits s i)\<lparr> lw_suffixState := suffixCommitted \<rparr>) s)
    \<lparr> io := io s @ [Sent sf None], pc := WAwait (Some i) \<rparr>)"
  using assms(1)
proof (cases rule: wait_invE)
  case (published l0 t)
  then have "published_ok P ((waits s i)\<lparr> lw_suffixState := suffixCommitted \<rparr>) (t @ [Sent sf None])"
    by (auto simp: published_ok_def lead_step_def)
  with published show ?thesis using assms(2,3) log_phase_claimed[of tok l sf "Some i" "waits s i" t]
    by (intro wait_invI[of _ l0 "t @ [Sent sf None]"]) simp_all
next
  case (resolved l0 t)
  then have "resolved_ok P ((waits s i)\<lparr> lw_suffixState := suffixCommitted \<rparr>) (t @ [Sent sf None])"
    using assms(2,3) by (auto simp: log_phase_def resolved_ok_def dest: answered_sends)
  with resolved show ?thesis using assms(2,3) log_phase_claimed[of tok l sf "Some i" "waits s i" t]
    by (intro wait_invI[of _ l0 "t @ [Sent sf None]"]) simp_all
qed

text \<open>An outcome taken before the suffix was claimed is never a success.\<close>

lemma recv_failure_early:
  assumes "wait_inv P i s" "\<forall>wo. pc s \<noteq> WAwait wo" "recv_failure now i s = Some (s', e)"
  shows "e \<noteq> None \<and> leadWait s' = None \<and> io s' = io s \<and> pc s' = pc s"
proof -
  from assms(3) obtain out rest where r: "lw_result (waits s i) = out # rest"
    and s': "(s', e) = gatewayPairFailure now ((waits s i)\<lparr> lw_result := rest \<rparr>) out
               (set_wait i ((waits s i)\<lparr> lw_result := rest \<rparr>) s)"
    by (auto simp: recv_failure_def recv_result_def split: list.splits)
  from assms(1) show ?thesis
  proof (cases rule: wait_invE)
    case (published l0 t)
    with r show ?thesis by (simp add: published_ok_def)
  next
    case (resolved l0 t)
    then have "\<not> answered P (lw_lead (waits s i)) (lw_suffix (waits s i)) (out_observed out) t"
      using assms(2) by (cases "pc s") (auto simp: log_phase_def dest: answered_sends)
    with resolved r have "\<not> (out_err out = None \<and> out_suffixStep out \<and> \<not> out_early out)"
      by (auto simp: resolved_ok_def)
    then have "snd (gatewayPairFailure now ((waits s i)\<lparr> lw_result := rest \<rparr>) out
               (set_wait i ((waits s i)\<lparr> lw_result := rest \<rparr>) s)) \<noteq> None"
      by (auto simp: failure_none)
    with s' resolved show ?thesis
      by (metis failure_frame(1,3,4) fst_conv set_wait_simps(2,3,4) snd_conv)
  qed
qed

lemma recv_failure_answer:
  assumes "wait_inv P i s" "pc s = WAwait (Some i)" "recv_failure now i s = Some (s', None)"
  obtains lead suffix l0 t where
    "io s = l0 @ Armed # t" "sends l0 = []" "answered P lead suffix suffix t"
proof -
  from assms(3) obtain out rest where r: "lw_result (waits s i) = out # rest"
    and s': "(s', None) = gatewayPairFailure now ((waits s i)\<lparr> lw_result := rest \<rparr>) out
               (set_wait i ((waits s i)\<lparr> lw_result := rest \<rparr>) s)"
    by (auto simp: recv_failure_def recv_result_def split: list.splits)
  then have "snd (gatewayPairFailure now ((waits s i)\<lparr> lw_result := rest \<rparr>) out
               (set_wait i ((waits s i)\<lparr> lw_result := rest \<rparr>) s)) = None"
    by (metis snd_conv)
  then have ok: "out_err out = None" "out_suffixStep out" "\<not> out_early out"
      "out_observed out = lw_suffix (waits s i)"
    by (simp_all add: failure_none)
  from assms(1) show ?thesis
  proof (cases rule: wait_invE)
    case (published l0 t)
    with r show ?thesis by (simp add: published_ok_def)
  next
    case (resolved l0 t)
    with ok r have "answered P (lw_lead (waits s i)) (lw_suffix (waits s i)) (lw_suffix (waits s i)) t"
      by (auto simp: resolved_ok_def)
    with resolved show ?thesis by (intro that)
  qed
qed

lemma recv_failure_frame:
  "recv_failure now i s = Some (s', e) \<Longrightarrow> leadWait s' = leadWait s \<and> io s' = io s \<and> pc s' = pc s"
  by (auto simp: recv_failure_def recv_result_def failure_frame split: list.splits
      dest!: arg_cong[of _ _ fst])

lemma observe_frame [frame, simp]:
  "io (observeGatewayLeadEcho P b e s) = io s" "pc (observeGatewayLeadEcho P b e s) = pc s"
  "arb (observeGatewayLeadEcho P b e s) = arb s" "arb_out (observeGatewayLeadEcho P b e s) = arb_out s"
  by (simp_all add: observeGatewayLeadEcho_def resolveGatewayLeadWait_def Let_def split: option.split)

lemma retire_frame [frame, simp]:
  "io (retire_swap er s) = io s" "pc (retire_swap er s) = pc s"
  "arb (retire_swap er s) = arb s" "arb_out (retire_swap er s) = arb_out s"
  by (simp_all add: retire_swap_def split: option.split)

lemma no_wait_unmoved [simp]:
  "leadWait s = None \<Longrightarrow> observeGatewayLeadEcho P b e s = s"
  "leadWait s = None \<Longrightarrow> retire_swap er s = s"
  by (simp_all add: observeGatewayLeadEcho_def retire_swap_def)

lemma drop_frame [simp]:
  "io (dropGatewayLeadWait wo s) = io s" "pc (dropGatewayLeadWait wo s) = pc s"
  "arb (dropGatewayLeadWait wo s) = arb s" "arb_out (dropGatewayLeadWait wo s) = arb_out s"
  "waits (dropGatewayLeadWait wo s) = waits s"
  by (simp_all add: dropGatewayLeadWait_def)

lemma done_grows:
  assumes "done_inv P raw s er" "sends [x] = []" "leadWait s' = None" "io s' = io s @ [x]"
  shows "done_inv P raw s' er"
  unfolding done_inv_def
proof (intro conjI impI)
  assume ok: "er = None \<and> raw"
  with assms(1) obtain lead suffix l0 t where
    "io s = l0 @ Armed # t" "sends l0 = []" "answered P lead suffix suffix t"
    unfolding done_inv_def by blast
  then show "\<exists>lead suffix l0 t. io s' = l0 @ Armed # t \<and> sends l0 = [] \<and> answered P lead suffix suffix t"
    using answered_grows[OF _ assms(2)] assms(4)
    by (intro exI[of _ lead] exI[of _ suffix] exI[of _ l0] exI[of _ "t @ [x]"]) simp
qed (use assms in \<open>simp_all add: done_inv_def\<close>)

lemma done_leadWait: "done_inv P raw s er \<Longrightarrow> leadWait s = None"
  by (simp add: done_inv_def)

text \<open>The invariant at a state whose position is known.\<close>

lemma pair_inv_at:
  "pc s = WIdle \<Longrightarrow> pair_inv P raw s \<longleftrightarrow> sends (io s) = [] \<and> leadWait s = None"
  "pc s = WArm tok l sf \<Longrightarrow> pair_inv P raw s \<longleftrightarrow> sends (io s) = [] \<and> leadWait s = None"
  "pc s = WLead tok l sf (Some i) \<Longrightarrow> pair_inv P raw s \<longleftrightarrow> sends (io s) = [] \<and> wait_inv P i s"
  "pc s = WLead tok l sf None \<Longrightarrow> pair_inv P raw s \<longleftrightarrow> sends (io s) = [] \<and> leadWait s = None \<and> \<not> raw"
  "pc s = WPace tok l sf (Some i) \<Longrightarrow> pair_inv P raw s \<longleftrightarrow> length (sends (io s)) = 1 \<and> wait_inv P i s"
  "pc s = WPace tok l sf None \<Longrightarrow>
     pair_inv P raw s \<longleftrightarrow> length (sends (io s)) = 1 \<and> leadWait s = None \<and> \<not> raw"
  "pc s = WSuffix tok l sf (Some i) \<Longrightarrow> pair_inv P raw s \<longleftrightarrow> length (sends (io s)) = 1 \<and> wait_inv P i s"
  "pc s = WSuffix tok l sf None \<Longrightarrow>
     pair_inv P raw s \<longleftrightarrow> length (sends (io s)) = 1 \<and> leadWait s = None \<and> \<not> raw"
  "pc s = WAwait (Some i) \<Longrightarrow> pair_inv P raw s \<longleftrightarrow> length (sends (io s)) = 2 \<and> wait_inv P i s"
  "pc s = WAwait None \<Longrightarrow> pair_inv P raw s \<longleftrightarrow> length (sends (io s)) = 2 \<and> leadWait s = None \<and> \<not> raw"
  "pc s = WDone er \<Longrightarrow> pair_inv P raw s \<longleftrightarrow> done_inv P raw s er"
  by (simp_all add: pair_inv_def)

text \<open>
  A step of the surroundings appends at most one entry that is not a write, keeps the position
  and moves the wait by an operation that keeps \<open>wait_inv\<close>.
\<close>

lemma pair_inv_env:
  assumes "pair_inv P raw s" "pc s' = pc s" "sends (io s') = sends (io s)"
    "leadWait s = None \<Longrightarrow> leadWait s' = None"
    "\<And>i. wait_inv P i s \<Longrightarrow> wait_inv P i s'"
    "\<And>er. done_inv P raw s er \<Longrightarrow> done_inv P raw s' er"
  shows "pair_inv P raw s'"
  using assms unfolding pair_inv_def by (auto split: writer_pc.splits option.splits)

lemma pair_inv_observe:
  assumes "pair_inv P raw s"
  shows "pair_inv P raw (pair_step P raw s (Observe b e))"
proof (rule pair_inv_env[OF assms])
  fix er assume d: "done_inv P raw s er"
  show "done_inv P raw (pair_step P raw s (Observe b e)) er"
    by (rule done_grows[OF d, of "Seen b e"]) (simp_all add: pair_step_def done_leadWait[OF d])
qed (simp_all add: pair_step_def wait_inv_observe)

lemma pair_inv_call:
  assumes "pair_inv P raw s"
  shows "pair_inv P raw (pair_step P raw s (ArbCall op))"
proof (rule pair_inv_env[OF assms])
  fix er assume d: "done_inv P raw s er"
  show "done_inv P raw (pair_step P raw s (ArbCall op)) er"
    by (rule done_grows[OF d, of "Called op"])
       (simp_all add: pair_step_def case_prod_beta Let_def done_leadWait[OF d])
qed (simp_all add: pair_step_def case_prod_beta Let_def wait_inv_call)

lemma pair_inv_retire:
  "pair_inv P raw s \<Longrightarrow> pair_inv P raw (pair_step P raw s (RetireSwap er))"
  by (rule pair_inv_env[where s = s])
     (auto simp: pair_step_def intro: wait_inv_retire simp: done_inv_def)

lemma dropped_done:
  assumes "pc s' = WDone (Some er)" "leadWait s' = None" "length (sends (io s')) \<le> 2"
  shows "pair_inv P raw s'"
  using assms by (simp add: pair_inv_at done_inv_def)

lemma wait_drop:
  "wait_inv P i s \<Longrightarrow> leadWait (dropGatewayLeadWait (Some i) s) = None"
  by (auto simp: wait_inv_def dropGatewayLeadWait_def)

lemma arm_wait_inv:
  assumes "sends (io s) = []"
  shows "wait_inv P (next_wait s)
    ((fst (armGatewayLeadWait l sf s))\<lparr> pc := WLead tok l sf (Some (next_wait s)) \<rparr>)"
  using assms by (intro wait_invI[of _ "io s" "[]"])
    (simp_all add: armGatewayLeadWait_def Let_def log_phase_def published_ok_def lead_step_def)

lemma pair_inv_arm:
  "pair_inv P raw s \<Longrightarrow> pair_inv P raw (pair_step P raw s Arm)"
proof (cases "pc s")
  case (WArm tok l sf)
  assume inv: "pair_inv P raw s"
  then have emp: "sends (io s) = []" "leadWait s = None" using WArm by (simp_all add: pair_inv_at)
  show ?thesis
  proof (cases raw)
    case True
    have "pair_step P raw s Arm =
        (fst (armGatewayLeadWait l sf s))\<lparr> pc := WLead tok l sf (Some (next_wait s)) \<rparr>"
      using True WArm by (simp add: pair_step_def armGatewayLeadWait_def Let_def)
    with arm_wait_inv[OF emp(1), of P tok l sf] emp show ?thesis
      by (simp add: pair_inv_at armGatewayLeadWait_def Let_def)
  next
    case False
    with WArm emp show ?thesis by (simp add: pair_step_def pair_inv_at)
  qed
qed (simp_all add: pair_step_def)

lemma pair_inv_write_lead:
  "pair_inv P raw s \<Longrightarrow> pair_inv P raw (pair_step P raw s (WriteLead er))"
proof (cases "pc s")
  case (WLead tok l sf wo)
  assume inv: "pair_inv P raw s"
  then have emp: "sends (io s) = []"
    and w: "\<And>i. wo = Some i \<Longrightarrow> wait_inv P i s" and nw: "wo = None \<Longrightarrow> leadWait s = None \<and> \<not> raw"
    using WLead by (auto simp: pair_inv_at pair_inv_def split: option.splits)
  have drop: "leadWait (dropGatewayLeadWait wo s) = None"
    using w nw wait_drop by (cases wo) (auto simp: dropGatewayLeadWait_def)
  have drop': "leadWait (dropGatewayLeadWait wo (s\<lparr> io := x \<rparr>)) = None" for x
    using drop by (auto simp: dropGatewayLeadWait_def)
  have fail: "pair_inv P raw ((dropGatewayLeadWait wo s)\<lparr> pc := WDone (Some e) \<rparr>)" for e
    by (rule dropped_done) (use drop emp in simp_all)
  have fail': "pair_inv P raw ((dropGatewayLeadWait wo (s\<lparr> io := io s @ [Sent l er] \<rparr>))\<lparr> pc := WDone (Some e) \<rparr>)"
    for e by (rule dropped_done) (use drop' emp in simp_all)
  have go: "pair_inv P raw (s\<lparr> io := io s @ [Sent l None], pc := WPace tok l sf wo \<rparr>)"
    using wait_inv_sent_lead[of P _ s tok l sf] WLead w nw emp
    by (cases wo) (simp_all add: pair_inv_at)
  show ?thesis
    using fail fail' go WLead
    by (cases er) (simp_all add: pair_step_def write_lead_def commitWhileOwnershipCurrent_def tr_write_def)
qed (simp_all add: pair_step_def write_lead_def)

lemma pair_inv_start:
  "pair_inv P raw s \<Longrightarrow> pair_inv P raw (pair_step P raw s (Start l sf))"
  by (cases "pc s") (auto simp: pair_step_def pair_inv_at done_inv_def split: option.splits)

lemma pair_inv_paced_fail:
  assumes "pair_inv P raw s" "pc s = WPace tok l sf (Some i)" "recv_failure now i s = Some (s', e)"
  shows "\<exists>x. e = Some x" "pair_inv P raw (s'\<lparr> pc := WDone (Some y) \<rparr>)"
proof -
  have w: "wait_inv P i s" "length (sends (io s)) = 1" using assms(1,2) by (simp_all add: pair_inv_at)
  note f = recv_failure_early[OF w(1) _ assms(3)]
  show "\<exists>x. e = Some x" using f assms(2) by auto
  show "pair_inv P raw (s'\<lparr> pc := WDone (Some y) \<rparr>)"
    by (rule dropped_done) (use f w assms(2) in simp_all)
qed

lemma pair_inv_pace:
  "pair_inv P raw s \<Longrightarrow> pair_inv P raw (pair_step P raw s (Pace ch now))"
proof (cases "pc s")
  case (WPace tok l sf wo)
  assume inv: "pair_inv P raw s"
  then have one: "length (sends (io s)) = 1"
    and w: "\<And>i. wo = Some i \<Longrightarrow> wait_inv P i s" and nw: "wo = None \<Longrightarrow> leadWait s = None \<and> \<not> raw"
    using WPace by (auto simp: pair_inv_at pair_inv_def split: option.splits)
  have drop: "leadWait (dropGatewayLeadWait wo s) = None"
    using w nw wait_drop by (cases wo) (auto simp: dropGatewayLeadWait_def)
  have ctx: "pair_inv P raw ((dropGatewayLeadWait wo s)\<lparr> pc := WDone (Some y) \<rparr>)" for y
    by (rule dropped_done) (use drop one in simp_all)
  have go: "pair_inv P raw (s\<lparr> pc := WSuffix tok l sf wo \<rparr>)"
    using wait_inv_paced[of P _ s tok l sf] WPace w nw one by (cases wo) (simp_all add: pair_inv_at)
  have fail: "pair_inv P raw (s'\<lparr> pc := WDone (Some y) \<rparr>)"
    if "wo = Some i" "recv_failure now i s = Some (s', e)" for i s' e y
    using pair_inv_paced_fail(2)[OF inv _ that(2)] WPace that(1) by simp
  have never: False if "wo = Some i" "recv_failure now i s = Some (s', None)" for i s'
    using pair_inv_paced_fail(1)[OF inv _ that(2)] WPace that(1) by simp
  show ?thesis
    using ctx go fail never inv WPace
    by (cases ch; cases wo)
       (auto simp: pair_step_def paceGatewaySuffix_def Let_def split: option.splits prod.splits)
qed (simp_all add: pair_step_def)

lemma pair_inv_await:
  "pair_inv P raw s \<Longrightarrow> pair_inv P raw (pair_step P raw s (Await ch now))"
proof (cases "pc s")
  case (WAwait wo)
  assume inv: "pair_inv P raw s"
  show ?thesis
  proof (cases wo)
    case None
    with WAwait inv show ?thesis by (simp add: pair_step_def pair_inv_at done_inv_def)
  next
    case (Some i)
    then have w: "wait_inv P i s" "length (sends (io s)) = 2"
      using WAwait inv by (simp_all add: pair_inv_at)
    have gone: "pair_inv P raw (s'\<lparr> pc := WDone (Some y) \<rparr>)"
      if "leadWait s' = None" "io s' = io s" for s' y
      by (rule dropped_done) (use that w in simp_all)
    have res: "pair_inv P raw (s'\<lparr> pc := WDone (map_option GatewayLeadEcho e) \<rparr>)"
      if r: "recv_failure now i s = Some (s', e)" for s' e
    proof -
      have "lw_result (waits s i) \<noteq> []"
        using r by (auto simp: recv_failure_def recv_result_def split: list.splits)
      then have "leadWait s = None" using w(1) by (auto simp: wait_inv_def published_ok_def)
      with recv_failure_frame[OF r] have s': "leadWait s' = None" "io s' = io s" by simp_all
      show ?thesis
      proof (cases e)
        case None
        obtain lead suffix l0 t where "io s = l0 @ Armed # t" "sends l0 = []"
          "answered P lead suffix suffix t"
          by (rule recv_failure_answer[OF w(1) _ r[unfolded None]]) (simp_all add: WAwait Some)
        with s' w(2) None show ?thesis by (auto simp: pair_inv_at done_inv_def)
      next
        case (Some y)
        with gone[OF s'] show ?thesis by simp
      qed
    qed
    have drop: "pair_inv P raw ((dropGatewayLeadWait (Some i) s)\<lparr> pc := WDone (Some y) \<rparr>)" for y
      by (rule gone) (simp_all add: wait_drop[OF w(1)])
    have rec: "pair_inv P raw ((recordGatewayEscapeEchoFailure e now (dropGatewayLeadWait (Some i) s))
        \<lparr> pc := WDone (Some y) \<rparr>)" for e y
      by (rule gone) (simp_all add: wait_drop[OF w(1)] record_frame)
    show ?thesis
    proof (cases ch)
      case ResultReady
      with WAwait Some inv res show ?thesis
        by (cases "recv_failure now i s") (auto simp: pair_step_def awaitGatewayLeadEcho_def)
    qed (simp_all add: pair_step_def awaitGatewayLeadEcho_def Let_def WAwait Some inv drop rec)
  qed
qed (simp_all add: pair_step_def)

lemma claim_refuted:
  assumes "wait_inv P i s" "pc s = WSuffix tok l sf (Some i)"
    "lw_suffixState (waits s i) \<noteq> suffixPending"
  shows "\<exists>s' out. claim_suffix (Some i) sf er (s, Unclaimed) = ((s', Refuted out), None) \<and>
    leadWait s' = None \<and> io s' = io s \<and> arb s' = arb s \<and> arb_out s' = arb_out s \<and>
    out_err out = None \<and> out_early out"
  using assms(1)
proof (cases rule: wait_invE)
  case (published l0 t)
  with assms(2,3) show ?thesis
    by (cases "lw_suffixState (waits s i)") (auto simp: log_phase_def published_ok_def)
next
  case (resolved l0 t)
  with assms(2,3) have "lw_suffixState (waits s i) = suffixRefuted"
    by (cases "lw_suffixState (waits s i)") (auto simp: log_phase_def)
  with resolved show ?thesis
    by (auto simp: resolved_ok_def claim_suffix_def recv_result_def Let_def)
qed

lemma claim_written:
  assumes "wo = None \<or> (\<exists>i. wo = Some i \<and> lw_suffixState (waits s i) = suffixPending)"
  shows "claim_suffix wo sf er (s, Unclaimed) =
    (((case wo of None \<Rightarrow> s
       | Some i \<Rightarrow> set_wait i ((waits s i)\<lparr> lw_suffixState := suffixCommitted \<rparr>) s)
        \<lparr> io := io s @ [Sent sf er] \<rparr>, Written), er)"
  using assms by (auto simp: claim_suffix_def Let_def tr_write_def)

text \<open>The suffix commit by its three outcomes.\<close>

lemma write_suffix_cases:
  assumes "pair_inv P raw s" "pc s = WSuffix tok l sf wo"
  obtains (withheld) ce where "write_suffix now er s =
        (dropGatewayLeadWait wo s)\<lparr> pc := WDone (Some (withheld gatewayEscapeStepSuffix ce)) \<rparr>"
    | (refuted) s' out where "write_suffix now er s =
        (fst (gatewayPairFailure now (waits s' (the wo)) out s'))\<lparr> pc := WDone (Some (GatewayLeadEcho
           (the (snd (gatewayPairFailure now (waits s' (the wo)) out s'))))) \<rparr>"
        "leadWait s' = None" "io s' = io s" "arb s' = arb s" "arb_out s' = arb_out s" "out_early out"
    | (sent) s' where "s' = (case wo of None \<Rightarrow> s
         | Some i \<Rightarrow> set_wait i ((waits s i)\<lparr> lw_suffixState := suffixCommitted \<rparr>) s)
            \<lparr> io := io s @ [Sent sf er] \<rparr>"
        "\<And>i. wo = Some i \<Longrightarrow> lw_suffixState (waits s i) = suffixPending"
        "write_suffix now er s = (case er of None \<Rightarrow> s'\<lparr> pc := WAwait wo \<rparr>
           | Some x \<Rightarrow> (dropGatewayLeadWait wo s')\<lparr> pc := WDone (Some (TransportError x)) \<rparr>)"
        "lifecycleEpoch (arb s) = tok_epoch tok" "hasOwner (arb s)"
        "currentOwner (arb s) = tok_sessionID tok" "ownershipGen (arb s) = tok_gen tok"
proof (cases "lifecycleEpoch (arb s) \<noteq> tok_epoch tok \<or> \<not> hasOwner (arb s) \<or>
    currentOwner (arb s) \<noteq> tok_sessionID tok \<or> ownershipGen (arb s) \<noteq> tok_gen tok")
  case True
  then obtain ce where "commitWhileOwnershipCurrent tok (claim_suffix wo sf er) (arb s) (s, Unclaimed) =
      ((s, Unclaimed), Some ce)"
    by (cases "lifecycleEpoch (arb s) \<noteq> tok_epoch tok") (auto simp: commitWhileOwnershipCurrent_def)
  with assms(2) show ?thesis by (intro withheld[of ce]) (simp add: write_suffix_def)
next
  case False
  then have tok: "commitWhileOwnershipCurrent tok c (arb s) x =
      (let (w, e) = c x in (w, map_option CommitError e))" for c and x :: "pair_world \<times> suffix_claim"
    by (simp add: commitWhileOwnershipCurrent_def)
  show ?thesis
  proof (cases "wo = None \<or> (\<exists>i. wo = Some i \<and> lw_suffixState (waits s i) = suffixPending)")
    case True
    with False show ?thesis
      by (intro sent[OF refl])
         (use assms(2) tok claim_written[OF True] in
           \<open>auto simp: write_suffix_def withheld_def split: option.split\<close>)
  next
    case nw: False
    then obtain i where i: "wo = Some i" "lw_suffixState (waits s i) \<noteq> suffixPending" by auto
    with assms have "wait_inv P i s" by (simp add: pair_inv_at)
    from claim_refuted[OF this _ i(2), of tok l sf er] i assms(2) obtain s' out where
      "claim_suffix (Some i) sf er (s, Unclaimed) = ((s', Refuted out), None)"
      "leadWait s' = None" "io s' = io s" "arb s' = arb s" "arb_out s' = arb_out s" "out_early out"
      by auto
    with i show ?thesis
      by (intro refuted[of s' out]) (use assms(2) tok in \<open>auto simp: write_suffix_def case_prod_beta\<close>)
  qed
qed

lemma pair_inv_write_suffix:
  "pair_inv P raw s \<Longrightarrow> pair_inv P raw (pair_step P raw s (WriteSuffix now er))"
proof (cases "pc s")
  case (WSuffix tok l sf wo)
  assume inv: "pair_inv P raw s"
  then have one: "length (sends (io s)) = 1"
    and w: "\<And>i. wo = Some i \<Longrightarrow> wait_inv P i s" and nw: "wo = None \<Longrightarrow> leadWait s = None \<and> \<not> raw"
    using WSuffix by (auto simp: pair_inv_at pair_inv_def split: option.splits)
  have drop: "leadWait (dropGatewayLeadWait wo s') = None" if "leadWait s' = leadWait s" for s'
    using w nw wait_drop that by (cases wo) (auto simp: dropGatewayLeadWait_def wait_inv_def)
  from inv WSuffix have "pair_inv P raw (write_suffix now er s)"
  proof (cases rule: write_suffix_cases[where now = now and er = er])
    case (withheld ce)
    show ?thesis unfolding withheld by (rule dropped_done) (use one drop[of s] in simp_all)
  next
    case (refuted s' out)
    show ?thesis unfolding refuted(1)
      by (rule dropped_done) (use one refuted(2,3) in \<open>simp_all add: failure_frame\<close>)
  next
    case (sent s')
    have s': "leadWait s' = leadWait s" "io s' = io s @ [Sent sf er]"
      by (simp_all add: sent(1) split: option.split)
    show ?thesis
    proof (cases er)
      case (Some x)
      have "pair_inv P raw ((dropGatewayLeadWait wo s')\<lparr> pc := WDone (Some (TransportError x)) \<rparr>)"
        by (rule dropped_done) (use one s' drop[OF s'(1)] in simp_all)
      with sent(3) Some show ?thesis by simp
    next
      case None
      with sent(1,2) WSuffix w nw one wait_inv_claim[of P _ s tok l sf]
      have "pair_inv P raw (s'\<lparr> pc := WAwait wo \<rparr>)" by (cases wo) (simp_all add: pair_inv_at)
      with sent(3) None show ?thesis by simp
    qed
  qed
  then show ?thesis by (simp add: pair_step_def)
qed (simp_all add: pair_step_def write_suffix_def)

interpretation pair_write: kept_invariant "pair_step P raw" "pair_inv P raw" for P raw
proof
  fix s l assume "pair_inv P raw s"
  then show "pair_inv P raw (pair_step P raw s l)"
    by (cases l) (simp_all add: pair_inv_start pair_inv_arm pair_inv_write_lead pair_inv_pace
        pair_inv_write_suffix pair_inv_await pair_inv_observe pair_inv_retire pair_inv_call)
qed

lemma pair_start_inv: "pair_inv P raw (pair_start a out ws n d)"
  by (simp add: pair_start_def pair_inv_def)

lemma log_owned_quiet:
  "sends [x] = [] \<Longrightarrow> log_owned a out tok lead suffix log \<Longrightarrow> log_owned a out tok lead suffix (log @ [x])"
  unfolding log_owned_def
proof (intro conjI allI impI)
  fix l1 b er l2
  assume x: "sends [x] = []" and
    own: "map fst (sends log) \<in> {[], [lead], [lead, suffix]} \<and>
     (\<forall>l1 b er l2. log = l1 @ Sent b er # l2 \<longrightarrow> tok_current tok (fst (foldl arb_step (a, out) (calls l1))))"
    and "log @ [x] = l1 @ Sent b er # l2"
  then show "tok_current tok (fst (foldl arb_step (a, out) (calls l1)))"
    by (cases l2 rule: rev_cases) (auto simp flip: append_Cons append_assoc)
qed auto

lemma log_owned_sent:
  assumes "log_owned a out tok lead suffix log" "tok_current tok (fst (foldl arb_step (a, out) (calls log)))"
    "length (sends log) \<le> 1" "b = (if sends log = [] then lead else suffix)"
  shows "log_owned a out tok lead suffix (log @ [Sent b er])"
  unfolding log_owned_def
proof (intro conjI allI impI)
  show "map fst (sends (log @ [Sent b er])) \<in> {[], [lead], [lead, suffix]}"
    using assms by (auto simp: log_owned_def)
  fix l1 b' er' l2 assume "log @ [Sent b er] = l1 @ Sent b' er' # l2"
  with assms(1,2) show "tok_current tok (fst (foldl arb_step (a, out) (calls l1)))"
    by (cases l2 rule: rev_cases) (auto simp: log_owned_def simp flip: append_Cons append_assoc)
qed

lemma pair_trackI:
  assumes "pair_track a out tok lead suffix s" "pc s' \<noteq> WIdle"
    "pc_aim (pc s') \<in> {None, pc_aim (pc s)}" "arb s' = arb s" "arb_out s' = arb_out s"
    "io s' = io s"
  shows "pair_track a out tok lead suffix s'"
  using assms by (auto simp: pair_track_def)

lemma pair_track_noise:
  assumes "pair_track a out tok lead suffix s" "pc s' \<noteq> WIdle"
    "pc_aim (pc s') \<in> {None, pc_aim (pc s)}" "arb s' = arb s" "arb_out s' = arb_out s"
    "io s' = io s @ [x]" "sends [x] = []" "calls [x] = []"
  shows "pair_track a out tok lead suffix s'"
  using assms log_owned_quiet[of x a out tok lead suffix "io s"] by (auto simp: pair_track_def)

lemma pair_track_sent:
  assumes "pair_track a out tok lead suffix s" "pc_aim (pc s) = Some (tk, l, sf)" "pc s' \<noteq> WIdle"
    "pc_aim (pc s') \<in> {None, pc_aim (pc s)}" "arb s' = arb s" "arb_out s' = arb_out s"
    "io s' = io s @ [Sent b er]" "tok_current tk (arb s)" "length (sends (io s)) \<le> 1"
    "b = (if sends (io s) = [] then l else sf)"
  shows "pair_track a out tok lead suffix s'"
proof -
  have eq: "tk = tok" "l = lead" "sf = suffix"
    and cs: "(arb s, arb_out s) = foldl arb_step (a, out) (calls (io s))"
    and own: "log_owned a out tok lead suffix (io s)"
    using assms(1,2) by (auto simp: pair_track_def)
  from cs have "fst (foldl arb_step (a, out) (calls (io s))) = arb s" by (metis fst_conv)
  with assms(8) eq have "tok_current tok (fst (foldl arb_step (a, out) (calls (io s))))" by simp
  moreover have "b = (if sends (io s) = [] then lead else suffix)" using assms(10) eq by simp
  ultimately have "log_owned a out tok lead suffix (io s @ [Sent b er])"
    using log_owned_sent[OF own _ assms(9)] by blast
  with assms(1,3-7) cs show ?thesis by (auto simp: pair_track_def)
qed

lemma recv_failure_views:
  "recv_failure now i s = Some (s', e) \<Longrightarrow>
   io s' = io s \<and> pc s' = pc s \<and> arb s' = arb s \<and> arb_out s' = arb_out s"
  by (auto simp: recv_failure_def recv_result_def failure_frame split: list.splits
      dest!: arg_cong[of _ _ fst])

lemma pace_views:
  assumes "paceGatewaySuffix ch now wo s = Some (s', e)"
  shows "io s' = io s \<and> pc s' = pc s \<and> arb s' = arb s \<and> arb_out s' = arb_out s"
  using assms
  by (cases ch) (auto simp: paceGatewaySuffix_def Let_def split: option.splits if_splits
      dest: recv_failure_views)

lemma await_views:
  assumes "awaitGatewayLeadEcho ch now i s = Some (s', e)"
  shows "io s' = io s \<and> arb s' = arb s \<and> arb_out s' = arb_out s"
proof (cases ch)
  case ResultReady
  with assms show ?thesis by (auto simp: awaitGatewayLeadEcho_def dest: recv_failure_views)
qed (use assms in \<open>auto simp: awaitGatewayLeadEcho_def Let_def record_frame\<close>)

lemma pair_track_write_suffix:
  assumes "pair_inv P raw s" "pair_track a out tok lead suffix s"
  shows "pair_track a out tok lead suffix (write_suffix now er s)"
proof (cases "pc s")
  case (WSuffix tk l sf wo)
  have one: "length (sends (io s)) = 1"
    using assms(1) WSuffix by (auto simp: pair_inv_def split: option.splits)
  from assms(1) WSuffix show ?thesis
  proof (cases rule: write_suffix_cases[where now = now and er = er])
    case (withheld ce)
    show ?thesis unfolding withheld by (rule pair_trackI[OF assms(2)]) simp_all
  next
    case (refuted s' out)
    show ?thesis unfolding refuted(1)
      by (rule pair_trackI[OF assms(2)]) (simp_all add: failure_frame refuted)
  next
    case (sent s')
    have s': "arb s' = arb s" "arb_out s' = arb_out s" "io s' = io s @ [Sent sf er]"
      by (simp_all add: sent(1) split: option.split)
    show ?thesis
      by (rule pair_track_sent[OF assms(2), of tk l sf _ sf er])
         (use sent one s' WSuffix in \<open>auto simp: tok_current_def split: option.split\<close>)
  qed
qed (use assms(2) in \<open>simp_all add: write_suffix_def\<close>)

lemma pair_track_write_lead:
  assumes "pair_inv P raw s" "pair_track a out tok lead suffix s"
  shows "pair_track a out tok lead suffix (write_lead er s)"
proof (cases "pc s")
  case (WLead tk l sf wo)
  have none: "sends (io s) = []"
    using assms(1) WLead by (auto simp: pair_inv_def split: option.splits)
  show ?thesis
  proof (cases "tok_current tk (arb s)")
    case True
    show ?thesis
      by (rule pair_track_sent[OF assms(2), of tk l sf _ l er])
         (use True none WLead in \<open>auto simp: tok_current_def write_lead_def tr_write_def
            commitWhileOwnershipCurrent_def split: option.split\<close>)
  next
    case False
    show ?thesis
      by (rule pair_trackI[OF assms(2)])
         (use False WLead in \<open>auto simp: tok_current_def write_lead_def tr_write_def
            commitWhileOwnershipCurrent_def\<close>)
  qed
qed (use assms(2) in \<open>simp_all add: write_lead_def\<close>)

lemma pair_track_call:
  assumes "pair_track a out tok lead suffix s"
  shows "pair_track a out tok lead suffix (pair_step P raw s (ArbCall op))"
proof -
  have "(arb s, arb_out s) = foldl arb_step (a, out) (calls (io s))"
    using assms by (simp add: pair_track_def)
  then show ?thesis
    using assms log_owned_quiet[of "Called op" a out tok lead suffix "io s"]
    by (simp add: pair_track_def pair_step_def case_prod_beta Let_def)
qed

lemma pair_track_step:
  assumes "pair_inv P raw s" and T: "pair_track a out tok lead suffix s"
  shows "pair_track a out tok lead suffix (pair_step P raw s l)"
proof -
  have ni: "pc s \<noteq> WIdle" using T by (simp add: pair_track_def)
  show ?thesis
  proof (cases l)
    case (Start b c)
    with ni T show ?thesis by (simp add: pair_step_def)
  next
    case Arm
    show ?thesis
    proof (cases "pc s")
      case (WArm tk lw sf)
      show ?thesis
      proof (cases raw)
        case True
        show ?thesis
          by (rule pair_track_noise[OF T, of _ Armed])
             (use True WArm Arm in \<open>simp_all add: pair_step_def armGatewayLeadWait_def Let_def\<close>)
      next
        case False
        show ?thesis
          by (rule pair_trackI[OF T]) (use False WArm Arm in \<open>simp_all add: pair_step_def\<close>)
      qed
    qed (use T Arm in \<open>simp_all add: pair_step_def\<close>)
  next
    case (WriteLead er)
    with pair_track_write_lead[OF assms, of er] show ?thesis by (simp add: pair_step_def)
  next
    case (WriteSuffix now er)
    with pair_track_write_suffix[OF assms, of now er] show ?thesis by (simp add: pair_step_def)
  next
    case (Pace ch now)
    show ?thesis
      by (rule pair_trackI[OF T])
         (use ni Pace in \<open>auto simp: pair_step_def dest!: pace_views split: writer_pc.splits option.splits\<close>)
  next
    case (Await ch now)
    show ?thesis
      by (rule pair_trackI[OF T])
         (use ni Await in \<open>auto simp: pair_step_def dest!: await_views split: writer_pc.splits option.splits\<close>)
  next
    case (Observe b e)
    show ?thesis
      by (rule pair_track_noise[OF T, of _ "Seen b e"]) (use ni Observe in \<open>simp_all add: pair_step_def\<close>)
  next
    case (RetireSwap er)
    show ?thesis by (rule pair_trackI[OF T]) (use ni RetireSwap in \<open>simp_all add: pair_step_def\<close>)
  next
    case (ArbCall op)
    with pair_track_call[OF T] show ?thesis by simp
  qed
qed

lemma pair_track_run:
  "pair_inv P raw s \<Longrightarrow> pair_track a out tok lead suffix s \<Longrightarrow>
   pair_track a out tok lead suffix (foldl (pair_step P raw) s ls)"
  by (induction ls arbitrary: s) (simp_all add: pair_track_step pair_write.step_keeps)

text \<open>A write begins: either the gateway does not own the bus, or it holds a token.\<close>

lemma pair_track_start:
  assumes "currentOwnershipToken gatewaySessionID a = Some tok"
  shows "pair_track a out tok lead suffix (pair_step P raw (pair_start a out ws n d) (Start lead suffix))"
  using assms by (simp add: pair_step_def pair_start_def pair_track_def log_owned_def)

lemma unowned_write:
  assumes "currentOwnershipToken gatewaySessionID a = None"
  shows "pc (foldl (pair_step P raw) (pair_step P raw (pair_start a out ws n d) (Start lead suffix)) ls) =
      WDone (Some (GatewayLeadEcho NotBusOwner)) \<and>
    sends (io (foldl (pair_step P raw) (pair_step P raw (pair_start a out ws n d) (Start lead suffix)) ls)) = []"
proof -
  let ?Q = "\<lambda>s. pc s = WDone (Some (GatewayLeadEcho NotBusOwner)) \<and> sends (io s) = []"
  have step: "?Q s \<Longrightarrow> ?Q (pair_step P raw s l)" for s l
    by (cases l) (auto simp: pair_step_def write_lead_def write_suffix_def case_prod_beta Let_def)
  have "?Q s \<Longrightarrow> ?Q (foldl (pair_step P raw) s ls)" for s
    by (induction ls arbitrary: s) (simp_all add: step)
  then show ?thesis using assms by (simp add: pair_step_def pair_start_def)
qed

lemma unescape_Cons_plain:
  "b \<noteq> SymbolEscape P \<Longrightarrow> unescape P (b # bs) = (b, False) # unescape P bs"
  by (cases bs) simp_all

lemma unescape_send:
  "SymbolSyn P \<noteq> SymbolEscape P \<Longrightarrow> unescape P (gatewaySendSymbols P d st @ bs) =
     (d, d = SymbolEscape P \<or> d = SymbolSyn P \<and> \<not> st) # unescape P bs"
  by (auto simp: gatewaySendSymbols_def unescape_Cons_plain)

section \<open>Claims\<close>





text \<open>
  The expectation of a pair neither blocks nor outlives its write. In every reachable
  state the result channel holds at most one outcome (the read loop never blocks on it); an
  expectation that was taken down while the writer still uses it left its outcome in the
  channel, and a refuted suffix commit always finds one (the writer never waits for ever); and
  when the write has returned, nothing is expected any more.
\<close>

theorem raw_expectation_lifecycle:
  "let s = foldl (pair_step P raw) (pair_start a out ws n d) ls in
     (\<forall>er. pc s = WDone er \<longrightarrow> leadWait s = None) \<and>
     (\<forall>i. pc_wait (pc s) = Some i \<longrightarrow>
        length (lw_result (waits s i)) \<le> 1 \<and>
        (leadWait s = Some i \<longleftrightarrow> lw_result (waits s i) = []) \<and>
        (lw_suffixState (waits s i) = suffixRefuted \<longrightarrow> lw_result (waits s i) \<noteq> []))"
proof -
  let ?s = "foldl (pair_step P raw) (pair_start a out ws n d) ls"
  have inv: "pair_inv P raw ?s" by (rule pair_write.run_keeps[OF pair_start_inv])
  have "wait_inv P i ?s" if "pc_wait (pc ?s) = Some i" for i
    using inv that by (auto simp: pair_inv_def split: writer_pc.splits)
  then have "length (lw_result (waits ?s i)) \<le> 1 \<and>
      (leadWait ?s = Some i \<longleftrightarrow> lw_result (waits ?s i) = []) \<and>
      (lw_suffixState (waits ?s i) = suffixRefuted \<longrightarrow> lw_result (waits ?s i) \<noteq> [])"
    if "pc_wait (pc ?s) = Some i" for i
    using that unfolding wait_inv_def published_ok_def resolved_ok_def by fastforce
  moreover have "leadWait ?s = None" if "pc ?s = WDone er" for er
    using inv that by (simp add: pair_inv_at done_leadWait)
  ultimately show ?thesis unfolding Let_def by blast
qed

theorem raw_expectation_lifecycle_witness:
  "leadWait (foldl (pair_step std_protocol True) owned_start (Start 0xA9 0 # clean_echo)) = None \<and>
   pc (foldl (pair_step std_protocol True) owned_start (Start 0xA9 0 # clean_echo)) = WDone None"
proof (intro conjI)
  show run: "pc (foldl (pair_step std_protocol True) owned_start (Start 0xA9 0 # clean_echo)) = WDone None"
    by code_simp
  then show "leadWait (foldl (pair_step std_protocol True) owned_start (Start 0xA9 0 # clean_echo)) = None"
    using raw_expectation_lifecycle[unfolded Let_def] unfolding owned_start_def by blast
qed

text \<open>
  Gateway writes survive the wire. The raw symbols of any sequence of logical writes
  decode to exactly those bytes, each marked as escaped iff it was a payload byte with a
  reserved value, so a payload byte never reads as a structural SYN.
\<close>

theorem raw_send_round_trip:
  assumes "SymbolSyn P \<noteq> SymbolEscape P"
  shows "unescape P (concat (map (\<lambda>(d, st). gatewaySendSymbols P d st) writes)) =
    map (\<lambda>(d, st). (d, d = SymbolEscape P \<or> d = SymbolSyn P \<and> \<not> st)) writes"
  using assms by (induction writes) (auto simp: unescape_send)

theorem raw_send_round_trip_witness:
  "unescape std_protocol (gatewaySendSymbols std_protocol 0xAA False @
     gatewaySendSymbols std_protocol 0xA9 False @ gatewaySendSymbols std_protocol 0xAA True) =
   [(0xAA, True), (0xA9, True), (0xAA, False)]"
  using raw_send_round_trip[of std_protocol "[(0xAA, False), (0xA9, False), (0xAA, True)]"]
  by (simp add: std_protocol_def)

end
