(* ===== verification/V8_Classifier.thy ===== *)
theory V8_Classifier
  imports Wire_Phase Raw_Symbols
begin

text \<open>
  The frame classifier of the adapter multiplexer and the recovery of an abandoned arbitration:
  \<^verbatim>\<open>src/internal/adaptermux/v8classifier/{classifier,admin_event,mode}.go\<close> and
  \<^verbatim>\<open>src/internal/adaptermux/arbitration_recovery.go\<close>, with the part of the read loop of
  \<^verbatim>\<open>mux.go\<close> that composes them.

  The telegram state machine the classifier drives is \<^verbatim>\<open>helianthus-ebusgo/protocol/telegram_fsm\<close>,
  which is not part of the repository: it is the record \<open>telegram_fsm\<close> of the operations the
  classifier calls, over an arbitrary state type, and every definition that drives it takes it
  as an argument. The counters are \<^verbatim>\<open>atomic.Uint64\<close> and wrap. The atomic snapshots written by
  \<^verbatim>\<open>publishFSMSnapshotLocked\<close> are fields of their own, because the accessors read only them.
\<close>

section \<open>Data\<close>

datatype fsm_decision = DecisionForward | DecisionDropAaInjection | DecisionProtocolFault

record 'm telegram_fsm =
  fsm_New :: 'm
  fsm_Feed :: "'m \<Rightarrow> byte \<Rightarrow> bool \<Rightarrow> 'm \<times> fsm_decision"
  fsm_EnterPassiveTracking :: "'m \<Rightarrow> 'm"
  fsm_ResetToIdle :: "'m \<Rightarrow> 'm"
  fsm_State :: "'m \<Rightarrow> byte"
  fsm_InternalState :: "'m \<Rightarrow> byte"
  fsm_IsPassive :: "'m \<Rightarrow> bool"
  StateIdle :: byte
  StateAborted :: byte

datatype Mode = ModeOff | ModeShadow | ModeEnforce

datatype AdminEventKind =
  AdminEventKindNone | AdminEventKindProtocolFault | AdminEventKindEchoSoftTimeout |
  AdminEventKindEchoHardTimeout | AdminEventKindQueueOverflow | AdminEventKindAaInjectionDrop

record ClassifierAdminEvent =
  ae_At :: int
  ae_Kind :: AdminEventKind
  ae_FSMState :: byte
  ae_Byte :: byte
  ae_WasEscaped :: bool

record adminEventBuffer =
  events :: "ClassifierAdminEvent list"
  dropped :: uint64

record 'm Classifier =
  c_mode :: Mode
  observedBytesTotal :: uint64
  observedAdminEventsTotal :: uint64
  escapedPayloadAaTotal :: uint64
  escapedPayloadEscTotal :: uint64
  wireAutoSynTotal :: uint64
  plainByteTotal :: uint64
  fsm :: "'m option"
  fsmForwardTotal :: uint64
  fsmDropAaInjectionTotal :: uint64
  fsmProtocolFaultTotal :: uint64
  fsmEnterPassiveTotal :: uint64
  fsmResetTotal :: uint64
  fsmStateSnapshot :: byte
  fsmInternalStateSnapshot :: byte
  fsmIsPassiveSnapshot :: bool
  adminEvents :: adminEventBuffer
  enforceDropsAppliedTotal :: uint64

section \<open>The admin-event buffer\<close>

definition adminEventBufferCap :: nat where
  "adminEventBufferCap = 64"

definition ab_emit :: "ClassifierAdminEvent \<Rightarrow> adminEventBuffer \<Rightarrow> adminEventBuffer" where
  "ab_emit ev b =
     (if ae_Kind ev = AdminEventKindNone then b
      else (let b = (if adminEventBufferCap \<le> length (events b)
                     then b\<lparr> events := tl (events b), dropped := dropped b + 1 \<rparr> else b)
            in b\<lparr> events := events b @ [ev] \<rparr>))"

definition ab_drain :: "adminEventBuffer \<Rightarrow> adminEventBuffer \<times> ClassifierAdminEvent list \<times> uint64" where
  "ab_drain b =
     (if events b = [] then (b\<lparr> dropped := 0 \<rparr>, [], dropped b)
      else (b\<lparr> events := [], dropped := 0 \<rparr>, events b, dropped b))"

definition ab_pending :: "adminEventBuffer \<Rightarrow> nat" where
  "ab_pending b = length (events b)"

definition ab_peek :: "adminEventBuffer \<Rightarrow> ClassifierAdminEvent list \<times> uint64" where
  "ab_peek b = (events b, dropped b)"

section \<open>The classifier\<close>

definition New :: "'m telegram_fsm \<Rightarrow> Mode \<Rightarrow> 'm Classifier" where
  "New M md = \<lparr> c_mode = md, observedBytesTotal = 0, observedAdminEventsTotal = 0,
     escapedPayloadAaTotal = 0, escapedPayloadEscTotal = 0, wireAutoSynTotal = 0,
     plainByteTotal = 0, fsm = (if md = ModeOff then None else Some (fsm_New M)),
     fsmForwardTotal = 0, fsmDropAaInjectionTotal = 0, fsmProtocolFaultTotal = 0,
     fsmEnterPassiveTotal = 0, fsmResetTotal = 0, fsmStateSnapshot = 0,
     fsmInternalStateSnapshot = 0, fsmIsPassiveSnapshot = False,
     adminEvents = \<lparr> events = [], dropped = 0 \<rparr>, enforceDropsAppliedTotal = 0 \<rparr>"

definition publishFSMSnapshotLocked :: "'m telegram_fsm \<Rightarrow> 'm Classifier \<Rightarrow> 'm Classifier" where
  "publishFSMSnapshotLocked M c = (case fsm c of None \<Rightarrow> c
     | Some m \<Rightarrow> c\<lparr> fsmStateSnapshot := fsm_State M m, fsmInternalStateSnapshot := fsm_InternalState M m,
                   fsmIsPassiveSnapshot := fsm_IsPassive M m \<rparr>)"

definition classifyByteProvenance :: "byte \<Rightarrow> bool \<Rightarrow> 'm Classifier \<Rightarrow> 'm Classifier" where
  "classifyByteProvenance b wasEscaped c =
     (if wasEscaped then
        (if b = 0xAA then c\<lparr> escapedPayloadAaTotal := escapedPayloadAaTotal c + 1 \<rparr>
         else if b = 0xA9 then c\<lparr> escapedPayloadEscTotal := escapedPayloadEscTotal c + 1 \<rparr>
         else c\<lparr> plainByteTotal := plainByteTotal c + 1 \<rparr>)
      else if b = 0xAA then c\<lparr> wireAutoSynTotal := wireAutoSynTotal c + 1 \<rparr>
      else c\<lparr> plainByteTotal := plainByteTotal c + 1 \<rparr>)"

definition emit_admin :: "ClassifierAdminEvent \<Rightarrow> 'm Classifier \<Rightarrow> 'm Classifier" where
  "emit_admin ev c = c\<lparr> adminEvents := ab_emit ev (adminEvents c) \<rparr>"

definition driveFSMByte ::
    "'m telegram_fsm \<Rightarrow> byte \<Rightarrow> bool \<Rightarrow> int \<Rightarrow> 'm Classifier \<Rightarrow> 'm Classifier \<times> bool" where
  "driveFSMByte M b wasEscaped now c = (case fsm c of None \<Rightarrow> (c, False)
     | Some m \<Rightarrow>
         (let (m', decision) = fsm_Feed M m b wasEscaped;
              c = c\<lparr> fsm := Some m' \<rparr>;
              ev = (\<lambda>k. \<lparr> ae_At = now, ae_Kind = k, ae_FSMState = fsm_State M m', ae_Byte = b,
                          ae_WasEscaped = wasEscaped \<rparr>);
              (c, drp) = (case decision of
                  DecisionForward \<Rightarrow> (c\<lparr> fsmForwardTotal := fsmForwardTotal c + 1 \<rparr>, False)
                | DecisionDropAaInjection \<Rightarrow>
                    (let c = c\<lparr> fsmDropAaInjectionTotal := fsmDropAaInjectionTotal c + 1 \<rparr>
                     in (if c_mode c \<noteq> ModeOff then emit_admin (ev AdminEventKindAaInjectionDrop) c else c,
                         c_mode c = ModeEnforce))
                | DecisionProtocolFault \<Rightarrow>
                    (emit_admin (ev AdminEventKindProtocolFault)
                       (c\<lparr> fsmProtocolFaultTotal := fsmProtocolFaultTotal c + 1 \<rparr>), False))
          in (publishFSMSnapshotLocked M c, drp)))"

definition fsmEnterPassive :: "'m telegram_fsm \<Rightarrow> 'm Classifier \<Rightarrow> 'm Classifier" where
  "fsmEnterPassive M c = (case fsm c of None \<Rightarrow> c
     | Some m \<Rightarrow> publishFSMSnapshotLocked M
         (c\<lparr> fsm := Some (fsm_EnterPassiveTracking M m), fsmEnterPassiveTotal := fsmEnterPassiveTotal c + 1 \<rparr>))"

definition fsmReset :: "'m telegram_fsm \<Rightarrow> 'm Classifier \<Rightarrow> 'm Classifier" where
  "fsmReset M c = (case fsm c of None \<Rightarrow> c
     | Some m \<Rightarrow> publishFSMSnapshotLocked M
         (c\<lparr> fsm := Some (fsm_ResetToIdle M m), fsmResetTotal := fsmResetTotal c + 1 \<rparr>))"

definition observe_byte ::
    "'m telegram_fsm \<Rightarrow> byte \<Rightarrow> bool \<Rightarrow> int \<Rightarrow> 'm Classifier \<Rightarrow> 'm Classifier \<times> bool" where
  "observe_byte M b wasEscaped now c =
     (let (c, drp) = driveFSMByte M b wasEscaped now (classifyByteProvenance b wasEscaped c)
      in (if drp then c\<lparr> enforceDropsAppliedTotal := enforceDropsAppliedTotal c + 1 \<rparr> else c, drp))"

definition Observe ::
    "'m telegram_fsm \<Rightarrow> int \<Rightarrow> stream_event \<Rightarrow> 'm Classifier \<Rightarrow> 'm Classifier \<times> bool" where
  "Observe M now e c =
     (if c_mode c = ModeOff then (c, False)
      else (let c = c\<lparr> observedBytesTotal := observedBytesTotal c + 1 \<rparr> in
        case ev_Kind e of
          StreamEventByte \<Rightarrow> observe_byte M (ev_Byte e) (ev_WasEscaped e) now c
        | StreamEventWireSyn \<Rightarrow> observe_byte M (ev_Byte e) False now c
        | StreamEventStarted \<Rightarrow> (fsmEnterPassive M c, False)
        | StreamEventFailed \<Rightarrow> (fsmEnterPassive M c, False)
        | StreamEventReset \<Rightarrow> (fsmReset M c, False)
        | StreamEventNone \<Rightarrow> (c, False)))"

definition ResetArbitrationTracking :: "'m telegram_fsm \<Rightarrow> 'm Classifier \<Rightarrow> 'm Classifier" where
  "ResetArbitrationTracking M c = (case fsm c of None \<Rightarrow> c
     | Some m \<Rightarrow> publishFSMSnapshotLocked M (c\<lparr> fsm := Some (fsm_ResetToIdle M m) \<rparr>))"

definition ShadowWouldHaveDroppedTotal :: "'m Classifier \<Rightarrow> uint64" where
  "ShadowWouldHaveDroppedTotal c = (if c_mode c \<noteq> ModeShadow then 0 else fsmDropAaInjectionTotal c)"

definition DrainAdminEvents :: "'m Classifier \<Rightarrow> 'm Classifier \<times> ClassifierAdminEvent list \<times> uint64" where
  "DrainAdminEvents c =
     (let (b, evs, n) = ab_drain (adminEvents c) in (c\<lparr> adminEvents := b \<rparr>, evs, n))"

section \<open>Recovery of an abandoned arbitration\<close>

datatype arbitrationRecovery =
  arbitrationRecoveryNone | arbitrationRecoveryAtSYN | arbitrationRecoveryReset |
  arbitrationRecoveryForeign | arbitrationRecoveryForeignAfterAA

text \<open>The fields of \<^verbatim>\<open>Mux\<close> the recovery reads and writes; \<open>v8\<close> is nil when the classifier is off.\<close>

record 'm recovery_mux =
  retiredSelection :: bool
  deferRegrantUntilNextSyn :: bool
  recovery :: arbitrationRecovery
  rm_phase :: wirePhaseTracker
  localLoserSource :: byte
  v8 :: "'m Classifier option"

definition v8_mode :: "'m recovery_mux \<Rightarrow> Mode" where
  "v8_mode m = (case v8 m of None \<Rightarrow> ModeOff | Some c \<Rightarrow> c_mode c)"

definition FSMInternalState :: "'m telegram_fsm \<Rightarrow> 'm Classifier option \<Rightarrow> byte" where
  "FSMInternalState M co = (case co of None \<Rightarrow> StateIdle M | Some c \<Rightarrow> fsmInternalStateSnapshot c)"

definition fenceArbitrationUntilSYNLocked :: "'m recovery_mux \<Rightarrow> 'm recovery_mux" where
  "fenceArbitrationUntilSYNLocked m =
     (let m = m\<lparr> retiredSelection := True, deferRegrantUntilNextSyn := True \<rparr> in
      if recovery m = arbitrationRecoveryNone then m\<lparr> recovery := arbitrationRecoveryAtSYN \<rparr> else m)"

definition expectForeignTelegram ::
    "(byte \<Rightarrow> bool) option \<Rightarrow> byte \<Rightarrow> 'm recovery_mux \<Rightarrow> 'm recovery_mux" where
  "expectForeignTelegram isKnownInitiatorByte winner m =
     (if v8_mode m \<noteq> ModeEnforce then m
      else if (case isKnownInitiatorByte of None \<Rightarrow> False | Some known \<Rightarrow> \<not> known winner) then m
      else if recovery m = arbitrationRecoveryAtSYN \<and> winner \<noteq> localLoserSource m
      then m\<lparr> recovery := arbitrationRecoveryForeign \<rparr> else m)"

definition reconcileArbitrationClassifier ::
    "ebus_protocol \<Rightarrow> 'm telegram_fsm \<Rightarrow> stream_event \<Rightarrow> 'm recovery_mux \<Rightarrow> 'm recovery_mux" where
  "reconcileArbitrationClassifier P M e m =
     (let isSYN = structural_syn P e;
          m = (if recovery m = arbitrationRecoveryAtSYN \<and> isSYN \<and> telegramLive (rm_phase m)
               then m\<lparr> recovery := arbitrationRecoveryForeign \<rparr> else m);
          foreign = recovery m \<in> {arbitrationRecoveryForeign, arbitrationRecoveryForeignAfterAA};
          rst = (if foreign
                 then isSYN \<and> (recovery m = arbitrationRecoveryForeignAfterAA \<or>
                               FSMInternalState M (v8 m) = StateAborted M)
                 else recovery m = arbitrationRecoveryReset \<or>
                      recovery m = arbitrationRecoveryAtSYN \<and> isSYN);
          m = (if foreign
               then m\<lparr> recovery := (if isSYN then arbitrationRecoveryForeignAfterAA
                                     else arbitrationRecoveryForeign) \<rparr> else m)
      in if rst then m\<lparr> rm_phase := phase_reset wirePhaseIdle (rm_phase m),
                        recovery := arbitrationRecoveryNone,
                        v8 := map_option (ResetArbitrationTracking M) (v8 m) \<rparr>
         else m)"

text \<open>
  The head of \<^verbatim>\<open>readLoop\<close> for one item: reconcile, then let the classifier judge the logical
  item (or a raw-only SYN); the flag tells that the item is dropped before dispatch.
\<close>

definition classify_item ::
    "ebus_protocol \<Rightarrow> 'm telegram_fsm \<Rightarrow> int \<Rightarrow> stream_event \<Rightarrow> byte option \<Rightarrow> 'm recovery_mux \<Rightarrow>
      'm recovery_mux \<times> bool" where
  "classify_item P M now e raw m =
     (let m = reconcileArbitrationClassifier P M e m in
      case v8 m of None \<Rightarrow> (m, False)
      | Some c \<Rightarrow>
          if ev_Kind e \<noteq> StreamEventNone then
            (let (c, drp) = Observe M now e c in (m\<lparr> v8 := Some c \<rparr>, drp))
          else if raw = Some (SymbolSyn P) then
            (let (c, drp) = Observe M now \<lparr> ev_Kind = StreamEventWireSyn, ev_Byte = SymbolSyn P,
                                             ev_WasEscaped = False \<rparr> c in (m\<lparr> v8 := Some c \<rparr>, drp))
          else (m, False))"

section \<open>What the classifier is meant to account for\<close>

definition byte_bearing :: "stream_event \<Rightarrow> bool" where
  "byte_bearing e \<longleftrightarrow> ev_Kind e \<in> {StreamEventByte, StreamEventWireSyn}"

definition obs_step :: "'m telegram_fsm \<Rightarrow> 'm Classifier \<Rightarrow> int \<times> stream_event \<Rightarrow> 'm Classifier \<times> bool" where
  "obs_step M c x = Observe M (fst x) (snd x) c"

definition provenance_sum :: "'m Classifier \<Rightarrow> uint64" where
  "provenance_sum c = escapedPayloadAaTotal c + escapedPayloadEscTotal c + wireAutoSynTotal c + plainByteTotal c"

definition decision_sum :: "'m Classifier \<Rightarrow> uint64" where
  "decision_sum c = fsmForwardTotal c + fsmDropAaInjectionTotal c + fsmProtocolFaultTotal c"

definition num_of :: "('a \<Rightarrow> bool) \<Rightarrow> 'a list \<Rightarrow> uint64" where
  "num_of Q xs = of_nat (length (filter Q xs))"

text \<open>Operations of the admin-event buffer, and the events a reader can still expect.\<close>

datatype ab_op = Emit ClassifierAdminEvent | Drain

fun ab_apply :: "adminEventBuffer \<Rightarrow> ab_op \<Rightarrow> adminEventBuffer" where
  "ab_apply b (Emit ev) = ab_emit ev b"
| "ab_apply b Drain = fst (ab_drain b)"

fun ab_log :: "ClassifierAdminEvent list \<Rightarrow> ab_op \<Rightarrow> ClassifierAdminEvent list" where
  "ab_log l (Emit ev) = (if ae_Kind ev = AdminEventKindNone then l else l @ [ev])"
| "ab_log l Drain = []"

text \<open>The enforcing twin of a shadow classifier: the drops it saw are the drops applied.\<close>

definition enforced :: "'m Classifier \<Rightarrow> 'm Classifier" where
  "enforced c = c\<lparr> c_mode := ModeEnforce, enforceDropsAppliedTotal := fsmDropAaInjectionTotal c \<rparr>"

text \<open>
  A stretch of a telegram: no two structural SYN symbols in a row (after a SYN when the flag is
  set), and a classifier that never gives up on it.
\<close>

fun no_syn_pair :: "ebus_protocol \<Rightarrow> bool \<Rightarrow> (int \<times> stream_event) list \<Rightarrow> bool" where
  "no_syn_pair P after [] = True"
| "no_syn_pair P after (x # xs) =
     (\<not> (after \<and> structural_syn P (snd x)) \<and> no_syn_pair P (structural_syn P (snd x)) xs)"

fun never_aborted :: "'m telegram_fsm \<Rightarrow> 'm Classifier \<Rightarrow> (int \<times> stream_event) list \<Rightarrow> bool" where
  "never_aborted M c [] = True"
| "never_aborted M c (x # xs) =
     (fsmInternalStateSnapshot c \<noteq> StateAborted M \<and> ev_Kind (snd x) \<noteq> StreamEventNone \<and>
      never_aborted M (fst (obs_step M c x)) xs)"

definition item_step :: "ebus_protocol \<Rightarrow> 'm telegram_fsm \<Rightarrow> 'm recovery_mux \<Rightarrow> int \<times> stream_event \<Rightarrow>
    'm recovery_mux \<times> bool" where
  "item_step P M m x = classify_item P M (fst x) (snd x) None m"

text \<open>A machine that flags every raw SYN outside idle, for closed examples.\<close>

definition toy_fsm :: "nat telegram_fsm" where
  "toy_fsm = \<lparr> fsm_New = 0,
     fsm_Feed = (\<lambda>m b w. if b = 0xAA \<and> \<not> w \<and> m = 1 then (m, DecisionDropAaInjection) else (m, DecisionForward)),
     fsm_EnterPassiveTracking = (\<lambda>_. 1), fsm_ResetToIdle = (\<lambda>_. 0), fsm_State = of_nat,
     fsm_InternalState = of_nat, fsm_IsPassive = (\<lambda>m. m = 1), StateIdle = 0, StateAborted = 9 \<rparr>"

definition wire_syn :: stream_event where
  "wire_syn = \<lparr> ev_Kind = StreamEventWireSyn, ev_Byte = 0xAA, ev_WasEscaped = False \<rparr>"

definition started :: stream_event where
  "started = \<lparr> ev_Kind = StreamEventStarted, ev_Byte = 0, ev_WasEscaped = False \<rparr>"

definition fenced_mux :: "nat recovery_mux" where
  "fenced_mux = \<lparr> retiredSelection = True, deferRegrantUntilNextSyn = True,
     recovery = arbitrationRecoveryForeign, rm_phase = zero_tracker, localLoserSource = 0x31,
     v8 = Some (fst (Observe toy_fsm 0 started (New toy_fsm ModeEnforce))) \<rparr>"

section \<open>Lemmas\<close>

lemma num_of_simps [simp]:
  "num_of Q [] = 0" "num_of Q (x # xs) = (if Q x then 1 else 0) + num_of Q xs"
  by (simp_all add: num_of_def)

text \<open>What one observed event adds to each group of counters.\<close>

lemma publish_simps [simp]:
  "provenance_sum (publishFSMSnapshotLocked M c) = provenance_sum c"
  "decision_sum (publishFSMSnapshotLocked M c) = decision_sum c"
  "c_mode (publishFSMSnapshotLocked M c) = c_mode c" "fsm (publishFSMSnapshotLocked M c) = fsm c"
  "observedBytesTotal (publishFSMSnapshotLocked M c) = observedBytesTotal c"
  "enforceDropsAppliedTotal (publishFSMSnapshotLocked M c) = enforceDropsAppliedTotal c"
  "fsmEnterPassiveTotal (publishFSMSnapshotLocked M c) = fsmEnterPassiveTotal c"
  "fsmResetTotal (publishFSMSnapshotLocked M c) = fsmResetTotal c"
  "fsmDropAaInjectionTotal (publishFSMSnapshotLocked M c) = fsmDropAaInjectionTotal c"
  by (simp_all add: publishFSMSnapshotLocked_def provenance_sum_def decision_sum_def split: option.split)

lemma provenance_simps [simp]:
  "provenance_sum (classifyByteProvenance b w c) = provenance_sum c + 1"
  "decision_sum (classifyByteProvenance b w c) = decision_sum c"
  "c_mode (classifyByteProvenance b w c) = c_mode c" "fsm (classifyByteProvenance b w c) = fsm c"
  "observedBytesTotal (classifyByteProvenance b w c) = observedBytesTotal c"
  "enforceDropsAppliedTotal (classifyByteProvenance b w c) = enforceDropsAppliedTotal c"
  "fsmEnterPassiveTotal (classifyByteProvenance b w c) = fsmEnterPassiveTotal c"
  "fsmResetTotal (classifyByteProvenance b w c) = fsmResetTotal c"
  by (simp_all add: classifyByteProvenance_def provenance_sum_def decision_sum_def)

lemma drive_simps:
  assumes "fsm c = Some m"
  shows "provenance_sum (fst (driveFSMByte M b w now c)) = provenance_sum c"
    "decision_sum (fst (driveFSMByte M b w now c)) = decision_sum c + 1"
    "c_mode (fst (driveFSMByte M b w now c)) = c_mode c"
    "fsm (fst (driveFSMByte M b w now c)) = Some (fst (fsm_Feed M m b w))"
    "observedBytesTotal (fst (driveFSMByte M b w now c)) = observedBytesTotal c"
    "enforceDropsAppliedTotal (fst (driveFSMByte M b w now c)) = enforceDropsAppliedTotal c"
    "fsmEnterPassiveTotal (fst (driveFSMByte M b w now c)) = fsmEnterPassiveTotal c"
    "fsmResetTotal (fst (driveFSMByte M b w now c)) = fsmResetTotal c"
    "snd (driveFSMByte M b w now c) \<longleftrightarrow>
       c_mode c = ModeEnforce \<and> snd (fsm_Feed M m b w) = DecisionDropAaInjection"
  by (simp_all add: assms driveFSMByte_def Let_def emit_admin_def case_prod_beta provenance_sum_def
      decision_sum_def publishFSMSnapshotLocked_def split: fsm_decision.split)

lemma observe_mode [simp]: "c_mode (fst (Observe M now e c)) = c_mode c"
  by (cases "fsm c"; cases "ev_Kind e")
     (simp_all add: Observe_def observe_byte_def fsmEnterPassive_def fsmReset_def Let_def
        case_prod_beta drive_simps, simp_all add: driveFSMByte_def)

lemma observe_deltas:
  assumes "c_mode c \<noteq> ModeOff" "fsm c \<noteq> None"
  shows "fsm (fst (Observe M now e c)) \<noteq> None"
    "observedBytesTotal (fst (Observe M now e c)) = observedBytesTotal c + 1"
    "provenance_sum (fst (Observe M now e c)) = provenance_sum c + (if byte_bearing e then 1 else 0)"
    "decision_sum (fst (Observe M now e c)) = decision_sum c + (if byte_bearing e then 1 else 0)"
    "fsmEnterPassiveTotal (fst (Observe M now e c)) = fsmEnterPassiveTotal c +
       (if ev_Kind e \<in> {StreamEventStarted, StreamEventFailed} then 1 else 0)"
    "fsmResetTotal (fst (Observe M now e c)) = fsmResetTotal c + (if ev_Kind e = StreamEventReset then 1 else 0)"
    "enforceDropsAppliedTotal (fst (Observe M now e c)) = enforceDropsAppliedTotal c +
       (if snd (Observe M now e c) then 1 else 0)"
proof -
  obtain m where m: "fsm c = Some m" using assms(2) by blast
  have obs: "observe_byte M b w now c' = (let r = driveFSMByte M b w now (classifyByteProvenance b w c')
      in (if snd r then (fst r)\<lparr> enforceDropsAppliedTotal := enforceDropsAppliedTotal (fst r) + 1 \<rparr> else fst r, snd r))"
    for b w c' by (simp add: observe_byte_def case_prod_beta Let_def)
  have upd [simp]: "provenance_sum (c'\<lparr> enforceDropsAppliedTotal := k \<rparr>) = provenance_sum c'"
    "decision_sum (c'\<lparr> enforceDropsAppliedTotal := k \<rparr>) = decision_sum c'"
    "provenance_sum (c'\<lparr> observedBytesTotal := k \<rparr>) = provenance_sum c'"
    "decision_sum (c'\<lparr> observedBytesTotal := k \<rparr>) = decision_sum c'"
    "provenance_sum (c'\<lparr> fsm := f, fsmEnterPassiveTotal := k \<rparr>) = provenance_sum c'"
    "decision_sum (c'\<lparr> fsm := f, fsmEnterPassiveTotal := k \<rparr>) = decision_sum c'"
    "provenance_sum (c'\<lparr> fsm := f, fsmResetTotal := k \<rparr>) = provenance_sum c'"
    "decision_sum (c'\<lparr> fsm := f, fsmResetTotal := k \<rparr>) = decision_sum c'"
    for c' :: "'a Classifier" and k f by (simp_all add: provenance_sum_def decision_sum_def)
  note d = drive_simps[where M = M and now = now and m = m and
      c = "classifyByteProvenance b w (c\<lparr> observedBytesTotal := observedBytesTotal c + 1 \<rparr>)" for b w]
  note unf = Observe_def Let_def byte_bearing_def assms(1) m obs d fsmEnterPassive_def fsmReset_def
  show "fsm (fst (Observe M now e c)) \<noteq> None"
    "observedBytesTotal (fst (Observe M now e c)) = observedBytesTotal c + 1"
    "provenance_sum (fst (Observe M now e c)) = provenance_sum c + (if byte_bearing e then 1 else 0)"
    "decision_sum (fst (Observe M now e c)) = decision_sum c + (if byte_bearing e then 1 else 0)"
    "fsmEnterPassiveTotal (fst (Observe M now e c)) = fsmEnterPassiveTotal c +
       (if ev_Kind e \<in> {StreamEventStarted, StreamEventFailed} then 1 else 0)"
    "fsmResetTotal (fst (Observe M now e c)) = fsmResetTotal c + (if ev_Kind e = StreamEventReset then 1 else 0)"
    "enforceDropsAppliedTotal (fst (Observe M now e c)) = enforceDropsAppliedTotal c +
       (if snd (Observe M now e c) then 1 else 0)"
    by (cases "ev_Kind e"; simp add: unf)+
qed

lemma run_deltas:
  "c_mode c \<noteq> ModeOff \<Longrightarrow> fsm c \<noteq> None \<Longrightarrow>
   observedBytesTotal (fst (run (obs_step M) c xs)) = observedBytesTotal c + of_nat (length xs) \<and>
   provenance_sum (fst (run (obs_step M) c xs)) = provenance_sum c + num_of byte_bearing (map snd xs) \<and>
   decision_sum (fst (run (obs_step M) c xs)) = decision_sum c + num_of byte_bearing (map snd xs) \<and>
   fsmEnterPassiveTotal (fst (run (obs_step M) c xs)) = fsmEnterPassiveTotal c +
     num_of (\<lambda>e. ev_Kind e \<in> {StreamEventStarted, StreamEventFailed}) (map snd xs) \<and>
   fsmResetTotal (fst (run (obs_step M) c xs)) = fsmResetTotal c +
     num_of (\<lambda>e. ev_Kind e = StreamEventReset) (map snd xs) \<and>
   enforceDropsAppliedTotal (fst (run (obs_step M) c xs)) = enforceDropsAppliedTotal c +
     num_of id (snd (run (obs_step M) c xs))"
proof (induction xs arbitrary: c)
  case (Cons x xs)
  note d = observe_deltas[OF Cons.prems, of M "fst x" "snd x"]
  have "c_mode (fst (Observe M (fst x) (snd x) c)) \<noteq> ModeOff" using Cons.prems(1) by simp
  from Cons.IH[OF this d(1)] show ?case
    by (simp add: obs_step_def d(2-7) add.assoc)
qed simp

lemma emit_admin_mode [simp]:
  "c_mode (emit_admin ev c) = c_mode c" "fsmDropAaInjectionTotal (emit_admin ev c) = fsmDropAaInjectionTotal c"
  by (simp_all add: emit_admin_def)

lemma drive_enforced:
  assumes "c_mode c = ModeShadow"
  shows "fst (driveFSMByte M b w now (enforced c)) =
      (fst (driveFSMByte M b w now c))\<lparr> c_mode := ModeEnforce,
        enforceDropsAppliedTotal := fsmDropAaInjectionTotal c \<rparr>"
    "snd (driveFSMByte M b w now c) = False"
    "fsmDropAaInjectionTotal (fst (driveFSMByte M b w now c)) =
      fsmDropAaInjectionTotal c + (if snd (driveFSMByte M b w now (enforced c)) then 1 else 0)"
    "enforceDropsAppliedTotal (fst (driveFSMByte M b w now c)) = enforceDropsAppliedTotal c"
    "c_mode (fst (driveFSMByte M b w now c)) = ModeShadow"
  using assms
  by (simp_all add: driveFSMByte_def enforced_def Let_def case_prod_beta emit_admin_def
      publishFSMSnapshotLocked_def split: option.split fsm_decision.split)

lemma classify_enforced:
  "classifyByteProvenance b w (enforced c) = enforced (classifyByteProvenance b w c)"
  "fsmDropAaInjectionTotal (classifyByteProvenance b w c) = fsmDropAaInjectionTotal c"
  by (simp_all add: classifyByteProvenance_def enforced_def)

lemma observe_byte_enforced:
  assumes "c_mode c = ModeShadow"
  shows "fst (observe_byte M b w now (enforced c)) = enforced (fst (observe_byte M b w now c))"
    "snd (observe_byte M b w now c) = False"
    "enforceDropsAppliedTotal (fst (observe_byte M b w now c)) = enforceDropsAppliedTotal c"
proof -
  let ?d = "driveFSMByte M b w now (classifyByteProvenance b w c)"
  note d = drive_enforced[of "classifyByteProvenance b w c" M b w now, simplified, OF assms]
  show "fst (observe_byte M b w now (enforced c)) = enforced (fst (observe_byte M b w now c))"
    by (simp add: observe_byte_def case_prod_beta Let_def classify_enforced(1) d(1,2))
       (simp add: enforced_def[of "fst ?d"] d classify_enforced(2))
  show "snd (observe_byte M b w now c) = False"
    "enforceDropsAppliedTotal (fst (observe_byte M b w now c)) = enforceDropsAppliedTotal c"
    by (simp_all add: observe_byte_def case_prod_beta Let_def d)
qed

lemma observe_enforced:
  assumes "c_mode c = ModeShadow"
  shows "fst (Observe M now e (enforced c)) = enforced (fst (Observe M now e c))"
    "snd (Observe M now e c) = False"
    "enforceDropsAppliedTotal (fst (Observe M now e c)) = enforceDropsAppliedTotal c"
proof -
  let ?c = "c\<lparr> observedBytesTotal := observedBytesTotal c + 1 \<rparr>"
  have e: "(enforced c)\<lparr> observedBytesTotal := observedBytesTotal c + 1 \<rparr> = enforced ?c"
    "observedBytesTotal (enforced c) = observedBytesTotal c" "c_mode (enforced c) = ModeEnforce"
    by (simp_all add: enforced_def)
  have m: "c_mode ?c = ModeShadow" using assms by simp
  have p: "fsmEnterPassive M (enforced ?c) = enforced (fsmEnterPassive M ?c)"
    "fsmReset M (enforced ?c) = enforced (fsmReset M ?c)"
    "enforceDropsAppliedTotal (fsmEnterPassive M ?c) = enforceDropsAppliedTotal c"
    "enforceDropsAppliedTotal (fsmReset M ?c) = enforceDropsAppliedTotal c"
    by (simp_all add: fsmEnterPassive_def fsmReset_def enforced_def publishFSMSnapshotLocked_def
        split: option.split)
  show "fst (Observe M now e (enforced c)) = enforced (fst (Observe M now e c))"
    "snd (Observe M now e c) = False"
    "enforceDropsAppliedTotal (fst (Observe M now e c)) = enforceDropsAppliedTotal c"
    using assms observe_byte_enforced[OF m]
    by (cases "ev_Kind e"; simp add: Observe_def Let_def e p)+
qed

lemma run_enforced:
  assumes "c_mode c = ModeShadow"
  shows "fst (run (obs_step M) (enforced c) xs) = enforced (fst (run (obs_step M) c xs))"
    "snd (run (obs_step M) c xs) = replicate (length xs) False"
    "enforceDropsAppliedTotal (fst (run (obs_step M) c xs)) = enforceDropsAppliedTotal c"
    "c_mode (fst (run (obs_step M) c xs)) = ModeShadow"
  using assms by (induction xs arbitrary: c; simp add: obs_step_def observe_enforced)+

lemma drop_snoc: "n \<le> length l \<Longrightarrow> drop n (l @ [x]) = drop n l @ [x]"
  by simp

lemma ab_step:
  assumes "events b = drop (length l - adminEventBufferCap) l"
    "dropped b = of_nat (length l - adminEventBufferCap)"
  shows "events (ab_apply b op) = drop (length (ab_log l op) - adminEventBufferCap) (ab_log l op)"
    "dropped (ab_apply b op) = of_nat (length (ab_log l op) - adminEventBufferCap)"
proof -
  have "adminEventBufferCap \<le> length (events b) \<longleftrightarrow> adminEventBufferCap \<le> length l"
    using assms(1) by auto
  moreover have "Suc (length l) - adminEventBufferCap = Suc (length l - adminEventBufferCap)"
    if "adminEventBufferCap \<le> length l" using that by simp
  ultimately show
    "events (ab_apply b op) = drop (length (ab_log l op) - adminEventBufferCap) (ab_log l op)"
    "dropped (ab_apply b op) = of_nat (length (ab_log l op) - adminEventBufferCap)"
    using assms by (cases op; auto simp: ab_emit_def ab_drain_def Let_def drop_Suc tl_drop adminEventBufferCap_def)+
qed

interpretation admin_buffer: kept_invariant
  "\<lambda>(b, l) op. (ab_apply b op, ab_log l op)"
  "\<lambda>(b, l). events b = drop (length l - adminEventBufferCap) l \<and>
            dropped b = of_nat (length l - adminEventBufferCap)"
  by unfold_locales (auto simp: ab_step)

lemma ab_drain_eq: "ab_drain b = (\<lparr> events = [], dropped = 0 \<rparr>, events b, dropped b)"
  by (cases b) (simp add: ab_drain_def)

lemma foldl_pair:
  "foldl (\<lambda>(b, l) op. (f b op, g l op)) (b, l) ops = (foldl f b ops, foldl g l ops)"
  by (induction ops arbitrary: b l) simp_all

lemma reconcile_syn:
  assumes "structural_syn P e" "recovery m \<noteq> arbitrationRecoveryNone"
  shows "recovery (reconcileArbitrationClassifier P M e m) = arbitrationRecoveryNone \<and>
      v8 (reconcileArbitrationClassifier P M e m) = map_option (ResetArbitrationTracking M) (v8 m) \<or>
    recovery (reconcileArbitrationClassifier P M e m) = arbitrationRecoveryForeignAfterAA \<and>
      recovery m \<noteq> arbitrationRecoveryForeignAfterAA"
  using assms by (cases "recovery m") (auto simp: reconcileArbitrationClassifier_def Let_def)

lemma reconcile_idle:
  "recovery m = arbitrationRecoveryNone \<Longrightarrow> reconcileArbitrationClassifier P M e m = m"
  by (simp add: reconcileArbitrationClassifier_def Let_def)

lemma observe_syn_after_reset:
  assumes "\<forall>s. snd (fsm_Feed M (fsm_ResetToIdle M s) (SymbolSyn P) False) = DecisionForward"
    "structural_syn P e" "ev_Byte e = SymbolSyn P"
  shows "\<not> snd (Observe M now e (ResetArbitrationTracking M c))"
proof -
  have d: "\<not> snd (driveFSMByte M (SymbolSyn P) False now (classifyByteProvenance (SymbolSyn P) False
      ((ResetArbitrationTracking M c)\<lparr> observedBytesTotal := k \<rparr>)))" for k
    using assms(1)
    by (cases "fsm c") (simp_all add: driveFSMByte_def ResetArbitrationTracking_def Let_def
        case_prod_beta)
  show ?thesis
    using assms(2,3) d
    by (cases "ev_Kind e") (auto simp: Observe_def Let_def observe_byte_def case_prod_beta structural_syn_def)
qed

lemma classify_recovery:
  "recovery (fst (classify_item P M now e raw m)) = recovery (reconcileArbitrationClassifier P M e m)"
  by (simp add: classify_item_def Let_def case_prod_beta split: option.split)

lemma classify_reset_syn:
  assumes "\<forall>s. snd (fsm_Feed M (fsm_ResetToIdle M s) (SymbolSyn P) False) = DecisionForward"
    "structural_syn P e" "ev_Byte e = SymbolSyn P"
    "v8 (reconcileArbitrationClassifier P M e m) = map_option (ResetArbitrationTracking M) (v8 m)"
  shows "\<not> snd (classify_item P M now e raw m)"
proof -
  have "ev_Kind e \<noteq> StreamEventNone" using assms(2) by (auto simp: structural_syn_def)
  then show ?thesis
    using observe_syn_after_reset[OF assms(1-3)] assms(4)
    by (cases "v8 m") (simp_all add: classify_item_def Let_def case_prod_beta)
qed

lemma protected_step:
  assumes "recovery m = (if after then arbitrationRecoveryForeignAfterAA else arbitrationRecoveryForeign)"
    "v8 m = Some c" "fsmInternalStateSnapshot c \<noteq> StateAborted M" "ev_Kind (snd x) \<noteq> StreamEventNone"
    "\<not> (after \<and> structural_syn P (snd x))"
  shows "snd (item_step P M m x) = snd (obs_step M c x)"
    "v8 (fst (item_step P M m x)) = Some (fst (obs_step M c x))"
    "recovery (fst (item_step P M m x)) = (if structural_syn P (snd x)
       then arbitrationRecoveryForeignAfterAA else arbitrationRecoveryForeign)"
    "rm_phase (fst (item_step P M m x)) = rm_phase m"
  using assms
  by (auto simp: item_step_def obs_step_def classify_item_def reconcileArbitrationClassifier_def
      FSMInternalState_def Let_def case_prod_beta)

section \<open>Claims\<close>

text \<open>
  C39. Shadow mode predicts enforce mode. On every stream of events the enforcing classifier ends
  in exactly the state of the shadow classifier except for its mode and its applied drops:
  same machine state, same counters, same admin events. The shadow classifier drops nothing,
  and its would-have-dropped counter is the number of events the enforcing one drops.
\<close>

theorem classifier_shadow_predicts_enforce:
  "let sh = run (obs_step M) (New M ModeShadow) xs; en = run (obs_step M) (New M ModeEnforce) xs in
     fst en = (fst sh)\<lparr> c_mode := ModeEnforce,
       enforceDropsAppliedTotal := ShadowWouldHaveDroppedTotal (fst sh) \<rparr> \<and>
     snd sh = replicate (length xs) False \<and> enforceDropsAppliedTotal (fst sh) = 0 \<and>
     ShadowWouldHaveDroppedTotal (fst sh) = num_of id (snd en)"
proof -
  have new: "New M ModeEnforce = enforced (New M ModeShadow)" by (simp add: New_def enforced_def)
  have sh: "c_mode (New M ModeShadow) = ModeShadow" by (simp add: New_def)
  note r = run_enforced[OF sh, of M xs]
  have "enforceDropsAppliedTotal (fst (run (obs_step M) (New M ModeEnforce) xs)) =
      num_of id (snd (run (obs_step M) (New M ModeEnforce) xs))"
    using run_deltas[of "New M ModeEnforce" M xs] by (simp add: New_def)
  with r show ?thesis
    by (simp add: Let_def new enforced_def ShadowWouldHaveDroppedTotal_def New_def)
qed

text \<open>
  The counters account for every event. In shadow and enforce mode, after any stream of
  events, the four provenance counters add up to the byte-bearing events, so do the three
  decision counters, the lifecycle counters count their events, and the applied drops count
  the events reported as dropped (all modulo \<open>2 ^ 64\<close>).
\<close>

theorem classifier_accounting:
  assumes "md \<noteq> ModeOff"
  shows "let c = fst (run (obs_step M) (New M md) xs); es = map snd xs in
     observedBytesTotal c = of_nat (length xs) \<and>
     escapedPayloadAaTotal c + escapedPayloadEscTotal c + wireAutoSynTotal c + plainByteTotal c =
       num_of byte_bearing es \<and>
     fsmForwardTotal c + fsmDropAaInjectionTotal c + fsmProtocolFaultTotal c = num_of byte_bearing es \<and>
     fsmEnterPassiveTotal c = num_of (\<lambda>e. ev_Kind e \<in> {StreamEventStarted, StreamEventFailed}) es \<and>
     fsmResetTotal c = num_of (\<lambda>e. ev_Kind e = StreamEventReset) es \<and>
     enforceDropsAppliedTotal c = num_of id (snd (run (obs_step M) (New M md) xs))"
  using run_deltas[of "New M md" M xs] assms
  by (simp add: New_def Let_def provenance_sum_def decision_sum_def)

theorem classifier_accounting_witness:
  "ModeEnforce \<noteq> ModeOff \<and>
   enforceDropsAppliedTotal (fst (run (obs_step toy_fsm) (New toy_fsm ModeEnforce) [(0, started), (1, wire_syn)])) = 1"
proof -
  have "ModeEnforce \<noteq> ModeOff" by simp
  from classifier_accounting[OF this, of toy_fsm "[(0, started), (1, wire_syn)]"]
  have "enforceDropsAppliedTotal (fst (run (obs_step toy_fsm) (New toy_fsm ModeEnforce) [(0, started), (1, wire_syn)])) =
      num_of id (snd (run (obs_step toy_fsm) (New toy_fsm ModeEnforce) [(0, started), (1, wire_syn)]))"
    by (simp add: Let_def)
  also have "\<dots> = 1" by code_simp
  finally show ?thesis by simp
qed

text \<open>
  C20. A fenced arbitration recovers within two consecutive SYN symbols. Whatever the fence and
  the classifier are in, provided the telegram machine forwards a SYN when it is idle, after two
  consecutive structural SYN items the recovery is over, and at least one of the two items
  passed the injection filter and reached the SYN handler.
\<close>

theorem recovery_within_two_syns:
  assumes "\<forall>s. snd (fsm_Feed M (fsm_ResetToIdle M s) (SymbolSyn P) False) = DecisionForward"
    and "recovery m \<noteq> arbitrationRecoveryNone"
    and "structural_syn P e1" "ev_Byte e1 = SymbolSyn P" "structural_syn P e2" "ev_Byte e2 = SymbolSyn P"
  shows "let r1 = classify_item P M t1 e1 raw1 m; r2 = classify_item P M t2 e2 raw2 (fst r1) in
    recovery (fst r2) = arbitrationRecoveryNone \<and> (\<not> snd r1 \<or> \<not> snd r2)"
proof -
  let ?m1 = "fst (classify_item P M t1 e1 raw1 m)"
  from reconcile_syn[OF assms(3,2), of M] show ?thesis
  proof
    assume r: "recovery (reconcileArbitrationClassifier P M e1 m) = arbitrationRecoveryNone \<and>
      v8 (reconcileArbitrationClassifier P M e1 m) = map_option (ResetArbitrationTracking M) (v8 m)"
    with classify_reset_syn[OF assms(1,3,4)] have "\<not> snd (classify_item P M t1 e1 raw1 m)" by simp
    with r show ?thesis by (simp add: Let_def classify_recovery reconcile_idle)
  next
    assume "recovery (reconcileArbitrationClassifier P M e1 m) = arbitrationRecoveryForeignAfterAA \<and>
      recovery m \<noteq> arbitrationRecoveryForeignAfterAA"
    then have "recovery ?m1 = arbitrationRecoveryForeignAfterAA" by (simp add: classify_recovery)
    with reconcile_syn[OF assms(5), of ?m1 M] classify_reset_syn[OF assms(1,5,6), of ?m1]
    show ?thesis by (simp add: Let_def classify_recovery)
  qed
qed

theorem recovery_within_two_syns_witness:
  "let r1 = classify_item std_protocol toy_fsm 0 wire_syn None fenced_mux;
       r2 = classify_item std_protocol toy_fsm 1 wire_syn None (fst r1) in
    recovery (fst r2) = arbitrationRecoveryNone \<and> (\<not> snd r1 \<or> \<not> snd r2)"
  by (rule recovery_within_two_syns)
     (simp_all add: toy_fsm_def fenced_mux_def wire_syn_def structural_syn_def std_protocol_def)



text \<open>
  The admin-event buffer holds the latest events. After any sequence of emits and drains it
  holds exactly the last 64 recordable events since the last drain, in order, its drop counter
  counts the older ones (modulo \<open>2 ^ 64\<close>), and a drain hands out exactly these.
\<close>

theorem admin_buffer_latest:
  "let b = foldl ab_apply \<lparr> events = [], dropped = 0 \<rparr> ops; l = foldl ab_log [] ops in
     events b = drop (length l - 64) l \<and> dropped b = of_nat (length l - 64) \<and>
     ab_drain b = (\<lparr> events = [], dropped = 0 \<rparr>, drop (length l - 64) l, of_nat (length l - 64))"
proof -
  let ?b = "foldl ab_apply \<lparr> events = [], dropped = 0 \<rparr> ops" and ?l = "foldl ab_log [] ops"
  have "events ?b = drop (length ?l - 64) ?l \<and> dropped ?b = of_nat (length ?l - 64)"
    using admin_buffer.run_keeps[of "(\<lparr> events = [], dropped = 0 \<rparr>, [])" ops]
    by (simp add: foldl_pair adminEventBufferCap_def)
  then show ?thesis by (simp add: Let_def ab_drain_eq)
qed

end
