(* ===== verification/Passive_Reconstructor.thy ===== *)
theory Passive_Reconstructor
  imports Gateway_Prelude
begin

text \<open>
  The passive transaction reconstructor, \<^verbatim>\<open>src/passive_transaction_reconstructor.go\<close>, with the
  frame parser of \<^verbatim>\<open>src/wire_log.go\<close> and the address rules of
  \<^verbatim>\<open>src/passive_reconstructor_f19c_helpers.go\<close>: from the symbols other participants put on the
  bus it rebuilds broadcast frames, initiator frames and request/response transactions, or says
  why it gave one up.

  From \<^verbatim>\<open>helianthus-ebusgo/protocol\<close> it uses the checksum, the frame type of a frame and the
  address class of a byte; they are fields of \<open>passive_protocol\<close>. Times are nanoseconds, 0 is
  Go's zero time. A handler of the source appends to the slice of events it is given; here it
  returns the new reconstructor and the events it appends. The forensic log lines are not
  modelled.
\<close>

section \<open>Data\<close>

record Frame =
  Source :: byte
  Target :: byte
  Primary :: byte
  Secondary :: byte
  Data :: "byte list"

datatype FrameType = FrameTypeUnknown | FrameTypeBroadcast | FrameTypeInitiatorInitiator | FrameTypeInitiatorTarget

record passive_protocol = ebus_protocol +
  CRC :: "byte list \<Rightarrow> byte"
  Frame_Type :: "Frame \<Rightarrow> FrameType"
  AddressClassMaster :: "byte \<Rightarrow> bool"

definition zero_frame :: Frame where
  "zero_frame = \<lparr> Source = 0, Target = 0, Primary = 0, Secondary = 0, Data = [] \<rparr>"

definition maxPassiveDataLen :: int where "maxPassiveDataLen = 16"
definition maxPassiveLogicalRequestBytes :: nat where "maxPassiveLogicalRequestBytes = 50"

datatype PassiveClassifiedEventKind =
  PassiveClassifiedEventBroadcastFrame | PassiveClassifiedEventMasterFrame |
  PassiveClassifiedEventTransaction | PassiveClassifiedEventAbandonedTransaction |
  PassiveClassifiedEventDiscontinuity

datatype PassiveDiscontinuityReason =
  PassiveDiscontinuityNone | PassiveDiscontinuityConnected | PassiveDiscontinuityDisconnected |
  PassiveDiscontinuityTransportReset | PassiveDiscontinuityDecodeFault |
  PassiveDiscontinuityReadTimeout | PassiveDiscontinuityShutdown |
  PassiveDiscontinuityCriticalSubscriberFault

datatype PassiveAbandonReason =
  PassiveAbandonReasonNone | PassiveAbandonReasonCorruptedRequest | PassiveAbandonReasonCorruptedTarget |
  PassiveAbandonReasonNACK | PassiveAbandonReasonNoResponse | PassiveAbandonReasonNoProgress |
  PassiveAbandonReasonUnexpectedSYN | PassiveAbandonReasonUnexpectedSymbol |
  PassiveAbandonReasonTransportReset | PassiveAbandonReasonDecodeFault |
  PassiveAbandonReasonDisconnected | PassiveAbandonReasonCRCMismatch |
  PassiveAbandonReasonAmbiguousRetransmit | PassiveAbandonReasonShutdown |
  PassiveAbandonReasonScanTimeout | PassiveAbandonReasonScanCollision |
  PassiveAbandonReasonArbitrationFragment | PassiveAbandonReasonSelfEcho |
  PassiveAbandonReasonInvalidQQ | PassiveAbandonReasonInvalidZZ |
  PassiveAbandonReasonInvalidNNMaster | PassiveAbandonReasonInvalidNNSlave |
  PassiveAbandonReasonBufferOverflow

datatype passive_error = ErrInvalidPayload | ErrPassiveTimeout | ErrNACK | ErrCRCMismatch | Canceled | OtherError string

record PassiveTimingMarkers =
  RequestStart :: int
  RequestEnd :: int
  ResponseStart :: int
  ResponseEnd :: int
  Terminal :: int

definition zero_timing :: PassiveTimingMarkers where
  "zero_timing = \<lparr> RequestStart = 0, RequestEnd = 0, ResponseStart = 0, ResponseEnd = 0, Terminal = 0 \<rparr>"

text \<open>The request acknowledge as evidence: the byte, absent when nothing is correlated.\<close>

type_synonym ack_correlation = "byte option"

record PassiveClassifiedEvent =
  pe_Kind :: PassiveClassifiedEventKind
  pe_FrameType :: FrameType
  pe_Request :: Frame
  pe_Response :: Frame
  pe_HasRequest :: bool
  pe_HasResponse :: bool
  pe_Timing :: PassiveTimingMarkers
  pe_ObservedAt :: int
  pe_AbandonReason :: PassiveAbandonReason
  pe_DiscontinuityReason :: PassiveDiscontinuityReason
  pe_ACKCorrelation :: ack_correlation
  pe_Err :: "passive_error option"
  pe_Subscriber :: string
  pe_OffendingSymbol :: byte
  pe_OffendingWasEscaped :: bool

definition blank_event :: "PassiveClassifiedEventKind \<Rightarrow> int \<Rightarrow> PassiveClassifiedEvent" where
  "blank_event k at = \<lparr> pe_Kind = k, pe_FrameType = FrameTypeUnknown, pe_Request = zero_frame,
     pe_Response = zero_frame, pe_HasRequest = False, pe_HasResponse = False, pe_Timing = zero_timing,
     pe_ObservedAt = at, pe_AbandonReason = PassiveAbandonReasonNone,
     pe_DiscontinuityReason = PassiveDiscontinuityNone, pe_ACKCorrelation = None, pe_Err = None,
     pe_Subscriber = '''', pe_OffendingSymbol = 0, pe_OffendingWasEscaped = False \<rparr>"

datatype passiveTransactionPhase =
  passivePhaseIdle | passivePhaseRequest | passivePhaseWaitACK | passivePhaseWaitResponse |
  passivePhaseWaitFinalACK | passivePhaseWaitTerminal | passivePhaseAbandoned

record passiveTransactionState =
  ph :: passiveTransactionPhase
  requestRaw :: "byte list"
  request :: Frame
  responseRaw :: "byte list"
  response :: Frame
  responseExpectedLen :: int
  responseCRCValid :: bool
  ackCorrelation :: ack_correlation
  frameType :: FrameType
  timing :: PassiveTimingMarkers
  lastProgressAt :: int
  synced :: bool
  awaitingResync :: bool

text \<open>
  \<open>localAddress\<close> is the address the snapshotter reports, absent when there is no snapshotter or
  the address is not known yet.
\<close>

record PassiveTransactionReconstructor =
  state :: passiveTransactionState
  watchdog :: int
  pendingRecoveryReason :: string
  localAddress :: "byte option"
  recoveryTotal :: "string \<Rightarrow> uint64"
  abandonsByReason :: "PassiveAbandonReason \<Rightarrow> uint64"
  prefixResyncSkippedTotal :: uint64
  invalidSrcClassSkippedTotal :: uint64

type_synonym step_result = "PassiveTransactionReconstructor \<times> PassiveClassifiedEvent list"

definition clampPassiveTransactionWatchdog :: "int \<Rightarrow> int" where
  "clampPassiveTransactionWatchdog value =
     (if value \<le> 0 then 1000000000
      else if value < 250000000 then 250000000
      else if value > 5000000000 then 5000000000 else value)"

definition idle_state :: passiveTransactionState where
  "idle_state = \<lparr> ph = passivePhaseIdle, requestRaw = [], request = zero_frame, responseRaw = [],
     response = zero_frame, responseExpectedLen = 0, responseCRCValid = False, ackCorrelation = None,
     frameType = FrameTypeUnknown, timing = zero_timing, lastProgressAt = 0, synced = False,
     awaitingResync = False \<rparr>"

definition newPassiveTransactionReconstructorCore :: "int \<Rightarrow> PassiveTransactionReconstructor" where
  "newPassiveTransactionReconstructorCore wd =
     \<lparr> state = idle_state, watchdog = clampPassiveTransactionWatchdog wd, pendingRecoveryReason = '''',
       localAddress = None, recoveryTotal = (\<lambda>_. 0), abandonsByReason = (\<lambda>_. 0),
       prefixResyncSkippedTotal = 0, invalidSrcClassSkippedTotal = 0 \<rparr>"

section \<open>Frames and addresses\<close>

definition isInitiatorNibble :: "byte \<Rightarrow> bool" where
  "isInitiatorNibble n \<longleftrightarrow> n \<in> {0x0, 0x1, 0x3, 0x7, 0xF}"

definition isInitiatorAddr :: "byte \<Rightarrow> bool" where
  "isInitiatorAddr b \<longleftrightarrow> isInitiatorNibble (b AND 0x0F) \<and> isInitiatorNibble (drop_bit 4 b AND 0x0F)"

definition isValidTargetAddr :: "byte \<Rightarrow> bool" where
  "isValidTargetAddr b \<longleftrightarrow> b \<noteq> 0xAA \<and> b \<noteq> 0xA9 \<and> b \<noteq> 0xFE \<and> \<not> isInitiatorAddr b"

definition parseFrame :: "'a passive_protocol_scheme \<Rightarrow> byte list \<Rightarrow> Frame option" where
  "parseFrame P raw =
     (if length raw < 6 then None
      else if length raw \<noteq> 6 + unat (raw ! 4) then None
      else if CRC P (butlast raw) \<noteq> last raw then None
      else Some \<lparr> Source = raw ! 0, Target = raw ! 1, Primary = raw ! 2, Secondary = raw ! 3,
                  Data = take (unat (raw ! 4)) (drop 5 raw) \<rparr>)"

definition parsePassiveResponse ::
    "'a passive_protocol_scheme \<Rightarrow> Frame \<Rightarrow> byte list \<Rightarrow> Frame \<times> bool" where
  "parsePassiveResponse P req raw =
     (if length raw < 2 then (zero_frame, False)
      else if length raw \<noteq> unat (raw ! 0) + 2 then (zero_frame, False)
      else (\<lparr> Source = Target req, Target = Source req, Primary = Primary req,
              Secondary = Secondary req, Data = take (unat (raw ! 0)) (drop 1 raw) \<rparr>,
            CRC P (butlast raw) = last raw))"

definition isScanProbeRaw :: "byte list \<Rightarrow> bool" where
  "isScanProbeRaw raw \<longleftrightarrow> 4 \<le> length raw \<and> raw ! 2 = 0x07 \<and> raw ! 3 = 0x04"

section \<open>State changes the handlers share\<close>

definition resetStateLocked :: "PassiveTransactionReconstructor \<Rightarrow> PassiveTransactionReconstructor" where
  "resetStateLocked r = r\<lparr> state := idle_state \<rparr>"

definition resetStateLockedAfterSyn :: "PassiveTransactionReconstructor \<Rightarrow> PassiveTransactionReconstructor" where
  "resetStateLockedAfterSyn r = r\<lparr> state := idle_state\<lparr> synced := True \<rparr> \<rparr>"

definition set_phase :: "passiveTransactionPhase \<Rightarrow> PassiveTransactionReconstructor \<Rightarrow> PassiveTransactionReconstructor" where
  "set_phase p r = r\<lparr> state := (state r)\<lparr> ph := p \<rparr> \<rparr>"

definition isScanTimeoutLocked :: "PassiveTransactionReconstructor \<Rightarrow> bool" where
  "isScanTimeoutLocked r \<longleftrightarrow> Primary (request (state r)) = 0x07 \<and> Secondary (request (state r)) = 0x04"

definition isSelfOriginatedRaw :: "PassiveTransactionReconstructor \<Rightarrow> bool" where
  "isSelfOriginatedRaw r = (case localAddress r of None \<Rightarrow> False
     | Some a \<Rightarrow> requestRaw (state r) \<noteq> [] \<and> hd (requestRaw (state r)) = a)"

definition isSelfOriginatedParsed :: "PassiveTransactionReconstructor \<Rightarrow> bool" where
  "isSelfOriginatedParsed r = (case localAddress r of None \<Rightarrow> False
     | Some a \<Rightarrow> Source (request (state r)) = a)"

definition recordRecoveryLocked :: "PassiveTransactionReconstructor \<Rightarrow> PassiveTransactionReconstructor" where
  "recordRecoveryLocked r =
     (if pendingRecoveryReason r = '''' then r
      else r\<lparr> recoveryTotal := (recoveryTotal r)(pendingRecoveryReason r :=
                recoveryTotal r (pendingRecoveryReason r) + 1),
             pendingRecoveryReason := '''' \<rparr>)"

definition abandonLocked ::
    "PassiveAbandonReason \<Rightarrow> int \<Rightarrow> passive_error option \<Rightarrow> byte \<Rightarrow> bool \<Rightarrow>
      PassiveTransactionReconstructor \<Rightarrow> step_result" where
  "abandonLocked reason observedAt er offending wasEscaped r =
     (let s = state r;
          ack = (if reason \<in> {PassiveAbandonReasonNoResponse, PassiveAbandonReasonNoProgress,
                              PassiveAbandonReasonAmbiguousRetransmit, PassiveAbandonReasonCRCMismatch}
                 then None else ackCorrelation s);
          ev = \<lparr> pe_Kind = PassiveClassifiedEventAbandonedTransaction, pe_FrameType = frameType s,
                 pe_Request = request s, pe_Response = response s,
                 pe_HasRequest = (frameType s \<noteq> FrameTypeUnknown),
                 pe_HasResponse = (responseExpectedLen s > 0),
                 pe_Timing = (timing s)\<lparr> Terminal := observedAt \<rparr>, pe_ObservedAt = observedAt,
                 pe_AbandonReason = reason, pe_DiscontinuityReason = PassiveDiscontinuityNone,
                 pe_ACKCorrelation = ack, pe_Err = er, pe_Subscriber = '''',
                 pe_OffendingSymbol = offending, pe_OffendingWasEscaped = wasEscaped \<rparr>
      in (r\<lparr> abandonsByReason := (abandonsByReason r)(reason := abandonsByReason r reason + 1) \<rparr>, [ev]))"

text \<open>Abandon and continue with a reset or a phase.\<close>

definition abandon_then ::
    "(PassiveTransactionReconstructor \<Rightarrow> PassiveTransactionReconstructor) \<Rightarrow> PassiveAbandonReason \<Rightarrow> int \<Rightarrow>
      passive_error \<Rightarrow> byte \<Rightarrow> bool \<Rightarrow> PassiveTransactionReconstructor \<Rightarrow> step_result" where
  "abandon_then f reason observedAt er offending wasEscaped r =
     (let (r, evs) = abandonLocked reason observedAt (Some er) offending wasEscaped r in (f r, evs))"

definition startRequestLocked ::
    "byte \<Rightarrow> int \<Rightarrow> PassiveTransactionReconstructor \<Rightarrow> PassiveTransactionReconstructor" where
  "startRequestLocked symbol observedAt r =
     r\<lparr> state := idle_state\<lparr> ph := passivePhaseRequest, requestRaw := [symbol],
          timing := zero_timing\<lparr> RequestStart := observedAt \<rparr>, lastProgressAt := observedAt \<rparr> \<rparr>"

section \<open>The handlers\<close>

definition dispatchParsedRequestLocked ::
    "'a passive_protocol_scheme \<Rightarrow> Frame \<Rightarrow> int \<Rightarrow> bool \<Rightarrow> PassiveTransactionReconstructor \<Rightarrow> step_result" where
  "dispatchParsedRequestLocked P frame observedAt afterSyn r =
     (let reset = (if afterSyn then resetStateLockedAfterSyn else resetStateLocked);
          ft = Frame_Type P frame
      in if ft = FrameTypeUnknown then
           abandon_then reset PassiveAbandonReasonCorruptedTarget observedAt ErrInvalidPayload 0 False r
         else
           (let s = state r;
                r = r\<lparr> state := s\<lparr> timing := (timing s)\<lparr> RequestEnd := observedAt \<rparr>,
                                    lastProgressAt := observedAt, request := frame, frameType := ft \<rparr> \<rparr>
            in if ft = FrameTypeBroadcast then
                 (reset (recordRecoveryLocked r),
                  [(blank_event PassiveClassifiedEventBroadcastFrame observedAt)
                     \<lparr> pe_FrameType := ft, pe_Request := frame, pe_HasRequest := True,
                       pe_Timing := zero_timing\<lparr> RequestStart := RequestStart (timing (state r)),
                                      RequestEnd := observedAt, Terminal := observedAt \<rparr> \<rparr>])
               else (set_phase passivePhaseWaitACK r, [])))"

definition commitRequestFrameLocked ::
    "'a passive_protocol_scheme \<Rightarrow> int \<Rightarrow> PassiveTransactionReconstructor \<Rightarrow> step_result option" where
  "commitRequestFrameLocked P observedAt r =
     (case parseFrame P (requestRaw (state r)) of None \<Rightarrow> None
      | Some frame \<Rightarrow>
          if Frame_Type P frame \<in> {FrameTypeInitiatorInitiator, FrameTypeInitiatorTarget}
          then Some (dispatchParsedRequestLocked P frame observedAt False r) else None)"

text \<open>
  The branch of \<^verbatim>\<open>handleRequestSymbolLocked\<close> for a data symbol, after the symbol was appended:
  the bound checks at the structural offsets, then the completion by length.
\<close>

definition request_bound_fault :: "byte list \<Rightarrow> byte \<Rightarrow> (PassiveAbandonReason \<times> byte) option" where
  "request_bound_fault raw symbol =
     (if length raw = 2 \<and> (raw ! 1 = 0xAA \<or> raw ! 1 = 0xA9) then
        Some (PassiveAbandonReasonInvalidZZ, raw ! 1)
      else if length raw = 2 \<and> raw ! 1 \<noteq> 0xFE \<and> \<not> isInitiatorAddr (raw ! 1) \<and> \<not> isValidTargetAddr (raw ! 1) then
        Some (PassiveAbandonReasonInvalidZZ, raw ! 1)
      else if length raw = 5 \<and> uint (raw ! 4) > maxPassiveDataLen then
        Some (PassiveAbandonReasonInvalidNNMaster, raw ! 4)
      else if length raw > maxPassiveLogicalRequestBytes then
        Some (PassiveAbandonReasonBufferOverflow, symbol)
      else None)"

definition handle_request_data ::
    "'a passive_protocol_scheme \<Rightarrow> byte \<Rightarrow> bool \<Rightarrow> int \<Rightarrow> PassiveTransactionReconstructor \<Rightarrow> step_result" where
  "handle_request_data P symbol wasEscaped observedAt r =
     (let s = state r;
          r = r\<lparr> state := s\<lparr> requestRaw := requestRaw s @ [symbol], lastProgressAt := observedAt \<rparr> \<rparr>;
          raw = requestRaw (state r)
      in case request_bound_fault raw symbol of
           Some (reason, offending) \<Rightarrow>
             abandon_then resetStateLocked reason observedAt ErrInvalidPayload offending wasEscaped r
         | None \<Rightarrow>
             if 5 \<le> length raw \<and> length raw = 6 + unat (raw ! 4) then
               (case commitRequestFrameLocked P observedAt r of
                  Some res \<Rightarrow> res
                | None \<Rightarrow>
                    if parseFrame P raw = None then
                      (let reason = (if isSelfOriginatedRaw r then PassiveAbandonReasonSelfEcho
                                     else if isScanProbeRaw raw then PassiveAbandonReasonScanCollision
                                     else PassiveAbandonReasonCorruptedRequest)
                       in abandon_then resetStateLocked reason observedAt ErrInvalidPayload symbol wasEscaped r)
                    else (r, []))
             else (r, []))"

definition handleRequestSymbolLocked ::
    "'a passive_protocol_scheme \<Rightarrow> byte \<Rightarrow> bool \<Rightarrow> int \<Rightarrow> PassiveTransactionReconstructor \<Rightarrow> step_result" where
  "handleRequestSymbolLocked P symbol wasEscaped observedAt r =
     (if symbol \<noteq> SymbolSyn P \<or> wasEscaped then handle_request_data P symbol wasEscaped observedAt r
      else
        (let s = state r;
             r = r\<lparr> state := s\<lparr> timing := (timing s)\<lparr> RequestEnd := observedAt \<rparr>, lastProgressAt := observedAt \<rparr> \<rparr>;
             raw = requestRaw (state r)
         in case parseFrame P raw of
              Some frame \<Rightarrow> dispatchParsedRequestLocked P frame observedAt True r
            | None \<Rightarrow>
                (let midframe = (5 \<le> length raw \<and> uint (raw ! 4) \<le> maxPassiveDataLen \<and>
                                 length raw < 6 + unat (raw ! 4));
                     unexpected = (5 \<le> length raw \<and> \<not> isSelfOriginatedRaw r \<and> \<not> isScanProbeRaw raw \<and> midframe);
                     reason = (if length raw < 5 then PassiveAbandonReasonArbitrationFragment
                               else if isSelfOriginatedRaw r then PassiveAbandonReasonSelfEcho
                               else if isScanProbeRaw raw then PassiveAbandonReasonScanCollision
                               else if midframe then PassiveAbandonReasonUnexpectedSYN
                               else PassiveAbandonReasonCorruptedRequest);
                     r = (if unexpected then r\<lparr> pendingRecoveryReason := ''unexpected_syn'' \<rparr> else r)
                 in abandon_then resetStateLockedAfterSyn reason observedAt ErrInvalidPayload symbol wasEscaped r)))"

definition handleACKSymbolLocked ::
    "'a passive_protocol_scheme \<Rightarrow> byte \<Rightarrow> bool \<Rightarrow> int \<Rightarrow> PassiveTransactionReconstructor \<Rightarrow> step_result" where
  "handleACKSymbolLocked P symbol wasEscaped observedAt r =
     (let s = state r in
      if symbol = SymbolAck P then
        (let s = s\<lparr> lastProgressAt := observedAt, ackCorrelation := Some symbol \<rparr>
         in (r\<lparr> state := (if frameType s = FrameTypeInitiatorInitiator
                          then s\<lparr> ph := passivePhaseWaitTerminal \<rparr>
                          else s\<lparr> ph := passivePhaseWaitResponse, responseRaw := [],
                                  responseExpectedLen := 0, responseCRCValid := False \<rparr>) \<rparr>, []))
      else if symbol = SymbolNack P then
        abandon_then resetStateLockedAfterSyn PassiveAbandonReasonNACK observedAt ErrNACK symbol wasEscaped
          (r\<lparr> state := s\<lparr> ackCorrelation := Some symbol \<rparr> \<rparr>)
      else if symbol = SymbolSyn P then
        (if isScanTimeoutLocked r then
           abandon_then resetStateLockedAfterSyn PassiveAbandonReasonScanTimeout observedAt ErrPassiveTimeout
             symbol wasEscaped r
         else if isSelfOriginatedParsed r then
           abandon_then resetStateLockedAfterSyn PassiveAbandonReasonSelfEcho observedAt ErrPassiveTimeout
             symbol wasEscaped r
         else
           abandon_then (\<lambda>r. resetStateLockedAfterSyn (r\<lparr> pendingRecoveryReason := ''unexpected_syn'' \<rparr>))
             PassiveAbandonReasonUnexpectedSYN observedAt ErrPassiveTimeout symbol wasEscaped r)
      else abandon_then (set_phase passivePhaseAbandoned) PassiveAbandonReasonUnexpectedSymbol observedAt
             ErrInvalidPayload symbol wasEscaped r)"

definition handleResponseSymbolLocked ::
    "'a passive_protocol_scheme \<Rightarrow> byte \<Rightarrow> bool \<Rightarrow> int \<Rightarrow> PassiveTransactionReconstructor \<Rightarrow> step_result" where
  "handleResponseSymbolLocked P symbol wasEscaped observedAt r =
     (let s = state r in
      if responseRaw s = [] \<and> symbol = SymbolSyn P \<and> \<not> wasEscaped then
        abandon_then resetStateLockedAfterSyn PassiveAbandonReasonNoResponse observedAt ErrPassiveTimeout
          symbol wasEscaped r
      else if responseRaw s \<noteq> [] \<and> symbol = SymbolSyn P \<and> \<not> wasEscaped then
        abandon_then (\<lambda>r. resetStateLockedAfterSyn (r\<lparr> pendingRecoveryReason := ''unexpected_syn'' \<rparr>))
          PassiveAbandonReasonUnexpectedSYN observedAt ErrPassiveTimeout symbol wasEscaped r
      else
        (let s = s\<lparr> lastProgressAt := observedAt \<rparr> in
         if responseRaw s = [] \<and> uint symbol > maxPassiveDataLen then
           abandon_then resetStateLocked PassiveAbandonReasonInvalidNNSlave observedAt ErrInvalidPayload
             symbol wasEscaped (r\<lparr> state := s\<lparr> responseRaw := responseRaw s @ [symbol] \<rparr> \<rparr>)
         else
           (let s = (if responseRaw s = []
                     then s\<lparr> timing := (timing s)\<lparr> ResponseStart := observedAt \<rparr>,
                             responseExpectedLen := uint symbol + 2 \<rparr> else s);
                s = s\<lparr> responseRaw := responseRaw s @ [symbol] \<rparr>;
                r = r\<lparr> state := s \<rparr>
            in if int (length (responseRaw s)) < responseExpectedLen s then (r, [])
               else if int (length (responseRaw s)) > responseExpectedLen s then
                 abandon_then (set_phase passivePhaseAbandoned) PassiveAbandonReasonUnexpectedSymbol observedAt
                   ErrInvalidPayload symbol wasEscaped r
               else (let (rsp, ok) = parsePassiveResponse P (request s) (responseRaw s)
                     in (r\<lparr> state := s\<lparr> response := rsp, responseCRCValid := ok,
                            timing := (timing s)\<lparr> ResponseEnd := observedAt \<rparr>,
                            ph := passivePhaseWaitFinalACK \<rparr> \<rparr>, [])))))"

definition handleFinalACKSymbolLocked ::
    "'a passive_protocol_scheme \<Rightarrow> byte \<Rightarrow> bool \<Rightarrow> int \<Rightarrow> PassiveTransactionReconstructor \<Rightarrow> step_result" where
  "handleFinalACKSymbolLocked P symbol wasEscaped observedAt r =
     (let s = state r in
      if symbol = SymbolAck P then
        (if \<not> responseCRCValid s then
           abandon_then (set_phase passivePhaseAbandoned) PassiveAbandonReasonCRCMismatch observedAt
             ErrCRCMismatch symbol wasEscaped r
         else (r\<lparr> state := s\<lparr> lastProgressAt := observedAt, ph := passivePhaseWaitTerminal \<rparr> \<rparr>, []))
      else if symbol = SymbolNack P then
        abandon_then (set_phase passivePhaseAbandoned) PassiveAbandonReasonAmbiguousRetransmit observedAt
          ErrNACK symbol wasEscaped r
      else if symbol = SymbolSyn P then
        abandon_then (\<lambda>r. resetStateLockedAfterSyn (r\<lparr> pendingRecoveryReason := ''unexpected_syn'' \<rparr>))
          PassiveAbandonReasonUnexpectedSYN observedAt ErrPassiveTimeout symbol wasEscaped r
      else abandon_then (set_phase passivePhaseAbandoned) PassiveAbandonReasonUnexpectedSymbol observedAt
             ErrInvalidPayload symbol wasEscaped r)"

definition handleTerminalSymbolLocked ::
    "'a passive_protocol_scheme \<Rightarrow> byte \<Rightarrow> bool \<Rightarrow> int \<Rightarrow> PassiveTransactionReconstructor \<Rightarrow> step_result" where
  "handleTerminalSymbolLocked P symbol wasEscaped observedAt r =
     (if symbol \<noteq> SymbolSyn P then
        abandon_then (set_phase passivePhaseAbandoned) PassiveAbandonReasonUnexpectedSymbol observedAt
          ErrInvalidPayload symbol wasEscaped r
      else
        (let s = (state r)\<lparr> lastProgressAt := observedAt \<rparr>;
             r = r\<lparr> state := s \<rparr>;
             tm = (timing s)\<lparr> Terminal := observedAt \<rparr>
         in if frameType s = FrameTypeInitiatorInitiator then
              (resetStateLockedAfterSyn (recordRecoveryLocked r),
               [(blank_event PassiveClassifiedEventMasterFrame observedAt)
                  \<lparr> pe_FrameType := frameType s, pe_Request := request s, pe_HasRequest := True,
                    pe_Timing := tm, pe_ACKCorrelation := ackCorrelation s \<rparr>])
            else if frameType s = FrameTypeInitiatorTarget then
              (resetStateLockedAfterSyn (recordRecoveryLocked r),
               [(blank_event PassiveClassifiedEventTransaction observedAt)
                  \<lparr> pe_FrameType := frameType s, pe_Request := request s, pe_Response := response s,
                    pe_HasRequest := True, pe_HasResponse := True, pe_Timing := tm,
                    pe_ACKCorrelation := ackCorrelation s \<rparr>])
            else abandon_then resetStateLockedAfterSyn PassiveAbandonReasonUnexpectedSymbol observedAt
                   ErrInvalidPayload 0 False r))"

definition handle_idle_symbol ::
    "'a passive_protocol_scheme \<Rightarrow> byte \<Rightarrow> bool \<Rightarrow> int \<Rightarrow> PassiveTransactionReconstructor \<Rightarrow> step_result" where
  "handle_idle_symbol P symbol wasEscaped observedAt r =
     (let s = state r in
      if symbol = SymbolSyn P then (r\<lparr> state := s\<lparr> synced := True, awaitingResync := False \<rparr> \<rparr>, [])
      else if \<not> synced s then
        (if \<not> awaitingResync s
         then r\<lparr> prefixResyncSkippedTotal := prefixResyncSkippedTotal r + 1 \<rparr> else r, [])
      else if \<not> AddressClassMaster P symbol then
        (r\<lparr> invalidSrcClassSkippedTotal := invalidSrcClassSkippedTotal r + 1,
            state := s\<lparr> synced := False, awaitingResync := True \<rparr> \<rparr>, [])
      else if \<not> isInitiatorAddr symbol then
        abandon_then resetStateLocked PassiveAbandonReasonInvalidQQ observedAt ErrInvalidPayload symbol wasEscaped r
      else (startRequestLocked symbol observedAt r, []))"

definition handleSymbolLocked ::
    "'a passive_protocol_scheme \<Rightarrow> byte \<Rightarrow> bool \<Rightarrow> int \<Rightarrow> PassiveTransactionReconstructor \<Rightarrow> step_result" where
  "handleSymbolLocked P symbol wasEscaped observedAt r =
     (case ph (state r) of
        passivePhaseIdle \<Rightarrow> handle_idle_symbol P symbol wasEscaped observedAt r
      | passivePhaseRequest \<Rightarrow> handleRequestSymbolLocked P symbol wasEscaped observedAt r
      | passivePhaseWaitACK \<Rightarrow> handleACKSymbolLocked P symbol wasEscaped observedAt r
      | passivePhaseWaitResponse \<Rightarrow> handleResponseSymbolLocked P symbol wasEscaped observedAt r
      | passivePhaseWaitFinalACK \<Rightarrow> handleFinalACKSymbolLocked P symbol wasEscaped observedAt r
      | passivePhaseWaitTerminal \<Rightarrow> handleTerminalSymbolLocked P symbol wasEscaped observedAt r
      | passivePhaseAbandoned \<Rightarrow>
          (if symbol = SymbolSyn P then resetStateLockedAfterSyn r else r, []))"

definition expireIfStaleLocked :: "int \<Rightarrow> PassiveTransactionReconstructor \<Rightarrow> step_result" where
  "expireIfStaleLocked observedAt r =
     (let s = state r in
      if ph s = passivePhaseIdle \<or> ph s = passivePhaseAbandoned \<or> lastProgressAt s = 0 then (r, [])
      else if observedAt - lastProgressAt s \<le> watchdog r then (r, [])
      else abandon_then (set_phase passivePhaseAbandoned) PassiveAbandonReasonNoProgress observedAt
             ErrPassiveTimeout 0 False r)"

definition discontinuity :: "PassiveDiscontinuityReason \<Rightarrow> int \<Rightarrow> passive_error option \<Rightarrow> PassiveClassifiedEvent" where
  "discontinuity reason observedAt er = (blank_event PassiveClassifiedEventDiscontinuity observedAt)
     \<lparr> pe_DiscontinuityReason := reason, pe_Err := er \<rparr>"

definition handleTransportDiscontinuityLocked ::
    "int \<Rightarrow> PassiveDiscontinuityReason \<Rightarrow> PassiveAbandonReason \<Rightarrow> passive_error option \<Rightarrow>
      PassiveTransactionReconstructor \<Rightarrow> step_result" where
  "handleTransportDiscontinuityLocked observedAt reason abandonReason er r =
     (let (r, evs) = (if ph (state r) \<noteq> passivePhaseIdle \<and> ph (state r) \<noteq> passivePhaseAbandoned
                      then abandonLocked abandonReason observedAt er 0 False r else (r, []));
          r = (case reason of
                 PassiveDiscontinuityTransportReset \<Rightarrow> r\<lparr> pendingRecoveryReason := ''transport_reset'' \<rparr>
               | PassiveDiscontinuityDecodeFault \<Rightarrow> r\<lparr> pendingRecoveryReason := ''decode_fault'' \<rparr>
               | _ \<Rightarrow> r)
      in (resetStateLocked r, evs @ [discontinuity reason observedAt er]))"

datatype PassiveTapEventKind =
  PassiveTapEventConnected | PassiveTapEventDisconnected | PassiveTapEventSymbol |
  PassiveTapEventReset | PassiveTapEventDecodeFault | PassiveTapEventReadTimeout

record PassiveTapEvent =
  te_Kind :: PassiveTapEventKind
  te_Symbol :: byte
  te_ObservedAt :: int
  te_Err :: "passive_error option"
  te_WasEscaped :: bool

definition handleTapEventLocked ::
    "'a passive_protocol_scheme \<Rightarrow> PassiveTransactionReconstructor \<Rightarrow> PassiveTapEvent \<Rightarrow> step_result" where
  "handleTapEventLocked P r e =
     (case te_Kind e of
        PassiveTapEventSymbol \<Rightarrow>
          (let (r, evs1) = expireIfStaleLocked (te_ObservedAt e) r;
               (r, evs2) = handleSymbolLocked P (te_Symbol e) (te_WasEscaped e) (te_ObservedAt e) r
           in (r, evs1 @ evs2))
      | PassiveTapEventConnected \<Rightarrow>
          (resetStateLocked r, [discontinuity PassiveDiscontinuityConnected (te_ObservedAt e) (te_Err e)])
      | PassiveTapEventDisconnected \<Rightarrow>
          handleTransportDiscontinuityLocked (te_ObservedAt e) PassiveDiscontinuityDisconnected
            PassiveAbandonReasonDisconnected (te_Err e) r
      | PassiveTapEventReset \<Rightarrow>
          handleTransportDiscontinuityLocked (te_ObservedAt e) PassiveDiscontinuityTransportReset
            PassiveAbandonReasonTransportReset (te_Err e) r
      | PassiveTapEventDecodeFault \<Rightarrow>
          handleTransportDiscontinuityLocked (te_ObservedAt e) PassiveDiscontinuityDecodeFault
            PassiveAbandonReasonDecodeFault (te_Err e) r
      | PassiveTapEventReadTimeout \<Rightarrow> expireIfStaleLocked (te_ObservedAt e) r)"

definition shutdownEvents :: "int \<Rightarrow> PassiveTransactionReconstructor \<Rightarrow> step_result" where
  "shutdownEvents now r =
     (let (r, evs) = (if ph (state r) \<noteq> passivePhaseIdle \<and> ph (state r) \<noteq> passivePhaseAbandoned
                      then abandonLocked PassiveAbandonReasonShutdown now (Some Canceled) 0 False r else (r, []))
      in (resetStateLocked r, evs @ [discontinuity PassiveDiscontinuityShutdown now (Some Canceled)]))"

section \<open>What the bus carries\<close>

definition request_bytes :: "'a passive_protocol_scheme \<Rightarrow> Frame \<Rightarrow> byte list" where
  "request_bytes P f =
     (let raw = [Source f, Target f, Primary f, Secondary f, of_nat (length (Data f))] @ Data f
      in raw @ [CRC P raw])"

definition response_bytes :: "'a passive_protocol_scheme \<Rightarrow> Frame \<Rightarrow> byte list" where
  "response_bytes P f = (let raw = of_nat (length (Data f)) # Data f in raw @ [CRC P raw])"

definition answers :: "Frame \<Rightarrow> Frame \<Rightarrow> bool" where
  "answers rsp req \<longleftrightarrow> Source rsp = Target req \<and> Target rsp = Source req \<and>
     Primary rsp = Primary req \<and> Secondary rsp = Secondary req"

text \<open>
  The symbols a stretch of tap events delivered without a break: a connect, disconnect, reset
  or decode fault breaks it, a read timeout does not.
\<close>

definition extend_syms :: "byte list \<Rightarrow> PassiveTapEvent \<Rightarrow> byte list" where
  "extend_syms h e = (case te_Kind e of PassiveTapEventSymbol \<Rightarrow> h @ [te_Symbol e]
     | PassiveTapEventReadTimeout \<Rightarrow> h | _ \<Rightarrow> [])"

definition unbroken_syms :: "PassiveTapEvent list \<Rightarrow> byte list" where
  "unbroken_syms es = foldl extend_syms [] es"

definition reconstruct :: "'a passive_protocol_scheme \<Rightarrow> PassiveTransactionReconstructor \<Rightarrow> PassiveTapEvent list \<Rightarrow>
    PassiveTransactionReconstructor" where
  "reconstruct P r es = fst (run (handleTapEventLocked P) r es)"

text \<open>
  A frame on the wire: after a symbol that opens the gate (a SYN, or the NACK that permits an
  immediate repetition), exactly the bytes \<open>seg\<close>.
\<close>

definition ends_with :: "'a passive_protocol_scheme \<Rightarrow> byte list \<Rightarrow> byte list \<Rightarrow> bool" where
  "ends_with P h seg \<longleftrightarrow> (\<exists>pre g. h = pre @ g # seg \<and> g \<in> {SymbolSyn P, SymbolNack P})"

definition genuine :: "'a passive_protocol_scheme \<Rightarrow> byte list \<Rightarrow> PassiveClassifiedEvent \<Rightarrow> bool" where
  "genuine P h ev = (case pe_Kind ev of
       PassiveClassifiedEventBroadcastFrame \<Rightarrow>
         Frame_Type P (pe_Request ev) = FrameTypeBroadcast \<and>
         ends_with P h (request_bytes P (pe_Request ev) @ [SymbolSyn P])
     | PassiveClassifiedEventMasterFrame \<Rightarrow>
         Frame_Type P (pe_Request ev) = FrameTypeInitiatorInitiator \<and>
         ends_with P h (request_bytes P (pe_Request ev) @ [SymbolAck P, SymbolSyn P])
     | PassiveClassifiedEventTransaction \<Rightarrow>
         Frame_Type P (pe_Request ev) = FrameTypeInitiatorTarget \<and>
         answers (pe_Response ev) (pe_Request ev) \<and>
         ends_with P h (request_bytes P (pe_Request ev) @ [SymbolAck P] @
           response_bytes P (pe_Response ev) @ [SymbolAck P, SymbolSyn P])
     | _ \<Rightarrow> True)"

text \<open>
  Telegrams as the tap delivers them: symbols with their escape provenance and time. A SYN
  value inside a frame is marked as escaped, and consecutive symbols are at most one watchdog
  interval apart.
\<close>

type_synonym tagged = "byte \<times> bool \<times> int"

definition tap_of :: "tagged \<Rightarrow> PassiveTapEvent" where
  "tap_of x = \<lparr> te_Kind = PassiveTapEventSymbol, te_Symbol = fst x, te_ObservedAt = snd (snd x),
     te_Err = None, te_WasEscaped = fst (snd x) \<rparr>"

fun timely :: "int \<Rightarrow> int \<Rightarrow> tagged list \<Rightarrow> bool" where
  "timely wd prev [] = True"
| "timely wd prev (x # xs) = (snd (snd x) - prev \<le> wd \<and> timely wd (snd (snd x)) xs)"

definition end_time :: "int \<Rightarrow> tagged list \<Rightarrow> int" where
  "end_time t xs = (if xs = [] then t else snd (snd (last xs)))"

definition escaped_ok :: "'a passive_protocol_scheme \<Rightarrow> tagged list \<Rightarrow> bool" where
  "escaped_ok P xs \<longleftrightarrow> list_all (\<lambda>x. fst x = SymbolSyn P \<longrightarrow> fst (snd x)) xs"

definition sendable :: "'a passive_protocol_scheme \<Rightarrow> Frame \<Rightarrow> bool" where
  "sendable P f \<longleftrightarrow> length (Data f) \<le> 16 \<and> AddressClassMaster P (Source f) \<and> isInitiatorAddr (Source f) \<and>
     Source f \<noteq> SymbolSyn P \<and> Target f \<noteq> 0xAA \<and> Target f \<noteq> 0xA9"

text \<open>Where the reconstructor stands while it follows a telegram.\<close>

definition in_request :: "PassiveTransactionReconstructor \<Rightarrow> byte list \<Rightarrow> int \<Rightarrow> bool" where
  "in_request r raw t \<longleftrightarrow> ph (state r) = passivePhaseRequest \<and> requestRaw (state r) = raw \<and>
     lastProgressAt (state r) = t"

definition in_ack :: "'a passive_protocol_scheme \<Rightarrow> PassiveTransactionReconstructor \<Rightarrow> Frame \<Rightarrow> int \<Rightarrow> bool" where
  "in_ack P r f t \<longleftrightarrow> ph (state r) = passivePhaseWaitACK \<and> request (state r) = f \<and>
     frameType (state r) = Frame_Type P f \<and> lastProgressAt (state r) = t"

definition in_response :: "'a passive_protocol_scheme \<Rightarrow> PassiveTransactionReconstructor \<Rightarrow> Frame \<Rightarrow> byte list \<Rightarrow> int \<Rightarrow> bool" where
  "in_response P r f rr t \<longleftrightarrow> ph (state r) = passivePhaseWaitResponse \<and> request (state r) = f \<and>
     frameType (state r) = FrameTypeInitiatorTarget \<and> ackCorrelation (state r) = Some (SymbolAck P) \<and>
     responseRaw (state r) = rr \<and> (rr \<noteq> [] \<longrightarrow> responseExpectedLen (state r) = uint (hd rr) + 2) \<and>
     lastProgressAt (state r) = t"

definition in_final :: "'a passive_protocol_scheme \<Rightarrow> PassiveTransactionReconstructor \<Rightarrow> passiveTransactionPhase \<Rightarrow>
    Frame \<Rightarrow> Frame \<Rightarrow> int \<Rightarrow> bool" where
  "in_final P r p f g t \<longleftrightarrow> ph (state r) = p \<and> request (state r) = f \<and> response (state r) = g \<and>
     frameType (state r) = FrameTypeInitiatorTarget \<and> ackCorrelation (state r) = Some (SymbolAck P) \<and>
     responseCRCValid (state r) \<and> lastProgressAt (state r) = t"

section \<open>The invariant\<close>

definition open_phase :: "passiveTransactionPhase \<Rightarrow> bool" where
  "open_phase p \<longleftrightarrow> p \<noteq> passivePhaseIdle \<and> p \<noteq> passivePhaseAbandoned"

definition request_known :: "'a passive_protocol_scheme \<Rightarrow> passiveTransactionState \<Rightarrow> bool" where
  "request_known P s \<longleftrightarrow> parseFrame P (requestRaw s) = Some (request s) \<and>
     frameType s = Frame_Type P (request s) \<and>
     frameType s \<in> {FrameTypeInitiatorInitiator, FrameTypeInitiatorTarget}"

definition response_known :: "'a passive_protocol_scheme \<Rightarrow> passiveTransactionState \<Rightarrow> bool" where
  "response_known P s \<longleftrightarrow> responseRaw s \<noteq> [] \<and> uint (hd (responseRaw s)) \<le> maxPassiveDataLen \<and>
     length (responseRaw s) = unat (hd (responseRaw s)) + 2 \<and>
     parsePassiveResponse P (request s) (responseRaw s) = (response s, responseCRCValid s)"

definition passive_inv :: "'a passive_protocol_scheme \<Rightarrow> byte list \<Rightarrow> passiveTransactionState \<Rightarrow> bool" where
  "passive_inv P h s = (case ph s of
       passivePhaseIdle \<Rightarrow> synced s \<longrightarrow> (h \<noteq> [] \<and> last h \<in> {SymbolSyn P, SymbolNack P})
     | passivePhaseRequest \<Rightarrow> ends_with P h (requestRaw s) \<and> requestRaw s \<noteq> [] \<and>
         length (requestRaw s) \<le> 50 \<and>
         (\<forall>f. parseFrame P (requestRaw s) = Some f \<longrightarrow>
            Frame_Type P f \<notin> {FrameTypeInitiatorInitiator, FrameTypeInitiatorTarget})
     | passivePhaseWaitACK \<Rightarrow> request_known P s \<and> ends_with P h (requestRaw s)
     | passivePhaseWaitResponse \<Rightarrow> request_known P s \<and> frameType s = FrameTypeInitiatorTarget \<and>
         ends_with P h (requestRaw s @ [SymbolAck P] @ responseRaw s) \<and>
         (responseRaw s \<noteq> [] \<longrightarrow> responseExpectedLen s = uint (hd (responseRaw s)) + 2 \<and>
            uint (hd (responseRaw s)) \<le> maxPassiveDataLen \<and>
            int (length (responseRaw s)) < responseExpectedLen s)
     | passivePhaseWaitFinalACK \<Rightarrow> request_known P s \<and> frameType s = FrameTypeInitiatorTarget \<and>
         response_known P s \<and> ends_with P h (requestRaw s @ [SymbolAck P] @ responseRaw s)
     | passivePhaseWaitTerminal \<Rightarrow> request_known P s \<and>
         (if frameType s = FrameTypeInitiatorInitiator then ends_with P h (requestRaw s @ [SymbolAck P])
          else response_known P s \<and> responseCRCValid s \<and>
               ends_with P h (requestRaw s @ [SymbolAck P] @ responseRaw s @ [SymbolAck P]))
     | passivePhaseAbandoned \<Rightarrow> True)"

text \<open>
  Outcomes: every classified event but a discontinuity settles one request. A step begins a
  request when it takes a symbol in the idle phase as the source of a frame.
\<close>

definition outcome :: "PassiveClassifiedEvent \<Rightarrow> bool" where
  "outcome ev \<longleftrightarrow> pe_Kind ev \<noteq> PassiveClassifiedEventDiscontinuity"

definition outcomes :: "PassiveClassifiedEvent list \<Rightarrow> nat" where
  "outcomes evs = length (filter outcome evs)"

definition is_open :: "PassiveTransactionReconstructor \<Rightarrow> nat" where
  "is_open r = (if open_phase (ph (state r)) then 1 else 0)"

definition begins :: "'a passive_protocol_scheme \<Rightarrow> PassiveTransactionReconstructor \<Rightarrow> PassiveTapEvent \<Rightarrow> nat" where
  "begins P r e =
     (if te_Kind e = PassiveTapEventSymbol \<and>
         ph (state (fst (expireIfStaleLocked (te_ObservedAt e) r))) = passivePhaseIdle \<and>
         ph (state (fst (handleTapEventLocked P r e))) = passivePhaseRequest then 1 else 0)"

fun begun :: "'a passive_protocol_scheme \<Rightarrow> PassiveTransactionReconstructor \<Rightarrow> PassiveTapEvent list \<Rightarrow> nat" where
  "begun P r [] = 0"
| "begun P r (e # es) = begins P r e + begun P (fst (handleTapEventLocked P r e)) es"

text \<open>A tap that reports a new connection only while no request is open.\<close>

fun connects_idle :: "'a passive_protocol_scheme \<Rightarrow> PassiveTransactionReconstructor \<Rightarrow> PassiveTapEvent list \<Rightarrow> bool" where
  "connects_idle P r [] = True"
| "connects_idle P r (e # es) =
     ((te_Kind e = PassiveTapEventConnected \<longrightarrow> is_open r = 0) \<and>
      connects_idle P (fst (handleTapEventLocked P r e)) es)"

definition settles :: "step_result \<Rightarrow> bool" where
  "settles res \<longleftrightarrow> outcomes (snd res) + is_open (fst res) = 1"

text \<open>What a handler owes: the invariant with the symbol it consumed, and genuine events.\<close>

definition handled :: "'a passive_protocol_scheme \<Rightarrow> byte list \<Rightarrow> step_result \<Rightarrow> bool" where
  "handled P h res \<longleftrightarrow> passive_inv P h (state (fst res)) \<and> (\<forall>ev \<in> set (snd res). genuine P h ev)"

text \<open>
  A protocol library for closed examples: the checksum is a plain exclusive or, the classes are
  those of the address rules.
\<close>

definition std_passive :: passive_protocol where
  "std_passive = \<lparr> SymbolSyn = 0xAA, SymbolAck = 0x00, SymbolNack = 0xFF, SymbolEscape = 0xA9,
     AddressBroadcast = 0xFE, IsInitiatorCapableAddress = isInitiatorAddr,
     CRC = (\<lambda>bs. foldl (XOR) 0 bs),
     Frame_Type = (\<lambda>f. if Target f = 0xFE then FrameTypeBroadcast
        else if isInitiatorAddr (Target f) then FrameTypeInitiatorInitiator
        else if isValidTargetAddr (Target f) then FrameTypeInitiatorTarget else FrameTypeUnknown),
     AddressClassMaster = isInitiatorAddr \<rparr>"

definition ask :: Frame where
  "ask = \<lparr> Source = 0x31, Target = 0x15, Primary = 0xB5, Secondary = 0x09, Data = [0xAA] \<rparr>"

definition reply :: Frame where
  "reply = \<lparr> Source = 0x15, Target = 0x31, Primary = 0xB5, Secondary = 0x09, Data = [0x07] \<rparr>"

definition ask_syms :: "tagged list" where
  "ask_syms = [(0x31, False, 10), (0x15, False, 20), (0xB5, False, 30), (0x09, False, 40), (1, False, 50),
     (0xAA, True, 60), (0x33, False, 70)]"

definition reply_syms :: "tagged list" where
  "reply_syms = [(1, False, 90), (7, False, 100), (6, False, 110)]"

definition synced_start :: PassiveTransactionReconstructor where
  "synced_start = (newPassiveTransactionReconstructorCore 0)\<lparr> state := idle_state\<lparr> synced := True \<rparr> \<rparr>"

section \<open>Lemmas\<close>

lemma ends_with_snoc: "ends_with P h seg \<Longrightarrow> ends_with P (h @ [b]) (seg @ [b])"
  by (auto simp: ends_with_def)

lemma ends_with_one:
  "h \<noteq> [] \<Longrightarrow> last h \<in> {SymbolSyn P, SymbolNack P} \<Longrightarrow> ends_with P (h @ [b]) [b]"
  unfolding ends_with_def by (rule exI[of _ "butlast h"], rule exI[of _ "last h"]) simp

text \<open>A parsed buffer is the encoding of its frame.\<close>

lemma parse_request_bytes:
  assumes "parseFrame P raw = Some f" shows "raw = request_bytes P f"
proof -
  have len: "6 \<le> length raw" "length raw = 6 + unat (raw ! 4)" and crc: "CRC P (butlast raw) = last raw"
    and f: "f = \<lparr> Source = raw ! 0, Target = raw ! 1, Primary = raw ! 2, Secondary = raw ! 3,
                  Data = take (unat (raw ! 4)) (drop 5 raw) \<rparr>"
    using assms by (auto simp: parseFrame_def split: if_splits)
  obtain a b c d n rest where raw: "raw = a # b # c # d # n # rest" "length rest = Suc (unat n)"
  proof -
    have "\<exists>a b c d n rest. raw = a # b # c # d # n # rest"
      using len(1) by (cases raw rule: list.exhaust; cases "tl raw"; cases "tl (tl raw)";
          cases "tl (tl (tl raw))"; cases "tl (tl (tl (tl raw)))") auto
    then obtain a b c d n rest where "raw = a # b # c # d # n # rest" by blast
    with len that show ?thesis by simp
  qed
  then obtain ds x where rest: "rest = ds @ [x]" "length ds = unat n"
    by (cases rest rule: rev_cases) auto
  have "raw = [a, b, c, d, n] @ ds @ [x]" using raw rest by simp
  moreover have "butlast raw = [a, b, c, d, n] @ ds" "last raw = x" using raw rest by simp_all
  moreover have "(of_nat (length ds) :: byte) = n" using rest(2) by simp
  ultimately show ?thesis
    using crc rest by (simp add: f raw(1) request_bytes_def Let_def)
qed

lemma parse_response_bytes:
  assumes "response_known P s" "responseCRCValid s"
  shows "responseRaw s = response_bytes P (response s)" "answers (response s) (request s)"
proof -
  obtain n rest where raw: "responseRaw s = n # rest" "length rest = Suc (unat n)"
    using assms(1) by (cases "responseRaw s") (auto simp: response_known_def)
  then obtain ds x where rest: "rest = ds @ [x]" "length ds = unat n"
    by (cases rest rule: rev_cases) auto
  have p: "response s = \<lparr> Source = Target (request s), Target = Source (request s),
      Primary = Primary (request s), Secondary = Secondary (request s), Data = ds \<rparr>"
    "CRC P (n # ds) = x"
    using assms raw rest by (auto simp: response_known_def parsePassiveResponse_def butlast_append)
  have "(of_nat (length ds) :: byte) = n" using rest(2) by simp
  with p raw rest show "responseRaw s = response_bytes P (response s)"
    by (simp add: response_bytes_def Let_def)
  show "answers (response s) (request s)" using p by (simp add: answers_def)
qed

lemma abandon_then_simps [simp]:
  "state (fst (abandon_then f reason at er b w r)) =
     state (f (r\<lparr> abandonsByReason := (abandonsByReason r)(reason := abandonsByReason r reason + 1) \<rparr>))"
  "\<forall>ev \<in> set (snd (abandon_then f reason at er b w r)). genuine P h ev"
  "map pe_Kind (snd (abandon_then f reason at er b w r)) = [PassiveClassifiedEventAbandonedTransaction]"
  by (simp_all add: abandon_then_def abandonLocked_def Let_def genuine_def)

lemma reset_simps [simp]:
  "state (resetStateLocked r) = idle_state"
  "state (resetStateLockedAfterSyn r) = idle_state\<lparr> synced := True \<rparr>"
  "state (set_phase p r) = (state r)\<lparr> ph := p \<rparr>"
  "state (recordRecoveryLocked r) = state r"
  by (simp_all add: resetStateLocked_def resetStateLockedAfterSyn_def set_phase_def recordRecoveryLocked_def)

lemma inv_idle [simp]:
  "passive_inv P h idle_state"
  "passive_inv P (h @ [SymbolSyn P]) (idle_state\<lparr> synced := True \<rparr>)"
  "passive_inv P (h @ [SymbolNack P]) (idle_state\<lparr> synced := True \<rparr>)"
  "ph s = passivePhaseAbandoned \<Longrightarrow> passive_inv P h s"
  by (simp_all add: passive_inv_def idle_state_def)

lemma handled_quiet: "passive_inv P h (state r) \<Longrightarrow> handled P h (r, [])"
  by (simp add: handled_def)

lemma handled_reset [intro]: "handled P h (abandon_then resetStateLocked reason at er b w r)"
  by (simp add: handled_def)

lemma handled_reset_syn [intro]:
  "b' \<in> {SymbolSyn P, SymbolNack P} \<Longrightarrow>
   handled P (h @ [b']) (abandon_then resetStateLockedAfterSyn reason at er b w r)"
  by (auto simp: handled_def)

lemma handled_recovery_syn [intro]:
  "handled P (h @ [SymbolSyn P])
     (abandon_then (\<lambda>r. resetStateLockedAfterSyn (r\<lparr> pendingRecoveryReason := x \<rparr>)) reason at er b w r)"
  by (simp add: handled_def)

lemma handled_abandoned [intro]:
  "handled P h (abandon_then (set_phase passivePhaseAbandoned) reason at er b w r)"
  by (simp add: handled_def)

lemma handled_idle:
  assumes "passive_inv P h (state r)" "ph (state r) = passivePhaseIdle"
  shows "handled P (h @ [b]) (handle_idle_symbol P b w at r)"
proof -
  have start: "handled P (h @ [b]) (startRequestLocked b at r, [])" if "synced (state r)"
    using assms that ends_with_one[of h P b]
    by (intro handled_quiet)
       (simp add: passive_inv_def startRequestLocked_def parseFrame_def)
  show ?thesis
    using assms(2) start
    by (auto simp: handle_idle_symbol_def Let_def intro!: handled_quiet simp: passive_inv_def)
qed

lemma dispatch_handled:
  assumes "parseFrame P (requestRaw (state r)) = Some f" "ends_with P (h @ [b]) (requestRaw (state r))"
    "Frame_Type P f \<in> {FrameTypeInitiatorInitiator, FrameTypeInitiatorTarget}"
  shows "handled P (h @ [b]) (dispatchParsedRequestLocked P f at False r)"
  using assms by (auto simp: dispatchParsedRequestLocked_def Let_def intro!: handled_quiet
      simp: passive_inv_def request_known_def)

lemma dispatch_handled_syn:
  assumes "parseFrame P (requestRaw (state r)) = Some f" "ends_with P h (requestRaw (state r))"
    "Frame_Type P f \<notin> {FrameTypeInitiatorInitiator, FrameTypeInitiatorTarget}"
  shows "handled P (h @ [SymbolSyn P]) (dispatchParsedRequestLocked P f at True r)"
proof (cases "Frame_Type P f = FrameTypeUnknown")
  case True
  then show ?thesis by (auto simp: dispatchParsedRequestLocked_def Let_def)
next
  case False
  with assms(3) have "Frame_Type P f = FrameTypeBroadcast" by (cases "Frame_Type P f") auto
  then show ?thesis
    using ends_with_snoc[OF assms(2), of "SymbolSyn P"] parse_request_bytes[OF assms(1)]
    by (simp add: dispatchParsedRequestLocked_def Let_def handled_def genuine_def blank_event_def)
qed

lemma handled_request_data:
  assumes "passive_inv P h (state r)" "ph (state r) = passivePhaseRequest"
  shows "handled P (h @ [b]) (handle_request_data P b w at r)"
proof -
  let ?raw = "requestRaw (state r) @ [b]"
  let ?r = "r\<lparr> state := (state r)\<lparr> requestRaw := ?raw, lastProgressAt := at \<rparr> \<rparr>"
  have ends: "ends_with P (h @ [b]) ?raw" and phs: "ph (state ?r) = passivePhaseRequest"
    using assms by (simp_all add: passive_inv_def ends_with_snoc)
  have keep: "handled P (h @ [b]) (?r, [])"
    if "request_bound_fault ?raw b = None"
      "\<And>f. parseFrame P ?raw = Some f \<Longrightarrow> Frame_Type P f \<notin> {FrameTypeInitiatorInitiator, FrameTypeInitiatorTarget}"
    using that ends phs
    by (intro handled_quiet)
       (auto simp: passive_inv_def request_bound_fault_def maxPassiveLogicalRequestBytes_def split: if_splits)
  have commit: "handled P (h @ [b]) res" if "commitRequestFrameLocked P at ?r = Some res" for res
    using that ends dispatch_handled[of P ?r _ h b at]
    by (auto simp: commitRequestFrameLocked_def split: option.splits if_splits)
  have deferred: "Frame_Type P f \<notin> {FrameTypeInitiatorInitiator, FrameTypeInitiatorTarget}"
    if "commitRequestFrameLocked P at ?r = None" "parseFrame P ?raw = Some f" for f
    using that by (auto simp: commitRequestFrameLocked_def split: if_splits)
  have short: "parseFrame P ?raw = None" if "\<not> (5 \<le> length ?raw \<and> length ?raw = 6 + unat (?raw ! 4))"
    using that by (auto simp: parseFrame_def)
  show ?thesis
  proof (cases "request_bound_fault ?raw b")
    case (Some x)
    then show ?thesis by (cases x) (auto simp: handle_request_data_def Let_def)
  next
    case none: None
    show ?thesis
    proof (cases "5 \<le> length ?raw \<and> length ?raw = 6 + unat (?raw ! 4)")
      case False
      then have "handle_request_data P b w at r = (?r, [])"
        using none by (auto simp: handle_request_data_def Let_def)
      with keep[OF none] short[OF False] show ?thesis by simp
    next
      case True
      show ?thesis
      proof (cases "commitRequestFrameLocked P at ?r")
        case (Some res)
        then have "handle_request_data P b w at r = res"
          using none True by (simp add: handle_request_data_def Let_def)
        with commit[OF Some] show ?thesis by simp
      next
        case nocommit: None
        show ?thesis
        proof (cases "parseFrame P ?raw")
          case None
          with nocommit none True show ?thesis
            by (auto simp: handle_request_data_def Let_def)
        next
          case (Some f)
          then have "handle_request_data P b w at r = (?r, [])"
            using none True nocommit by (simp add: handle_request_data_def Let_def)
          with keep[OF none] deferred[OF nocommit] show ?thesis by simp
        qed
      qed
    qed
  qed
qed

lemma handled_request:
  assumes "passive_inv P h (state r)" "ph (state r) = passivePhaseRequest"
  shows "handled P (h @ [b]) (handleRequestSymbolLocked P b w at r)"
proof (cases "b \<noteq> SymbolSyn P \<or> w")
  case True
  with handled_request_data[OF assms] show ?thesis by (simp add: handleRequestSymbolLocked_def)
next
  case False
  let ?r = "r\<lparr> state := (state r)\<lparr> timing := (timing (state r))\<lparr> RequestEnd := at \<rparr>, lastProgressAt := at \<rparr> \<rparr>"
  have raw: "requestRaw (state ?r) = requestRaw (state r)" by simp
  show ?thesis
  proof (cases "parseFrame P (requestRaw (state r))")
    case None
    with False show ?thesis by (auto simp: handleRequestSymbolLocked_def Let_def)
  next
    case (Some f)
    with assms have "ends_with P h (requestRaw (state ?r))"
      "Frame_Type P f \<notin> {FrameTypeInitiatorInitiator, FrameTypeInitiatorTarget}"
      by (simp_all add: passive_inv_def)
    from dispatch_handled_syn[OF _ this, of at] Some False show ?thesis
      by (simp add: handleRequestSymbolLocked_def Let_def)
  qed
qed

lemma handled_ack:
  assumes "passive_inv P h (state r)" "ph (state r) = passivePhaseWaitACK"
  shows "handled P (h @ [b]) (handleACKSymbolLocked P b w at r)"
proof -
  have k: "request_known P (state r)" "ends_with P (h @ [b]) (requestRaw (state r) @ [b])"
    using assms by (simp_all add: passive_inv_def ends_with_snoc)
  show ?thesis
  proof (cases "b = SymbolAck P")
    case True
    with k show ?thesis
      by (auto simp: handleACKSymbolLocked_def Let_def request_known_def passive_inv_def
          intro!: handled_quiet)
  qed (auto simp: handleACKSymbolLocked_def Let_def)
qed

lemma handled_response:
  assumes "passive_inv P h (state r)" "ph (state r) = passivePhaseWaitResponse"
  shows "handled P (h @ [b]) (handleResponseSymbolLocked P b w at r)"
proof -
  let ?s = "state r"
  have "ends_with P h (requestRaw ?s @ [SymbolAck P] @ responseRaw ?s)"
    using assms by (simp add: passive_inv_def)
  from ends_with_snoc[OF this, of b]
  have k: "request_known P ?s" "frameType ?s = FrameTypeInitiatorTarget"
    "ends_with P (h @ [b]) (requestRaw ?s @ [SymbolAck P] @ responseRaw ?s @ [b])"
    and len: "responseRaw ?s \<noteq> [] \<Longrightarrow> responseExpectedLen ?s = uint (hd (responseRaw ?s)) + 2 \<and>
      uint (hd (responseRaw ?s)) \<le> maxPassiveDataLen \<and> int (length (responseRaw ?s)) < responseExpectedLen ?s"
    using assms by (simp_all add: passive_inv_def)
  show ?thesis
  proof (cases "responseRaw ?s = []")
    case True
    have pos: "\<not> 1 + uint b = 0" "\<not> uint b + 1 = 0" "\<not> uint b + 2 < 1" "\<not> uint b + 1 < 0"
      using uint_ge_0[of b] by linarith+
    show ?thesis
      using True k pos assms(2)
      by (auto simp: handleResponseSymbolLocked_def Let_def passive_inv_def request_known_def
          intro!: handled_quiet)
  next
    case False
    let ?raw = "responseRaw ?s @ [b]"
    have hd: "hd ?raw = hd (responseRaw ?s)" using False by simp
    show ?thesis
    proof (cases "b = SymbolSyn P \<and> \<not> w")
      case True
      with False show ?thesis by (auto simp: handleResponseSymbolLocked_def Let_def)
    next
      case data: False
      consider "int (length ?raw) < responseExpectedLen ?s" | "int (length ?raw) = responseExpectedLen ?s"
        using len[OF False] by fastforce
      then show ?thesis
      proof cases
        case 1
        then show ?thesis
          using False data k len[OF False] assms(2)
          by (auto simp: handleResponseSymbolLocked_def Let_def passive_inv_def request_known_def
              intro!: handled_quiet)
      next
        case 2
        have u: "length ?raw = unat (hd (responseRaw ?s)) + 2"
          using 2 len[OF False] of_nat_unat[of "hd (responseRaw ?s)", where 'a = int] by (simp, linarith)
        then show ?thesis
          using False data k len[OF False] 2
          by (auto simp: handleResponseSymbolLocked_def Let_def passive_inv_def request_known_def
              response_known_def case_prod_beta intro!: handled_quiet)
      qed
    qed
  qed
qed

lemma handled_final_ack:
  assumes "passive_inv P h (state r)" "ph (state r) = passivePhaseWaitFinalACK"
  shows "handled P (h @ [b]) (handleFinalACKSymbolLocked P b w at r)"
proof -
  have "ends_with P h (requestRaw (state r) @ [SymbolAck P] @ responseRaw (state r))"
    using assms by (simp add: passive_inv_def)
  from ends_with_snoc[OF this, of b]
  have k: "request_known P (state r)" "frameType (state r) = FrameTypeInitiatorTarget"
    "response_known P (state r)"
    "ends_with P (h @ [b]) (requestRaw (state r) @ [SymbolAck P] @ responseRaw (state r) @ [b])"
    using assms by (simp_all add: passive_inv_def)
  show ?thesis
  proof (cases "b = SymbolAck P \<and> responseCRCValid (state r)")
    case True
    with k show ?thesis
      by (auto simp: handleFinalACKSymbolLocked_def Let_def passive_inv_def request_known_def
          response_known_def intro!: handled_quiet)
  qed (auto simp: handleFinalACKSymbolLocked_def Let_def)
qed

lemma handled_terminal:
  assumes "passive_inv P h (state r)" "ph (state r) = passivePhaseWaitTerminal"
  shows "handled P (h @ [b]) (handleTerminalSymbolLocked P b w at r)"
proof (cases "b = SymbolSyn P")
  case True
  let ?s = "state r"
  have k: "request_known P ?s" using assms by (simp add: passive_inv_def)
  then have raw: "requestRaw ?s = request_bytes P (request ?s)"
    by (simp add: request_known_def parse_request_bytes)
  show ?thesis
  proof (cases "frameType ?s = FrameTypeInitiatorInitiator")
    case ii: True
    then have "ends_with P h (requestRaw ?s @ [SymbolAck P])" using assms by (simp add: passive_inv_def)
    from ends_with_snoc[OF this, of b] True ii k raw show ?thesis
      by (auto simp: handleTerminalSymbolLocked_def Let_def handled_def genuine_def blank_event_def
          request_known_def)
  next
    case it: False
    with k have ft: "frameType ?s = FrameTypeInitiatorTarget" by (auto simp: request_known_def)
    have rk: "response_known P ?s" "responseCRCValid ?s"
      and "ends_with P h (requestRaw ?s @ [SymbolAck P] @ responseRaw ?s @ [SymbolAck P])"
      using assms it by (simp_all add: passive_inv_def)
    from ends_with_snoc[OF this(3), of b] True ft k raw parse_response_bytes[OF rk] show ?thesis
      by (auto simp: handleTerminalSymbolLocked_def Let_def handled_def genuine_def blank_event_def
          request_known_def)
  qed
qed (auto simp: handleTerminalSymbolLocked_def Let_def)

lemma handled_symbol:
  assumes "passive_inv P h (state r)"
  shows "handled P (h @ [b]) (handleSymbolLocked P b w at r)"
proof (cases "ph (state r)")
  case passivePhaseAbandoned
  then show ?thesis by (auto simp: handleSymbolLocked_def intro!: handled_quiet)
qed (simp_all add: handleSymbolLocked_def handled_idle handled_request handled_ack handled_response
      handled_final_ack handled_terminal assms)

lemma handled_expire:
  assumes "passive_inv P h (state r)"
  shows "handled P h (expireIfStaleLocked at r)"
  using assms by (auto simp: expireIfStaleLocked_def Let_def intro: handled_quiet)

lemma genuine_discontinuity [simp]: "genuine P h (discontinuity reason at er)"
  by (simp add: genuine_def discontinuity_def blank_event_def)

lemma abandon_genuine [simp]:
  "\<forall>ev \<in> set (snd (abandonLocked reason at er b w r)). genuine P h ev"
  by (simp add: abandonLocked_def Let_def genuine_def)

lemma handled_discontinuity:
  "handled P h (handleTransportDiscontinuityLocked at reason ar er r)"
  by (auto simp: handleTransportDiscontinuityLocked_def Let_def case_prod_beta handled_def
      abandonLocked_def genuine_def discontinuity_def blank_event_def)

lemma handled_tap:
  assumes "passive_inv P h (state r)"
  shows "handled P (extend_syms h e) (handleTapEventLocked P r e)"
proof (cases "te_Kind e")
  case PassiveTapEventSymbol
  have 1: "handled P h (expireIfStaleLocked (te_ObservedAt e) r)" using assms by (rule handled_expire)
  then have "passive_inv P h (state (fst (expireIfStaleLocked (te_ObservedAt e) r)))"
    by (simp add: handled_def)
  from handled_symbol[OF this, of "te_Symbol e" "te_WasEscaped e" "te_ObservedAt e"]
  show ?thesis
    using PassiveTapEventSymbol
    by (auto simp: handleTapEventLocked_def extend_syms_def case_prod_beta Let_def handled_def
        expireIfStaleLocked_def abandon_then_def abandonLocked_def genuine_def split: if_splits)
qed (auto simp: handleTapEventLocked_def extend_syms_def handled_discontinuity handled_expire assms
      handled_def[where res = "(_, [_])"])

lemma outcomes_simps [simp]:
  "outcomes [] = 0" "outcomes (xs @ ys) = outcomes xs + outcomes ys"
  "outcomes (ev # evs) = (if outcome ev then 1 else 0) + outcomes evs"
  by (simp_all add: outcomes_def)

lemma abandon_outcomes [simp]:
  "outcomes (snd (abandonLocked reason at oer b w r)) = 1"
  "outcomes (snd (abandon_then f reason at er b w r)) = 1"
  by (simp_all add: abandon_then_def abandonLocked_def Let_def outcome_def case_prod_beta)

lemma not_open_simps [simp]:
  "is_open (resetStateLocked r) = 0" "is_open (resetStateLockedAfterSyn r) = 0"
  "is_open (set_phase passivePhaseAbandoned r) = 0"
  "ph idle_state = passivePhaseIdle"
  by (simp_all add: is_open_def open_phase_def idle_state_def)

lemma settles_abandon [intro]:
  "(\<And>r. is_open (f r) = 0) \<Longrightarrow> settles (abandon_then f reason at er b w r)"
  by (simp add: settles_def) (simp add: abandon_then_def case_prod_beta)

lemma settles_quiet: "open_phase (ph (state r)) \<Longrightarrow> settles (r, [])"
  by (simp add: settles_def is_open_def)

lemma settles_dispatch: "settles (dispatchParsedRequestLocked P f at a r)"
  by (auto simp: dispatchParsedRequestLocked_def Let_def settles_def is_open_def open_phase_def
      set_phase_def outcome_def blank_event_def)

lemma settles_dispatch_eq: "dispatchParsedRequestLocked P f at a r = res \<Longrightarrow> settles res"
  using settles_dispatch[of P f at a r] by simp

lemma settles_open:
  assumes "open_phase (ph (state r))"
  shows "settles (handleSymbolLocked P b w at r)"
proof (cases "ph (state r)")
  case passivePhaseRequest
  have "settles (handle_request_data P b w at r)"
    using assms
    by (auto simp: handle_request_data_def Let_def commitRequestFrameLocked_def
        split: option.splits intro!: settles_quiet dest: settles_dispatch_eq)
  moreover have "settles (handleRequestSymbolLocked P b w at r)" if "\<not> (b \<noteq> SymbolSyn P \<or> w)"
    using that by (auto simp: handleRequestSymbolLocked_def Let_def settles_dispatch split: option.splits)
  moreover have "handleRequestSymbolLocked P b w at r = handle_request_data P b w at r"
    if "b \<noteq> SymbolSyn P \<or> w"
    using that by (simp add: handleRequestSymbolLocked_def)
  ultimately have "settles (handleRequestSymbolLocked P b w at r)" by metis
  then show ?thesis using passivePhaseRequest by (simp add: handleSymbolLocked_def)
next
  case passivePhaseWaitACK
  then show ?thesis
    by (auto simp: handleSymbolLocked_def handleACKSymbolLocked_def Let_def open_phase_def intro!: settles_quiet)
next
  case passivePhaseWaitResponse
  then show ?thesis
    by (auto simp: handleSymbolLocked_def handleResponseSymbolLocked_def Let_def open_phase_def
        case_prod_beta intro!: settles_quiet)
next
  case passivePhaseWaitFinalACK
  then show ?thesis
    by (auto simp: handleSymbolLocked_def handleFinalACKSymbolLocked_def Let_def open_phase_def
        intro!: settles_quiet)
next
  case passivePhaseWaitTerminal
  then show ?thesis
    by (auto simp: handleSymbolLocked_def handleTerminalSymbolLocked_def Let_def settles_def outcome_def
        blank_event_def)
       (auto simp: abandon_then_def case_prod_beta)
qed (use assms in \<open>auto simp: open_phase_def\<close>)

lemma idle_outcomes:
  assumes "ph (state r) = passivePhaseIdle" "\<forall>b. AddressClassMaster P b \<longrightarrow> isInitiatorAddr b"
  shows "outcomes (snd (handleSymbolLocked P b w at r)) = 0"
    "open_phase (ph (state (fst (handleSymbolLocked P b w at r)))) \<longleftrightarrow>
     ph (state (fst (handleSymbolLocked P b w at r))) = passivePhaseRequest"
  using assms
  by (auto simp: handleSymbolLocked_def handle_idle_symbol_def Let_def startRequestLocked_def open_phase_def)

lemma expire_views:
  "outcomes (snd (expireIfStaleLocked at r)) + is_open (fst (expireIfStaleLocked at r)) = is_open r"
  "ph (state (fst (expireIfStaleLocked at r))) = passivePhaseIdle \<longleftrightarrow> ph (state r) = passivePhaseIdle"
  by (auto simp: expireIfStaleLocked_def Let_def is_open_def open_phase_def)

lemma step_conserves:
  assumes "\<forall>b. AddressClassMaster P b \<longrightarrow> isInitiatorAddr b"
    "te_Kind e = PassiveTapEventConnected \<longrightarrow> is_open r = 0"
  shows "is_open r + begins P r e =
    outcomes (snd (handleTapEventLocked P r e)) + is_open (fst (handleTapEventLocked P r e))"
proof (cases "te_Kind e")
  case PassiveTapEventSymbol
  let ?x = "expireIfStaleLocked (te_ObservedAt e) r"
  let ?y = "handleSymbolLocked P (te_Symbol e) (te_WasEscaped e) (te_ObservedAt e) (fst ?x)"
  have tap: "handleTapEventLocked P r e = (fst ?y, snd ?x @ snd ?y)"
    using PassiveTapEventSymbol by (simp add: handleTapEventLocked_def case_prod_beta Let_def)
  have x: "outcomes (snd ?x) + is_open (fst ?x) = is_open r" by (rule expire_views)
  consider "ph (state (fst ?x)) = passivePhaseIdle" | "ph (state (fst ?x)) = passivePhaseAbandoned"
    | "open_phase (ph (state (fst ?x)))" by (auto simp: open_phase_def)
  then show ?thesis
  proof cases
    case 1
    from idle_outcomes[OF 1 assms(1)] x 1 PassiveTapEventSymbol show ?thesis
      by (auto simp: tap begins_def is_open_def open_phase_def)
  next
    case 2
    with x PassiveTapEventSymbol show ?thesis
      by (auto simp: tap begins_def handleSymbolLocked_def is_open_def open_phase_def)
  next
    case 3
    from settles_open[OF 3, of P "te_Symbol e" "te_WasEscaped e" "te_ObservedAt e"] x 3 PassiveTapEventSymbol
    show ?thesis by (auto simp: tap begins_def settles_def is_open_def open_phase_def)
  qed
next
  case PassiveTapEventReadTimeout
  then show ?thesis using expire_views(1)[of "te_ObservedAt e" r]
    by (simp add: handleTapEventLocked_def begins_def)
qed (use assms(2) in \<open>auto simp: handleTapEventLocked_def begins_def handleTransportDiscontinuityLocked_def
      Let_def case_prod_beta outcome_def discontinuity_def blank_event_def is_open_def open_phase_def\<close>)

lemma run_conserves:
  assumes "\<forall>b. AddressClassMaster P b \<longrightarrow> isInitiatorAddr b"
  shows "connects_idle P r es \<Longrightarrow> is_open r + begun P r es =
    outcomes (concat (snd (run (handleTapEventLocked P) r es))) +
    is_open (fst (run (handleTapEventLocked P) r es))"
proof (induction es arbitrary: r)
  case (Cons e es)
  then have "connects_idle P (fst (handleTapEventLocked P r e)) es" by simp
  from Cons.IH[OF this] step_conserves[OF assms, of e r] Cons.prems show ?case by simp
qed simp

interpretation passive_tap: kept_invariant
  "\<lambda>(r, h) e. (fst (handleTapEventLocked P r e), extend_syms h e)"
  "\<lambda>(r, h). passive_inv P h (state r)" for P
  by unfold_locales (auto simp: handled_tap[unfolded handled_def])

lemma reconstruct_inv:
  assumes "state r = idle_state"
  shows "passive_inv P (unbroken_syms es) (state (reconstruct P r es))"
proof -
  have "foldl (\<lambda>(r, h) e. (fst (handleTapEventLocked P r e), extend_syms h e)) (r, h) es =
      (reconstruct P r es, foldl extend_syms h es)" for r h
    unfolding reconstruct_def fst_run_foldl by (induction es arbitrary: r h) simp_all
  with passive_tap.run_keeps[of P "(r, [])" es] assms show ?thesis by (simp add: unbroken_syms_def)
qed

text \<open>A timely symbol is handled in its phase.\<close>

lemma tap_fresh:
  assumes "snd (snd x) - lastProgressAt (state r) \<le> watchdog r \<or> ph (state r) = passivePhaseIdle"
  shows "handleTapEventLocked P r (tap_of x) = handleSymbolLocked P (fst x) (fst (snd x)) (snd (snd x)) r"
  using assms by (auto simp: handleTapEventLocked_def tap_of_def expireIfStaleLocked_def Let_def
      case_prod_beta)

lemma request_bytes_props:
  assumes "length (Data f) \<le> 16"
  shows "length (request_bytes P f) = 6 + length (Data f)" "request_bytes P f ! 4 = of_nat (length (Data f))"
    "unat (request_bytes P f ! 4) = length (Data f)" "request_bytes P f ! 1 = Target f"
    "hd (request_bytes P f) = Source f" "parseFrame P (request_bytes P f) = Some f"
proof -
  have u: "unat (of_nat (length (Data f)) :: byte) = length (Data f)" using assms by simp
  show "length (request_bytes P f) = 6 + length (Data f)" "request_bytes P f ! 4 = of_nat (length (Data f))"
    "unat (request_bytes P f ! 4) = length (Data f)" "request_bytes P f ! 1 = Target f"
    "hd (request_bytes P f) = Source f"
    using u by (simp_all add: request_bytes_def Let_def)
  show "parseFrame P (request_bytes P f) = Some f"
    using u by (simp add: request_bytes_def parseFrame_def Let_def butlast_append)
qed

lemma no_bound_fault:
  assumes "length (Data f) \<le> 16" "Target f \<noteq> 0xAA" "Target f \<noteq> 0xA9"
    "raw @ rest = request_bytes P f" "raw \<noteq> []"
  shows "request_bound_fault raw b = None"
proof -
  note q = request_bytes_props[OF assms(1), of P]
  have "length (raw @ rest) = 6 + length (Data f)" using assms(4) q(1) by simp
  then have len: "length raw \<le> 22" using assms(1) by simp
  have nth: "raw ! i = request_bytes P f ! i" if "i < length raw" for i
    using that by (simp add: nth_append flip: assms(4))
  have "raw ! 1 = Target f" if "length raw = 2" using nth[of 1] that q(4) by simp
  moreover have "uint (raw ! 4) \<le> 16" if "length raw = 5" using nth[of 4] that q(2) assms(1) by simp
  ultimately show ?thesis
    using assms(2,3) len
    by (auto simp: request_bound_fault_def isValidTargetAddr_def maxPassiveDataLen_def
        maxPassiveLogicalRequestBytes_def)
qed

lemma request_step:
  assumes "in_request r pre t" "sendable P f" "pre @ fst x # rest = request_bytes P f" "pre \<noteq> []" "rest \<noteq> []"
    "fst x = SymbolSyn P \<longrightarrow> fst (snd x)" "snd (snd x) - t \<le> watchdog r"
  shows "\<exists>r'. handleTapEventLocked P r (tap_of x) = (r', []) \<and> watchdog r' = watchdog r \<and>
    in_request r' (pre @ [fst x]) (snd (snd x))"
proof -
  let ?raw = "pre @ [fst x]"
  have d: "length (Data f) \<le> 16" "Target f \<noteq> 0xAA" "Target f \<noteq> 0xA9" using assms(2) by (simp_all add: sendable_def)
  note q = request_bytes_props[OF d(1), of P]
  have eq: "?raw @ rest = request_bytes P f" using assms(3) by simp
  have none: "request_bound_fault ?raw (fst x) = None" using no_bound_fault[OF d eq] by simp
  have "length (?raw @ rest) = 6 + length (Data f)" using eq q(1) by simp
  then have lt: "length ?raw < 6 + length (Data f)" using assms(5) by (cases rest) simp_all
  have "unat (?raw ! 4) = length (Data f)" if "5 \<le> length ?raw"
  proof -
    have "?raw ! 4 = (?raw @ rest) ! 4" using that by (simp only: nth_append) simp
    then show ?thesis using eq q(3) by simp
  qed
  with lt have inc: "\<not> (5 \<le> length ?raw \<and> length ?raw = 6 + unat (?raw ! 4))" by fastforce
  have "handleTapEventLocked P r (tap_of x) = handle_request_data P (fst x) (fst (snd x)) (snd (snd x)) r"
    using assms(1,6,7) by (auto simp: tap_fresh in_request_def handleSymbolLocked_def handleRequestSymbolLocked_def)
  also have "\<dots> = (r\<lparr> state := (state r)\<lparr> requestRaw := ?raw, lastProgressAt := snd (snd x) \<rparr> \<rparr>, [])"
    using none inc assms(1) by (auto simp: handle_request_data_def Let_def in_request_def)
  finally show ?thesis using assms(1) by (simp add: in_request_def)
qed

lemma request_run:
  assumes "in_request r pre t" "sendable P f" "pre @ map fst xs @ rest = request_bytes P f" "pre \<noteq> []" "rest \<noteq> []"
    "escaped_ok P xs" "timely (watchdog r) t xs"
  shows "\<exists>r'. run (handleTapEventLocked P) r (map tap_of xs) = (r', replicate (length xs) []) \<and>
    watchdog r' = watchdog r \<and> in_request r' (pre @ map fst xs) (end_time t xs)"
  using assms
proof (induction xs arbitrary: r pre t)
  case (Cons x xs)
  obtain r1 where r1: "handleTapEventLocked P r (tap_of x) = (r1, [])" "watchdog r1 = watchdog r"
    "in_request r1 (pre @ [fst x]) (snd (snd x))"
    using request_step[OF Cons.prems(1,2), of x "map fst xs @ rest"] Cons.prems by (auto simp: escaped_ok_def)
  from Cons.IH[OF r1(3) Cons.prems(2)] Cons.prems r1(2) obtain r2 where
    "run (handleTapEventLocked P) r1 (map tap_of xs) = (r2, replicate (length xs) [])" "watchdog r2 = watchdog r1"
    "in_request r2 (pre @ [fst x] @ map fst xs) (end_time (snd (snd x)) xs)"
    by (auto simp: escaped_ok_def)
  with r1 show ?case
    by (intro exI[of _ r2]) (auto simp: end_time_def run.simps(2))
qed (auto simp: end_time_def)

lemma timely_snoc:
  "timely wd u (as @ [b]) \<Longrightarrow> timely wd u as \<and> snd (snd b) - end_time u as \<le> wd"
  by (induction as arbitrary: u) (auto simp: end_time_def split: if_splits)

lemma start_step:
  assumes "state r = idle_state\<lparr> synced := True \<rparr>" "sendable P f" "fst x = Source f"
  shows "\<exists>r'. handleTapEventLocked P r (tap_of x) = (r', []) \<and> watchdog r' = watchdog r \<and>
    in_request r' [fst x] (snd (snd x))"
  using assms
  by (auto simp: tap_fresh handleSymbolLocked_def handle_idle_symbol_def Let_def sendable_def
      startRequestLocked_def in_request_def)

lemma crc_step:
  assumes "in_request r pre t" "sendable P f" "pre @ [fst x] = request_bytes P f"
    "fst x = SymbolSyn P \<longrightarrow> fst (snd x)" "snd (snd x) - t \<le> watchdog r"
  shows "\<exists>r'. handleTapEventLocked P r (tap_of x) = (r', []) \<and> watchdog r' = watchdog r \<and>
    (if Frame_Type P f \<in> {FrameTypeInitiatorInitiator, FrameTypeInitiatorTarget}
     then in_ack P r' f (snd (snd x)) else in_request r' (request_bytes P f) (snd (snd x)))"
proof -
  let ?raw = "pre @ [fst x]"
  let ?r = "r\<lparr> state := (state r)\<lparr> requestRaw := ?raw, lastProgressAt := snd (snd x) \<rparr> \<rparr>"
  have d: "length (Data f) \<le> 16" "Target f \<noteq> 0xAA" "Target f \<noteq> 0xA9" using assms(2) by (simp_all add: sendable_def)
  note q = request_bytes_props[OF d(1), of P]
  have "request_bytes P f \<noteq> []" using q(1) by auto
  then have none: "request_bound_fault ?raw (fst x) = None"
    using no_bound_fault[OF d, of ?raw "[]" P] assms(3) by simp
  have len: "5 \<le> length ?raw \<and> length ?raw = 6 + unat (?raw ! 4)"
    using q(1,3) unfolding assms(3) by simp
  have parse: "parseFrame P ?raw = Some f" using q(6) unfolding assms(3) by simp
  have "handleTapEventLocked P r (tap_of x) = handle_request_data P (fst x) (fst (snd x)) (snd (snd x)) r"
    using assms(1,4,5) by (auto simp: tap_fresh in_request_def handleSymbolLocked_def handleRequestSymbolLocked_def)
  also have "\<dots> = (if Frame_Type P f \<in> {FrameTypeInitiatorInitiator, FrameTypeInitiatorTarget}
      then dispatchParsedRequestLocked P f (snd (snd x)) False ?r else (?r, []))"
    using none len parse assms(1)
    by (auto simp: handle_request_data_def Let_def in_request_def commitRequestFrameLocked_def)
  finally show ?thesis
    using assms(1,3)
    by (auto simp: dispatchParsedRequestLocked_def Let_def set_phase_def in_ack_def in_request_def)
qed

lemma request_complete:
  assumes "state r = idle_state\<lparr> synced := True \<rparr>" "sendable P f" "map fst xs = request_bytes P f"
    "escaped_ok P xs" "timely (watchdog r) t xs"
  shows "\<exists>r'. run (handleTapEventLocked P) r (map tap_of xs) = (r', replicate (length xs) []) \<and>
    watchdog r' = watchdog r \<and>
    (if Frame_Type P f \<in> {FrameTypeInitiatorInitiator, FrameTypeInitiatorTarget}
     then in_ack P r' f (end_time t xs) else in_request r' (request_bytes P f) (end_time t xs))"
proof -
  have "2 \<le> length xs" using arg_cong[OF assms(3), of length] by (simp add: request_bytes_def Let_def)
  then obtain x0 ys z where xs: "xs = x0 # ys @ [z]"
    by (cases xs; cases "tl xs" rule: rev_cases) auto
  have src: "fst x0 = Source f" using assms(3) xs by (simp add: request_bytes_def Let_def)
  obtain r1 where r1: "handleTapEventLocked P r (tap_of x0) = (r1, [])" "watchdog r1 = watchdog r"
    "in_request r1 [fst x0] (snd (snd x0))" using start_step[OF assms(1,2) src] by blast
  have tm: "timely (watchdog r1) (snd (snd x0)) (ys @ [z])" using assms(5) xs r1(2) by simp
  from request_run[OF r1(3) assms(2), of ys "[fst z]"] timely_snoc[OF tm] assms(3,4) xs obtain r2 where
    r2: "run (handleTapEventLocked P) r1 (map tap_of ys) = (r2, replicate (length ys) [])" "watchdog r2 = watchdog r1"
      "in_request r2 ([fst x0] @ map fst ys) (end_time (snd (snd x0)) ys)"
    by (auto simp: escaped_ok_def)
  from crc_step[OF r2(3) assms(2), of z] timely_snoc[OF tm] assms(3,4) xs r2(2) obtain r3 where
    r3: "handleTapEventLocked P r2 (tap_of z) = (r3, [])" "watchdog r3 = watchdog r2"
      "if Frame_Type P f \<in> {FrameTypeInitiatorInitiator, FrameTypeInitiatorTarget}
       then in_ack P r3 f (snd (snd z)) else in_request r3 (request_bytes P f) (snd (snd z))"
    by (auto simp: escaped_ok_def)
  have fst: "fst (run (handleTapEventLocked P) r (map tap_of xs)) = r3"
    and snd: "snd (run (handleTapEventLocked P) r (map tap_of xs)) = replicate (length xs) []"
    using r1 r2 r3 xs by (simp_all add: replicate_append_same flip: replicate_Suc)
  then have "run (handleTapEventLocked P) r (map tap_of xs) = (r3, replicate (length xs) [])"
    by (simp add: prod_eq_iff)
  moreover have "end_time t xs = snd (snd z)" using xs by (simp add: end_time_def)
  ultimately show ?thesis using r1(2) r2(2) r3(2,3) by (intro exI[of _ r3]) simp
qed

lemma ack_step:
  assumes "in_ack P r f t" "fst x = SymbolAck P" "snd (snd x) - t \<le> watchdog r"
    "Frame_Type P f = FrameTypeInitiatorTarget"
  shows "\<exists>r'. handleTapEventLocked P r (tap_of x) = (r', []) \<and> watchdog r' = watchdog r \<and>
    in_response P r' f [] (snd (snd x))"
  using assms
  by (auto simp: tap_fresh in_ack_def handleSymbolLocked_def handleACKSymbolLocked_def Let_def in_response_def)

lemma response_step:
  assumes "in_response P r f pre t" "length (Data g) \<le> 16" "pre @ fst x # rest = response_bytes P g" "rest \<noteq> []"
    "fst x = SymbolSyn P \<longrightarrow> fst (snd x)" "snd (snd x) - t \<le> watchdog r"
  shows "\<exists>r'. handleTapEventLocked P r (tap_of x) = (r', []) \<and> watchdog r' = watchdog r \<and>
    in_response P r' f (pre @ [fst x]) (snd (snd x))"
proof -
  let ?n = "of_nat (length (Data g)) :: byte"
  have n: "uint ?n = int (length (Data g))" using assms(2) by simp
  have hd: "hd (pre @ [fst x]) = ?n"
    using arg_cong[OF assms(3), of hd] by (cases pre) (simp_all add: response_bytes_def Let_def)
  have "length (pre @ fst x # rest) = length (Data g) + 2"
    using assms(3) by (simp add: response_bytes_def Let_def)
  then have len: "int (length pre) + 1 < uint ?n + 2" using assms(4) n by (cases rest) simp_all
  have ng: "\<not> (pre = [] \<and> uint (fst x) > maxPassiveDataLen)" using hd n assms(2) by (auto simp: maxPassiveDataLen_def)
  show ?thesis
    using assms(1,5,6) hd len ng
    by (cases "pre = []")
       (auto simp: tap_fresh in_response_def handleSymbolLocked_def handleResponseSymbolLocked_def Let_def)
qed

lemma timely_append:
  "timely wd u (as @ bs) \<longleftrightarrow> timely wd u as \<and> timely wd (end_time u as) bs"
  by (induction as arbitrary: u) (auto simp: end_time_def)

lemma response_run:
  assumes "in_response P r f pre t" "length (Data g) \<le> 16" "pre @ map fst xs @ rest = response_bytes P g" "rest \<noteq> []"
    "escaped_ok P xs" "timely (watchdog r) t xs"
  shows "\<exists>r'. run (handleTapEventLocked P) r (map tap_of xs) = (r', replicate (length xs) []) \<and>
    watchdog r' = watchdog r \<and> in_response P r' f (pre @ map fst xs) (end_time t xs)"
  using assms
proof (induction xs arbitrary: r pre t)
  case (Cons x xs)
  obtain r1 where r1: "handleTapEventLocked P r (tap_of x) = (r1, [])" "watchdog r1 = watchdog r"
    "in_response P r1 f (pre @ [fst x]) (snd (snd x))"
    using response_step[OF Cons.prems(1,2), of x "map fst xs @ rest"] Cons.prems by (auto simp: escaped_ok_def)
  from Cons.IH[OF r1(3) Cons.prems(2)] Cons.prems r1(2) obtain r2 where
    "run (handleTapEventLocked P) r1 (map tap_of xs) = (r2, replicate (length xs) [])" "watchdog r2 = watchdog r1"
    "in_response P r2 f (pre @ [fst x] @ map fst xs) (end_time (snd (snd x)) xs)"
    by (auto simp: escaped_ok_def)
  with r1 show ?case
    by (intro exI[of _ r2]) (auto simp: end_time_def run.simps(2))
qed (auto simp: end_time_def)

lemma response_crc_step:
  assumes "in_response P r f pre t" "length (Data g) \<le> 16" "answers g f" "pre @ [fst x] = response_bytes P g"
    "fst x = SymbolSyn P \<longrightarrow> fst (snd x)" "snd (snd x) - t \<le> watchdog r"
  shows "\<exists>r'. handleTapEventLocked P r (tap_of x) = (r', []) \<and> watchdog r' = watchdog r \<and>
    in_final P r' passivePhaseWaitFinalACK f g (snd (snd x))"
proof -
  let ?n = "of_nat (length (Data g)) :: byte"
  have n: "uint ?n = int (length (Data g))" "unat ?n = length (Data g)" using assms(2) by simp_all
  have "length (pre @ [fst x]) = length (Data g) + 2"
    unfolding assms(4) by (simp add: response_bytes_def Let_def)
  then have len: "length pre = length (Data g) + 1" by simp
  then have ne: "pre \<noteq> []" by auto
  have hd: "hd pre = ?n"
    using arg_cong[OF assms(4), of hd] ne by (simp add: response_bytes_def Let_def)
  have "parsePassiveResponse P f (response_bytes P g) = (g, True)"
    using n assms(3) by (simp add: parsePassiveResponse_def response_bytes_def Let_def answers_def butlast_append)
  then show ?thesis
    using assms(1,5,6) hd len ne n unfolding assms(4)[symmetric]
    by (auto simp: tap_fresh in_response_def in_final_def handleSymbolLocked_def handleResponseSymbolLocked_def Let_def)
qed

lemma final_ack_step:
  assumes "in_final P r passivePhaseWaitFinalACK f g t" "fst x = SymbolAck P" "snd (snd x) - t \<le> watchdog r"
  shows "\<exists>r'. handleTapEventLocked P r (tap_of x) = (r', []) \<and> watchdog r' = watchdog r \<and>
    in_final P r' passivePhaseWaitTerminal f g (snd (snd x))"
  using assms by (auto simp: tap_fresh in_final_def handleSymbolLocked_def handleFinalACKSymbolLocked_def Let_def)

lemma terminal_step:
  assumes "in_final P r passivePhaseWaitTerminal f g t" "fst x = SymbolSyn P" "snd (snd x) - t \<le> watchdog r"
  shows "\<exists>r' ev. handleTapEventLocked P r (tap_of x) = (r', [ev]) \<and> state r' = idle_state\<lparr> synced := True \<rparr> \<and>
    pe_Kind ev = PassiveClassifiedEventTransaction \<and> pe_Request ev = f \<and> pe_Response ev = g \<and>
    pe_ACKCorrelation ev = Some (SymbolAck P)"
  using assms by (auto simp: tap_fresh in_final_def handleSymbolLocked_def handleTerminalSymbolLocked_def
      Let_def blank_event_def)

lemma response_complete:
  assumes "in_ack P r f t" "Frame_Type P f = FrameTypeInitiatorTarget" "length (Data g) \<le> 16" "answers g f"
    "fst a = SymbolAck P" "map fst ys = response_bytes P g" "escaped_ok P ys"
    "timely (watchdog r) t (a # ys)"
  shows "\<exists>r'. fst (run (handleTapEventLocked P) r (map tap_of (a # ys))) = r' \<and>
    concat (snd (run (handleTapEventLocked P) r (map tap_of (a # ys)))) = [] \<and> watchdog r' = watchdog r \<and>
    in_final P r' passivePhaseWaitFinalACK f g (end_time t (a # ys))"
proof -
  obtain r1 where r1: "handleTapEventLocked P r (tap_of a) = (r1, [])" "watchdog r1 = watchdog r"
    "in_response P r1 f [] (snd (snd a))"
    using ack_step[OF assms(1,5) _ assms(2)] assms(8) by auto
  have "ys \<noteq> []" using assms(6) by (auto simp: response_bytes_def Let_def)
  then obtain zs z where ys: "ys = zs @ [z]" by (cases ys rule: rev_cases) auto
  have tm: "timely (watchdog r1) (snd (snd a)) (zs @ [z])" using assms(8) r1(2) ys by simp
  from response_run[OF r1(3) assms(3), of zs "[fst z]"] timely_snoc[OF tm] assms(6,7) ys obtain r2 where
    r2: "run (handleTapEventLocked P) r1 (map tap_of zs) = (r2, replicate (length zs) [])" "watchdog r2 = watchdog r1"
      "in_response P r2 f (map fst zs) (end_time (snd (snd a)) zs)"
    by (auto simp: escaped_ok_def)
  from response_crc_step[OF r2(3) assms(3,4), of z] timely_snoc[OF tm] assms(6,7) ys r2(2) obtain r3 where
    r3: "handleTapEventLocked P r2 (tap_of z) = (r3, [])" "watchdog r3 = watchdog r2"
      "in_final P r3 passivePhaseWaitFinalACK f g (snd (snd z))"
    by (auto simp: escaped_ok_def)
  show ?thesis
    using r1 r2 r3 ys by (intro exI[of _ r3]) (simp add: end_time_def)
qed

section \<open>Claims\<close>

text \<open>
  C1. Nothing is invented. In every run from a fresh reconstructor, whatever the tap delivers,
  each broadcast frame, initiator frame and transaction it classifies was on the bus: the
  symbols delivered without a break end in a symbol that opens the gate (SYN, or the NACK that
  permits an immediate repetition), then exactly the bytes of the request with its valid
  checksum, the acknowledges, the bytes of the response with its valid checksum, and the final
  SYN, as the kind of frame demands.
\<close>

theorem passive_events_genuine:
  assumes "state r = idle_state"
    and "ev \<in> set (snd (handleTapEventLocked P (reconstruct P r es) e))"
  shows "genuine P (unbroken_syms (es @ [e])) ev"
proof -
  have "unbroken_syms (es @ [e]) = extend_syms (unbroken_syms es) e" by (simp add: unbroken_syms_def)
  with handled_tap[OF reconstruct_inv[OF assms(1)], of P es e] assms(2) show ?thesis
    by (simp add: handled_def)
qed

theorem passive_events_genuine_witness:
  "let es = map tap_of ((0xAA, False, 5) # ask_syms @ [(0, False, 80)] @ reply_syms @ [(0, False, 120)]);
       ev = hd (snd (handleTapEventLocked std_passive
              (reconstruct std_passive (newPassiveTransactionReconstructorCore 0) es) (tap_of (0xAA, False, 130))))
   in pe_Kind ev = PassiveClassifiedEventTransaction \<and>
      genuine std_passive (unbroken_syms (es @ [tap_of (0xAA, False, 130)])) ev"
proof -
  let ?es = "map tap_of ((0xAA, False, 5) # ask_syms @ [(0, False, 80)] @ reply_syms @ [(0, False, 120)])"
  let ?evs = "snd (handleTapEventLocked std_passive
      (reconstruct std_passive (newPassiveTransactionReconstructorCore 0) ?es) (tap_of (0xAA, False, 130)))"
  have k: "map pe_Kind ?evs = [PassiveClassifiedEventTransaction]" by code_simp
  then have "hd ?evs \<in> set ?evs" by (cases ?evs) auto
  moreover have "state (newPassiveTransactionReconstructorCore 0) = idle_state"
    by (simp add: newPassiveTransactionReconstructorCore_def)
  ultimately have "genuine std_passive (unbroken_syms (?es @ [tap_of (0xAA, False, 130)])) (hd ?evs)"
    by (intro passive_events_genuine)
  with k show ?thesis by (cases ?evs) (auto simp: Let_def)
qed

text \<open>
  C8. A transaction on the bus is reconstructed. From an idle, synchronised reconstructor, the
  symbols of any sendable initiator-target request, the acknowledge, the symbols of any answer
  of at most 16 data bytes, the acknowledge and the SYN, with the SYN value inside the frames
  marked as escaped and no gap longer than the watchdog, yield exactly one event: the
  transaction with this request and this response. The reconstructor is idle and synchronised
  again.
\<close>

theorem passive_transaction_reconstructed:
  assumes "state r = idle_state\<lparr> synced := True \<rparr>" and "sendable P f"
    and "Frame_Type P f = FrameTypeInitiatorTarget" and "length (Data g) \<le> 16" and "answers g f"
    and "map fst xs = request_bytes P f" and "map fst ys = response_bytes P g"
    and "fst a = SymbolAck P" and "fst b = SymbolAck P" and "fst c = SymbolSyn P"
    and "escaped_ok P (xs @ ys)" and "timely (watchdog r) t (xs @ a # ys @ [b, c])"
  shows "\<exists>ev. concat (snd (run (handleTapEventLocked P) r (map tap_of (xs @ a # ys @ [b, c])))) = [ev] \<and>
     pe_Kind ev = PassiveClassifiedEventTransaction \<and> pe_Request ev = f \<and> pe_Response ev = g \<and>
     pe_ACKCorrelation ev = Some (SymbolAck P) \<and>
     state (fst (run (handleTapEventLocked P) r (map tap_of (xs @ a # ys @ [b, c])))) =
       idle_state\<lparr> synced := True \<rparr>"
proof -
  have esc: "escaped_ok P xs" "escaped_ok P ys" using assms(11) by (simp_all add: escaped_ok_def)
  have "timely (watchdog r) t (xs @ (a # ys) @ [b, c])" using assms(12) by simp
  then have tm: "timely (watchdog r) t xs" "timely (watchdog r) (end_time t xs) (a # ys)"
    "timely (watchdog r) (end_time (end_time t xs) (a # ys)) [b, c]"
    by (simp_all only: timely_append)
  from request_complete[OF assms(1,2,6) esc(1) tm(1)] assms(3) obtain r1 where
    r1: "run (handleTapEventLocked P) r (map tap_of xs) = (r1, replicate (length xs) [])"
      "watchdog r1 = watchdog r" "in_ack P r1 f (end_time t xs)" by auto
  from response_complete[OF r1(3) assms(3-5,8,7) esc(2)] tm(2) r1(2) obtain r2 where
    r2: "fst (run (handleTapEventLocked P) r1 (map tap_of (a # ys))) = r2"
      "concat (snd (run (handleTapEventLocked P) r1 (map tap_of (a # ys)))) = []" "watchdog r2 = watchdog r1"
      "in_final P r2 passivePhaseWaitFinalACK f g (end_time (end_time t xs) (a # ys))" by auto
  from final_ack_step[OF r2(4) assms(9)] tm(3) r1(2) r2(3) obtain r3 where
    r3: "handleTapEventLocked P r2 (tap_of b) = (r3, [])" "watchdog r3 = watchdog r2"
      "in_final P r3 passivePhaseWaitTerminal f g (snd (snd b))" by auto
  from terminal_step[OF r3(3) assms(10)] tm(3) r1(2) r2(3) r3(2) obtain r4 ev where
    r4: "handleTapEventLocked P r3 (tap_of c) = (r4, [ev])" "state r4 = idle_state\<lparr> synced := True \<rparr>"
      "pe_Kind ev = PassiveClassifiedEventTransaction" "pe_Request ev = f" "pe_Response ev = g"
      "pe_ACKCorrelation ev = Some (SymbolAck P)" by auto
  have split: "map tap_of (xs @ a # ys @ [b, c]) = map tap_of xs @ map tap_of (a # ys) @ [tap_of b, tap_of c]"
    by simp
  show ?thesis
    unfolding split run_append_fst run_append_snd using r1 r2 r3 r4 by (intro exI[of _ ev]) simp
qed

theorem passive_transaction_reconstructed_witness:
  "\<exists>ev. concat (snd (run (handleTapEventLocked std_passive) synced_start
       (map tap_of (ask_syms @ (0, False, 80) # reply_syms @ [(0, False, 120), (0xAA, False, 130)])))) = [ev] \<and>
     pe_Request ev = ask \<and> pe_Response ev = reply"
proof -
  have "state synced_start = idle_state\<lparr> synced := True \<rparr>" by (simp add: synced_start_def)
  moreover have "sendable std_passive ask" "Frame_Type std_passive ask = FrameTypeInitiatorTarget"
    "length (Data reply) \<le> 16" "answers reply ask" "map fst ask_syms = request_bytes std_passive ask"
    "map fst reply_syms = response_bytes std_passive reply" "fst (0 :: byte, False, 80 :: int) = SymbolAck std_passive"
    "fst (0 :: byte, False, 120 :: int) = SymbolAck std_passive" "fst (0xAA :: byte, False, 130 :: int) = SymbolSyn std_passive"
    "escaped_ok std_passive (ask_syms @ reply_syms)"
    "timely (watchdog synced_start) 0 (ask_syms @ (0, False, 80) # reply_syms @ [(0, False, 120), (0xAA, False, 130)])"
    by code_simp+
  ultimately show ?thesis using passive_transaction_reconstructed[of synced_start std_passive ask reply] by blast
qed



end
