(* ===== verification/Watch_Catalog.thy ===== *)
theory Watch_Catalog
  imports Passive_Reconstructor "HOL-Library.Char_ord" "HOL-Library.List_Lexorder"
    "HOL-Library.Product_Lexorder" "HOL-Library.Multiset"
begin

text \<open>
  The watch catalogue and the activation set, \<^verbatim>\<open>src/watch_catalog.go\<close>: the keys under which
  values are watched and their canonical text, the validated catalogue of descriptors, and the
  set of sources that keep a key active.

  The string types of the source (classes, profiles, policies, sources) are strings, because a
  caller may supply any text and the code validates it. A key is one of the four built-in
  structs by value or behind a pointer, or a foreign implementation of the interface, of which
  only its canonical text is known. A nil interface is \<open>None\<close>. A typed nil pointer, on which
  \<^verbatim>\<open>Canonical\<close> itself panics, is not part of the model. Error texts are constructors with the
  values they report.
\<close>

section \<open>Keys\<close>

type_synonym uint16 = "16 word"

datatype built_in_key =
  B524WatchKey (target: byte) (opcode: byte) (group: byte) (inst: byte) (registerAddress: uint16)
| B509WatchKey (target: byte) (registerAddress: uint16)
| B516WatchKey (target: byte) (period: byte) (key_source: byte) (usage: byte)
| B555WatchKey (target: byte) (opcode: byte) (zone: byte) (hc: byte) (weekday: byte) (slot: byte)
    (hasWeekday: bool) (hasSlot: bool)

datatype WatchKey = KeyValue built_in_key | KeyPointer built_in_key | KeyForeign string

definition NewB524WatchKey :: "byte \<Rightarrow> byte \<Rightarrow> byte \<Rightarrow> byte \<Rightarrow> uint16 \<Rightarrow> WatchKey" where
  "NewB524WatchKey t oc g i a = KeyValue (B524WatchKey t oc g i a)"

definition NewB509WatchKey :: "byte \<Rightarrow> uint16 \<Rightarrow> WatchKey" where
  "NewB509WatchKey t a = KeyValue (B509WatchKey t a)"

definition NewB516WatchKey :: "byte \<Rightarrow> byte \<Rightarrow> byte \<Rightarrow> byte \<Rightarrow> WatchKey" where
  "NewB516WatchKey t p s u = KeyValue (B516WatchKey t p s u)"

definition NewB555ProgramWatchKey :: "byte \<Rightarrow> byte \<Rightarrow> byte \<Rightarrow> byte \<Rightarrow> WatchKey" where
  "NewB555ProgramWatchKey t oc z h = KeyValue (B555WatchKey t oc z h 0 0 False False)"

definition NewB555WatchKey :: "byte \<Rightarrow> byte \<Rightarrow> byte \<Rightarrow> byte \<Rightarrow> byte \<Rightarrow> byte \<Rightarrow> WatchKey" where
  "NewB555WatchKey t oc z h w s = KeyValue (B555WatchKey t oc z h w s True True)"

text \<open>The verbs \<^verbatim>\<open>%02x\<close> of a byte and \<^verbatim>\<open>%04x\<close> of a \<^verbatim>\<open>uint16\<close>.\<close>

definition hex_digit :: "nat \<Rightarrow> char" where
  "hex_digit n = ''0123456789abcdef'' ! n"

definition fmt02x :: "byte \<Rightarrow> string" where
  "fmt02x b = [hex_digit (unat b div 16), hex_digit (unat b mod 16)]"

definition fmt04x :: "uint16 \<Rightarrow> string" where
  "fmt04x w = [hex_digit (unat w div 4096), hex_digit (unat w div 256 mod 16),
               hex_digit (unat w div 16 mod 16), hex_digit (unat w mod 16)]"

definition b555SelectorByte :: "bool \<Rightarrow> byte \<Rightarrow> byte" where
  "b555SelectorByte isSet v = (if \<not> isSet then 0xFF else v)"

definition b555BoolByte :: "bool \<Rightarrow> byte" where
  "b555BoolByte v = (if v then 1 else 0)"

definition b555WatchKeySelectorsValid :: "byte \<Rightarrow> byte \<Rightarrow> bool \<Rightarrow> bool \<Rightarrow> bool" where
  "b555WatchKeySelectorsValid w s hasW hasS =
     (if hasW \<noteq> hasS then False
      else if \<not> hasW then w = 0 \<and> s = 0
      else w \<noteq> 0xFF \<and> s \<noteq> 0xFF)"

text \<open>\<^verbatim>\<open>%d\<close> is only applied to the flag bytes 0 and 1.\<close>

definition fmt_flag :: "byte \<Rightarrow> string" where
  "fmt_flag b = (if b = 0 then ''0'' else ''1'')"

definition b555_canonical ::
  "byte \<Rightarrow> byte \<Rightarrow> byte \<Rightarrow> byte \<Rightarrow> byte \<Rightarrow> byte \<Rightarrow> bool \<Rightarrow> bool \<Rightarrow> string" where
  "b555_canonical t oc z h w s hasW hasS =
     (let canonical = ''b555:'' @ fmt02x t @ '':'' @ fmt02x oc @ '':'' @ fmt02x z @ '':'' @ fmt02x h @
                      '':'' @ fmt02x (b555SelectorByte hasW w) @ '':'' @ fmt02x (b555SelectorByte hasS s)
      in if b555WatchKeySelectorsValid w s hasW hasS then canonical
         else canonical @ '':raw:'' @ fmt_flag (b555BoolByte hasW) @ '':'' @ fmt02x w @
              '':'' @ fmt_flag (b555BoolByte hasS) @ '':'' @ fmt02x s)"

fun key_canonical :: "built_in_key \<Rightarrow> string" where
  "key_canonical (B524WatchKey t oc g i a) =
     ''b524:'' @ fmt02x t @ '':'' @ fmt02x oc @ '':'' @ fmt02x g @ '':'' @ fmt02x i @ '':'' @ fmt04x a"
| "key_canonical (B509WatchKey t a) = ''b509:'' @ fmt02x t @ '':'' @ fmt04x a"
| "key_canonical (B516WatchKey t p s u) =
     ''b516:'' @ fmt02x t @ '':'' @ fmt02x p @ '':'' @ fmt02x s @ '':'' @ fmt02x u"
| "key_canonical (B555WatchKey t oc z h w s hasW hasS) = b555_canonical t oc z h w s hasW hasS"

fun Canonical :: "WatchKey \<Rightarrow> string" where
  "Canonical (KeyValue k) = key_canonical k"
| "Canonical (KeyPointer k) = key_canonical k"
| "Canonical (KeyForeign c) = c"

section \<open>Descriptors and their validation\<close>

definition WatchSemanticClassState :: string where [simp]: "WatchSemanticClassState = ''state''"
definition WatchSemanticClassConfig :: string where [simp]: "WatchSemanticClassConfig = ''config''"
definition WatchSemanticClassDiscovery :: string where [simp]: "WatchSemanticClassDiscovery = ''discovery''"
definition WatchSemanticClassDebug :: string where [simp]: "WatchSemanticClassDebug = ''debug''"

definition WatchFreshnessProfileStateFast :: string where [simp]: "WatchFreshnessProfileStateFast = ''state_fast''"
definition WatchFreshnessProfileStateSlow :: string where [simp]: "WatchFreshnessProfileStateSlow = ''state_slow''"
definition WatchFreshnessProfileConfig :: string where [simp]: "WatchFreshnessProfileConfig = ''config''"
definition WatchFreshnessProfileDiscovery :: string where [simp]: "WatchFreshnessProfileDiscovery = ''discovery''"
definition WatchFreshnessProfileDebug :: string where [simp]: "WatchFreshnessProfileDebug = ''debug''"

definition WatchCorrelationPolicyRequestResponse :: string where
  [simp]: "WatchCorrelationPolicyRequestResponse = ''request_response''"
definition WatchCorrelationPolicyBroadcastSelector :: string where
  [simp]: "WatchCorrelationPolicyBroadcastSelector = ''broadcast_selector''"
definition WatchCorrelationPolicyRecordInvalidate :: string where
  [simp]: "WatchCorrelationPolicyRecordInvalidate = ''record_and_invalidate''"
definition WatchCorrelationPolicyRecordOnly :: string where
  [simp]: "WatchCorrelationPolicyRecordOnly = ''record_only''"

definition WatchDirectApplyPolicyStateDefault :: string where
  [simp]: "WatchDirectApplyPolicyStateDefault = ''state_default''"

definition second :: int where "second = 1000000000"

definition watchFreshnessProfileDefaults :: "string \<Rightarrow> int option" where
  "watchFreshnessProfileDefaults p =
     (if p = WatchFreshnessProfileStateFast then Some (30 * second)
      else if p = WatchFreshnessProfileStateSlow then Some (120 * second)
      else if p = WatchFreshnessProfileConfig then Some (300 * second)
      else if p = WatchFreshnessProfileDiscovery then Some (3600 * second)
      else if p = WatchFreshnessProfileDebug then Some 0
      else None)"

record WatchDescriptor =
  wd_Key :: "WatchKey option"
  wd_SemanticClass :: string
  wd_FreshnessProfile :: string
  wd_DecoderID :: string
  wd_CorrelationPolicy :: string
  wd_DirectApplyPolicy :: string
  wd_FreshnessTTL :: "int option"

datatype watch_error =
  MissingKey | UnsupportedKeyType | SelectorsNotTogether | RawSelectorsSet | SelectorSentinel
| MissingSemanticClass string | MissingFreshnessProfile string | ProfileNotAllowed string string string
| MissingDecoder string | MissingCorrelation string | MissingDirectApply string
| UnknownProfile string string | NegativeTTL string | WidensZeroTTL string | WidensTTL string int int
| InKey string watch_error | DuplicateDescriptor string
| MissingSource | NilKey | NotInCatalog string

definition CanonicalKey :: "WatchDescriptor \<Rightarrow> string" where
  "CanonicalKey d = (case wd_Key d of None \<Rightarrow> '''' | Some k \<Rightarrow> Canonical k)"

fun cloneWatchKey :: "WatchKey \<Rightarrow> watch_error + WatchKey" where
  "cloneWatchKey (KeyValue k) = Inr (KeyValue k)"
| "cloneWatchKey (KeyPointer k) = Inr (KeyValue k)"
| "cloneWatchKey (KeyForeign c) = Inl UnsupportedKeyType"

fun validateB555WatchKey :: "WatchKey \<Rightarrow> watch_error option" where
  "validateB555WatchKey (KeyValue (B555WatchKey t oc z h w s hasW hasS)) =
     (if hasW \<noteq> hasS then Some SelectorsNotTogether
      else if \<not> hasW then (if w \<noteq> 0 \<or> s \<noteq> 0 then Some RawSelectorsSet else None)
      else if w = 0xFF \<or> s = 0xFF then Some SelectorSentinel
      else None)"
| "validateB555WatchKey k = None"

definition watchSemanticClassAllowsProfile :: "string \<Rightarrow> string \<Rightarrow> bool" where
  "watchSemanticClassAllowsProfile c p =
     (if c = WatchSemanticClassState
        then p = WatchFreshnessProfileStateFast \<or> p = WatchFreshnessProfileStateSlow
      else if c = WatchSemanticClassConfig then p = WatchFreshnessProfileConfig
      else if c = WatchSemanticClassDiscovery then p = WatchFreshnessProfileDiscovery
      else if c = WatchSemanticClassDebug then p = WatchFreshnessProfileDebug
      else False)"

text \<open>The checks of a time to live against the default of its profile.\<close>

definition validate_ttl :: "string \<Rightarrow> int \<Rightarrow> int option \<Rightarrow> watch_error option" where
  "validate_ttl canonical defaultTTL ttl =
     (case ttl of
        None \<Rightarrow> None
      | Some v \<Rightarrow>
          if v < 0 then Some (NegativeTTL canonical)
          else if defaultTTL = 0 \<and> v \<noteq> 0 then Some (WidensZeroTTL canonical)
          else if defaultTTL > 0 \<and> v > defaultTTL then Some (WidensTTL canonical v defaultTTL)
          else None)"

definition validate_fields :: "string \<Rightarrow> WatchDescriptor \<Rightarrow> watch_error option" where
  "validate_fields canonical d =
     (if wd_SemanticClass d = '''' then Some (MissingSemanticClass canonical)
      else if wd_FreshnessProfile d = '''' then Some (MissingFreshnessProfile canonical)
      else if \<not> watchSemanticClassAllowsProfile (wd_SemanticClass d) (wd_FreshnessProfile d)
        then Some (ProfileNotAllowed canonical (wd_SemanticClass d) (wd_FreshnessProfile d))
      else if wd_DecoderID d = '''' then Some (MissingDecoder canonical)
      else if wd_CorrelationPolicy d = '''' then Some (MissingCorrelation canonical)
      else if wd_DirectApplyPolicy d = '''' then Some (MissingDirectApply canonical)
      else (case watchFreshnessProfileDefaults (wd_FreshnessProfile d) of
              None \<Rightarrow> Some (UnknownProfile canonical (wd_FreshnessProfile d))
            | Some defaultTTL \<Rightarrow> validate_ttl canonical defaultTTL (wd_FreshnessTTL d)))"

definition validateWatchDescriptor :: "WatchDescriptor \<Rightarrow> watch_error option" where
  "validateWatchDescriptor d =
     (case wd_Key d of
        None \<Rightarrow> Some MissingKey
      | Some k \<Rightarrow>
          (case cloneWatchKey k of
             Inl e \<Rightarrow> Some e
           | Inr normalizedKey \<Rightarrow>
               (let canonical = Canonical normalizedKey in
                case validateB555WatchKey normalizedKey of
                  Some e \<Rightarrow> Some (InKey canonical e)
                | None \<Rightarrow> validate_fields canonical d)))"

definition EffectiveFreshnessTTL :: "WatchDescriptor \<Rightarrow> watch_error + int" where
  "EffectiveFreshnessTTL d =
     (case validateWatchDescriptor d of
        Some e \<Rightarrow> Inl e
      | None \<Rightarrow>
          (let defaultTTL = (case watchFreshnessProfileDefaults (wd_FreshnessProfile d) of
                               None \<Rightarrow> 0 | Some t \<Rightarrow> t) in
           case wd_FreshnessTTL d of None \<Rightarrow> Inr defaultTTL | Some v \<Rightarrow> Inr v))"

definition normalizeWatchDescriptor :: "WatchDescriptor \<Rightarrow> watch_error + WatchDescriptor" where
  "normalizeWatchDescriptor d =
     (case (case wd_Key d of
              None \<Rightarrow> Inr d
            | Some k \<Rightarrow> (case cloneWatchKey k of
                          Inl e \<Rightarrow> Inl e
                        | Inr k' \<Rightarrow> Inr (d\<lparr> wd_Key := Some k' \<rparr>))) of
        Inl e \<Rightarrow> Inl e
      | Inr normalized \<Rightarrow>
          (case validateWatchDescriptor normalized of
             Some e \<Rightarrow> Inl e
           | None \<Rightarrow> Inr normalized))"

section \<open>The catalogue\<close>

record WatchCatalog =
  cat_descriptors :: "string \<rightharpoonup> WatchDescriptor"
  cat_ordered :: "WatchDescriptor list"

definition empty_catalog :: WatchCatalog where
  "empty_catalog = \<lparr> cat_descriptors = Map.empty, cat_ordered = [] \<rparr>"

text \<open>
  The loop over the descriptors; then the list is sorted by canonical key. The keys are
  distinct when the sort runs, so the unstable \<^verbatim>\<open>sort.Slice\<close> has one result.
\<close>

fun catalog_add_all :: "WatchCatalog \<Rightarrow> WatchDescriptor list \<Rightarrow> watch_error + WatchCatalog" where
  "catalog_add_all c [] = Inr c"
| "catalog_add_all c (d # ds) =
     (case normalizeWatchDescriptor d of
        Inl e \<Rightarrow> Inl e
      | Inr normalized \<Rightarrow>
          (let key = CanonicalKey normalized in
           if cat_descriptors c key \<noteq> None then Inl (DuplicateDescriptor key)
           else catalog_add_all
                  (c\<lparr> cat_descriptors := (cat_descriptors c)(key \<mapsto> normalized),
                     cat_ordered := cat_ordered c @ [normalized] \<rparr>) ds))"

definition NewWatchCatalog :: "WatchDescriptor list \<Rightarrow> watch_error + WatchCatalog" where
  "NewWatchCatalog ds =
     (case catalog_add_all empty_catalog ds of
        Inl e \<Rightarrow> Inl e
      | Inr c \<Rightarrow> Inr (c\<lparr> cat_ordered := sort_key CanonicalKey (cat_ordered c) \<rparr>))"

definition DescriptorByCanonical :: "WatchCatalog \<Rightarrow> string \<Rightarrow> WatchDescriptor option" where
  "DescriptorByCanonical c key = cat_descriptors c key"

definition catalog_Descriptor :: "WatchCatalog \<Rightarrow> WatchKey option \<Rightarrow> WatchDescriptor option" where
  "catalog_Descriptor c key =
     (case key of None \<Rightarrow> None | Some k \<Rightarrow> DescriptorByCanonical c (Canonical k))"

definition Descriptors :: "WatchCatalog \<Rightarrow> WatchDescriptor list" where
  "Descriptors c = cat_ordered c"

section \<open>The activation set\<close>

record WatchObservationSummary =
  ActiveTotal :: uint64
  InactiveTotal :: uint64
  CatalogMissTotal :: uint64

datatype WatchObservationState =
  WatchObservationStateActive | WatchObservationStateInactive | WatchObservationStateCatalogMiss

text \<open>The descriptor is present exactly when \<^verbatim>\<open>HasDescriptor\<close> is set.\<close>

record WatchObservation =
  ob_State :: WatchObservationState
  ob_Descriptor :: "WatchDescriptor option"
  ob_Sources :: "string list"

definition catalog_miss :: WatchObservation where
  "catalog_miss = \<lparr> ob_State = WatchObservationStateCatalogMiss, ob_Descriptor = None, ob_Sources = [] \<rparr>"

text \<open>The inner map is the list of its keys, without repetition; its order is not observable.\<close>

record WatchActivationSet =
  as_catalog :: WatchCatalog
  as_active :: "string \<rightharpoonup> string list"
  as_summary :: WatchObservationSummary

definition NewWatchActivationSet :: "WatchCatalog option \<Rightarrow> WatchActivationSet" where
  "NewWatchActivationSet c =
     \<lparr> as_catalog = (case c of None \<Rightarrow> empty_catalog | Some c' \<Rightarrow> c'), as_active = Map.empty,
       as_summary = \<lparr> ActiveTotal = 0, InactiveTotal = 0, CatalogMissTotal = 0 \<rparr> \<rparr>"

fun activation_canonicals :: "WatchCatalog \<Rightarrow> WatchKey option list \<Rightarrow> watch_error + string list" where
  "activation_canonicals c [] = Inr []"
| "activation_canonicals c (None # ks) = Inl NilKey"
| "activation_canonicals c (Some k # ks) =
     (if DescriptorByCanonical c (Canonical k) = None then Inl (NotInCatalog (Canonical k))
      else case activation_canonicals c ks of Inl e \<Rightarrow> Inl e | Inr cs \<Rightarrow> Inr (Canonical k # cs))"

definition add_source :: "string \<Rightarrow> (string \<rightharpoonup> string list) \<Rightarrow> string \<Rightarrow> (string \<rightharpoonup> string list)" where
  "add_source src m canonical =
     m(canonical \<mapsto> List.insert src (case m canonical of None \<Rightarrow> [] | Some ss \<Rightarrow> ss))"

definition Activate ::
  "WatchActivationSet \<Rightarrow> string \<Rightarrow> WatchKey option list \<Rightarrow> WatchActivationSet \<times> watch_error option" where
  "Activate s src keys =
     (if src = '''' then (s, Some MissingSource)
      else case activation_canonicals (as_catalog s) keys of
             Inl e \<Rightarrow> (s, Some e)
           | Inr canonicals \<Rightarrow> (s\<lparr> as_active := foldl (add_source src) (as_active s) canonicals \<rparr>, None))"

definition remove_source :: "string \<Rightarrow> (string \<rightharpoonup> string list) \<Rightarrow> WatchKey option \<Rightarrow> (string \<rightharpoonup> string list)" where
  "remove_source src m key =
     (case key of
        None \<Rightarrow> m
      | Some k \<Rightarrow>
          (let canonical = Canonical k;
               sources = (case m canonical of None \<Rightarrow> [] | Some ss \<Rightarrow> ss);
               rest = removeAll src sources in
           if sources = [] then m
           else if rest = [] then m(canonical := None)
           else m(canonical \<mapsto> rest)))"

definition Deactivate :: "WatchActivationSet \<Rightarrow> string \<Rightarrow> WatchKey option list \<Rightarrow> WatchActivationSet" where
  "Deactivate s src keys =
     (if src = '''' then s else s\<lparr> as_active := foldl (remove_source src) (as_active s) keys \<rparr>)"

definition watchActivationSourceOrder :: "string \<Rightarrow> nat option" where
  "watchActivationSourceOrder s =
     (if s = ''poller'' then Some 0
      else if s = ''write_confirm'' then Some 1
      else if s = ''tooling'' then Some 2
      else if s = ''operator'' then Some 3
      else None)"

text \<open>
  The comparison of \<^verbatim>\<open>sortedWatchActivationSources\<close> puts known sources first, in their fixed
  order, and the others after them alphabetically; \<open>source_rank\<close> is the key that has this order.
\<close>

definition source_less :: "string \<Rightarrow> string \<Rightarrow> bool" where
  "source_less a b =
     (let left = watchActivationSourceOrder a; right = watchActivationSourceOrder b in
      if left \<noteq> None \<and> right \<noteq> None \<and> the left \<noteq> the right then the left < the right
      else if (left \<noteq> None) \<noteq> (right \<noteq> None) then left \<noteq> None
      else a < b)"

definition source_rank :: "string \<Rightarrow> nat \<times> string" where
  "source_rank s = (case watchActivationSourceOrder s of Some n \<Rightarrow> (n, s) | None \<Rightarrow> (4, s))"

definition sortedWatchActivationSources :: "string list \<Rightarrow> string list" where
  "sortedWatchActivationSources ss = sort_key source_rank ss"

definition active_sources :: "WatchActivationSet \<Rightarrow> string \<Rightarrow> string list" where
  "active_sources s canonical = (case as_active s canonical of None \<Rightarrow> [] | Some ss \<Rightarrow> ss)"

definition ActiveSources :: "WatchActivationSet \<Rightarrow> WatchKey option \<Rightarrow> string list" where
  "ActiveSources s key =
     (case key of None \<Rightarrow> [] | Some k \<Rightarrow> sortedWatchActivationSources (active_sources s (Canonical k)))"

definition Observe :: "WatchActivationSet \<Rightarrow> WatchKey option \<Rightarrow> WatchActivationSet \<times> WatchObservation" where
  "Observe s key =
     (case key of
        None \<Rightarrow> (s, catalog_miss)
      | Some k \<Rightarrow>
          (case DescriptorByCanonical (as_catalog s) (Canonical k) of
             None \<Rightarrow> (s\<lparr> as_summary := (as_summary s)\<lparr> CatalogMissTotal := CatalogMissTotal (as_summary s) + 1 \<rparr> \<rparr>,
                      catalog_miss)
           | Some descriptor \<Rightarrow>
               (let sources = sortedWatchActivationSources (active_sources s (Canonical k)) in
                if sources = []
                then (s\<lparr> as_summary := (as_summary s)\<lparr> InactiveTotal := InactiveTotal (as_summary s) + 1 \<rparr> \<rparr>,
                      \<lparr> ob_State = WatchObservationStateInactive, ob_Descriptor = Some descriptor, ob_Sources = [] \<rparr>)
                else (s\<lparr> as_summary := (as_summary s)\<lparr> ActiveTotal := ActiveTotal (as_summary s) + 1 \<rparr> \<rparr>,
                      \<lparr> ob_State = WatchObservationStateActive, ob_Descriptor = Some descriptor,
                        ob_Sources = sources \<rparr>))))"

section \<open>Keys of observed frames\<close>

definition be16 :: "byte \<Rightarrow> byte \<Rightarrow> uint16" where
  "be16 hi lo = (push_bit 8 (ucast hi)) OR ucast lo"

definition le16 :: "byte \<Rightarrow> byte \<Rightarrow> uint16" where
  "le16 lo hi = (ucast lo) OR push_bit 8 (ucast hi)"

definition parsePassiveB524WatchKey :: "Frame \<Rightarrow> WatchKey option" where
  "parsePassiveB524WatchKey f =
     (if length (Data f) < 6 then None
      else if Data f ! 0 \<noteq> 0x02 \<and> Data f ! 0 \<noteq> 0x06 then None
      else Some (NewB524WatchKey (Target f) (Data f ! 0) (Data f ! 2) (Data f ! 3)
                   (le16 (Data f ! 4) (Data f ! 5))))"

definition parsePassiveB509WatchKey :: "Frame \<Rightarrow> WatchKey option" where
  "parsePassiveB509WatchKey f =
     (if length (Data f) < 3 then None
      else if Data f ! 0 \<noteq> 0x0D \<and> Data f ! 0 \<noteq> 0x29 \<and> Data f ! 0 \<noteq> 0x0E then None
      else Some (NewB509WatchKey (Target f) (be16 (Data f ! 1) (Data f ! 2))))"

definition PassiveWatchKeyFromFrame :: "Frame \<Rightarrow> WatchKey option" where
  "PassiveWatchKeyFromFrame f =
     (if Primary f = 0xB5 \<and> Secondary f = 0x24 then parsePassiveB524WatchKey f
      else if Primary f = 0xB5 \<and> Secondary f = 0x09 then parsePassiveB509WatchKey f
      else None)"

definition PassiveWatchKeyFromEvent :: "PassiveClassifiedEvent \<Rightarrow> WatchKey option" where
  "PassiveWatchKeyFromEvent e =
     (if \<not> pe_HasRequest e then None else PassiveWatchKeyFromFrame (pe_Request e))"

section \<open>What the catalogue promises\<close>

text \<open>A descriptor with its key by value, as the catalogue stores it.\<close>

fun key_by_value :: "WatchKey \<Rightarrow> WatchKey" where
  "key_by_value (KeyPointer k) = KeyValue k"
| "key_by_value k = k"

definition by_value :: "WatchDescriptor \<Rightarrow> WatchDescriptor" where
  "by_value d = d\<lparr> wd_Key := map_option key_by_value (wd_Key d) \<rparr>"

definition accepted :: "WatchDescriptor list \<Rightarrow> bool" where
  "accepted ds \<longleftrightarrow> list_all (\<lambda>d. validateWatchDescriptor d = None) ds \<and> distinct (map CanonicalKey ds)"

text \<open>The callers of the activation set, and the relation between keys and sources it keeps.\<close>

datatype activation_op =
  ActivateOp string "WatchKey option list" | DeactivateOp string "WatchKey option list" | ObserveOp "WatchKey option"

fun activation_step :: "WatchActivationSet \<Rightarrow> activation_op \<Rightarrow> WatchActivationSet" where
  "activation_step s (ActivateOp src keys) = fst (Activate s src keys)"
| "activation_step s (DeactivateOp src keys) = Deactivate s src keys"
| "activation_step s (ObserveOp key) = fst (Observe s key)"

definition activation_relation :: "WatchActivationSet \<Rightarrow> (string \<times> string) set" where
  "activation_relation s = {(c, src). src \<in> set (active_sources s c)}"

definition known_key :: "WatchCatalog \<Rightarrow> WatchKey option \<Rightarrow> bool" where
  "known_key c key \<longleftrightarrow> catalog_Descriptor c key \<noteq> None"

definition pairs_of :: "string \<Rightarrow> WatchKey option list \<Rightarrow> (string \<times> string) set" where
  "pairs_of src keys = {(c, s). s = src \<and> (\<exists>k. Some k \<in> set keys \<and> c = Canonical k)}"

fun relation_step :: "WatchCatalog \<Rightarrow> (string \<times> string) set \<Rightarrow> activation_op \<Rightarrow> (string \<times> string) set" where
  "relation_step c R (ActivateOp src keys) =
     (if src \<noteq> '''' \<and> list_all (known_key c) keys then R \<union> pairs_of src keys else R)"
| "relation_step c R (DeactivateOp src keys) = (if src = '''' then R else R - pairs_of src keys)"
| "relation_step c R (ObserveOp key) = R"

definition example_descriptor :: "WatchKey \<Rightarrow> int option \<Rightarrow> WatchDescriptor" where
  "example_descriptor k ttl =
     \<lparr> wd_Key = Some k, wd_SemanticClass = ''state'', wd_FreshnessProfile = ''state_fast'',
       wd_DecoderID = ''d'', wd_CorrelationPolicy = ''request_response'',
       wd_DirectApplyPolicy = ''state_default'', wd_FreshnessTTL = ttl \<rparr>"

definition example_descriptors :: "WatchDescriptor list" where
  "example_descriptors =
     [example_descriptor (NewB524WatchKey 0x15 2 1 0 7) None,
      example_descriptor (KeyPointer (B509WatchKey 8 0x1234)) (Some (5 * second))]"

section \<open>Lemmas: canonical texts\<close>

lemma hex_digit_eq_iff: "a < 16 \<Longrightarrow> b < 16 \<Longrightarrow> hex_digit a = hex_digit b \<longleftrightarrow> a = b"
proof -
  have "distinct ''0123456789abcdef''" "length ''0123456789abcdef'' = 16" by simp_all
  then show "a < 16 \<Longrightarrow> b < 16 \<Longrightarrow> ?thesis"
    unfolding hex_digit_def by (metis nth_eq_iff_index_eq)
qed

lemma nat_by_nibbles:
  "(n :: nat) = (n div 4096) * 4096 + (n div 256 mod 16) * 256 + (n div 16 mod 16) * 16 + n mod 16"
proof -
  have "n = (n div 16) * 16 + n mod 16" by simp
  moreover have "n div 16 = (n div 256) * 16 + n div 16 mod 16"
    using div_mult_mod_eq[of "n div 16" 16] by (simp add: div_mult2_eq[symmetric])
  moreover have "n div 256 = (n div 4096) * 16 + n div 256 mod 16"
    using div_mult_mod_eq[of "n div 256" 16] by (simp add: div_mult2_eq[symmetric])
  ultimately show ?thesis by linarith
qed

lemma length_fmt [simp]: "length (fmt02x b) = 2" "length (fmt04x w) = 4"
  by (simp_all add: fmt02x_def fmt04x_def)

lemma fmt02x_eq_iff [simp]: "fmt02x a = fmt02x b \<longleftrightarrow> a = b"
proof
  assume eq: "fmt02x a = fmt02x b"
  have "unat c div 16 < 16" for c :: byte using unat_byte_bound[of c] by linarith
  then have "unat a div 16 = unat b div 16" "unat a mod 16 = unat b mod 16"
    using eq by (simp_all add: fmt02x_def hex_digit_eq_iff)
  then have "unat a = unat b" by (metis div_mult_mod_eq)
  then show "a = b" by (simp add: word_unat_eq_iff)
qed simp

lemma fmt04x_eq_iff [simp]: "fmt04x a = fmt04x b \<longleftrightarrow> a = b"
proof
  assume eq: "fmt04x a = fmt04x b"
  have "unat c < 65536" for c :: uint16 using unsigned_less[of c, where 'a = nat] by simp
  then have "unat c div 4096 < 16" for c :: uint16 by (simp add: less_mult_imp_div_less)
  then have "unat a div 4096 = unat b div 4096" "unat a div 256 mod 16 = unat b div 256 mod 16"
    "unat a div 16 mod 16 = unat b div 16 mod 16" "unat a mod 16 = unat b mod 16"
    using eq by (simp_all add: fmt04x_def hex_digit_eq_iff)
  then have "unat a = unat b" using nat_by_nibbles[of "unat a"] nat_by_nibbles[of "unat b"] by simp
  then show "a = b" by (simp add: word_unat_eq_iff)
qed simp

lemma fmt02x_append_eq_iff [simp]: "fmt02x a @ xs = fmt02x b @ ys \<longleftrightarrow> a = b \<and> xs = ys"
  by (simp add: append_eq_append_conv)

lemma fmt02x_no_prefix [simp]: "fmt02x a \<noteq> fmt02x b @ c # xs" "fmt02x b @ c # xs \<noteq> fmt02x a"
  by (auto dest!: arg_cong[of _ _ length])

lemma fmt_flag_eq_iff [simp]:
  "fmt_flag (b555BoolByte p) @ xs = fmt_flag (b555BoolByte q) @ ys \<longleftrightarrow> p = q \<and> xs = ys"
  by (cases p; cases q) (simp_all add: fmt_flag_def b555BoolByte_def)

lemma b555_canonical_inj:
  assumes "b555_canonical t oc z h w s p q = b555_canonical t' oc' z' h' w' s' p' q'"
  shows "t = t' \<and> oc = oc' \<and> z = z' \<and> h = h' \<and> w = w' \<and> s = s' \<and> p = p' \<and> q = q'"
  using assms unfolding b555_canonical_def Let_def
  by (cases "b555WatchKeySelectorsValid w s p q"; cases "b555WatchKeySelectorsValid w' s' p' q'")
     (auto simp: b555WatchKeySelectorsValid_def b555SelectorByte_def split: if_splits)

lemma b555_canonical_prefix: "\<exists>xs. b555_canonical t oc z h w s p q = ''b555:'' @ xs"
  by (simp add: b555_canonical_def Let_def)

lemma b555_canonical_other:
  "b555_canonical t oc z h w s p q \<noteq> CHR ''b'' # CHR ''5'' # CHR ''2'' # xs"
  "b555_canonical t oc z h w s p q \<noteq> CHR ''b'' # CHR ''5'' # CHR ''0'' # xs"
  "b555_canonical t oc z h w s p q \<noteq> CHR ''b'' # CHR ''5'' # CHR ''1'' # xs"
  using b555_canonical_prefix[of t oc z h w s p q] by auto

lemmas b555_canonical_apart [simp] = b555_canonical_other b555_canonical_other[symmetric]

lemma key_canonical_eq_iff [simp]: "key_canonical k = key_canonical k' \<longleftrightarrow> k = k'"
proof
  show "key_canonical k = key_canonical k' \<Longrightarrow> k = k'"
    by (cases k; cases k') (auto dest: b555_canonical_inj)
qed simp

section \<open>Lemmas: validation and construction\<close>

lemma CanonicalKey_by_value [simp]: "CanonicalKey (by_value d) = CanonicalKey d"
proof -
  have "Canonical (key_by_value k) = Canonical k" for k by (cases k) simp_all
  then show ?thesis by (simp add: CanonicalKey_def by_value_def split: option.splits)
qed

lemma clone_by_value: "cloneWatchKey k = Inr k' \<Longrightarrow> k' = key_by_value k \<and> (\<exists>b. k' = KeyValue b)"
  by (cases k) auto

lemma validate_fields_key [simp]: "validate_fields c (d\<lparr> wd_Key := k \<rparr>) = validate_fields c d"
  by (simp add: validate_fields_def split: option.splits)

lemma validate_by_value [simp]: "validateWatchDescriptor (by_value d) = validateWatchDescriptor d"
proof -
  have "cloneWatchKey (key_by_value k) = cloneWatchKey k" for k by (cases k) simp_all
  then show ?thesis
    by (simp add: validateWatchDescriptor_def by_value_def Let_def split: option.splits sum.splits)
qed

lemma normalize_iff:
  "normalizeWatchDescriptor d =
     (case validateWatchDescriptor d of Some e \<Rightarrow> Inl e | None \<Rightarrow> Inr (by_value d))"
proof (cases "wd_Key d")
  case None
  then have "by_value d = d" by (simp add: by_value_def)
  with None show ?thesis by (simp add: normalizeWatchDescriptor_def split: option.splits)
next
  case (Some k)
  show ?thesis
  proof (cases "cloneWatchKey k")
    case (Inl e)
    with Some show ?thesis by (simp add: normalizeWatchDescriptor_def validateWatchDescriptor_def)
  next
    case (Inr k')
    then have "d\<lparr> wd_Key := Some k' \<rparr> = by_value d"
      using Some clone_by_value by (auto simp: by_value_def)
    with Some Inr validate_by_value[of d] show ?thesis
      by (simp add: normalizeWatchDescriptor_def split: option.splits)
  qed
qed

lemma valid_key_by_value:
  "validateWatchDescriptor d = None \<Longrightarrow> \<exists>b. wd_Key (by_value d) = Some (KeyValue b)"
  by (auto simp: validateWatchDescriptor_def by_value_def dest!: clone_by_value split: option.splits sum.splits)

lemma valid_ttl_bounds:
  assumes "validateWatchDescriptor d = None"
  shows "\<exists>t t0. EffectiveFreshnessTTL d = Inr t \<and>
           watchFreshnessProfileDefaults (wd_FreshnessProfile d) = Some t0 \<and> 0 \<le> t \<and> t \<le> t0"
proof -
  from assms obtain canonical where "validate_fields canonical d = None"
    by (auto simp: validateWatchDescriptor_def Let_def split: option.splits sum.splits)
  then obtain t0 where t0: "watchFreshnessProfileDefaults (wd_FreshnessProfile d) = Some t0"
    and ttl: "validate_ttl canonical t0 (wd_FreshnessTTL d) = None"
    by (auto simp: validate_fields_def split: if_splits option.splits)
  from t0 have "0 \<le> t0"
    by (auto simp: watchFreshnessProfileDefaults_def second_def split: if_splits)
  with assms t0 ttl show ?thesis
    by (cases "wd_FreshnessTTL d")
       (auto simp: EffectiveFreshnessTTL_def validate_ttl_def split: if_splits)
qed

text \<open>What the loop has stored after the descriptors \<open>ds\<close>.\<close>

definition holds :: "WatchCatalog \<Rightarrow> WatchDescriptor list \<Rightarrow> bool" where
  "holds c ds \<longleftrightarrow> cat_ordered c = map by_value ds \<and>
     cat_descriptors c = map_of (map (\<lambda>d. (CanonicalKey d, by_value d)) ds) \<and> accepted ds"

lemma holds_empty [simp]: "holds empty_catalog []"
  by (simp add: holds_def empty_catalog_def accepted_def)

lemma map_of_append_fresh:
  assumes "k \<notin> fst ` set xs"
  shows "map_of (xs @ [(k, v)]) = (map_of xs)(k \<mapsto> v)"
proof -
  have "map_of xs k = None" using assms by (simp add: map_of_eq_None_iff)
  then show ?thesis by (auto simp: map_of_append map_add_def fun_eq_iff split: option.splits)
qed

lemma holds_snoc:
  assumes "holds c ds" "validateWatchDescriptor d = None" "cat_descriptors c (CanonicalKey d) = None"
  shows "holds (c\<lparr> cat_descriptors := (cat_descriptors c)(CanonicalKey d \<mapsto> by_value d),
                 cat_ordered := cat_ordered c @ [by_value d] \<rparr>) (ds @ [d])"
proof -
  let ?f = "\<lambda>d. (CanonicalKey d, by_value d)"
  have fresh: "CanonicalKey d \<notin> fst ` set (map ?f ds)"
    using assms(1,3) by (simp add: holds_def map_of_eq_None_iff)
  then have "CanonicalKey d \<notin> set (map CanonicalKey ds)" by (auto simp: image_iff)
  with assms map_of_append_fresh[OF fresh, of "by_value d"] show ?thesis
    by (simp add: holds_def accepted_def)
qed

lemma duplicate_iff:
  assumes "holds c ds"
  shows "cat_descriptors c key \<noteq> None \<longleftrightarrow> key \<in> set (map CanonicalKey ds)"
proof -
  have "cat_descriptors c key = None \<longleftrightarrow> key \<notin> fst ` set (map (\<lambda>d. (CanonicalKey d, by_value d)) ds)"
    using assms by (simp add: holds_def map_of_eq_None_iff)
  then show ?thesis by (auto simp: image_iff)
qed

lemma catalog_add_all_spec:
  assumes "holds c ds0"
  shows "case catalog_add_all c ds of
           Inr c' \<Rightarrow> holds c' (ds0 @ ds)
         | Inl e \<Rightarrow> \<exists>i < length ds. accepted (ds0 @ take i ds) \<and>
             (validateWatchDescriptor (ds ! i) = Some e \<or>
              e = DuplicateDescriptor (CanonicalKey (ds ! i)) \<and>
                CanonicalKey (ds ! i) \<in> set (map CanonicalKey (ds0 @ take i ds)))"
  using assms
proof (induction ds arbitrary: c ds0)
  case Nil
  then show ?case by simp
next
  case (Cons d ds)
  have acc: "accepted ds0" using Cons.prems by (simp add: holds_def)
  consider (invalid) e where "validateWatchDescriptor d = Some e"
    | (dup) "validateWatchDescriptor d = None" "CanonicalKey d \<in> set (map CanonicalKey ds0)"
    | (new) "validateWatchDescriptor d = None" "CanonicalKey d \<notin> set (map CanonicalKey ds0)"
    by fastforce
  then show ?case
  proof cases
    case invalid
    then show ?thesis using acc by (simp add: normalize_iff) (rule exI[of _ 0], simp)
  next
    case dup
    then have "cat_descriptors c (CanonicalKey d) \<noteq> None" using duplicate_iff[OF Cons.prems] by blast
    with dup acc show ?thesis by (simp add: normalize_iff) (rule exI[of _ 0], simp)
  next
    case new
    then have none: "cat_descriptors c (CanonicalKey d) = None" using duplicate_iff[OF Cons.prems] by blast
    let ?c = "c\<lparr> cat_descriptors := (cat_descriptors c)(CanonicalKey d \<mapsto> by_value d),
               cat_ordered := cat_ordered c @ [by_value d] \<rparr>"
    have step: "catalog_add_all c (d # ds) = catalog_add_all ?c ds"
      using new none by (simp add: normalize_iff)
    show ?thesis
    proof (cases "catalog_add_all ?c ds")
      case (Inr c')
      with Cons.IH[OF holds_snoc[OF Cons.prems new(1) none]] step show ?thesis by simp
    next
      case (Inl e)
      with Cons.IH[OF holds_snoc[OF Cons.prems new(1) none]]
      obtain i where "i < length ds" "accepted ((ds0 @ [d]) @ take i ds)"
        "validateWatchDescriptor (ds ! i) = Some e \<or>
           e = DuplicateDescriptor (CanonicalKey (ds ! i)) \<and>
           CanonicalKey (ds ! i) \<in> set (map CanonicalKey ((ds0 @ [d]) @ take i ds))"
        by auto
      then show ?thesis unfolding step using Inl by (simp, intro exI[of _ "Suc i"]) auto
    qed
  qed
qed

lemma holds_lookup:
  assumes "holds c ds"
  shows "cat_descriptors c (key_canonical k) = Some d \<longleftrightarrow>
         d \<in> by_value ` set ds \<and> wd_Key d = Some (KeyValue k)"
proof -
  let ?f = "\<lambda>d. (CanonicalKey d, by_value d)"
  have acc: "accepted ds" and lookup: "cat_descriptors c = map_of (map ?f ds)"
    using assms by (simp_all add: holds_def)
  have "cat_descriptors c (key_canonical k) = Some d \<longleftrightarrow> (key_canonical k, d) \<in> set (map ?f ds)"
    using acc unfolding lookup by (intro map_of_eq_Some_iff) (simp add: accepted_def o_def)
  also have "\<dots> \<longleftrightarrow> d \<in> by_value ` set ds \<and> CanonicalKey d = key_canonical k"
    by (simp add: image_iff) (metis CanonicalKey_by_value)
  also have "\<dots> \<longleftrightarrow> d \<in> by_value ` set ds \<and> wd_Key d = Some (KeyValue k)"
  proof -
    have "\<exists>b. wd_Key d = Some (KeyValue b)" if "d \<in> by_value ` set ds"
      using that acc valid_key_by_value by (auto simp: accepted_def list_all_iff)
    then show ?thesis by (auto simp: CanonicalKey_def)
  qed
  finally show ?thesis .
qed

lemma sorted_strict:
  assumes "distinct (map f xs)"
  shows "sorted_wrt (<) (map f (sort_key f xs))"
proof -
  have "distinct (map f (sort_key f xs))"
    using assms by (metis distinct_map distinct_sort set_sort)
  then show ?thesis by (simp add: strict_sorted_iff)
qed

section \<open>Lemmas: the activation set\<close>

lemma source_rank_less: "a \<noteq> b \<Longrightarrow> source_rank a \<le> source_rank b \<Longrightarrow> source_less a b"
  by (auto simp: source_rank_def source_less_def watchActivationSourceOrder_def Let_def less_prod_def
      less_eq_prod_def split: if_splits option.splits)

lemma source_rank_inj [simp]: "inj_on source_rank A"
  by (auto simp: inj_on_def source_rank_def split: option.splits)

lemma sorted_sources:
  assumes "distinct ss"
  shows "sorted_wrt source_less (sortedWatchActivationSources ss)"
proof -
  let ?ss = "sort_key source_rank ss"
  have "sorted (map source_rank ?ss)" by simp
  then have "sorted_wrt (\<lambda>a b. source_rank a \<le> source_rank b) ?ss" by (simp add: sorted_wrt_map)
  moreover have "distinct ?ss" using assms by simp
  ultimately show ?thesis unfolding sortedWatchActivationSources_def
    by (induction ?ss) (auto simp: source_rank_less sorted_wrt_iff_nth_less nth_eq_iff_index_eq)
qed

lemma set_sorted_sources [simp]: "set (sortedWatchActivationSources ss) = set ss"
  by (simp add: sortedWatchActivationSources_def)

lemma sorted_sources_empty [simp]: "sortedWatchActivationSources ss = [] \<longleftrightarrow> ss = []"
  by (metis set_sorted_sources set_empty)

text \<open>A map of source lists as a relation; the two map operations on it.\<close>

definition relation_of :: "(string \<rightharpoonup> string list) \<Rightarrow> (string \<times> string) set" where
  "relation_of m = {(c, src). \<exists>ss. m c = Some ss \<and> src \<in> set ss}"

definition well_kept :: "(string \<rightharpoonup> string list) \<Rightarrow> bool" where
  "well_kept m \<longleftrightarrow> (\<forall>c ss. m c = Some ss \<longrightarrow> ss \<noteq> [] \<and> distinct ss)"

lemma relation_of_add: "relation_of (add_source src m c) = insert (c, src) (relation_of m)"
  by (auto simp: relation_of_def add_source_def split: if_splits option.splits)

lemma well_kept_add: "well_kept m \<Longrightarrow> well_kept (add_source src m c)"
  by (auto simp: well_kept_def add_source_def List.insert_def split: option.splits)

lemma relation_of_add_all:
  "relation_of (foldl (add_source src) m cs) = relation_of m \<union> {(c, src) | c. c \<in> set cs}"
  by (induction cs arbitrary: m) (auto simp: relation_of_add)

lemma well_kept_add_all: "well_kept m \<Longrightarrow> well_kept (foldl (add_source src) m cs)"
  by (induction cs arbitrary: m) (simp_all add: well_kept_add)

lemma relation_of_remove: "relation_of (remove_source src m key) = relation_of m - pairs_of src [key]"
proof (cases key)
  case None
  then show ?thesis by (simp add: remove_source_def pairs_of_def)
next
  case (Some k)
  then show ?thesis
  proof (cases "m (Canonical k)")
    case None
    with Some show ?thesis by (auto simp: remove_source_def relation_of_def pairs_of_def)
  next
    case (Some ss)
    have "set (removeAll src ss) = set ss - {src}" by simp
    with \<open>key = Some k\<close> Some show ?thesis
      by (cases "removeAll src ss = []"; cases "ss = []")
         (auto simp: remove_source_def relation_of_def pairs_of_def Let_def split: if_splits)
  qed
qed

lemma well_kept_remove: "well_kept m \<Longrightarrow> well_kept (remove_source src m key)"
  by (auto simp: well_kept_def remove_source_def Let_def distinct_removeAll split: option.splits if_splits)

lemma pairs_of_Cons: "pairs_of src (k # ks) = pairs_of src [k] \<union> pairs_of src ks"
  by (auto simp: pairs_of_def)

lemma relation_of_remove_all:
  "relation_of (foldl (remove_source src) m keys) = relation_of m - pairs_of src keys"
proof (induction keys arbitrary: m)
  case Nil
  then show ?case by (simp add: pairs_of_def)
next
  case (Cons k ks)
  then show ?case by (simp only: foldl_Cons relation_of_remove pairs_of_Cons[of src k ks]) blast
qed

lemma well_kept_remove_all: "well_kept m \<Longrightarrow> well_kept (foldl (remove_source src) m keys)"
  by (induction keys arbitrary: m) (simp_all add: well_kept_remove)

lemma activation_canonicals_ok:
  "list_all (known_key c) keys \<Longrightarrow>
   activation_canonicals c keys = Inr (map (\<lambda>k. Canonical (the k)) keys)"
  by (induction keys rule: list.induct)
     (auto simp: known_key_def catalog_Descriptor_def split: option.splits)

lemma activation_canonicals_error:
  "\<not> list_all (known_key c) keys \<Longrightarrow> \<exists>e. activation_canonicals c keys = Inl e"
proof (induction c keys rule: activation_canonicals.induct)
  case (3 c k ks)
  then show ?case
    by (cases "DescriptorByCanonical c (Canonical k)") (auto simp: known_key_def catalog_Descriptor_def)
qed simp_all

lemma pairs_of_known:
  "list_all (known_key c) keys \<Longrightarrow>
   {(x, src) | x. x \<in> set (map (\<lambda>k. Canonical (the k)) keys)} = pairs_of src keys"
proof -
  assume "list_all (known_key c) keys"
  then have "k \<in> set keys \<Longrightarrow> \<exists>k'. k = Some k'" for k
    by (cases k) (auto simp: list_all_iff known_key_def catalog_Descriptor_def)
  then have "(\<exists>k'. Some k' \<in> set keys \<and> x = Canonical k') \<longleftrightarrow> x \<in> set (map (\<lambda>k. Canonical (the k)) keys)" for x
    by (force simp: image_iff)
  then show ?thesis by (auto simp: pairs_of_def)
qed

lemma activation_relation_eq: "activation_relation s = relation_of (as_active s)"
proof -
  have "src \<in> set (active_sources s c) \<longleftrightarrow> (\<exists>ss. as_active s c = Some ss \<and> src \<in> set ss)" for c src
    by (cases "as_active s c") (simp_all add: active_sources_def)
  then show ?thesis by (simp add: activation_relation_def relation_of_def)
qed

definition activation_ok :: "WatchCatalog \<Rightarrow> WatchActivationSet \<Rightarrow> bool" where
  "activation_ok c s \<longleftrightarrow> as_catalog s = c \<and> well_kept (as_active s)"

lemma activate_result:
  "snd (Activate s src keys) = None \<longleftrightarrow> src \<noteq> '''' \<and> list_all (known_key (as_catalog s)) keys"
  using activation_canonicals_ok[of "as_catalog s" keys] activation_canonicals_error[of "as_catalog s" keys]
  by (cases "list_all (known_key (as_catalog s)) keys") (auto simp: Activate_def)

lemma activation_step_simulates:
  assumes "activation_ok c s"
  shows "activation_relation (activation_step s op) = relation_step c (activation_relation s) op"
proof (cases op)
  case (ActivateOp src keys)
  have cat: "as_catalog s = c" using assms by (simp add: activation_ok_def)
  show ?thesis
  proof (cases "src \<noteq> '''' \<and> list_all (known_key c) keys")
    case True
    then show ?thesis
      using pairs_of_known[of c keys src]
      by (simp add: ActivateOp Activate_def cat activation_canonicals_ok activation_relation_eq relation_of_add_all)
  next
    case False
    then show ?thesis
      using activation_canonicals_error[of c keys] by (auto simp: ActivateOp Activate_def cat)
  qed
next
  case (DeactivateOp src keys)
  then show ?thesis by (simp add: Deactivate_def activation_relation_eq relation_of_remove_all)
next
  case (ObserveOp key)
  then show ?thesis
    by (simp add: Observe_def activation_relation_eq Let_def split: option.splits)
qed

interpretation watch_activation: kept_invariant activation_step "activation_ok c" for c
proof
  fix s op
  assume "activation_ok c s"
  then show "activation_ok c (activation_step s op)"
    by (cases op) (auto simp: activation_ok_def Activate_def Deactivate_def Observe_def Let_def
        well_kept_add_all well_kept_remove_all split: option.splits sum.splits)
qed

lemma activation_ok_new [simp]: "activation_ok c (NewWatchActivationSet (Some c))"
  by (simp add: activation_ok_def NewWatchActivationSet_def well_kept_def)

lemma activation_run_simulates:
  "activation_ok c s \<Longrightarrow>
   activation_relation (foldl activation_step s ops) = foldl (relation_step c) (activation_relation s) ops"
  by (induction ops arbitrary: s) (simp_all add: activation_step_simulates watch_activation.step_keeps)

lemma observe_spec:
  assumes "activation_ok c s" and rel: "here = {src. (Canonical k, src) \<in> activation_relation s}"
  shows "let ob = snd (Observe s (Some k)) in
           ob_Descriptor ob = catalog_Descriptor c (Some k) \<and>
           ob_State ob = (if catalog_Descriptor c (Some k) = None then WatchObservationStateCatalogMiss
                          else if here = {} then WatchObservationStateInactive
                          else WatchObservationStateActive) \<and>
           set (ob_Sources ob) = (if catalog_Descriptor c (Some k) = None then {} else here) \<and>
           sorted_wrt source_less (ob_Sources ob)"
proof -
  have here: "here = set (active_sources s (Canonical k))"
    by (simp add: rel activation_relation_def)
  have "distinct (active_sources s (Canonical k))"
    using assms(1) by (auto simp: activation_ok_def well_kept_def active_sources_def split: option.splits)
  then have "sorted_wrt source_less (sortedWatchActivationSources (active_sources s (Canonical k)))"
    by (rule sorted_sources)
  moreover have "as_catalog s = c" using assms(1) by (simp add: activation_ok_def)
  ultimately show ?thesis
    by (auto simp: Observe_def here catalog_Descriptor_def catalog_miss_def Let_def split: option.splits)
qed

lemma example_valid:
  "validateWatchDescriptor (example_descriptors ! 0) = None"
  "validateWatchDescriptor (example_descriptors ! 1) = None"
  by code_simp+

lemma example_canonical:
  "CanonicalKey (example_descriptors ! 0) = ''b524:15:02:01:00:0007''"
  "CanonicalKey (example_descriptors ! 1) = ''b509:08:1234''"
  by code_simp+

section \<open>Properties\<close>

text \<open>
  The canonical text identifies a watch key: two built-in keys, of whatever family and with
  whatever selectors, have the same canonical text exactly when they are the same key.
\<close>

theorem watch_canonical_identifies:
  "Canonical (KeyValue k) = Canonical (KeyValue k') \<longleftrightarrow> k = k'"
  by simp

text \<open>
  C33. Building the catalogue is exact. It succeeds exactly when every descriptor is valid and no
  two have the same canonical key; then a lookup finds a descriptor exactly when it is one of
  those given and has this key, the ordered list is a permutation of the given descriptors
  strictly ascending by canonical key, and every stored descriptor has an effective time to live
  between zero and the default of its profile. Otherwise the error is that of the first
  descriptor that is invalid or repeats the key of an earlier one.
\<close>

theorem watch_catalog_exact:
  "case NewWatchCatalog ds of
     Inr c \<Rightarrow> accepted ds \<and>
       (\<forall>k d. catalog_Descriptor c (Some (KeyValue k)) = Some d \<longleftrightarrow>
              d \<in> by_value ` set ds \<and> wd_Key d = Some (KeyValue k)) \<and>
       mset (Descriptors c) = mset (map by_value ds) \<and>
       sorted_wrt (<) (map CanonicalKey (Descriptors c)) \<and>
       (\<forall>d \<in> set (Descriptors c). \<exists>t t0. EffectiveFreshnessTTL d = Inr t \<and>
          watchFreshnessProfileDefaults (wd_FreshnessProfile d) = Some t0 \<and> 0 \<le> t \<and> t \<le> t0)
   | Inl e \<Rightarrow> \<exists>i < length ds. accepted (take i ds) \<and>
       (validateWatchDescriptor (ds ! i) = Some e \<or>
        e = DuplicateDescriptor (CanonicalKey (ds ! i)) \<and>
          CanonicalKey (ds ! i) \<in> CanonicalKey ` set (take i ds))"
proof (cases "catalog_add_all empty_catalog ds")
  case (Inl e)
  with catalog_add_all_spec[OF holds_empty, of ds] show ?thesis by (simp add: NewWatchCatalog_def)
next
  case (Inr c)
  with catalog_add_all_spec[OF holds_empty, of ds] have holds: "holds c ds" by simp
  then have acc: "accepted ds" and ordered: "cat_ordered c = map by_value ds"
    by (simp_all add: holds_def)
  have "\<forall>d \<in> set (map by_value ds). validateWatchDescriptor d = None"
    using acc by (auto simp: accepted_def list_all_iff)
  moreover have "distinct (map CanonicalKey (map by_value ds))"
    using acc by (simp add: accepted_def o_def)
  ultimately show ?thesis
    using acc holds_lookup[OF holds] sorted_strict[of CanonicalKey "map by_value ds"] valid_ttl_bounds
    by (simp add: NewWatchCatalog_def Inr ordered catalog_Descriptor_def DescriptorByCanonical_def Descriptors_def)
qed

theorem watch_catalog_exact_witness:
  "\<exists>c. NewWatchCatalog example_descriptors = Inr c \<and> length (Descriptors c) = 2 \<and>
       sorted_wrt (<) (map CanonicalKey (Descriptors c)) \<and>
       catalog_Descriptor c (Some (NewB509WatchKey 8 0x1234)) = Some (by_value (example_descriptors ! 1))"
proof -
  have key: "wd_Key (by_value (example_descriptors ! 1)) = Some (NewB509WatchKey 8 0x1234)"
    and two: "length example_descriptors = 2"
    by (simp_all add: example_descriptors_def example_descriptor_def by_value_def NewB509WatchKey_def)
  show ?thesis
  proof (cases "NewWatchCatalog example_descriptors")
    case (Inl e)
    with watch_catalog_exact[of example_descriptors] obtain i where "i < 2"
      "validateWatchDescriptor (example_descriptors ! i) = Some e \<or>
       CanonicalKey (example_descriptors ! i) \<in> CanonicalKey ` set (take i example_descriptors)"
      by (auto simp: two)
    moreover have "i = 0 \<or> i = 1" using \<open>i < 2\<close> by linarith
    ultimately show ?thesis
      using example_valid example_canonical by (auto simp: example_descriptors_def)
  next
    case (Inr c)
    have "by_value (example_descriptors ! 1) \<in> by_value ` set example_descriptors"
      by (simp add: two)
    with Inr watch_catalog_exact[of example_descriptors] key
    have "catalog_Descriptor c (Some (NewB509WatchKey 8 0x1234)) = Some (by_value (example_descriptors ! 1))"
      by (simp add: NewB509WatchKey_def)
    moreover have "length (Descriptors c) = 2"
      using Inr watch_catalog_exact[of example_descriptors] two
      by (metis (mono_tags, lifting) length_map size_mset sum.simps(6))
    ultimately show ?thesis using Inr watch_catalog_exact[of example_descriptors] by simp
  qed
qed

text \<open>
  C36. The activation set implements a relation between canonical keys and sources. Under every
  sequence of calls the relation it holds is the one of the abstract operations, where a batch
  with an unknown or missing key or without a source changes nothing and is refused, and
  an observation reports the descriptor of the catalogue, whether some source keeps the key
  active, and exactly the sources that do, each once and in the fixed order.
\<close>

theorem activation_set_implements_relation:
  "let s = foldl activation_step (NewWatchActivationSet (Some c)) ops;
       R = foldl (relation_step c) {} ops;
       here = {src. (Canonical k, src) \<in> R};
       ob = snd (Observe s (Some k)) in
   activation_relation s = R \<and>
   (snd (Activate s src keys) = None \<longleftrightarrow> src \<noteq> '''' \<and> list_all (known_key c) keys) \<and>
   ob_Descriptor ob = catalog_Descriptor c (Some k) \<and>
   ob_State ob = (if catalog_Descriptor c (Some k) = None then WatchObservationStateCatalogMiss
                  else if here = {} then WatchObservationStateInactive
                  else WatchObservationStateActive) \<and>
   set (ob_Sources ob) = (if catalog_Descriptor c (Some k) = None then {} else here) \<and>
   sorted_wrt source_less (ob_Sources ob)"
proof -
  let ?s = "foldl activation_step (NewWatchActivationSet (Some c)) ops"
  have ok: "activation_ok c ?s" by (rule watch_activation.run_keeps) simp
  have "activation_relation (NewWatchActivationSet (Some c)) = {}"
    by (simp add: activation_relation_def active_sources_def NewWatchActivationSet_def)
  then have rel: "activation_relation ?s = foldl (relation_step c) {} ops"
    using activation_run_simulates[OF activation_ok_new, of c ops] by simp
  have "as_catalog ?s = c" using ok by (simp add: activation_ok_def)
  with observe_spec[OF ok refl, of k] rel activate_result[of ?s src keys] show ?thesis
    by (simp add: Let_def)
qed

end
