(* ===== verification/Observe_First.thy ===== *)
theory Observe_First
  imports Watch_Catalog
begin

text \<open>
  The observe-first rules: the feature flags of \<^verbatim>\<open>src/observe_first_flags.go\<close> and their
  normalisation, and the policy a request gets from its family, intent and response,
  \<^verbatim>\<open>src/observe_first_family_policy.go\<close>.

  Flag texts come from configuration files; trimming and lower-casing are modelled for ASCII
  text. The enumerations below are only ever assigned their constants, so they are datatypes;
  the policy of external writes is a string, because it is read from a caller's view.
\<close>

section \<open>Feature flags\<close>

definition ObserveFirstExternalWritePolicyInvalidateOnly :: string where
  [simp]: "ObserveFirstExternalWritePolicyInvalidateOnly = ''invalidate_only''"
definition ObserveFirstExternalWritePolicyRecordOnly :: string where
  [simp]: "ObserveFirstExternalWritePolicyRecordOnly = ''record_only''"
definition ObserveFirstExternalWritePolicyRecordAndInvalidate :: string where
  [simp]: "ObserveFirstExternalWritePolicyRecordAndInvalidate = ''record_and_invalidate''"

datatype ObserveFirstFeatureFlagNormalizationReason = MasterOffClamp | ConfigRequiresState | ConfigRequiresInvalidation

record ObserveFirstFeatureFlags =
  observeFirstEnabled :: bool
  passiveStateDirectApply :: bool
  passiveConfigDirectApply :: bool
  externalWritePolicy :: string
  normalizationReasons :: "ObserveFirstFeatureFlagNormalizationReason list"

definition ascii_lower :: "char \<Rightarrow> char" where
  "ascii_lower c = (if 65 \<le> (of_char c :: nat) \<and> (of_char c :: nat) \<le> 90 then char_of ((of_char c :: nat) + 32) else c)"

definition ascii_space :: "char \<Rightarrow> bool" where
  "ascii_space c \<longleftrightarrow> (of_char c :: nat) \<in> {9, 10, 11, 12, 13, 32}"

definition trim_space :: "string \<Rightarrow> string" where
  "trim_space s = rev (dropWhile ascii_space (rev (dropWhile ascii_space s)))"

definition normalizeObserveFirstExternalWritePolicy :: "string \<Rightarrow> string" where
  "normalizeObserveFirstExternalWritePolicy p =
     (let v = map (\<lambda>c. if c = CHR ''-'' then CHR ''_'' else c) (trim_space (map ascii_lower p)) in
      if v = ObserveFirstExternalWritePolicyInvalidateOnly \<or> v = ObserveFirstExternalWritePolicyRecordOnly \<or>
         v = ObserveFirstExternalWritePolicyRecordAndInvalidate
      then v else '''')"

definition ParseObserveFirstExternalWritePolicy :: "string \<Rightarrow> string + string" where
  "ParseObserveFirstExternalWritePolicy v =
     (let policy = normalizeObserveFirstExternalWritePolicy v in
      if policy = '''' then Inl v else Inr policy)"

text \<open>
  The reasons are collected in a set and listed in the order of the constants, which is the order
  in which the rules run, so appending them gives the same list.
\<close>

definition NormalizeObserveFirstFeatureFlags :: "bool \<Rightarrow> bool \<Rightarrow> bool \<Rightarrow> string \<Rightarrow> ObserveFirstFeatureFlags" where
  "NormalizeObserveFirstFeatureFlags enabled stateDirect configDirect policy =
     (let p0 = normalizeObserveFirstExternalWritePolicy policy;
          p1 = (if p0 = '''' then ObserveFirstExternalWritePolicyRecordOnly else p0);
          clamp = (\<not> enabled \<and> (stateDirect \<or> configDirect \<or> p1 \<noteq> ObserveFirstExternalWritePolicyRecordOnly));
          state1 = (if enabled then stateDirect else False);
          config1 = (if enabled then configDirect else False);
          p2 = (if enabled then p1 else ObserveFirstExternalWritePolicyRecordOnly);
          noState = (\<not> state1 \<and> config1);
          config2 = (if state1 then config1 else False);
          widen = (config2 \<and> p2 = ObserveFirstExternalWritePolicyRecordOnly);
          p3 = (if widen then ObserveFirstExternalWritePolicyRecordAndInvalidate else p2) in
      \<lparr> observeFirstEnabled = enabled, passiveStateDirectApply = state1, passiveConfigDirectApply = config2,
        externalWritePolicy = p3,
        normalizationReasons = (if clamp then [MasterOffClamp] else []) @
          (if noState then [ConfigRequiresState] else []) @
          (if widen then [ConfigRequiresInvalidation] else []) \<rparr>)"

definition DefaultObserveFirstFeatureFlags :: ObserveFirstFeatureFlags where
  "DefaultObserveFirstFeatureFlags =
     NormalizeObserveFirstFeatureFlags False False False ObserveFirstExternalWritePolicyRecordOnly"

text \<open>A view is what its four methods return, absent for the nil interface.\<close>

definition NormalizeObserveFirstFeatureFlagsFromView ::
  "ObserveFirstFeatureFlags option \<Rightarrow> ObserveFirstFeatureFlags" where
  "NormalizeObserveFirstFeatureFlagsFromView view =
     (case view of
        None \<Rightarrow> DefaultObserveFirstFeatureFlags
      | Some v \<Rightarrow> NormalizeObserveFirstFeatureFlags (observeFirstEnabled v) (passiveStateDirectApply v)
                   (passiveConfigDirectApply v) (externalWritePolicy v))"

section \<open>Families, intents and response classes\<close>

datatype ObserveFirstFamily =
  ObserveFirstFamilyOther | ObserveFirstFamilyB509 | ObserveFirstFamilyB516 |
  ObserveFirstFamilyB524 | ObserveFirstFamilyB555

datatype ObserveFirstTrafficScope = ObserveFirstTrafficScopeActive | ObserveFirstTrafficScopePassive

datatype ObserveFirstRequestIntent =
  ObserveFirstRequestIntentUnknown | ObserveFirstRequestIntentRead |
  ObserveFirstRequestIntentWrite | ObserveFirstRequestIntentBroadcast

datatype ObserveFirstDirectApplyPolicy =
  ObserveFirstDirectApplyPolicyNever | ObserveFirstDirectApplyPolicyStateDefault |
  ObserveFirstDirectApplyPolicyConfigOptIn | ObserveFirstDirectApplyPolicyEnergyMergeOnly

datatype DedupOutcomeClass =
  DedupOutcomeSuccess | DedupOutcomeNACK | DedupOutcomeTimeout | DedupOutcomeCollision |
  DedupOutcomeTransportReset | DedupOutcomeDecodeReset | DedupOutcomeAbandoned

datatype DedupResponseClass =
  DedupResponseValueBearing | DedupResponseACKOnly | DedupResponseHeaderOnly | DedupResponseErrorOrAmbiguous

text \<open>\<^verbatim>\<open>EffectiveExternalWritePolicy\<close> is the empty text until it is set.\<close>

record ObserveFirstFamilyPolicy =
  fp_Family :: ObserveFirstFamily
  fp_RequestIntent :: ObserveFirstRequestIntent
  fp_ResponseClass :: DedupResponseClass
  fp_CorrelationPolicy :: string
  fp_DirectApplyPolicy :: ObserveFirstDirectApplyPolicy
  fp_UsesRuntimeExternalWritePolicy :: bool
  fp_EffectiveExternalWritePolicy :: string

definition observeFirstFamilyFromFrame :: "Frame \<Rightarrow> ObserveFirstFamily" where
  "observeFirstFamilyFromFrame f =
     (if Primary f \<noteq> 0xB5 then ObserveFirstFamilyOther
      else if Secondary f = 0x09 then ObserveFirstFamilyB509
      else if Secondary f = 0x16 then ObserveFirstFamilyB516
      else if Secondary f = 0x24 then ObserveFirstFamilyB524
      else if Secondary f = 0x55 then ObserveFirstFamilyB555
      else ObserveFirstFamilyOther)"

definition observeFirstRequestIntentFromFrame :: "Frame \<Rightarrow> ObserveFirstRequestIntent" where
  "observeFirstRequestIntentFromFrame f =
     (case observeFirstFamilyFromFrame f of
        ObserveFirstFamilyB509 \<Rightarrow>
          (if Data f = [] then ObserveFirstRequestIntentUnknown
           else if Data f ! 0 = 0x0D \<or> Data f ! 0 = 0x29 then ObserveFirstRequestIntentRead
           else if Data f ! 0 = 0x0E then ObserveFirstRequestIntentWrite
           else ObserveFirstRequestIntentUnknown)
      | ObserveFirstFamilyB516 \<Rightarrow> ObserveFirstRequestIntentBroadcast
      | ObserveFirstFamilyB524 \<Rightarrow>
          (if Data f = [] then ObserveFirstRequestIntentUnknown
           else if Data f ! 0 = 0x02 \<or> Data f ! 0 = 0x06 then
             (if length (Data f) \<ge> 2 \<and> Data f ! 1 = 0 then ObserveFirstRequestIntentRead
              else if length (Data f) \<ge> 2 then ObserveFirstRequestIntentWrite
              else ObserveFirstRequestIntentUnknown)
           else if Data f ! 0 = 0x03 then ObserveFirstRequestIntentRead
           else ObserveFirstRequestIntentUnknown)
      | ObserveFirstFamilyB555 \<Rightarrow>
          (if Data f = [] then ObserveFirstRequestIntentUnknown
           else if Data f ! 0 = 0xA3 \<or> Data f ! 0 = 0xA4 \<or> Data f ! 0 = 0xA5 then ObserveFirstRequestIntentRead
           else if Data f ! 0 = 0xA6 then ObserveFirstRequestIntentWrite
           else ObserveFirstRequestIntentUnknown)
      | ObserveFirstFamilyOther \<Rightarrow> ObserveFirstRequestIntentUnknown)"

definition observeFirstGenericResponseClass :: "byte list \<Rightarrow> DedupResponseClass" where
  "observeFirstGenericResponseClass payload =
     (if payload = [] then DedupResponseHeaderOnly else DedupResponseValueBearing)"

definition observeFirstExpectedB509Address :: "Frame \<Rightarrow> uint16 option" where
  "observeFirstExpectedB509Address f =
     (if length (Data f) < 3 then None
      else if Data f ! 0 = 0x0D \<or> Data f ! 0 = 0x29 \<or> Data f ! 0 = 0x0E
        then Some (be16 (Data f ! 1) (Data f ! 2))
      else None)"

text \<open>The selector: opcode, group, instance and register address.\<close>

definition observeFirstExpectedB524ReadSelector :: "Frame \<Rightarrow> (byte \<times> byte \<times> byte \<times> uint16) option" where
  "observeFirstExpectedB524ReadSelector f =
     (if length (Data f) < 6 then None
      else if Data f ! 0 \<noteq> 0x02 \<and> Data f ! 0 \<noteq> 0x06 then None
      else if Data f ! 1 \<noteq> 0 then None
      else Some (Data f ! 0, Data f ! 2, Data f ! 3, le16 (Data f ! 4) (Data f ! 5)))"

definition observeFirstIsB524TimerRead :: "Frame \<Rightarrow> bool" where
  "observeFirstIsB524TimerRead f \<longleftrightarrow> Data f \<noteq> [] \<and> Data f ! 0 = 0x03"

definition observeFirstMatchesB524ReplyInstance :: "byte \<Rightarrow> byte \<Rightarrow> bool" where
  "observeFirstMatchesB524ReplyInstance replyInstance requestedInstance \<longleftrightarrow>
     replyInstance = requestedInstance \<or>
     requestedInstance < 0xFF \<and> replyInstance = requestedInstance + 1"

definition observeFirstB509ResponseClass :: "Frame \<Rightarrow> ObserveFirstRequestIntent \<Rightarrow> byte list \<Rightarrow> DedupResponseClass" where
  "observeFirstB509ResponseClass req intent payload =
     (if payload = [] then DedupResponseHeaderOnly
      else if intent = ObserveFirstRequestIntentWrite then DedupResponseHeaderOnly
      else if intent \<noteq> ObserveFirstRequestIntentRead then observeFirstGenericResponseClass payload
      else case observeFirstExpectedB509Address req of
             None \<Rightarrow> observeFirstGenericResponseClass payload
           | Some addr \<Rightarrow>
               (let addrHi = ucast (drop_bit 8 addr) :: byte; addrLo = ucast addr :: byte in
                if length payload \<ge> 3 \<and> (payload ! 0 = 0x0D \<or> payload ! 0 = 0x29) \<and>
                   payload ! 1 = addrHi \<and> payload ! 2 = addrLo
                then (if length payload = 3 then DedupResponseHeaderOnly else DedupResponseValueBearing)
                else if length payload \<ge> 2 \<and> payload ! 0 = addrHi \<and> payload ! 1 = addrLo
                then (if length payload = 2 then DedupResponseHeaderOnly else DedupResponseValueBearing)
                else observeFirstGenericResponseClass payload))"

definition observeFirstB524ResponseClass :: "Frame \<Rightarrow> ObserveFirstRequestIntent \<Rightarrow> byte list \<Rightarrow> DedupResponseClass" where
  "observeFirstB524ResponseClass req intent payload =
     (if payload = [] then DedupResponseHeaderOnly
      else if intent \<noteq> ObserveFirstRequestIntentRead then
        (if intent = ObserveFirstRequestIntentWrite then DedupResponseHeaderOnly
         else observeFirstGenericResponseClass payload)
      else if observeFirstIsB524TimerRead req then observeFirstGenericResponseClass payload
      else case observeFirstExpectedB524ReadSelector req of
             None \<Rightarrow> observeFirstGenericResponseClass payload
           | Some (oc, grp, instance_no, addr) \<Rightarrow>
               (if length payload = 1 \<and> payload ! 0 = 0 then DedupResponseErrorOrAmbiguous
                else if length payload < 4 then DedupResponseErrorOrAmbiguous
                else if length payload \<ge> 5 \<and> payload ! 2 = grp \<and> le16 (payload ! 3) (payload ! 4) = addr then
                  (if \<not> observeFirstMatchesB524ReplyInstance (payload ! 1) instance_no
                   then DedupResponseErrorOrAmbiguous
                   else if length payload = 5 then DedupResponseHeaderOnly
                   else DedupResponseValueBearing)
                else if payload ! 1 \<noteq> grp \<or> le16 (payload ! 2) (payload ! 3) \<noteq> addr
                  then DedupResponseErrorOrAmbiguous
                else if length payload = 4 then DedupResponseHeaderOnly
                else DedupResponseValueBearing))"

definition observeFirstResponseClass ::
  "Frame \<Rightarrow> FrameType \<Rightarrow> DedupOutcomeClass \<Rightarrow> Frame \<Rightarrow> bool \<Rightarrow> DedupResponseClass" where
  "observeFirstResponseClass req ft outc resp hasResponse =
     (if outc \<noteq> DedupOutcomeSuccess then DedupResponseErrorOrAmbiguous
      else if \<not> hasResponse then
        (if ft = FrameTypeInitiatorInitiator then DedupResponseACKOnly else DedupResponseErrorOrAmbiguous)
      else (let intent = observeFirstRequestIntentFromFrame req in
            case observeFirstFamilyFromFrame req of
              ObserveFirstFamilyB509 \<Rightarrow> observeFirstB509ResponseClass req intent (Data resp)
            | ObserveFirstFamilyB524 \<Rightarrow> observeFirstB524ResponseClass req intent (Data resp)
            | _ \<Rightarrow> observeFirstGenericResponseClass (Data resp)))"

section \<open>The policy of a request\<close>

definition observeFirstMatchesActiveStateDefaultDescriptor :: "WatchKey option \<Rightarrow> WatchObservation \<Rightarrow> bool" where
  "observeFirstMatchesActiveStateDefaultDescriptor key ob =
     (case key of
        None \<Rightarrow> False
      | Some k \<Rightarrow>
          (case ob_Descriptor ob of
             None \<Rightarrow> False
           | Some descriptor \<Rightarrow>
               (if ob_State ob \<noteq> WatchObservationStateActive then False
                else case wd_Key descriptor of
                       None \<Rightarrow> False
                     | Some dk \<Rightarrow>
                         (if Canonical dk \<noteq> Canonical k then False
                          else if wd_SemanticClass descriptor \<noteq> WatchSemanticClassState then False
                          else if wd_CorrelationPolicy descriptor \<noteq> WatchCorrelationPolicyRequestResponse then False
                          else wd_DirectApplyPolicy descriptor = WatchDirectApplyPolicyStateDefault))))"

definition observeFirstB524CorrelatedStateRead :: "Frame \<Rightarrow> WatchObservation \<Rightarrow> bool" where
  "observeFirstB524CorrelatedStateRead f ob =
     (case observeFirstExpectedB524ReadSelector f of
        None \<Rightarrow> False
      | Some (oc, grp, instance_no, addr) \<Rightarrow>
          observeFirstMatchesActiveStateDefaultDescriptor
            (Some (NewB524WatchKey (Target f) oc grp instance_no addr)) ob)"

definition observeFirstB509CorrelatedStateRead :: "Frame \<Rightarrow> WatchObservation \<Rightarrow> bool" where
  "observeFirstB509CorrelatedStateRead f ob =
     (case observeFirstExpectedB509Address f of
        None \<Rightarrow> False
      | Some addr \<Rightarrow>
          observeFirstRequestIntentFromFrame f = ObserveFirstRequestIntentRead \<and>
          observeFirstMatchesActiveStateDefaultDescriptor (Some (NewB509WatchKey (Target f) addr)) ob)"

definition family_base_policy ::
  "ObserveFirstTrafficScope \<Rightarrow> Frame \<Rightarrow> DedupResponseClass \<Rightarrow> ObserveFirstFeatureFlags option \<Rightarrow> ObserveFirstFamilyPolicy" where
  "family_base_policy scope req responseClass flags =
     (let write = (scope = ObserveFirstTrafficScopePassive \<and>
                   observeFirstRequestIntentFromFrame req = ObserveFirstRequestIntentWrite) in
      \<lparr> fp_Family = observeFirstFamilyFromFrame req,
        fp_RequestIntent = observeFirstRequestIntentFromFrame req,
        fp_ResponseClass = responseClass,
        fp_CorrelationPolicy = WatchCorrelationPolicyRecordOnly,
        fp_DirectApplyPolicy = ObserveFirstDirectApplyPolicyNever,
        fp_UsesRuntimeExternalWritePolicy = write,
        fp_EffectiveExternalWritePolicy =
          (if write then externalWritePolicy (NormalizeObserveFirstFeatureFlagsFromView flags) else '''') \<rparr>)"

definition observeFirstFamilyPolicy ::
  "ObserveFirstTrafficScope \<Rightarrow> Frame \<Rightarrow> DedupResponseClass \<Rightarrow> WatchObservation \<Rightarrow>
   ObserveFirstFeatureFlags option \<Rightarrow> ObserveFirstFamilyPolicy" where
  "observeFirstFamilyPolicy scope req responseClass ob flags =
     (let policy = family_base_policy scope req responseClass flags in
      case observeFirstFamilyFromFrame req of
        ObserveFirstFamilyB516 \<Rightarrow>
          policy\<lparr> fp_CorrelationPolicy := WatchCorrelationPolicyBroadcastSelector,
                 fp_DirectApplyPolicy := (if responseClass = DedupResponseValueBearing
                   then ObserveFirstDirectApplyPolicyEnergyMergeOnly else ObserveFirstDirectApplyPolicyNever) \<rparr>
      | ObserveFirstFamilyB524 \<Rightarrow>
          policy\<lparr> fp_CorrelationPolicy := WatchCorrelationPolicyRequestResponse,
                 fp_DirectApplyPolicy := (if observeFirstB524CorrelatedStateRead req ob \<and>
                                             responseClass = DedupResponseValueBearing
                   then ObserveFirstDirectApplyPolicyStateDefault else ObserveFirstDirectApplyPolicyNever) \<rparr>
      | ObserveFirstFamilyB509 \<Rightarrow>
          policy\<lparr> fp_CorrelationPolicy := WatchCorrelationPolicyRequestResponse,
                 fp_DirectApplyPolicy := (if observeFirstB509CorrelatedStateRead req ob \<and>
                                             responseClass = DedupResponseValueBearing
                   then ObserveFirstDirectApplyPolicyStateDefault else ObserveFirstDirectApplyPolicyNever) \<rparr>
      | ObserveFirstFamilyB555 \<Rightarrow>
          policy\<lparr> fp_CorrelationPolicy := WatchCorrelationPolicyRecordInvalidate \<rparr>
      | ObserveFirstFamilyOther \<Rightarrow>
          (if scope = ObserveFirstTrafficScopePassive \<and>
              observeFirstRequestIntentFromFrame req = ObserveFirstRequestIntentBroadcast
           then policy\<lparr> fp_CorrelationPolicy := WatchCorrelationPolicyBroadcastSelector \<rparr>
           else policy))"

section \<open>Lemmas\<close>

text \<open>Normalised flags respect their dependencies, and normalising them again changes nothing.\<close>

lemma normalized_flags_consistent:
  "let f = NormalizeObserveFirstFeatureFlagsFromView view in
     (passiveConfigDirectApply f \<longrightarrow> passiveStateDirectApply f) \<and>
     (passiveStateDirectApply f \<longrightarrow> observeFirstEnabled f) \<and>
     (passiveConfigDirectApply f \<longrightarrow> externalWritePolicy f \<noteq> ObserveFirstExternalWritePolicyRecordOnly) \<and>
     (externalWritePolicy f \<noteq> ObserveFirstExternalWritePolicyRecordOnly \<longrightarrow> observeFirstEnabled f)"
  by (auto simp: NormalizeObserveFirstFeatureFlagsFromView_def NormalizeObserveFirstFeatureFlags_def
      DefaultObserveFirstFeatureFlags_def Let_def split: option.splits)

lemma policy_write_fields:
  "fp_UsesRuntimeExternalWritePolicy (observeFirstFamilyPolicy scope req rc ob flags) \<longleftrightarrow>
     scope = ObserveFirstTrafficScopePassive \<and> observeFirstRequestIntentFromFrame req = ObserveFirstRequestIntentWrite"
  "fp_EffectiveExternalWritePolicy (observeFirstFamilyPolicy scope req rc ob flags) =
     (if scope = ObserveFirstTrafficScopePassive \<and>
         observeFirstRequestIntentFromFrame req = ObserveFirstRequestIntentWrite
      then externalWritePolicy (NormalizeObserveFirstFeatureFlagsFromView flags) else '''')"
  by (simp_all add: observeFirstFamilyPolicy_def family_base_policy_def Let_def split: ObserveFirstFamily.splits)

lemma matches_descriptor_active:
  "observeFirstMatchesActiveStateDefaultDescriptor key ob \<Longrightarrow> ob_State ob = WatchObservationStateActive"
  by (cases "ob_State ob = WatchObservationStateActive"; cases key; cases "ob_Descriptor ob")
     (simp_all add: observeFirstMatchesActiveStateDefaultDescriptor_def)

lemma correlated_read_active:
  "observeFirstB524CorrelatedStateRead f ob \<Longrightarrow> ob_State ob = WatchObservationStateActive"
  "observeFirstB509CorrelatedStateRead f ob \<Longrightarrow> ob_State ob = WatchObservationStateActive"
  by (auto simp: observeFirstB524CorrelatedStateRead_def observeFirstB509CorrelatedStateRead_def
      dest: matches_descriptor_active split: option.splits)

lemma policy_state_default:
  assumes "fp_DirectApplyPolicy (observeFirstFamilyPolicy scope req rc ob flags) =
             ObserveFirstDirectApplyPolicyStateDefault"
  shows "ob_State ob = WatchObservationStateActive \<and> rc = DedupResponseValueBearing"
  using assms
  by (cases "observeFirstFamilyFromFrame req")
     (auto simp: observeFirstFamilyPolicy_def family_base_policy_def Let_def
       dest: correlated_read_active split: if_splits)

end
