(* ===== verification/Dedup.thy ===== *)
theory Dedup
  imports Observe_First "HOL-Library.AList"
begin

text \<open>
  The active/passive deduplicator, \<^verbatim>\<open>src/active_passive_deduplicator.go\<close>, with the defaults of
  \<^verbatim>\<open>src/config.go\<close>: it decides for every transaction the passive reconstructor reports whether it
  is the passive copy of one the gateway sent itself, traffic of a third party, or something that
  may only be shown.

  Every method that holds the mutex is one function from state to state and outputs; the observer
  the configuration may carry is an argument of the two handlers, so that its answers may change
  between calls. The checksum and the digest are parameters: \<open>dc_CRC\<close> is
  \<^verbatim>\<open>protocol.CRC\<close> of \<^verbatim>\<open>helianthus-ebusgo\<close>, \<open>dc_Sum256\<close> is \<^verbatim>\<open>sha256.Sum256\<close>, of which the code only
  compares results; the theorems hold for every digest, and name it where it must not collide.
  \<^verbatim>\<open>protocol.BusEvent\<close> and \<^verbatim>\<open>protocol.BusRetryEnvelope\<close> are records of the fields the code reads.
  The active map is an association list with distinct keys; the order of a Go map is not
  observable in what the code computes from it. Times are nanoseconds, 0 is Go's zero time.
\<close>

section \<open>Timing budgets\<close>

definition millisecond :: int where "millisecond = 1000000"

definition dedupAttemptBudgetUnit :: int where "dedupAttemptBudgetUnit = 250 * millisecond"
definition dedupCollisionResyncBudgetUnit :: int where "dedupCollisionResyncBudgetUnit = 125 * millisecond"
definition dedupPublicationSlack :: int where "dedupPublicationSlack = 250 * millisecond"
definition dedupPendingMatchSlack :: int where "dedupPendingMatchSlack = 250 * millisecond"
definition defaultDedupPassiveDeliveryBudget :: int where "defaultDedupPassiveDeliveryBudget = 500 * millisecond"
definition defaultDedupPendingCapacity :: int where "defaultDedupPendingCapacity = 256"
definition dedupRecoveryHealthyWindow :: int where "dedupRecoveryHealthyWindow = 5 * second"
definition dedupRecoveryMinimumEvents :: int where "dedupRecoveryMinimumEvents = 10"

lemmas dedup_budget_defs = millisecond_def second_def dedupAttemptBudgetUnit_def
  dedupCollisionResyncBudgetUnit_def dedupPublicationSlack_def dedupPendingMatchSlack_def
  defaultDedupPassiveDeliveryBudget_def defaultDedupPendingCapacity_def
  dedupRecoveryHealthyWindow_def dedupRecoveryMinimumEvents_def

record retry_policy =
  TimeoutRetries :: int
  NACKRetries :: int

record BusRetryEnvelope =
  InitiatorTarget :: retry_policy
  InitiatorInitiator :: retry_policy
  CollisionResyncSYNCount :: int

record dedupTimingBudgets =
  LogicalRequestEnvelope :: int
  ActivePublishBudget :: int
  PassiveDeliveryBudget :: int
  PendingGraceTimeout :: int
  ActiveFingerprintRetention :: int
  PendingCapacity :: int
  RecoveryHysteresis :: int
  RecoveryEventThreshold :: int

text \<open>Arithmetic on \<^verbatim>\<open>int\<close> and \<^verbatim>\<open>time.Duration\<close> wraps at 64 bits.\<close>

definition wrap64 :: "int \<Rightarrow> int" where
  "wrap64 x = (x + 2 ^ 63) mod 2 ^ 64 - 2 ^ 63"

definition maxDuration :: "int \<Rightarrow> int \<Rightarrow> int" where
  "maxDuration left right = (if left \<ge> right then left else right)"

definition maxInt :: "int \<Rightarrow> int \<Rightarrow> int" where
  "maxInt left right = (if left \<ge> right then left else right)"

definition logicalRequestRetryEnvelope :: "BusRetryEnvelope \<Rightarrow> int" where
  "logicalRequestRetryEnvelope env =
     (let policy = (if wrap64 (TimeoutRetries (InitiatorInitiator env) + NACKRetries (InitiatorInitiator env)) >
                       wrap64 (TimeoutRetries (InitiatorTarget env) + NACKRetries (InitiatorTarget env))
                    then InitiatorInitiator env else InitiatorTarget env);
          timeoutRetries = maxInt (TimeoutRetries policy) 0;
          nackRetries = maxInt (NACKRetries policy) 0;
          collisionResync = maxInt (CollisionResyncSYNCount env) 0 in
      wrap64 (wrap64 (wrap64 (1 + timeoutRetries + nackRetries) * dedupAttemptBudgetUnit) +
              wrap64 (collisionResync * dedupCollisionResyncBudgetUnit)))"

datatype dedup_error = RetryEnvelopeInvalid | BudgetsBelowMinimum dedupTimingBudgets dedupTimingBudgets

definition deriveDedupTimingBudgets :: "BusRetryEnvelope \<Rightarrow> dedup_error + dedupTimingBudgets" where
  "deriveDedupTimingBudgets env =
     (let logicalEnvelope = logicalRequestRetryEnvelope env in
      if logicalEnvelope \<le> 0 then Inl RetryEnvelopeInvalid
      else (let activePublish = wrap64 (logicalEnvelope + dedupPublicationSlack);
                pendingGrace = wrap64 (maxDuration activePublish defaultDedupPassiveDeliveryBudget +
                                       dedupPendingMatchSlack) in
            Inr \<lparr> LogicalRequestEnvelope = logicalEnvelope,
                  ActivePublishBudget = activePublish,
                  PassiveDeliveryBudget = defaultDedupPassiveDeliveryBudget,
                  PendingGraceTimeout = pendingGrace,
                  ActiveFingerprintRetention = wrap64 (pendingGrace + defaultDedupPassiveDeliveryBudget),
                  PendingCapacity = defaultDedupPendingCapacity,
                  RecoveryHysteresis = dedupRecoveryHealthyWindow,
                  RecoveryEventThreshold = dedupRecoveryMinimumEvents \<rparr>))"

definition defaultPassiveDedupBudgets :: "BusRetryEnvelope \<Rightarrow> dedupTimingBudgets" where
  "defaultPassiveDedupBudgets env =
     (case deriveDedupTimingBudgets env of
        Inl e \<Rightarrow> \<lparr> LogicalRequestEnvelope = 0, ActivePublishBudget = 0, PassiveDeliveryBudget = 0,
                   PendingGraceTimeout = 0, ActiveFingerprintRetention = 0,
                   PendingCapacity = defaultDedupPendingCapacity,
                   RecoveryHysteresis = dedupRecoveryHealthyWindow,
                   RecoveryEventThreshold = dedupRecoveryMinimumEvents \<rparr>
      | Inr budgets \<Rightarrow> budgets)"

text \<open>The part of \<^verbatim>\<open>applyDefaults\<close> that fills the deduplicator's budgets.\<close>

definition dedup_config_defaults :: "BusRetryEnvelope \<Rightarrow> dedupTimingBudgets \<Rightarrow> dedupTimingBudgets" where
  "dedup_config_defaults env cfg =
     (let defaults = defaultPassiveDedupBudgets env;
          fill = (\<lambda>f. if f cfg \<le> 0 then f defaults else f cfg) in
      cfg\<lparr> ActivePublishBudget := fill ActivePublishBudget,
          PassiveDeliveryBudget := fill PassiveDeliveryBudget,
          PendingGraceTimeout := fill PendingGraceTimeout,
          ActiveFingerprintRetention := fill ActiveFingerprintRetention,
          PendingCapacity := fill PendingCapacity,
          RecoveryHysteresis := fill RecoveryHysteresis,
          RecoveryEventThreshold := fill RecoveryEventThreshold \<rparr>)"

section \<open>Classes, fingerprints and adjudicated events\<close>

datatype DedupTransactionClass =
  DedupTransactionClassInitiatorTarget | DedupTransactionClassInitiatorInitiator |
  DedupTransactionClassBroadcast | DedupTransactionClassLocalParticipantIn |
  DedupTransactionClassAbandonedPartial

text \<open>The last constructor is the empty text the code returns for an event that is match-eligible.\<close>

datatype DedupDisposition =
  DedupDispositionUnmatchedThirdParty | DedupDispositionMatchedActiveCopy |
  DedupDispositionLocalParticipantIn | DedupDispositionObservabilityOnly |
  DedupDispositionDiscontinuity | DedupDispositionNone

text \<open>The constants' texts, which enter the digest.\<close>

primrec class_text :: "DedupTransactionClass \<Rightarrow> string" where
  "class_text DedupTransactionClassInitiatorTarget = ''initiator_target''"
| "class_text DedupTransactionClassInitiatorInitiator = ''initiator_initiator''"
| "class_text DedupTransactionClassBroadcast = ''broadcast''"
| "class_text DedupTransactionClassLocalParticipantIn = ''local_participant_inbound''"
| "class_text DedupTransactionClassAbandonedPartial = ''abandoned_partial''"

primrec outcome_text :: "DedupOutcomeClass \<Rightarrow> string" where
  "outcome_text DedupOutcomeSuccess = ''success''"
| "outcome_text DedupOutcomeNACK = ''nack''"
| "outcome_text DedupOutcomeTimeout = ''timeout''"
| "outcome_text DedupOutcomeCollision = ''collision''"
| "outcome_text DedupOutcomeTransportReset = ''transport_reset''"
| "outcome_text DedupOutcomeDecodeReset = ''decode_reset''"
| "outcome_text DedupOutcomeAbandoned = ''abandoned''"

primrec response_text :: "DedupResponseClass \<Rightarrow> string" where
  "response_text DedupResponseValueBearing = ''value_bearing''"
| "response_text DedupResponseACKOnly = ''ack_only''"
| "response_text DedupResponseHeaderOnly = ''header_only''"
| "response_text DedupResponseErrorOrAmbiguous = ''error_or_ambiguous''"

record LocalAddressSnapshot =
  la_Address :: byte
  la_Known :: bool
  la_Epoch :: uint64

text \<open>
  The two fingerprint structs have the same fields. The policy is absent where the code leaves
  the zero value because there is no request.
\<close>

record ActiveTransactionFingerprint =
  f_Epoch :: uint64
  f_TransactionClass :: DedupTransactionClass
  f_OutcomeClass :: DedupOutcomeClass
  f_ResponseClass :: DedupResponseClass
  f_FamilyPolicy :: "ObserveFirstFamilyPolicy option"
  f_SharedWatchKey :: "WatchKey option"
  f_Source :: byte
  f_Target :: byte
  f_RequestBytes :: "byte list"
  f_ResponseBytes :: "byte list"
  f_Hash :: "byte list"
  f_ObservedAt :: int

type_synonym PassiveTransactionFingerprint = ActiveTransactionFingerprint

text \<open>The fingerprint is absent in the discontinuity events, where the code leaves it zero.\<close>

record AdjudicatedPassiveEvent =
  a_Event :: PassiveClassifiedEvent
  a_Fingerprint :: "PassiveTransactionFingerprint option"
  a_FamilyPolicy :: "ObserveFirstFamilyPolicy option"
  a_Disposition :: DedupDisposition
  a_SuppressShadow :: bool
  a_SuppressWatchEfficiency :: bool
  a_ThirdPartyEligible :: bool
  a_ObservabilityOnly :: bool
  a_LocalParticipantInbound :: bool
  a_MatchedActiveDuplicate :: bool
  a_Epoch :: uint64

record retainedActiveFingerprint =
  ra_Fingerprint :: ActiveTransactionFingerprint
  ra_ExpiresAt :: int
  ra_Count :: int

record pendingPassiveFingerprint =
  pp_Event :: PassiveClassifiedEvent
  pp_Fingerprint :: PassiveTransactionFingerprint
  pp_InsertedAt :: int
  pp_ReleaseAt :: int
  pp_Epoch :: uint64

record recoveryState =
  rs_StartedAt :: int
  rs_PassiveEvidence :: int

definition zero_recovery :: recoveryState where
  "zero_recovery = \<lparr> rs_StartedAt = 0, rs_PassiveEvidence = 0 \<rparr>"

record ActivePassiveDeduplicator =
  budgets :: dedupTimingBudgets
  currentEpoch :: uint64
  degraded :: bool
  recovery_st :: recoveryState
  localAddr :: LocalAddressSnapshot
  active :: "(byte list \<times> retainedActiveFingerprint) list"
  pending :: "pendingPassiveFingerprint list"
  expvarState :: string
  expvarEpoch :: uint64
  epochResetTotal :: uint64
  pendingFlushTotal :: "string \<Rightarrow> uint64"
  adjudicationsTotal :: "DedupDisposition \<Rightarrow> uint64"
  degradedTransitionsTotal :: "string \<Rightarrow> uint64"
  localParticipantInboundTotal :: uint64

type_synonym dedup_result = "ActivePassiveDeduplicator \<times> AdjudicatedPassiveEvent list"

record dedup_cfg =
  dc_CRC :: "byte list \<Rightarrow> byte"
  dc_Sum256 :: "byte list \<Rightarrow> byte list"
  dc_flags :: "ObserveFirstFeatureFlags option"

type_synonym observer = "(WatchKey \<Rightarrow> WatchObservation) option"

datatype BusEventKind = BusEventObserverFault | BusEventAttemptComplete | BusEventOtherKind

record BusEvent =
  be_Kind :: BusEventKind
  be_Success :: bool
  be_HasRequest :: bool
  be_HasResponse :: bool
  be_FrameType :: FrameType
  be_Request :: Frame
  be_Response :: Frame

section \<open>Counters and state changes\<close>

definition count_adjudication :: "DedupDisposition \<Rightarrow> ActivePassiveDeduplicator \<Rightarrow> ActivePassiveDeduplicator" where
  "count_adjudication k d = d\<lparr> adjudicationsTotal := (adjudicationsTotal d)(k := adjudicationsTotal d k + 1) \<rparr>"

definition count_flush :: "string \<Rightarrow> ActivePassiveDeduplicator \<Rightarrow> ActivePassiveDeduplicator" where
  "count_flush r d = d\<lparr> pendingFlushTotal := (pendingFlushTotal d)(r := pendingFlushTotal d r + 1) \<rparr>"

definition updateExpvarsLocked :: "ActivePassiveDeduplicator \<Rightarrow> ActivePassiveDeduplicator" where
  "updateExpvarsLocked d =
     d\<lparr> expvarState := (if degraded d then ''degraded'' else ''healthy''), expvarEpoch := currentEpoch d \<rparr>"

definition enterDegradedLocked :: "string \<Rightarrow> ActivePassiveDeduplicator \<Rightarrow> ActivePassiveDeduplicator" where
  "enterDegradedLocked reason d =
     (let d1 = (if \<not> degraded d
                then d\<lparr> degradedTransitionsTotal :=
                         (degradedTransitionsTotal d)(reason := degradedTransitionsTotal d reason + 1) \<rparr>
                else d) in
      updateExpvarsLocked (d1\<lparr> degraded := True, recovery_st := zero_recovery \<rparr>))"

definition recordRecoveryEvidenceLocked :: "int \<Rightarrow> ActivePassiveDeduplicator \<Rightarrow> ActivePassiveDeduplicator" where
  "recordRecoveryEvidenceLocked now d =
     (if \<not> degraded d then d
      else let started = (if rs_StartedAt (recovery_st d) = 0 then now else rs_StartedAt (recovery_st d));
               evidence = rs_PassiveEvidence (recovery_st d) + 1;
               d1 = d\<lparr> recovery_st := \<lparr> rs_StartedAt = started, rs_PassiveEvidence = evidence \<rparr> \<rparr> in
           if now - started < RecoveryHysteresis (budgets d) then d1
           else if evidence < RecoveryEventThreshold (budgets d) then d1
           else updateExpvarsLocked (d1\<lparr> degraded := False \<rparr>))"

definition pruneActiveLocked :: "int \<Rightarrow> ActivePassiveDeduplicator \<Rightarrow> ActivePassiveDeduplicator" where
  "pruneActiveLocked now d = d\<lparr> active := filter (\<lambda>(h, a). ra_ExpiresAt a > now) (active d) \<rparr>"

definition consumeActiveLocked :: "byte list \<Rightarrow> ActivePassiveDeduplicator \<Rightarrow> ActivePassiveDeduplicator \<times> bool" where
  "consumeActiveLocked h d =
     (case map_of (active d) h of
        None \<Rightarrow> (d, False)
      | Some a \<Rightarrow>
          (if ra_Count a \<le> 0 then (d, False)
           else if ra_Count a = 1 then (d\<lparr> active := AList.delete h (active d) \<rparr>, True)
           else (d\<lparr> active := AList.update h (a\<lparr> ra_Count := ra_Count a - 1 \<rparr>) (active d) \<rparr>, True)))"

definition updateLocalAddressLocked :: "byte \<Rightarrow> ActivePassiveDeduplicator \<Rightarrow> ActivePassiveDeduplicator \<times> bool" where
  "updateLocalAddressLocked address d =
     (if address = 0 then (d, False)
      else if \<not> la_Known (localAddr d)
        then (d\<lparr> localAddr := \<lparr> la_Address = address, la_Known = True, la_Epoch = currentEpoch d \<rparr> \<rparr>, False)
      else if la_Address (localAddr d) = address then (d, False)
      else (d\<lparr> localAddr := (localAddr d)\<lparr> la_Address := address, la_Epoch := la_Epoch (localAddr d) + 1 \<rparr> \<rparr>, True))"

section \<open>Adjudication\<close>

definition blank_adjudication ::
  "PassiveClassifiedEvent \<Rightarrow> PassiveTransactionFingerprint option \<Rightarrow> DedupDisposition \<Rightarrow> uint64 \<Rightarrow> AdjudicatedPassiveEvent" where
  "blank_adjudication ev fp disposition epoch =
     \<lparr> a_Event = ev, a_Fingerprint = fp, a_FamilyPolicy = Option.bind fp f_FamilyPolicy,
       a_Disposition = disposition, a_SuppressShadow = False, a_SuppressWatchEfficiency = False,
       a_ThirdPartyEligible = False, a_ObservabilityOnly = False, a_LocalParticipantInbound = False,
       a_MatchedActiveDuplicate = False, a_Epoch = epoch \<rparr>"

definition dedupFamilyPolicyAllowsRuntimeThirdParty :: "ObserveFirstFamilyPolicy option \<Rightarrow> bool" where
  "dedupFamilyPolicyAllowsRuntimeThirdParty p =
     (case p of
        None \<Rightarrow> False
      | Some policy \<Rightarrow>
          (if fp_UsesRuntimeExternalWritePolicy policy
             then fp_EffectiveExternalWritePolicy policy \<noteq> ObserveFirstExternalWritePolicyRecordOnly
           else if fp_CorrelationPolicy policy = WatchCorrelationPolicyRecordInvalidate then True
           else fp_DirectApplyPolicy policy \<in> {ObserveFirstDirectApplyPolicyStateDefault,
                  ObserveFirstDirectApplyPolicyConfigOptIn, ObserveFirstDirectApplyPolicyEnergyMergeOnly}))"

definition dedupFamilyPolicySuppressesShadow :: "ObserveFirstFamilyPolicy option \<Rightarrow> bool" where
  "dedupFamilyPolicySuppressesShadow p =
     (case p of
        None \<Rightarrow> False
      | Some policy \<Rightarrow>
          fp_UsesRuntimeExternalWritePolicy policy \<and>
          fp_EffectiveExternalWritePolicy policy \<in> {ObserveFirstExternalWritePolicyInvalidateOnly,
            ObserveFirstExternalWritePolicyRecordAndInvalidate})"

definition adjudicateMatchedActiveDuplicate ::
  "PassiveClassifiedEvent \<Rightarrow> PassiveTransactionFingerprint \<Rightarrow> uint64 \<Rightarrow> AdjudicatedPassiveEvent" where
  "adjudicateMatchedActiveDuplicate ev fp epoch =
     (blank_adjudication ev (Some fp) DedupDispositionMatchedActiveCopy epoch)
       \<lparr> a_SuppressShadow := True, a_SuppressWatchEfficiency := True, a_MatchedActiveDuplicate := True \<rparr>"

definition adjudicateUnmatchedThirdParty ::
  "PassiveClassifiedEvent \<Rightarrow> PassiveTransactionFingerprint \<Rightarrow> uint64 \<Rightarrow> AdjudicatedPassiveEvent" where
  "adjudicateUnmatchedThirdParty ev fp epoch =
     (blank_adjudication ev (Some fp) DedupDispositionUnmatchedThirdParty epoch)
       \<lparr> a_ThirdPartyEligible := True,
         a_SuppressShadow := dedupFamilyPolicySuppressesShadow (f_FamilyPolicy fp) \<rparr>"

definition adjudicateObservabilityOnly ::
  "PassiveClassifiedEvent \<Rightarrow> PassiveTransactionFingerprint \<Rightarrow> uint64 \<Rightarrow> AdjudicatedPassiveEvent" where
  "adjudicateObservabilityOnly ev fp epoch =
     (blank_adjudication ev (Some fp) DedupDispositionObservabilityOnly epoch)\<lparr> a_ObservabilityOnly := True \<rparr>"

definition adjudicateLocalParticipantInbound ::
  "PassiveClassifiedEvent \<Rightarrow> PassiveTransactionFingerprint \<Rightarrow> uint64 \<Rightarrow> AdjudicatedPassiveEvent" where
  "adjudicateLocalParticipantInbound ev fp epoch =
     (blank_adjudication ev (Some fp) DedupDispositionLocalParticipantIn epoch)
       \<lparr> a_ObservabilityOnly := True, a_LocalParticipantInbound := True, a_SuppressWatchEfficiency := True \<rparr>"

definition makeAdjudicatedDiscontinuity :: "PassiveClassifiedEvent \<Rightarrow> uint64 \<Rightarrow> AdjudicatedPassiveEvent" where
  "makeAdjudicatedDiscontinuity ev epoch =
     (blank_adjudication ev None DedupDispositionDiscontinuity epoch)\<lparr> a_ObservabilityOnly := True \<rparr>"

definition discontinuity_event :: "int \<Rightarrow> PassiveDiscontinuityReason \<Rightarrow> PassiveClassifiedEvent" where
  "discontinuity_event observedAt reason =
     (blank_event PassiveClassifiedEventDiscontinuity observedAt)
       \<lparr> pe_DiscontinuityReason := reason, pe_Err := Some Canceled \<rparr>"

definition makeDiscontinuityLocked ::
  "int \<Rightarrow> PassiveDiscontinuityReason \<Rightarrow> string \<Rightarrow> ActivePassiveDeduplicator \<Rightarrow> dedup_result" where
  "makeDiscontinuityLocked observedAt reason degradeReason d =
     (let d1 = foldl (\<lambda>d p. count_flush ''epoch_reset'' d) d (pending d);
          d2 = d1\<lparr> pending := [], active := [], currentEpoch := currentEpoch d1 + 1,
                  expvarEpoch := currentEpoch d1 + 1, epochResetTotal := epochResetTotal d1 + 1 \<rparr>;
          d3 = enterDegradedLocked degradeReason d2;
          d4 = updateExpvarsLocked (d3\<lparr> recovery_st := zero_recovery \<rparr>);
          d5 = count_adjudication DedupDispositionDiscontinuity d4 in
      (d5, [makeAdjudicatedDiscontinuity (discontinuity_event observedAt reason) (currentEpoch d5)]))"

definition releasePendingAsOutputLocked ::
  "pendingPassiveFingerprint \<Rightarrow> ActivePassiveDeduplicator \<Rightarrow> dedup_result" where
  "releasePendingAsOutputLocked p d =
     (if degraded d
        then (count_adjudication DedupDispositionObservabilityOnly d,
              [adjudicateObservabilityOnly (pp_Event p) (pp_Fingerprint p) (currentEpoch d)])
      else if \<not> dedupFamilyPolicyAllowsRuntimeThirdParty (f_FamilyPolicy (pp_Fingerprint p))
        then (count_adjudication DedupDispositionObservabilityOnly d,
              [adjudicateObservabilityOnly (pp_Event p) (pp_Fingerprint p) (currentEpoch d)])
      else (count_adjudication DedupDispositionUnmatchedThirdParty d,
            [adjudicateUnmatchedThirdParty (pp_Event p) (pp_Fingerprint p) (currentEpoch d)]))"

text \<open>The loop of \<^verbatim>\<open>releaseExpiredPendingLocked\<close>; the entries kept so far and the outputs so far.\<close>

fun release_expired_loop ::
  "int \<Rightarrow> pendingPassiveFingerprint list \<Rightarrow> pendingPassiveFingerprint list \<Rightarrow>
   AdjudicatedPassiveEvent list \<Rightarrow> ActivePassiveDeduplicator \<Rightarrow> dedup_result" where
  "release_expired_loop now [] next_ps outs d = (d\<lparr> pending := next_ps \<rparr>, outs)"
| "release_expired_loop now (p # ps) next_ps outs d =
     (if pp_ReleaseAt p > now then release_expired_loop now ps (next_ps @ [p]) outs d
      else let (d1, out) = releasePendingAsOutputLocked p d in
           release_expired_loop now ps next_ps (outs @ out) (count_flush ''grace_expiry'' d1))"

definition releaseExpiredPendingLocked :: "int \<Rightarrow> ActivePassiveDeduplicator \<Rightarrow> dedup_result" where
  "releaseExpiredPendingLocked now d =
     (if pending d = [] then (d, []) else release_expired_loop now (pending d) [] [] d)"

text \<open>The scan of \<^verbatim>\<open>oldestReleasablePendingLocked\<close>: the index and release time of the best so far.\<close>

fun oldest_scan :: "int \<Rightarrow> nat \<Rightarrow> pendingPassiveFingerprint list \<Rightarrow> (nat \<times> int) option \<Rightarrow> (nat \<times> int) option" where
  "oldest_scan now i [] best = best"
| "oldest_scan now i (p # ps) best =
     (if pp_ReleaseAt p > now then oldest_scan now (Suc i) ps best
      else oldest_scan now (Suc i) ps
             (case best of
                None \<Rightarrow> Some (i, pp_ReleaseAt p)
              | Some (j, oldest) \<Rightarrow> if pp_ReleaseAt p < oldest then Some (i, pp_ReleaseAt p) else best))"

definition oldestReleasablePendingLocked :: "int \<Rightarrow> ActivePassiveDeduplicator \<Rightarrow> nat option" where
  "oldestReleasablePendingLocked now d = map_option fst (oldest_scan now 0 (pending d) None)"

definition releasePendingIndexLocked :: "nat \<Rightarrow> string \<Rightarrow> ActivePassiveDeduplicator \<Rightarrow> dedup_result" where
  "releasePendingIndexLocked i reason d =
     (if i \<ge> length (pending d) then (d, [])
      else releasePendingAsOutputLocked (pending d ! i)
             (count_flush reason (d\<lparr> pending := take i (pending d) @ drop (Suc i) (pending d) \<rparr>)))"

definition publishImmediateLocked ::
  "PassiveClassifiedEvent \<Rightarrow> PassiveTransactionFingerprint \<Rightarrow> DedupDisposition \<Rightarrow> ActivePassiveDeduplicator \<Rightarrow> dedup_result" where
  "publishImmediateLocked ev fp disposition d =
     (case disposition of
        DedupDispositionLocalParticipantIn \<Rightarrow>
          (count_adjudication DedupDispositionLocalParticipantIn
             (d\<lparr> localParticipantInboundTotal := localParticipantInboundTotal d + 1 \<rparr>),
           [adjudicateLocalParticipantInbound ev fp (currentEpoch d)])
      | DedupDispositionUnmatchedThirdParty \<Rightarrow>
          (if dedupFamilyPolicyAllowsRuntimeThirdParty (f_FamilyPolicy fp)
             then (count_adjudication DedupDispositionUnmatchedThirdParty d,
                   [adjudicateUnmatchedThirdParty ev fp (currentEpoch d)])
           else (count_adjudication DedupDispositionObservabilityOnly d,
                 [adjudicateObservabilityOnly ev fp (currentEpoch d)]))
      | _ \<Rightarrow> (count_adjudication DedupDispositionObservabilityOnly d,
              [adjudicateObservabilityOnly ev fp (currentEpoch d)]))"

section \<open>Identity of a transaction\<close>

definition canonicalFrameBytes :: "dedup_cfg \<Rightarrow> Frame \<Rightarrow> byte list" where
  "canonicalFrameBytes C f =
     (let raw = [Source f, Target f, Primary f, Secondary f, of_nat (length (Data f))] @ Data f in
      raw @ [dc_CRC C raw])"

definition text_bytes :: "string \<Rightarrow> byte list" where
  "text_bytes s = map of_char s"

text \<open>\<^verbatim>\<open>binary.BigEndian.PutUint16\<close> of the length modulo \<open>2 ^ 16\<close>.\<close>

definition appendLengthPrefixed :: "byte list \<Rightarrow> byte list \<Rightarrow> byte list" where
  "appendLengthPrefixed buf payload =
     (let n = of_nat (length payload) :: uint16 in
      buf @ [ucast (drop_bit 8 n), ucast n] @ payload)"

definition identity_bytes ::
  "DedupTransactionClass \<Rightarrow> byte \<Rightarrow> byte \<Rightarrow> DedupResponseClass \<Rightarrow> DedupOutcomeClass \<Rightarrow> byte list \<Rightarrow> byte list \<Rightarrow> byte list" where
  "identity_bytes cls src tgt responseClass oc requestBytes responseBytes =
     (let buf = [of_nat (length (class_text cls))] @ text_bytes (class_text cls) @ [src, tgt] @
                [of_nat (length (response_text responseClass))] @ text_bytes (response_text responseClass) @
                [of_nat (length (outcome_text oc))] @ text_bytes (outcome_text oc) in
      appendLengthPrefixed (appendLengthPrefixed buf requestBytes) responseBytes)"

definition hashTransactionIdentity ::
  "dedup_cfg \<Rightarrow> DedupTransactionClass \<Rightarrow> byte \<Rightarrow> byte \<Rightarrow> DedupResponseClass \<Rightarrow> DedupOutcomeClass \<Rightarrow> byte list \<Rightarrow> byte list \<Rightarrow> byte list" where
  "hashTransactionIdentity C cls src tgt responseClass oc requestBytes responseBytes =
     dc_Sum256 C (identity_bytes cls src tgt responseClass oc requestBytes responseBytes)"

definition dedupRequestFrameFromFingerprint :: "byte list \<Rightarrow> Frame option" where
  "dedupRequestFrameFromFingerprint raw =
     (if length raw < 6 then None
      else if length raw \<noteq> 6 + unat (raw ! 4) then None
      else Some \<lparr> Source = raw ! 0, Target = raw ! 1, Primary = raw ! 2, Secondary = raw ! 3,
                  Data = take (unat (raw ! 4)) (drop 5 raw) \<rparr>)"

definition dedupFingerprintIsReadIntent :: "ActiveTransactionFingerprint \<Rightarrow> bool" where
  "dedupFingerprintIsReadIntent fp =
     (case dedupRequestFrameFromFingerprint (f_RequestBytes fp) of
        None \<Rightarrow> False
      | Some f \<Rightarrow> observeFirstRequestIntentFromFrame f = ObserveFirstRequestIntentRead)"

definition dedupFingerprintSupportsStateDefault :: "ActiveTransactionFingerprint \<Rightarrow> bool" where
  "dedupFingerprintSupportsStateDefault fp =
     (if f_OutcomeClass fp \<noteq> DedupOutcomeSuccess \<or> f_ResponseClass fp \<noteq> DedupResponseValueBearing then False
      else if \<not> dedupFingerprintIsReadIntent fp then False
      else case f_FamilyPolicy fp of
             None \<Rightarrow> False
           | Some policy \<Rightarrow>
               fp_CorrelationPolicy policy = WatchCorrelationPolicyRequestResponse \<and>
               fp_DirectApplyPolicy policy = ObserveFirstDirectApplyPolicyStateDefault)"

text \<open>
  The loop over the active map returns at the first entry that fits, with a value that depends
  only on the key, so the order of the map does not matter. Keys come from frames: cloning a
  foreign key, on which the source panics, does not occur here.
\<close>

definition observeFromActiveLocked :: "ActivePassiveDeduplicator \<Rightarrow> WatchKey option \<Rightarrow> WatchObservation" where
  "observeFromActiveLocked d key =
     (case key of
        None \<Rightarrow> catalog_miss
      | Some k \<Rightarrow>
          (if list_ex (\<lambda>(h, retained).
                 (case f_SharedWatchKey (ra_Fingerprint retained) of
                    None \<Rightarrow> False
                  | Some shared \<Rightarrow> Canonical shared = Canonical k \<and>
                      dedupFingerprintSupportsStateDefault (ra_Fingerprint retained))) (active d)
           then \<lparr> ob_State = WatchObservationStateActive,
                  ob_Descriptor = Some \<lparr> wd_Key = Some (key_by_value k), wd_SemanticClass = WatchSemanticClassState,
                    wd_FreshnessProfile = '''', wd_DecoderID = '''',
                    wd_CorrelationPolicy = WatchCorrelationPolicyRequestResponse,
                    wd_DirectApplyPolicy = WatchDirectApplyPolicyStateDefault, wd_FreshnessTTL = None \<rparr>,
                  ob_Sources = [] \<rparr>
           else catalog_miss))"

definition observeFirstWatchObservationForKey :: "WatchKey option \<Rightarrow> observer \<Rightarrow> WatchObservation" where
  "observeFirstWatchObservationForKey key obs =
     (case key of
        None \<Rightarrow> catalog_miss
      | Some k \<Rightarrow> (case obs of None \<Rightarrow> catalog_miss | Some observe \<Rightarrow> observe k))"

section \<open>Fingerprints\<close>

definition passiveTransactionClassLocked :: "ActivePassiveDeduplicator \<Rightarrow> PassiveClassifiedEvent \<Rightarrow> DedupTransactionClass" where
  "passiveTransactionClassLocked d ev =
     (let inbound = (la_Known (localAddr d) \<and> pe_HasRequest ev \<and>
                     Target (pe_Request ev) = la_Address (localAddr d)) in
      case pe_Kind ev of
        PassiveClassifiedEventBroadcastFrame \<Rightarrow> DedupTransactionClassBroadcast
      | PassiveClassifiedEventMasterFrame \<Rightarrow>
          (if inbound then DedupTransactionClassLocalParticipantIn
           else DedupTransactionClassInitiatorInitiator)
      | PassiveClassifiedEventTransaction \<Rightarrow> DedupTransactionClassInitiatorTarget
      | PassiveClassifiedEventAbandonedTransaction \<Rightarrow>
          (if pe_FrameType ev = FrameTypeInitiatorInitiator \<and> inbound
           then DedupTransactionClassLocalParticipantIn
           else DedupTransactionClassAbandonedPartial)
      | _ \<Rightarrow> DedupTransactionClassAbandonedPartial)"

definition passiveOutcomeClass :: "PassiveClassifiedEvent \<Rightarrow> DedupOutcomeClass" where
  "passiveOutcomeClass ev =
     (case pe_Kind ev of
        PassiveClassifiedEventAbandonedTransaction \<Rightarrow>
          (case pe_AbandonReason ev of
             PassiveAbandonReasonNACK \<Rightarrow> DedupOutcomeNACK
           | PassiveAbandonReasonNoResponse \<Rightarrow> DedupOutcomeTimeout
           | PassiveAbandonReasonNoProgress \<Rightarrow> DedupOutcomeTimeout
           | PassiveAbandonReasonDisconnected \<Rightarrow> DedupOutcomeTimeout
           | PassiveAbandonReasonShutdown \<Rightarrow> DedupOutcomeTimeout
           | PassiveAbandonReasonTransportReset \<Rightarrow> DedupOutcomeTransportReset
           | PassiveAbandonReasonDecodeFault \<Rightarrow> DedupOutcomeDecodeReset
           | PassiveAbandonReasonAmbiguousRetransmit \<Rightarrow> DedupOutcomeCollision
           | _ \<Rightarrow> DedupOutcomeAbandoned)
      | PassiveClassifiedEventDiscontinuity \<Rightarrow>
          (if pe_DiscontinuityReason ev \<in> {PassiveDiscontinuityTransportReset, PassiveDiscontinuityDisconnected,
                PassiveDiscontinuityConnected, PassiveDiscontinuityShutdown}
           then DedupOutcomeTransportReset else DedupOutcomeDecodeReset)
      | _ \<Rightarrow> DedupOutcomeSuccess)"

definition passive_family_policy ::
  "dedup_cfg \<Rightarrow> observer \<Rightarrow> ActivePassiveDeduplicator \<Rightarrow> PassiveClassifiedEvent \<Rightarrow> DedupResponseClass \<Rightarrow> ObserveFirstFamilyPolicy" where
  "passive_family_policy C obs d ev responseClass =
     (let key = PassiveWatchKeyFromEvent ev;
          first = observeFirstWatchObservationForKey key obs;
          observation = (if ob_State first = WatchObservationStateCatalogMiss \<and> key \<noteq> None
                         then observeFromActiveLocked d key else first) in
      observeFirstFamilyPolicy ObserveFirstTrafficScopePassive (pe_Request ev) responseClass observation (dc_flags C))"

definition passive_fingerprint ::
  "dedup_cfg \<Rightarrow> observer \<Rightarrow> ActivePassiveDeduplicator \<Rightarrow> PassiveClassifiedEvent \<Rightarrow> int \<Rightarrow> PassiveTransactionFingerprint" where
  "passive_fingerprint C obs d ev observedAt =
     (let cls = passiveTransactionClassLocked d ev;
          oc = passiveOutcomeClass ev;
          responseClass = observeFirstResponseClass (pe_Request ev) (pe_FrameType ev) oc (pe_Response ev) (pe_HasResponse ev);
          src = (if pe_HasRequest ev then Source (pe_Request ev) else 0);
          tgt = (if pe_HasRequest ev then Target (pe_Request ev) else 0);
          req = (if pe_HasRequest ev then canonicalFrameBytes C (pe_Request ev) else []);
          resp = (if pe_HasResponse ev then canonicalFrameBytes C (pe_Response ev) else []) in
      \<lparr> f_Epoch = currentEpoch d, f_TransactionClass = cls, f_OutcomeClass = oc, f_ResponseClass = responseClass,
        f_FamilyPolicy = (if pe_HasRequest ev then Some (passive_family_policy C obs d ev responseClass) else None),
        f_SharedWatchKey = (if pe_HasRequest ev then PassiveWatchKeyFromEvent ev else None),
        f_Source = src, f_Target = tgt, f_RequestBytes = req, f_ResponseBytes = resp,
        f_Hash = hashTransactionIdentity C cls src tgt responseClass oc req resp,
        f_ObservedAt = observedAt \<rparr>)"

definition buildPassiveFingerprintLocked ::
  "dedup_cfg \<Rightarrow> observer \<Rightarrow> ActivePassiveDeduplicator \<Rightarrow> PassiveClassifiedEvent \<Rightarrow> int \<Rightarrow>
   PassiveTransactionFingerprint \<times> bool \<times> DedupDisposition" where
  "buildPassiveFingerprintLocked C obs d ev observedAt =
     (let fp = passive_fingerprint C obs d ev observedAt in
      if f_TransactionClass fp = DedupTransactionClassBroadcast
        then (fp, False, DedupDispositionObservabilityOnly)
      else if f_TransactionClass fp = DedupTransactionClassLocalParticipantIn
        then (fp, False, DedupDispositionLocalParticipantIn)
      else if f_TransactionClass fp = DedupTransactionClassInitiatorInitiator \<and> \<not> la_Known (localAddr d)
        then (fp, False, DedupDispositionObservabilityOnly)
      else if f_OutcomeClass fp \<noteq> DedupOutcomeSuccess then (fp, False, DedupDispositionObservabilityOnly)
      else (fp, True, DedupDispositionNone))"

definition buildActiveFingerprint ::
  "dedup_cfg \<Rightarrow> observer \<Rightarrow> uint64 \<Rightarrow> BusEvent \<Rightarrow> int \<Rightarrow> ActiveTransactionFingerprint option" where
  "buildActiveFingerprint C obs epoch ev observedAt =
     (if \<not> be_HasRequest ev then None
      else case (case be_FrameType ev of
                   FrameTypeBroadcast \<Rightarrow> Some DedupTransactionClassBroadcast
                 | FrameTypeInitiatorInitiator \<Rightarrow> Some DedupTransactionClassInitiatorInitiator
                 | FrameTypeInitiatorTarget \<Rightarrow> Some DedupTransactionClassInitiatorTarget
                 | FrameTypeUnknown \<Rightarrow> None) of
             None \<Rightarrow> None
           | Some cls \<Rightarrow>
               (let responseClass = observeFirstResponseClass (be_Request ev) (be_FrameType ev) DedupOutcomeSuccess
                                      (be_Response ev) (be_HasResponse ev);
                    req = canonicalFrameBytes C (be_Request ev);
                    resp = (if be_HasResponse ev then canonicalFrameBytes C (be_Response ev) else []);
                    key = PassiveWatchKeyFromFrame (be_Request ev);
                    observation = observeFirstWatchObservationForKey key obs in
                Some \<lparr> f_Epoch = epoch, f_TransactionClass = cls, f_OutcomeClass = DedupOutcomeSuccess,
                  f_ResponseClass = responseClass,
                  f_FamilyPolicy = Some (observeFirstFamilyPolicy ObserveFirstTrafficScopeActive (be_Request ev)
                                           responseClass observation (dc_flags C)),
                  f_SharedWatchKey = key,
                  f_Source = Source (be_Request ev), f_Target = Target (be_Request ev),
                  f_RequestBytes = req, f_ResponseBytes = resp,
                  f_Hash = hashTransactionIdentity C cls (Source (be_Request ev)) (Target (be_Request ev))
                             responseClass DedupOutcomeSuccess req resp,
                  f_ObservedAt = observedAt \<rparr>))"

section \<open>The handlers\<close>

text \<open>The loop of \<^verbatim>\<open>matchPendingLocked\<close>: the entries kept, the outputs and whether one matched.\<close>

fun match_loop ::
  "ActiveTransactionFingerprint \<Rightarrow> pendingPassiveFingerprint list \<Rightarrow> pendingPassiveFingerprint list \<Rightarrow>
   AdjudicatedPassiveEvent list \<Rightarrow> bool \<Rightarrow> ActivePassiveDeduplicator \<Rightarrow> dedup_result" where
  "match_loop act [] next_ps outs matched d = (d\<lparr> pending := next_ps \<rparr>, outs)"
| "match_loop act (p # ps) next_ps outs matched d =
     (if pp_Epoch p \<noteq> currentEpoch d \<or> f_Epoch (pp_Fingerprint p) \<noteq> currentEpoch d
        then match_loop act ps (next_ps @ [p]) outs matched d
      else if \<not> matched \<and> f_Hash (pp_Fingerprint p) = f_Hash act
        then match_loop act ps next_ps
               (outs @ [adjudicateMatchedActiveDuplicate (pp_Event p) (pp_Fingerprint p) (currentEpoch d)]) True
               (fst (consumeActiveLocked (f_Hash act) (count_adjudication DedupDispositionMatchedActiveCopy d)))
      else match_loop act ps (next_ps @ [p]) outs matched d)"

definition matchPendingLocked :: "ActiveTransactionFingerprint \<Rightarrow> int \<Rightarrow> ActivePassiveDeduplicator \<Rightarrow> dedup_result" where
  "matchPendingLocked act now d =
     (if pending d = [] then (d, [])
      else let (d1, outs) = match_loop act (pending d) [] [] False d in
           (recordRecoveryEvidenceLocked now d1, outs))"

definition retain_active :: "ActiveTransactionFingerprint \<Rightarrow> int \<Rightarrow> ActivePassiveDeduplicator \<Rightarrow> ActivePassiveDeduplicator" where
  "retain_active fp now d =
     (let expires = now + ActiveFingerprintRetention (budgets d);
          entry = (case map_of (active d) (f_Hash fp) of
                     Some existing \<Rightarrow> existing\<lparr> ra_Count := ra_Count existing + 1, ra_Fingerprint := fp,
                                        ra_ExpiresAt := expires \<rparr>
                   | None \<Rightarrow> \<lparr> ra_Fingerprint = fp, ra_ExpiresAt = expires, ra_Count = 1 \<rparr>) in
      d\<lparr> active := AList.update (f_Hash fp) entry (active d) \<rparr>)"

definition handle_success :: "dedup_cfg \<Rightarrow> observer \<Rightarrow> BusEvent \<Rightarrow> int \<Rightarrow> ActivePassiveDeduplicator \<Rightarrow> dedup_result" where
  "handle_success C obs ev now d =
     (let (d1, changed) = updateLocalAddressLocked (Source (be_Request ev)) d;
          (d2, outs) = (if changed
                        then makeDiscontinuityLocked now PassiveDiscontinuityTransportReset ''local_address_epoch'' d1
                        else (d1, [])) in
      case buildActiveFingerprint C obs (currentEpoch d2) ev now of
        None \<Rightarrow> (enterDegradedLocked ''active_fingerprint_build'' d2, outs)
      | Some fp \<Rightarrow>
          (let (d3, matched) = matchPendingLocked fp now (retain_active fp now d2) in
           (recordRecoveryEvidenceLocked now d3, outs @ matched)))"

definition handleBusEvent :: "dedup_cfg \<Rightarrow> observer \<Rightarrow> BusEvent \<Rightarrow> int \<Rightarrow> ActivePassiveDeduplicator \<Rightarrow> dedup_result" where
  "handleBusEvent C obs ev now d =
     (let (d1, outs) = releaseExpiredPendingLocked now d;
          d2 = pruneActiveLocked now d1 in
      case be_Kind ev of
        BusEventObserverFault \<Rightarrow> (enterDegradedLocked ''observer_fault'' (d2\<lparr> active := [] \<rparr>), outs)
      | BusEventOtherKind \<Rightarrow> (d2, outs)
      | BusEventAttemptComplete \<Rightarrow>
          (if \<not> be_Success ev \<or> \<not> be_HasRequest ev then (d2, outs)
           else let (d3, more) = handle_success C obs ev now d2 in (d3, outs @ more)))"

text \<open>
  The loop at the capacity: release the oldest releasable entry, or give up when none is. The
  boolean says that the event was given up as observability only.
\<close>

function capacity_loop ::
  "PassiveClassifiedEvent \<Rightarrow> PassiveTransactionFingerprint \<Rightarrow> int \<Rightarrow> ActivePassiveDeduplicator \<Rightarrow> dedup_result \<times> bool" where
  "capacity_loop ev fp now d =
     (if int (length (pending d)) < PendingCapacity (budgets d) then ((d, []), False)
      else case oldestReleasablePendingLocked now d of
             None \<Rightarrow>
               (let d1 = enterDegradedLocked ''pending_capacity'' d in
                ((count_adjudication DedupDispositionObservabilityOnly d1,
                  [adjudicateObservabilityOnly ev fp (currentEpoch d1)]), True))
           | Some i \<Rightarrow>
               (let released = releasePendingIndexLocked i ''grace_expiry'' d;
                    ((d2, more), gaveUp) = capacity_loop ev fp now (fst released) in
                ((d2, snd released @ more), gaveUp)))"
  by pat_completeness auto

text \<open>The loop ends because every round removes the entry the scan found.\<close>

lemma oldest_scan_bound:
  "oldest_scan now i ps best = Some (j, r) \<Longrightarrow> (\<forall>k r. best = Some (k, r) \<longrightarrow> k < i) \<Longrightarrow> j < i + length ps"
proof (induction now i ps best rule: oldest_scan.induct)
  case (2 now i p ps best)
  then show ?case by (fastforce split: if_splits option.splits prod.splits)
qed simp

lemma oldest_bound: "oldestReleasablePendingLocked now d = Some i \<Longrightarrow> i < length (pending d)"
  using oldest_scan_bound[of now 0 "pending d" None] by (auto simp: oldestReleasablePendingLocked_def)

lemma release_index_length:
  "i < length (pending d) \<Longrightarrow> length (pending (fst (releasePendingIndexLocked i r d))) < length (pending d)"
  by (auto simp: releasePendingIndexLocked_def releasePendingAsOutputLocked_def count_adjudication_def count_flush_def)

termination capacity_loop
  by (relation "measure (\<lambda>(ev, fp, now, d). length (pending d))") (auto dest: oldest_bound intro: release_index_length)

declare capacity_loop.simps [simp del]

definition handle_eligible ::
  "PassiveClassifiedEvent \<Rightarrow> PassiveTransactionFingerprint \<Rightarrow> int \<Rightarrow> ActivePassiveDeduplicator \<Rightarrow> dedup_result" where
  "handle_eligible ev fp now d =
     (let (d1, consumed) = consumeActiveLocked (f_Hash fp) d in
      if consumed
      then (recordRecoveryEvidenceLocked now (count_adjudication DedupDispositionMatchedActiveCopy d1),
            [adjudicateMatchedActiveDuplicate ev fp (currentEpoch d1)])
      else let ((d2, outs), gaveUp) = capacity_loop ev fp now d1 in
           if gaveUp then (d2, outs)
           else (recordRecoveryEvidenceLocked now
                   (d2\<lparr> pending := pending d2 @
                          [\<lparr> pp_Event = ev, pp_Fingerprint = fp, pp_InsertedAt = now,
                             pp_ReleaseAt = now + PendingGraceTimeout (budgets d2),
                             pp_Epoch = currentEpoch d2 \<rparr>] \<rparr>), outs))"

definition handlePassiveEvent ::
  "dedup_cfg \<Rightarrow> observer \<Rightarrow> PassiveClassifiedEvent \<Rightarrow> int \<Rightarrow> ActivePassiveDeduplicator \<Rightarrow> dedup_result" where
  "handlePassiveEvent C obs ev now d =
     (let (d1, outs) = releaseExpiredPendingLocked now d;
          d2 = pruneActiveLocked now d1 in
      case pe_Kind ev of
        PassiveClassifiedEventDiscontinuity \<Rightarrow>
          (let (d3, more) = makeDiscontinuityLocked now (pe_DiscontinuityReason ev) ''passive_epoch_boundary'' d2 in
           (d3, outs @ more))
      | PassiveClassifiedEventBroadcastFrame \<Rightarrow> (recordRecoveryEvidenceLocked now d2, outs)
      | _ \<Rightarrow>
          (let (fp, matchEligible, disposition) = buildPassiveFingerprintLocked C obs d2 ev now;
               (d3, more) = (if \<not> matchEligible then publishImmediateLocked ev fp disposition d2
                             else handle_eligible ev fp now d2) in
           (d3, outs @ more)))"

text \<open>A passive event without a time stamp gets the clock's.\<close>

definition OnPassiveClassifiedEvent ::
  "dedup_cfg \<Rightarrow> observer \<Rightarrow> int \<Rightarrow> PassiveClassifiedEvent \<Rightarrow> ActivePassiveDeduplicator \<Rightarrow> dedup_result" where
  "OnPassiveClassifiedEvent C obs clock ev d =
     (let observedAt = (if pe_ObservedAt ev = 0 then clock else pe_ObservedAt ev) in
      handlePassiveEvent C obs (ev\<lparr> pe_ObservedAt := observedAt \<rparr>) observedAt d)"

definition NewActivePassiveDeduplicator ::
  "BusRetryEnvelope \<Rightarrow> dedupTimingBudgets \<Rightarrow> LocalAddressSnapshot option \<Rightarrow> dedup_error + ActivePassiveDeduplicator" where
  "NewActivePassiveDeduplicator env cfg0 snapshot =
     (let cfg = dedup_config_defaults env cfg0 in
      case deriveDedupTimingBudgets env of
        Inl e \<Rightarrow> Inl e
      | Inr required \<Rightarrow>
          (let b = cfg\<lparr> LogicalRequestEnvelope := LogicalRequestEnvelope required \<rparr> in
           if ActivePublishBudget b < ActivePublishBudget required \<or>
              PendingGraceTimeout b < PendingGraceTimeout required \<or>
              ActiveFingerprintRetention b < ActiveFingerprintRetention required \<or>
              PendingCapacity b < PendingCapacity required \<or>
              PassiveDeliveryBudget b < PassiveDeliveryBudget required
           then Inl (BudgetsBelowMinimum b required)
           else Inr (updateExpvarsLocked
                  \<lparr> budgets = b, currentEpoch = 1, degraded = True, recovery_st = zero_recovery,
                    localAddr = (case snapshot of
                                   None \<Rightarrow> \<lparr> la_Address = 0, la_Known = False, la_Epoch = 0 \<rparr>
                                 | Some s \<Rightarrow> s),
                    active = [], pending = [], expvarState = '''', expvarEpoch = 0,
                    epochResetTotal = 0, pendingFlushTotal = (\<lambda>_. 0), adjudicationsTotal = (\<lambda>_. 0),
                    degradedTransitionsTotal = (\<lambda>_. 0), localParticipantInboundTotal = 0 \<rparr>)))"

section \<open>What the deduplicator promises\<close>

text \<open>Its callers: the bus observer, the passive loop, the expiry loop and the reset after a lost subscription.\<close>

datatype dedup_op =
  BusOp observer BusEvent int
| PassiveOp observer int PassiveClassifiedEvent
| ExpiryOp int
| ResetOp int PassiveDiscontinuityReason string

fun dedup_step :: "dedup_cfg \<Rightarrow> ActivePassiveDeduplicator \<Rightarrow> dedup_op \<Rightarrow> dedup_result" where
  "dedup_step C d (BusOp obs ev now) = handleBusEvent C obs ev now d"
| "dedup_step C d (PassiveOp obs clock ev) = OnPassiveClassifiedEvent C obs clock ev d"
| "dedup_step C d (ExpiryOp now) = releaseExpiredPendingLocked now d"
| "dedup_step C d (ResetOp observedAt reason degradeReason) = makeDiscontinuityLocked observedAt reason degradeReason d"

text \<open>The passive events that must be decided, with the time stamp they are handled with.\<close>

definition stamped :: "int \<Rightarrow> PassiveClassifiedEvent \<Rightarrow> PassiveClassifiedEvent" where
  "stamped clock ev = ev\<lparr> pe_ObservedAt := (if pe_ObservedAt ev = 0 then clock else pe_ObservedAt ev) \<rparr>"

definition adjudicable :: "PassiveClassifiedEvent \<Rightarrow> bool" where
  "adjudicable ev \<longleftrightarrow> pe_Kind ev \<in> {PassiveClassifiedEventTransaction, PassiveClassifiedEventMasterFrame,
     PassiveClassifiedEventAbandonedTransaction}"

fun submitted :: "dedup_op \<Rightarrow> PassiveClassifiedEvent list" where
  "submitted (PassiveOp obs clock ev) = (if adjudicable ev then [stamped clock ev] else [])"
| "submitted op = []"

text \<open>The events decided by a list of outputs, without the discontinuities the deduplicator makes itself.\<close>

definition is_discontinuity :: "AdjudicatedPassiveEvent \<Rightarrow> bool" where
  "is_discontinuity a \<longleftrightarrow> a_Disposition a = DedupDispositionDiscontinuity"

definition decided :: "AdjudicatedPassiveEvent list \<Rightarrow> PassiveClassifiedEvent multiset" where
  "decided outs = mset (map a_Event (filter (\<lambda>a. \<not> is_discontinuity a) outs))"

definition waiting :: "ActivePassiveDeduplicator \<Rightarrow> PassiveClassifiedEvent multiset" where
  "waiting d = mset (map pp_Event (pending d))"

definition count_disposition :: "DedupDisposition \<Rightarrow> AdjudicatedPassiveEvent list \<Rightarrow> nat" where
  "count_disposition k outs = length (filter (\<lambda>a. a_Disposition a = k) outs)"

text \<open>How many own transactions of a digest are retained, completed and matched.\<close>

definition retained :: "ActivePassiveDeduplicator \<Rightarrow> byte list \<Rightarrow> nat" where
  "retained d h = (case map_of (active d) h of None \<Rightarrow> 0 | Some a \<Rightarrow> nat (ra_Count a))"

definition active_digest :: "dedup_cfg \<Rightarrow> BusEvent \<Rightarrow> byte list option" where
  "active_digest C ev = map_option f_Hash (buildActiveFingerprint C None 0 ev 0)"

fun completed :: "dedup_cfg \<Rightarrow> byte list \<Rightarrow> dedup_op \<Rightarrow> nat" where
  "completed C h (BusOp obs ev now) =
     (if be_Kind ev = BusEventAttemptComplete \<and> be_Success ev \<and> active_digest C ev = Some h then 1 else 0)"
| "completed C h op = 0"

definition matched_copies :: "byte list \<Rightarrow> AdjudicatedPassiveEvent list \<Rightarrow> nat" where
  "matched_copies h outs =
     length (filter (\<lambda>a. a_MatchedActiveDuplicate a \<and> map_option f_Hash (a_Fingerprint a) = Some h) outs)"

text \<open>The well-formed states.\<close>

definition dedup_wf :: "ActivePassiveDeduplicator \<Rightarrow> bool" where
  "dedup_wf d \<longleftrightarrow>
     distinct (map fst (active d)) \<and>
     (\<forall>h a. map_of (active d) h = Some a \<longrightarrow> 0 < ra_Count a) \<and>
     (\<forall>p \<in> set (pending d). pp_Epoch p = currentEpoch d \<and> f_Epoch (pp_Fingerprint p) = currentEpoch d \<and>
        pp_ReleaseAt p = pp_InsertedAt p + PendingGraceTimeout (budgets d) \<and>
        map_of (active d) (f_Hash (pp_Fingerprint p)) = None) \<and>
     0 < PendingCapacity (budgets d) \<and>
     int (length (pending d)) \<le> PendingCapacity (budgets d)"

text \<open>The budgets a configuration may not lower, and a configuration that sets none.\<close>

definition guarded_budgets :: "(dedupTimingBudgets \<Rightarrow> int) list" where
  "guarded_budgets = [ActivePublishBudget, PendingGraceTimeout, ActiveFingerprintRetention, PendingCapacity, PassiveDeliveryBudget]"

definition unset_budgets :: dedupTimingBudgets where
  "unset_budgets = \<lparr> LogicalRequestEnvelope = 0, ActivePublishBudget = 0, PassiveDeliveryBudget = 0,
     PendingGraceTimeout = 0, ActiveFingerprintRetention = 0, PendingCapacity = 0,
     RecoveryHysteresis = 0, RecoveryEventThreshold = 0 \<rparr>"

definition example_envelope :: BusRetryEnvelope where
  "example_envelope = \<lparr> InitiatorTarget = \<lparr> TimeoutRetries = 2, NACKRetries = 1 \<rparr>,
     InitiatorInitiator = \<lparr> TimeoutRetries = 2, NACKRetries = 1 \<rparr>, CollisionResyncSYNCount = 2 \<rparr>"

definition example_cfg :: dedup_cfg where
  "example_cfg = \<lparr> dc_CRC = (\<lambda>bs. 0), dc_Sum256 = (\<lambda>bs. bs), dc_flags = None \<rparr>"

definition example_request :: Frame where
  "example_request = \<lparr> Source = 0x31, Target = 0x15, Primary = 0xB5, Secondary = 0x55, Data = [0xA4] \<rparr>"

definition example_response :: Frame where
  "example_response = \<lparr> Source = 0x15, Target = 0x31, Primary = 0xB5, Secondary = 0x55, Data = [1, 2] \<rparr>"

definition example_passive :: "int \<Rightarrow> PassiveClassifiedEvent" where
  "example_passive t = (blank_event PassiveClassifiedEventTransaction t)
     \<lparr> pe_FrameType := FrameTypeInitiatorTarget, pe_Request := example_request, pe_HasRequest := True,
       pe_Response := example_response, pe_HasResponse := True \<rparr>"

definition example_own :: BusEvent where
  "example_own = \<lparr> be_Kind = BusEventAttemptComplete, be_Success = True, be_HasRequest = True,
     be_HasResponse = True, be_FrameType = FrameTypeInitiatorTarget, be_Request = example_request,
     be_Response = example_response \<rparr>"

text \<open>A passive copy, the own transaction it shows, and a second copy nobody sent.\<close>

definition example_dedup_ops :: "dedup_op list" where
  "example_dedup_ops = [PassiveOp None 1 (example_passive 1), BusOp None example_own 5, PassiveOp None 9 (example_passive 9)]"

text \<open>Eleven seconds of broadcasts make the deduplicator healthy; then a foreign transaction waits.\<close>

definition example_start :: ActivePassiveDeduplicator where
  "example_start = (case NewActivePassiveDeduplicator example_envelope unset_budgets None of Inr d \<Rightarrow> d)"

definition example_recovery_ops :: "dedup_op list" where
  "example_recovery_ops =
     map (\<lambda>i. PassiveOp None 0 (blank_event PassiveClassifiedEventBroadcastFrame (int i * second))) [1..<12] @
     [PassiveOp None 0 (example_passive (12 * second))]"

section \<open>Lemmas: what the small operations leave alone\<close>

lemma count_adjudication_fields [simp]:
  "budgets (count_adjudication k d) = budgets d"
  "currentEpoch (count_adjudication k d) = currentEpoch d"
  "degraded (count_adjudication k d) = degraded d"
  "recovery_st (count_adjudication k d) = recovery_st d"
  "localAddr (count_adjudication k d) = localAddr d"
  "active (count_adjudication k d) = active d"
  "pending (count_adjudication k d) = pending d"
  "pendingFlushTotal (count_adjudication k d) = pendingFlushTotal d"
  "adjudicationsTotal (count_adjudication k d) = (adjudicationsTotal d)(k := adjudicationsTotal d k + 1)"
  by (simp_all add: count_adjudication_def Let_def)

lemma count_flush_fields [simp]:
  "budgets (count_flush r d) = budgets d"
  "currentEpoch (count_flush r d) = currentEpoch d"
  "degraded (count_flush r d) = degraded d"
  "recovery_st (count_flush r d) = recovery_st d"
  "localAddr (count_flush r d) = localAddr d"
  "active (count_flush r d) = active d"
  "pending (count_flush r d) = pending d"
  "adjudicationsTotal (count_flush r d) = adjudicationsTotal d"
  "pendingFlushTotal (count_flush r d) = (pendingFlushTotal d)(r := pendingFlushTotal d r + 1)"
  by (simp_all add: count_flush_def Let_def)

lemma updateExpvars_fields [simp]:
  "budgets (updateExpvarsLocked d) = budgets d"
  "currentEpoch (updateExpvarsLocked d) = currentEpoch d"
  "degraded (updateExpvarsLocked d) = degraded d"
  "recovery_st (updateExpvarsLocked d) = recovery_st d"
  "localAddr (updateExpvarsLocked d) = localAddr d"
  "active (updateExpvarsLocked d) = active d"
  "pending (updateExpvarsLocked d) = pending d"
  "pendingFlushTotal (updateExpvarsLocked d) = pendingFlushTotal d"
  "adjudicationsTotal (updateExpvarsLocked d) = adjudicationsTotal d"
  by (simp_all add: updateExpvarsLocked_def Let_def)

lemma enterDegraded_fields [simp]:
  "budgets (enterDegradedLocked r d) = budgets d"
  "currentEpoch (enterDegradedLocked r d) = currentEpoch d"
  "localAddr (enterDegradedLocked r d) = localAddr d"
  "active (enterDegradedLocked r d) = active d"
  "pending (enterDegradedLocked r d) = pending d"
  "pendingFlushTotal (enterDegradedLocked r d) = pendingFlushTotal d"
  "adjudicationsTotal (enterDegradedLocked r d) = adjudicationsTotal d"
  "degraded (enterDegradedLocked r d)"
  "recovery_st (enterDegradedLocked r d) = zero_recovery"
  by (simp_all add: enterDegradedLocked_def updateExpvarsLocked_def Let_def)

lemma recordRecoveryEvidence_fields [simp]:
  "budgets (recordRecoveryEvidenceLocked now d) = budgets d"
  "currentEpoch (recordRecoveryEvidenceLocked now d) = currentEpoch d"
  "localAddr (recordRecoveryEvidenceLocked now d) = localAddr d"
  "active (recordRecoveryEvidenceLocked now d) = active d"
  "pending (recordRecoveryEvidenceLocked now d) = pending d"
  "pendingFlushTotal (recordRecoveryEvidenceLocked now d) = pendingFlushTotal d"
  "adjudicationsTotal (recordRecoveryEvidenceLocked now d) = adjudicationsTotal d"
  by (simp_all add: recordRecoveryEvidenceLocked_def updateExpvarsLocked_def Let_def)

lemma pruneActive_fields [simp]:
  "budgets (pruneActiveLocked now d) = budgets d"
  "currentEpoch (pruneActiveLocked now d) = currentEpoch d"
  "degraded (pruneActiveLocked now d) = degraded d"
  "recovery_st (pruneActiveLocked now d) = recovery_st d"
  "localAddr (pruneActiveLocked now d) = localAddr d"
  "pending (pruneActiveLocked now d) = pending d"
  "pendingFlushTotal (pruneActiveLocked now d) = pendingFlushTotal d"
  "adjudicationsTotal (pruneActiveLocked now d) = adjudicationsTotal d"
  "active (pruneActiveLocked now d) = filter (\<lambda>(h, a). ra_ExpiresAt a > now) (active d)"
  by (simp_all add: pruneActiveLocked_def Let_def)

section \<open>Lemmas: releasing expired entries\<close>

definition release_verdict :: "bool \<Rightarrow> uint64 \<Rightarrow> pendingPassiveFingerprint \<Rightarrow> AdjudicatedPassiveEvent" where
  "release_verdict deg epoch p =
     (if deg \<or> \<not> dedupFamilyPolicyAllowsRuntimeThirdParty (f_FamilyPolicy (pp_Fingerprint p))
      then adjudicateObservabilityOnly (pp_Event p) (pp_Fingerprint p) epoch
      else adjudicateUnmatchedThirdParty (pp_Event p) (pp_Fingerprint p) epoch)"

lemmas adjudicate_defs = adjudicateMatchedActiveDuplicate_def adjudicateUnmatchedThirdParty_def
  adjudicateObservabilityOnly_def adjudicateLocalParticipantInbound_def makeAdjudicatedDiscontinuity_def
  blank_adjudication_def

lemma adjudicate_event [simp]:
  "a_Event (adjudicateMatchedActiveDuplicate ev fp e) = ev"
  "a_Event (adjudicateUnmatchedThirdParty ev fp e) = ev"
  "a_Event (adjudicateObservabilityOnly ev fp e) = ev"
  "a_Event (adjudicateLocalParticipantInbound ev fp e) = ev"
  by (simp_all add: adjudicate_defs)

lemma adjudicate_disposition [simp]:
  "a_Disposition (adjudicateMatchedActiveDuplicate ev fp e) = DedupDispositionMatchedActiveCopy"
  "a_Disposition (adjudicateUnmatchedThirdParty ev fp e) = DedupDispositionUnmatchedThirdParty"
  "a_Disposition (adjudicateObservabilityOnly ev fp e) = DedupDispositionObservabilityOnly"
  "a_Disposition (adjudicateLocalParticipantInbound ev fp e) = DedupDispositionLocalParticipantIn"
  "a_Disposition (makeAdjudicatedDiscontinuity ev e) = DedupDispositionDiscontinuity"
  by (simp_all add: adjudicate_defs)

lemma adjudicate_matched [simp]:
  "a_MatchedActiveDuplicate (adjudicateMatchedActiveDuplicate ev fp e)"
  "\<not> a_MatchedActiveDuplicate (adjudicateUnmatchedThirdParty ev fp e)"
  "\<not> a_MatchedActiveDuplicate (adjudicateObservabilityOnly ev fp e)"
  "\<not> a_MatchedActiveDuplicate (adjudicateLocalParticipantInbound ev fp e)"
  "\<not> a_MatchedActiveDuplicate (makeAdjudicatedDiscontinuity ev e)"
  by (simp_all add: adjudicate_defs)

lemma adjudicate_third_party [simp]:
  "\<not> a_ThirdPartyEligible (adjudicateMatchedActiveDuplicate ev fp e)"
  "a_ThirdPartyEligible (adjudicateUnmatchedThirdParty ev fp e)"
  "\<not> a_ThirdPartyEligible (adjudicateObservabilityOnly ev fp e)"
  "\<not> a_ThirdPartyEligible (adjudicateLocalParticipantInbound ev fp e)"
  "\<not> a_ThirdPartyEligible (makeAdjudicatedDiscontinuity ev e)"
  by (simp_all add: adjudicate_defs)

lemma release_verdict_simps [simp]:
  "a_Event (release_verdict deg e p) = pp_Event p"
  "\<not> is_discontinuity (release_verdict deg e p)"
  "\<not> a_MatchedActiveDuplicate (release_verdict deg e p)"
  "a_ThirdPartyEligible (release_verdict deg e p) \<longleftrightarrow>
     \<not> deg \<and> dedupFamilyPolicyAllowsRuntimeThirdParty (f_FamilyPolicy (pp_Fingerprint p))"
  by (simp_all add: release_verdict_def is_discontinuity_def)

lemma release_as_output:
  "releasePendingAsOutputLocked p d =
     (count_adjudication (a_Disposition (release_verdict (degraded d) (currentEpoch d) p)) d,
      [release_verdict (degraded d) (currentEpoch d) p])"
  by (simp add: releasePendingAsOutputLocked_def release_verdict_def)

lemma count_disposition_simps [simp]:
  "count_disposition k [] = 0"
  "count_disposition k (a # as) = (if a_Disposition a = k then 1 else 0) + count_disposition k as"
  "count_disposition k (as @ bs) = count_disposition k as + count_disposition k bs"
  by (simp_all add: count_disposition_def)

abbreviation expired :: "int \<Rightarrow> pendingPassiveFingerprint \<Rightarrow> bool" where
  "expired now p \<equiv> pp_ReleaseAt p \<le> now"

lemma release_expired_loop_spec:
  fixes d :: ActivePassiveDeduplicator
  defines "verdict \<equiv> release_verdict (degraded d) (currentEpoch d)"
  shows "snd (release_expired_loop now ps next_ps outs d) = outs @ map verdict (filter (expired now) ps)"
    and "pending (fst (release_expired_loop now ps next_ps outs d)) = next_ps @ filter (\<lambda>p. \<not> expired now p) ps"
    and "adjudicationsTotal (fst (release_expired_loop now ps next_ps outs d)) k =
           adjudicationsTotal d k + of_nat (count_disposition k (map verdict (filter (expired now) ps)))"
    and "pendingFlushTotal (fst (release_expired_loop now ps next_ps outs d)) ''epoch_reset'' =
           pendingFlushTotal d ''epoch_reset''"
    and "budgets (fst (release_expired_loop now ps next_ps outs d)) = budgets d"
    and "currentEpoch (fst (release_expired_loop now ps next_ps outs d)) = currentEpoch d"
    and "degraded (fst (release_expired_loop now ps next_ps outs d)) = degraded d"
    and "recovery_st (fst (release_expired_loop now ps next_ps outs d)) = recovery_st d"
    and "localAddr (fst (release_expired_loop now ps next_ps outs d)) = localAddr d"
    and "active (fst (release_expired_loop now ps next_ps outs d)) = active d"
  unfolding verdict_def
  by (induction now ps next_ps outs d rule: release_expired_loop.induct)
     (simp_all add: release_as_output Let_def not_less)

lemma release_expired_spec:
  fixes d :: ActivePassiveDeduplicator
  defines "verdict \<equiv> release_verdict (degraded d) (currentEpoch d)"
  shows "snd (releaseExpiredPendingLocked now d) = map verdict (filter (expired now) (pending d))"
    and "pending (fst (releaseExpiredPendingLocked now d)) = filter (\<lambda>p. \<not> expired now p) (pending d)"
    and "adjudicationsTotal (fst (releaseExpiredPendingLocked now d)) k =
           adjudicationsTotal d k + of_nat (count_disposition k (map verdict (filter (expired now) (pending d))))"
    and "pendingFlushTotal (fst (releaseExpiredPendingLocked now d)) ''epoch_reset'' =
           pendingFlushTotal d ''epoch_reset''"
    and "budgets (fst (releaseExpiredPendingLocked now d)) = budgets d"
    and "currentEpoch (fst (releaseExpiredPendingLocked now d)) = currentEpoch d"
    and "degraded (fst (releaseExpiredPendingLocked now d)) = degraded d"
    and "recovery_st (fst (releaseExpiredPendingLocked now d)) = recovery_st d"
    and "localAddr (fst (releaseExpiredPendingLocked now d)) = localAddr d"
    and "active (fst (releaseExpiredPendingLocked now d)) = active d"
  unfolding verdict_def by (simp_all add: releaseExpiredPendingLocked_def release_expired_loop_spec)

text \<open>Both handlers begin by releasing what expired and pruning the active map.\<close>

definition refresh :: "int \<Rightarrow> ActivePassiveDeduplicator \<Rightarrow> ActivePassiveDeduplicator" where
  "refresh now d = pruneActiveLocked now (fst (releaseExpiredPendingLocked now d))"

lemma refresh_fields [simp]:
  "pending (refresh now d) = filter (\<lambda>p. \<not> expired now p) (pending d)"
  "active (refresh now d) = filter (\<lambda>(h, a). ra_ExpiresAt a > now) (active d)"
  "budgets (refresh now d) = budgets d"
  "currentEpoch (refresh now d) = currentEpoch d"
  "degraded (refresh now d) = degraded d"
  "recovery_st (refresh now d) = recovery_st d"
  "localAddr (refresh now d) = localAddr d"
  "pendingFlushTotal (refresh now d) ''epoch_reset'' = pendingFlushTotal d ''epoch_reset''"
  by (simp_all add: refresh_def release_expired_spec)

text \<open>After the release nothing is releasable at the same time, so the capacity loop never releases.\<close>

lemma oldest_scan_none: "list_all (\<lambda>p. \<not> expired now p) ps \<Longrightarrow> oldest_scan now i ps best = best"
  by (induction ps arbitrary: i) (auto simp: not_le)

lemma capacity_loop_refreshed:
  assumes "list_all (\<lambda>p. \<not> expired now p) (pending d)"
  shows "capacity_loop ev fp now d =
     (if int (length (pending d)) < PendingCapacity (budgets d) then ((d, []), False)
      else ((count_adjudication DedupDispositionObservabilityOnly (enterDegradedLocked ''pending_capacity'' d),
             [adjudicateObservabilityOnly ev fp (currentEpoch d)]), True))"
  using assms by (simp add: capacity_loop.simps[of ev fp now d] oldestReleasablePendingLocked_def oldest_scan_none)

section \<open>Lemmas: discontinuities, retaining and matching\<close>

lemma count_flush_fold [simp]:
  "pendingFlushTotal (foldl (\<lambda>d p. count_flush r d) d ps) r' =
     pendingFlushTotal d r' + (if r' = r then of_nat (length ps) else 0)"
  "pending (foldl (\<lambda>d p. count_flush r d) d ps) = pending d"
  "active (foldl (\<lambda>d p. count_flush r d) d ps) = active d"
  "budgets (foldl (\<lambda>d p. count_flush r d) d ps) = budgets d"
  "currentEpoch (foldl (\<lambda>d p. count_flush r d) d ps) = currentEpoch d"
  "degraded (foldl (\<lambda>d p. count_flush r d) d ps) = degraded d"
  "localAddr (foldl (\<lambda>d p. count_flush r d) d ps) = localAddr d"
  "adjudicationsTotal (foldl (\<lambda>d p. count_flush r d) d ps) = adjudicationsTotal d"
  by (induction ps arbitrary: d) simp_all

lemma discontinuity_fields [simp]:
  "pending (fst (makeDiscontinuityLocked t reason r d)) = []"
  "active (fst (makeDiscontinuityLocked t reason r d)) = []"
  "budgets (fst (makeDiscontinuityLocked t reason r d)) = budgets d"
  "currentEpoch (fst (makeDiscontinuityLocked t reason r d)) = currentEpoch d + 1"
  "degraded (fst (makeDiscontinuityLocked t reason r d))"
  "recovery_st (fst (makeDiscontinuityLocked t reason r d)) = zero_recovery"
  "localAddr (fst (makeDiscontinuityLocked t reason r d)) = localAddr d"
  "pendingFlushTotal (fst (makeDiscontinuityLocked t reason r d)) ''epoch_reset'' =
     pendingFlushTotal d ''epoch_reset'' + of_nat (length (pending d))"
  "adjudicationsTotal (fst (makeDiscontinuityLocked t reason r d)) =
     (adjudicationsTotal d)(DedupDispositionDiscontinuity := adjudicationsTotal d DedupDispositionDiscontinuity + 1)"
  "snd (makeDiscontinuityLocked t reason r d) =
     [makeAdjudicatedDiscontinuity (discontinuity_event t reason) (currentEpoch d + 1)]"
  by (simp_all add: makeDiscontinuityLocked_def Let_def)

lemma local_address_fields [simp]:
  "pending (fst (updateLocalAddressLocked a d)) = pending d"
  "active (fst (updateLocalAddressLocked a d)) = active d"
  "budgets (fst (updateLocalAddressLocked a d)) = budgets d"
  "currentEpoch (fst (updateLocalAddressLocked a d)) = currentEpoch d"
  "degraded (fst (updateLocalAddressLocked a d)) = degraded d"
  "recovery_st (fst (updateLocalAddressLocked a d)) = recovery_st d"
  "pendingFlushTotal (fst (updateLocalAddressLocked a d)) = pendingFlushTotal d"
  "adjudicationsTotal (fst (updateLocalAddressLocked a d)) = adjudicationsTotal d"
  by (simp_all add: updateLocalAddressLocked_def)

lemma consume_fields [simp]:
  "pending (fst (consumeActiveLocked h d)) = pending d"
  "budgets (fst (consumeActiveLocked h d)) = budgets d"
  "currentEpoch (fst (consumeActiveLocked h d)) = currentEpoch d"
  "degraded (fst (consumeActiveLocked h d)) = degraded d"
  "recovery_st (fst (consumeActiveLocked h d)) = recovery_st d"
  "localAddr (fst (consumeActiveLocked h d)) = localAddr d"
  "pendingFlushTotal (fst (consumeActiveLocked h d)) = pendingFlushTotal d"
  "adjudicationsTotal (fst (consumeActiveLocked h d)) = adjudicationsTotal d"
  by (simp_all add: consumeActiveLocked_def split: option.splits)

lemma consume_false: "\<not> snd (consumeActiveLocked h d) \<Longrightarrow> fst (consumeActiveLocked h d) = d"
  by (auto simp: consumeActiveLocked_def split: option.splits)

lemma retain_fields [simp]:
  "pending (retain_active fp now d) = pending d"
  "budgets (retain_active fp now d) = budgets d"
  "currentEpoch (retain_active fp now d) = currentEpoch d"
  "degraded (retain_active fp now d) = degraded d"
  "recovery_st (retain_active fp now d) = recovery_st d"
  "localAddr (retain_active fp now d) = localAddr d"
  "pendingFlushTotal (retain_active fp now d) = pendingFlushTotal d"
  "adjudicationsTotal (retain_active fp now d) = adjudicationsTotal d"
  by (simp_all add: retain_active_def Let_def)

lemma match_loop_matched:
  "match_loop act ps next_ps outs True d = (d\<lparr> pending := next_ps @ ps \<rparr>, outs)"
  by (induction ps arbitrary: next_ps) simp_all

lemma match_loop_none:
  "list_all (\<lambda>p. f_Hash (pp_Fingerprint p) \<noteq> f_Hash act) ps \<Longrightarrow>
   match_loop act ps next_ps outs matched d = (d\<lparr> pending := next_ps @ ps \<rparr>, outs)"
  by (induction ps arbitrary: next_ps) simp_all

lemma match_loop_hit:
  assumes "list_all (\<lambda>p. f_Hash (pp_Fingerprint p) \<noteq> f_Hash act) xs" "f_Hash (pp_Fingerprint p) = f_Hash act"
    and "pp_Epoch p = currentEpoch d" "f_Epoch (pp_Fingerprint p) = currentEpoch d"
  shows "match_loop act (xs @ p # ys) next_ps outs False d =
     ((fst (consumeActiveLocked (f_Hash act) (count_adjudication DedupDispositionMatchedActiveCopy d)))
        \<lparr> pending := next_ps @ xs @ ys \<rparr>,
      outs @ [adjudicateMatchedActiveDuplicate (pp_Event p) (pp_Fingerprint p) (currentEpoch d)])"
  using assms by (induction xs arbitrary: next_ps) (simp_all add: match_loop_matched)

text \<open>The two cases of a completed own transaction against the waiting passive events.\<close>

lemma match_pending_cases [consumes 1, case_names hit miss]:
  assumes "\<forall>p \<in> set (pending d). pp_Epoch p = currentEpoch d \<and> f_Epoch (pp_Fingerprint p) = currentEpoch d"
  obtains (hit) xs p ys where "pending d = xs @ p # ys" "f_Hash (pp_Fingerprint p) = f_Hash act"
      "matchPendingLocked act now d =
         (recordRecoveryEvidenceLocked now
            ((fst (consumeActiveLocked (f_Hash act) (count_adjudication DedupDispositionMatchedActiveCopy d)))
               \<lparr> pending := xs @ ys \<rparr>),
          [adjudicateMatchedActiveDuplicate (pp_Event p) (pp_Fingerprint p) (currentEpoch d)])"
  | (miss) "\<forall>p \<in> set (pending d). f_Hash (pp_Fingerprint p) \<noteq> f_Hash act"
      "matchPendingLocked act now d = (if pending d = [] then d else recordRecoveryEvidenceLocked now d, [])"
proof (cases "\<exists>p \<in> set (pending d). f_Hash (pp_Fingerprint p) = f_Hash act")
  case True
  then obtain xs p ys where split: "pending d = xs @ p # ys" "f_Hash (pp_Fingerprint p) = f_Hash act"
    "\<forall>q \<in> set xs. f_Hash (pp_Fingerprint q) \<noteq> f_Hash act"
    by (rule split_list_first_propE)
  then show ?thesis
    using assms by (intro hit) (simp_all add: matchPendingLocked_def match_loop_hit list_all_iff)
next
  case False
  then show ?thesis
    by (intro miss) (auto simp: matchPendingLocked_def match_loop_none list_all_iff)
qed

section \<open>Lemmas: well-formedness\<close>

lemma dedup_wf_cong:
  "active d' = active d \<Longrightarrow> pending d' = pending d \<Longrightarrow> currentEpoch d' = currentEpoch d \<Longrightarrow>
   budgets d' = budgets d \<Longrightarrow> dedup_wf d' = dedup_wf d"
  by (simp add: dedup_wf_def)

lemma dedup_wf_frame [simp]:
  "dedup_wf (count_adjudication k d) = dedup_wf d"
  "dedup_wf (count_flush r d) = dedup_wf d"
  "dedup_wf (enterDegradedLocked r d) = dedup_wf d"
  "dedup_wf (recordRecoveryEvidenceLocked now d) = dedup_wf d"
  "dedup_wf (fst (updateLocalAddressLocked a d)) = dedup_wf d"
  "dedup_wf (d\<lparr> localParticipantInboundTotal := n \<rparr>) = dedup_wf d"
  by (rule dedup_wf_cong; simp)+

lemma map_of_filter_values:
  assumes "distinct (map fst xs)"
  shows "map_of (filter (\<lambda>(h, a). P a) xs) k =
     (case map_of xs k of None \<Rightarrow> None | Some a \<Rightarrow> if P a then Some a else None)"
  using assms
proof (induction xs)
  case (Cons x xs)
  then have "map_of xs (fst x) = None" by (simp add: map_of_eq_None_iff image_iff)
  with Cons show ?case by (cases x) (auto split: option.splits)
qed simp

lemma prune_lookup:
  assumes "dedup_wf d"
  shows "map_of (filter (\<lambda>(h, a). ra_ExpiresAt a > now) (active d)) h =
     (case map_of (active d) h of None \<Rightarrow> None | Some a \<Rightarrow> if ra_ExpiresAt a > now then Some a else None)"
  using assms map_of_filter_values[of "active d" "\<lambda>a. ra_ExpiresAt a > now"] by (simp add: dedup_wf_def)

lemma int_filter_le: "int (length xs) \<le> n \<Longrightarrow> int (length (filter P xs)) \<le> n"
  by (meson length_filter_le of_nat_le_iff order_trans)

lemma wf_refresh [wf_keep]:
  assumes "dedup_wf d"
  shows "dedup_wf (refresh now d)"
  unfolding dedup_wf_def refresh_fields prune_lookup[OF assms]
proof (intro conjI allI ballI impI)
  show "distinct (map fst (filter (\<lambda>(h, a). ra_ExpiresAt a > now) (active d)))"
    using assms by (auto simp: dedup_wf_def intro: distinct_map_filter)
next
  show "int (length (filter (\<lambda>p. \<not> expired now p) (pending d))) \<le> PendingCapacity (budgets d)"
    using assms by (simp add: dedup_wf_def int_filter_le)
qed (use assms in \<open>auto simp: dedup_wf_def split: option.splits if_splits\<close>)

lemma wf_release [wf_keep]:
  assumes "dedup_wf d"
  shows "dedup_wf (fst (releaseExpiredPendingLocked now d))"
  using assms by (simp add: dedup_wf_def release_expired_spec int_filter_le)

lemma wf_clear [wf_keep]: "dedup_wf d \<Longrightarrow> dedup_wf (d\<lparr> active := [] \<rparr>)"
  by (simp add: dedup_wf_def)

lemma wf_discontinuity [wf_keep]: "dedup_wf d \<Longrightarrow> dedup_wf (fst (makeDiscontinuityLocked t reason r d))"
  by (simp add: dedup_wf_def)

lemma retain_lookup:
  "map_of (active (retain_active fp now d)) =
     (map_of (active d))(f_Hash fp \<mapsto>
        \<lparr> ra_Fingerprint = fp, ra_ExpiresAt = now + ActiveFingerprintRetention (budgets d),
          ra_Count = (case map_of (active d) (f_Hash fp) of None \<Rightarrow> 1 | Some a \<Rightarrow> ra_Count a + 1) \<rparr>)"
  by (auto simp: retain_active_def Let_def update_conv' split: option.splits)

lemma consume_lookup:
  "map_of (active (fst (consumeActiveLocked h d))) =
     (case map_of (active d) h of
        None \<Rightarrow> map_of (active d)
      | Some a \<Rightarrow> if ra_Count a \<le> 0 then map_of (active d)
                  else if ra_Count a = 1 then (map_of (active d))(h := None)
                  else (map_of (active d))(h \<mapsto> a\<lparr> ra_Count := ra_Count a - 1 \<rparr>))"
  by (auto simp: consumeActiveLocked_def update_conv' delete_conv' split: option.splits)

lemma active_keys_distinct:
  "distinct (map fst (active d)) \<Longrightarrow> distinct (map fst (active (retain_active fp now d)))"
  "distinct (map fst (active d)) \<Longrightarrow> distinct (map fst (active (fst (consumeActiveLocked h d))))"
  by (simp_all add: retain_active_def consumeActiveLocked_def Let_def distinct_update distinct_delete split: option.splits)

lemma wf_consume [wf_keep]:
  assumes "dedup_wf d"
  shows "dedup_wf (fst (consumeActiveLocked h d))"
  using assms active_keys_distinct(2)[of d h]
  by (auto simp: dedup_wf_def consume_lookup split: option.splits if_splits)

lemma retain_then_consume:
  assumes "dedup_wf d" "map_of (active d) (f_Hash fp) = None"
  shows "map_of (active (fst (consumeActiveLocked (f_Hash fp) (retain_active fp now d)))) = map_of (active d)"
  using assms by (auto simp: consume_lookup retain_lookup)

lemma consume_count [simp]: "consumeActiveLocked h (count_adjudication k d) =
   (count_adjudication k (fst (consumeActiveLocked h d)), snd (consumeActiveLocked h d))"
  by (simp add: consumeActiveLocked_def count_adjudication_def split: option.splits)

lemma wf_epochs:
  "dedup_wf d \<Longrightarrow>
   \<forall>p \<in> set (pending d). pp_Epoch p = currentEpoch d \<and> f_Epoch (pp_Fingerprint p) = currentEpoch d"
  by (simp add: dedup_wf_def)

lemma wf_match [wf_keep]:
  assumes "dedup_wf d"
  shows "dedup_wf (fst (matchPendingLocked fp now (retain_active fp now d)))"
proof -
  let ?d = "retain_active fp now d"
  have epochs: "\<forall>p \<in> set (pending ?d). pp_Epoch p = currentEpoch ?d \<and> f_Epoch (pp_Fingerprint p) = currentEpoch ?d"
    using assms by (simp add: dedup_wf_def)
  then show ?thesis
  proof (cases rule: match_pending_cases[where act = fp and now = now])
    case (hit xs p ys)
    let ?c = "fst (consumeActiveLocked (f_Hash fp) ?d)"
    have none: "map_of (active d) (f_Hash fp) = None" using assms hit(1,2) by (auto simp: dedup_wf_def)
    have lookup: "map_of (active ?c) = map_of (active d)" by (rule retain_then_consume[OF assms none])
    have "distinct (map fst (active ?c))" using assms by (simp add: active_keys_distinct dedup_wf_def)
    with assms hit(1) lookup have "dedup_wf (?c\<lparr> pending := xs @ ys \<rparr>)"
      by (auto simp: dedup_wf_def)
    moreover have "dedup_wf ((count_adjudication k ?c)\<lparr> pending := xs @ ys \<rparr>) =
        dedup_wf (?c\<lparr> pending := xs @ ys \<rparr>)" for k
      by (rule dedup_wf_cong) simp_all
    ultimately show ?thesis by (simp add: hit(3))
  next
    case miss
    have count: "(f_Hash fp, a) \<in> set (active d) \<Longrightarrow> 0 \<le> ra_Count a" for a
      using assms by (fastforce simp: dedup_wf_def)
    have "dedup_wf ?d"
      using assms miss(1)
      by (auto simp: dedup_wf_def retain_lookup active_keys_distinct count split: option.splits if_splits)
    then show ?thesis by (simp add: miss(2))
  qed
qed

lemma wf_success [wf_keep]:
  assumes "dedup_wf d"
  shows "dedup_wf (fst (handle_success C obs ev now d))"
  using assms
  by (auto simp: handle_success_def Let_def case_prod_beta wf_discontinuity wf_match split: option.splits)

lemma bus_event_refresh:
  "handleBusEvent C obs ev now d =
     (case be_Kind ev of
        BusEventObserverFault \<Rightarrow> (enterDegradedLocked ''observer_fault'' ((refresh now d)\<lparr> active := [] \<rparr>),
                                  snd (releaseExpiredPendingLocked now d))
      | BusEventOtherKind \<Rightarrow> (refresh now d, snd (releaseExpiredPendingLocked now d))
      | BusEventAttemptComplete \<Rightarrow>
          (if \<not> be_Success ev \<or> \<not> be_HasRequest ev then (refresh now d, snd (releaseExpiredPendingLocked now d))
           else (fst (handle_success C obs ev now (refresh now d)),
                 snd (releaseExpiredPendingLocked now d) @ snd (handle_success C obs ev now (refresh now d)))))"
  by (cases "be_Kind ev") (auto simp: handleBusEvent_def refresh_def Let_def case_prod_beta)

lemma wf_bus_event [wf_keep]: "dedup_wf d \<Longrightarrow> dedup_wf (fst (handleBusEvent C obs ev now d))"
  by (auto simp: bus_event_refresh wf_refresh wf_clear wf_success split: BusEventKind.splits)

lemma passive_event_refresh:
  "handlePassiveEvent C obs ev now d =
     (let r = refresh now d; outs = snd (releaseExpiredPendingLocked now d);
          rest = (case pe_Kind ev of
            PassiveClassifiedEventDiscontinuity \<Rightarrow>
              makeDiscontinuityLocked now (pe_DiscontinuityReason ev) ''passive_epoch_boundary'' r
          | PassiveClassifiedEventBroadcastFrame \<Rightarrow> (recordRecoveryEvidenceLocked now r, [])
          | _ \<Rightarrow> (let (fp, matchEligible, disposition) = buildPassiveFingerprintLocked C obs r ev now in
                  if \<not> matchEligible then publishImmediateLocked ev fp disposition r
                  else handle_eligible ev fp now r)) in
      (fst rest, outs @ snd rest))"
  by (cases "pe_Kind ev") (auto simp: handlePassiveEvent_def refresh_def Let_def case_prod_beta)

lemma publish_immediate_fields [simp]:
  "pending (fst (publishImmediateLocked ev fp k d)) = pending d"
  "active (fst (publishImmediateLocked ev fp k d)) = active d"
  "budgets (fst (publishImmediateLocked ev fp k d)) = budgets d"
  "currentEpoch (fst (publishImmediateLocked ev fp k d)) = currentEpoch d"
  "degraded (fst (publishImmediateLocked ev fp k d)) = degraded d"
  "recovery_st (fst (publishImmediateLocked ev fp k d)) = recovery_st d"
  "pendingFlushTotal (fst (publishImmediateLocked ev fp k d)) = pendingFlushTotal d"
  by (simp_all add: publishImmediateLocked_def split: DedupDisposition.splits)

lemma publish_immediate_wf [simp]: "dedup_wf (fst (publishImmediateLocked ev fp k d)) = dedup_wf d"
  by (rule dedup_wf_cong) simp_all

text \<open>The three fates of an event that may match: matched at once, refused at the capacity, or waiting.\<close>

definition wait_entry ::
  "PassiveClassifiedEvent \<Rightarrow> PassiveTransactionFingerprint \<Rightarrow> int \<Rightarrow> ActivePassiveDeduplicator \<Rightarrow> pendingPassiveFingerprint" where
  "wait_entry ev fp now d =
     \<lparr> pp_Event = ev, pp_Fingerprint = fp, pp_InsertedAt = now,
       pp_ReleaseAt = now + PendingGraceTimeout (budgets d), pp_Epoch = currentEpoch d \<rparr>"

lemma handle_eligible_cases:
  assumes "list_all (\<lambda>p. \<not> expired now p) (pending d)"
  shows "handle_eligible ev fp now d =
     (if snd (consumeActiveLocked (f_Hash fp) d)
      then (recordRecoveryEvidenceLocked now
              (count_adjudication DedupDispositionMatchedActiveCopy (fst (consumeActiveLocked (f_Hash fp) d))),
            [adjudicateMatchedActiveDuplicate ev fp (currentEpoch d)])
      else if int (length (pending d)) < PendingCapacity (budgets d)
      then (recordRecoveryEvidenceLocked now (d\<lparr> pending := pending d @ [wait_entry ev fp now d] \<rparr>), [])
      else (count_adjudication DedupDispositionObservabilityOnly (enterDegradedLocked ''pending_capacity'' d),
            [adjudicateObservabilityOnly ev fp (currentEpoch d)]))"
  using assms
  by (auto simp: handle_eligible_def Let_def case_prod_beta capacity_loop_refreshed consume_false wait_entry_def)

lemma consume_true_iff:
  "dedup_wf d \<Longrightarrow> snd (consumeActiveLocked h d) \<longleftrightarrow> map_of (active d) h \<noteq> None"
  by (fastforce simp: consumeActiveLocked_def dedup_wf_def split: option.splits)

lemma wf_eligible [wf_keep]:
  assumes "dedup_wf d" "list_all (\<lambda>p. \<not> expired now p) (pending d)" "f_Epoch fp = currentEpoch d"
  shows "dedup_wf (fst (handle_eligible ev fp now d))"
proof -
  have "dedup_wf (d\<lparr> pending := pending d @ [wait_entry ev fp now d] \<rparr>)"
    if "\<not> snd (consumeActiveLocked (f_Hash fp) d)" "int (length (pending d)) < PendingCapacity (budgets d)"
  proof -
    have "map_of (active d) (f_Hash fp) = None" using that(1) consume_true_iff[OF assms(1)] by simp
    with assms(1,3) that(2) show ?thesis by (simp add: dedup_wf_def wait_entry_def)
  qed
  with assms show ?thesis by (simp add: handle_eligible_cases wf_consume)
qed

lemma refresh_not_expired [simp]: "list_all (\<lambda>p. \<not> expired now p) (pending (refresh now d))"
  by (simp add: list_all_iff)

lemma passive_fingerprint_epoch [simp]: "f_Epoch (passive_fingerprint C obs d ev now) = currentEpoch d"
  by (simp add: passive_fingerprint_def Let_def)

lemma build_passive:
  obtains el k where "buildPassiveFingerprintLocked C obs d ev now = (passive_fingerprint C obs d ev now, el, k)"
    "k \<noteq> DedupDispositionUnmatchedThirdParty"
  by (cases "buildPassiveFingerprintLocked C obs d ev now")
     (auto simp: buildPassiveFingerprintLocked_def Let_def split: if_splits)

lemma wf_passive_event [wf_keep]:
  assumes "dedup_wf d"
  shows "dedup_wf (fst (handlePassiveEvent C obs ev now d))"
proof -
  obtain el k where "buildPassiveFingerprintLocked C obs (refresh now d) ev now =
      (passive_fingerprint C obs (refresh now d) ev now, el, k)"
    by (rule build_passive)
  then show ?thesis
    using wf_refresh[OF assms, of now]
    by (cases "pe_Kind ev"; cases el)
       (simp_all add: passive_event_refresh Let_def wf_discontinuity wf_eligible del: refresh_fields(1))
qed

interpretation dedup_machine: kept_invariant "\<lambda>d op. fst (dedup_step C d op)" dedup_wf for C
proof
  fix d op
  assume "dedup_wf d"
  then show "dedup_wf (fst (dedup_step C d op))"
    by (cases op) (simp_all add: wf_bus_event wf_passive_event wf_release wf_discontinuity OnPassiveClassifiedEvent_def Let_def)
qed

section \<open>Lemmas: conservation of passive events\<close>

text \<open>
  What a step does with the events: those waiting before and the new ones are decided, still
  waiting, or flushed by a new epoch; the counters agree.
\<close>

definition moves :: "ActivePassiveDeduplicator \<Rightarrow> PassiveClassifiedEvent multiset \<Rightarrow> dedup_result \<Rightarrow> bool" where
  "moves d new r \<longleftrightarrow>
     (\<exists>flushed. waiting d + new = decided (snd r) + waiting (fst r) + flushed \<and>
        pendingFlushTotal (fst r) ''epoch_reset'' = pendingFlushTotal d ''epoch_reset'' + of_nat (size flushed) \<and>
        ((\<forall>a \<in> set (snd r). \<not> is_discontinuity a) \<longrightarrow> flushed = {#})) \<and>
     (\<forall>k. adjudicationsTotal (fst r) k = adjudicationsTotal d k + of_nat (count_disposition k (snd r)))"

lemma movesI:
  assumes "waiting d + new = decided outs + waiting d'"
    and "pendingFlushTotal d' ''epoch_reset'' = pendingFlushTotal d ''epoch_reset''"
    and "\<And>k. adjudicationsTotal d' k = adjudicationsTotal d k + of_nat (count_disposition k outs)"
  shows "moves d new (d', outs)"
  using assms unfolding moves_def by (intro conjI exI[of _ "{#}"]) simp_all

lemma decided_append [simp]: "decided (xs @ ys) = decided xs + decided ys"
  by (simp add: decided_def)

lemma decided_simps [simp]:
  "decided [] = {#}"
  "decided [a] = (if is_discontinuity a then {#} else {#a_Event a#})"
  by (simp_all add: decided_def)

lemma moves_trans:
  assumes "moves d xs (d1, o1)" "moves d1 ys (d2, o2)"
  shows "moves d (xs + ys) (d2, o1 @ o2)"
proof -
  obtain f1 where f1: "waiting d + xs = decided o1 + waiting d1 + f1"
    "pendingFlushTotal d1 ''epoch_reset'' = pendingFlushTotal d ''epoch_reset'' + of_nat (size f1)"
    "(\<forall>a \<in> set o1. \<not> is_discontinuity a) \<longrightarrow> f1 = {#}"
    using assms(1) by (auto simp: moves_def)
  obtain f2 where f2: "waiting d1 + ys = decided o2 + waiting d2 + f2"
    "pendingFlushTotal d2 ''epoch_reset'' = pendingFlushTotal d1 ''epoch_reset'' + of_nat (size f2)"
    "(\<forall>a \<in> set o2. \<not> is_discontinuity a) \<longrightarrow> f2 = {#}"
    using assms(2) by (auto simp: moves_def)
  have "waiting d + (xs + ys) = decided o1 + (waiting d1 + ys) + f1"
    using f1(1) by (metis (no_types, lifting) add.assoc add.commute)
  also have "\<dots> = decided (o1 @ o2) + waiting d2 + (f1 + f2)"
    unfolding f2(1) by (simp add: ac_simps)
  finally have eq: "waiting d + (xs + ys) = decided (o1 @ o2) + waiting d2 + (f1 + f2)" .
  show ?thesis unfolding moves_def fst_conv snd_conv
  proof (intro conjI exI[of _ "f1 + f2"] allI)
    show "pendingFlushTotal d2 ''epoch_reset'' = pendingFlushTotal d ''epoch_reset'' + of_nat (size (f1 + f2))"
      using f1(2) f2(2) by simp
    show "(\<forall>a \<in> set (o1 @ o2). \<not> is_discontinuity a) \<longrightarrow> f1 + f2 = {#}" using f1(3) f2(3) by auto
    show "adjudicationsTotal d2 k = adjudicationsTotal d k + of_nat (count_disposition k (o1 @ o2))" for k
      using assms by (simp add: moves_def)
  qed (rule eq)
qed

lemma moves_frame:
  assumes "moves d new (d1, outs)" "pending d2 = pending d1" "pendingFlushTotal d2 = pendingFlushTotal d1"
    "adjudicationsTotal d2 = adjudicationsTotal d1"
  shows "moves d new (d2, outs)"
  using assms by (simp add: moves_def waiting_def)

lemma moves_start:
  assumes "moves d1 new r" "pending d1 = pending d" "pendingFlushTotal d1 = pendingFlushTotal d"
    "adjudicationsTotal d1 = adjudicationsTotal d"
  shows "moves d new r"
  using assms by (simp add: moves_def waiting_def)

lemma moves_none [simp]: "moves d {#} (d, [])"
  by (rule movesI) simp_all

lemma moves_release: "moves d {#} (releaseExpiredPendingLocked now d)"
proof -
  let ?r = "releaseExpiredPendingLocked now d"
  have "filter (\<lambda>a. \<not> is_discontinuity a) (map (release_verdict g e) ps) = map (release_verdict g e) ps" for g e ps
    by (induction ps) simp_all
  moreover have "a_Event \<circ> release_verdict g e = pp_Event" for g e by auto
  ultimately have "decided (snd ?r) = mset (map pp_Event (filter (expired now) (pending d)))"
    by (simp add: decided_def release_expired_spec)
  moreover have "waiting d = image_mset pp_Event (mset (filter (expired now) (pending d))) +
      image_mset pp_Event (mset (filter (\<lambda>p. \<not> expired now p) (pending d)))"
    by (simp add: waiting_def flip: image_mset_union multiset_partition)
  ultimately have "moves d {#} (fst ?r, snd ?r)"
    by (intro movesI) (simp_all add: release_expired_spec waiting_def)
  then show ?thesis by simp
qed

lemma moves_discontinuity: "moves d {#} (makeDiscontinuityLocked t reason r d)"
  unfolding moves_def
  by (intro conjI exI[of _ "waiting d"]) (simp_all add: waiting_def is_discontinuity_def)

lemma moves_match:
  assumes "dedup_wf d"
  shows "moves d {#} (matchPendingLocked fp now (retain_active fp now d))"
proof -
  let ?d = "retain_active fp now d"
  have "\<forall>p \<in> set (pending ?d). pp_Epoch p = currentEpoch ?d \<and> f_Epoch (pp_Fingerprint p) = currentEpoch ?d"
    using assms by (simp add: dedup_wf_def)
  then show ?thesis
  proof (cases rule: match_pending_cases[where act = fp and now = now])
    case (hit xs p ys)
    then show ?thesis by (auto intro!: movesI simp: waiting_def is_discontinuity_def)
  next
    case miss
    then show ?thesis by (auto intro!: movesI simp: waiting_def)
  qed
qed

lemma moves_success:
  assumes "dedup_wf d"
  shows "moves d {#} (handle_success C obs ev now d)"
proof -
  let ?u = "updateLocalAddressLocked (Source (be_Request ev)) d"
  let ?a = "if snd ?u then makeDiscontinuityLocked now PassiveDiscontinuityTransportReset ''local_address_epoch'' (fst ?u)
            else (fst ?u, [])"
  have u: "moves d {#} (fst ?a, snd ?a)"
    using moves_start[OF moves_discontinuity, of "fst ?u" d] moves_start[OF moves_none, of "fst ?u" d] by simp
  have wf: "dedup_wf (fst ?a)" using assms by (simp add: wf_discontinuity)
  show ?thesis
  proof (cases "buildActiveFingerprint C obs (currentEpoch (fst ?a)) ev now")
    case None
    have "handle_success C obs ev now d = (enterDegradedLocked ''active_fingerprint_build'' (fst ?a), snd ?a)"
      using None by (simp add: handle_success_def Let_def case_prod_beta)
    then show ?thesis using moves_frame[OF u] by simp
  next
    case (Some fp)
    let ?m = "matchPendingLocked fp now (retain_active fp now (fst ?a))"
    have eq: "handle_success C obs ev now d = (recordRecoveryEvidenceLocked now (fst ?m), snd ?a @ snd ?m)"
      using Some by (simp add: handle_success_def Let_def case_prod_beta)
    have "moves (fst ?a) {#} (fst ?m, snd ?m)" using moves_match[OF wf] by simp
    from moves_frame[OF moves_trans[OF u this]] show ?thesis unfolding eq by simp
  qed
qed

lemma moves_refresh: "moves d {#} (refresh now d, snd (releaseExpiredPendingLocked now d))"
proof -
  have "moves d {#} (fst (releaseExpiredPendingLocked now d), snd (releaseExpiredPendingLocked now d))"
    using moves_release by simp
  then show ?thesis by (rule moves_frame) (simp_all add: refresh_def)
qed

lemma moves_bus_event:
  assumes "dedup_wf d"
  shows "moves d {#} (handleBusEvent C obs ev now d)"
proof (cases "be_Kind ev = BusEventAttemptComplete \<and> be_Success ev \<and> be_HasRequest ev")
  case True
  have "moves (refresh now d) {#} (fst (handle_success C obs ev now (refresh now d)),
      snd (handle_success C obs ev now (refresh now d)))"
    using moves_success[OF wf_refresh[OF assms]] by simp
  from moves_trans[OF moves_refresh this] show ?thesis using True by (simp add: bus_event_refresh)
next
  case False
  then show ?thesis
    using moves_refresh[of d now] moves_frame[OF moves_refresh, of _ now d]
    by (cases "be_Kind ev") (auto simp: bus_event_refresh)
qed

lemma moves_immediate: "moves d {#ev#} (publishImmediateLocked ev fp k d)"
  by (cases k) (auto intro!: movesI simp: publishImmediateLocked_def waiting_def is_discontinuity_def)

lemma moves_eligible:
  "list_all (\<lambda>p. \<not> expired now p) (pending d) \<Longrightarrow> moves d {#ev#} (handle_eligible ev fp now d)"
  by (auto intro!: movesI simp: handle_eligible_cases waiting_def wait_entry_def is_discontinuity_def)

lemma moves_passive_event:
  assumes "dedup_wf d"
  shows "moves d (if adjudicable ev then {#ev#} else {#}) (handlePassiveEvent C obs ev now d)"
proof -
  obtain el k where b: "buildPassiveFingerprintLocked C obs (refresh now d) ev now =
      (passive_fingerprint C obs (refresh now d) ev now, el, k)"
    by (rule build_passive)
  define rest where "rest = (case pe_Kind ev of
            PassiveClassifiedEventDiscontinuity \<Rightarrow>
              makeDiscontinuityLocked now (pe_DiscontinuityReason ev) ''passive_epoch_boundary'' (refresh now d)
          | PassiveClassifiedEventBroadcastFrame \<Rightarrow> (recordRecoveryEvidenceLocked now (refresh now d), [])
          | _ \<Rightarrow> (let (fp, matchEligible, disposition) = buildPassiveFingerprintLocked C obs (refresh now d) ev now in
                  if \<not> matchEligible then publishImmediateLocked ev fp disposition (refresh now d)
                  else handle_eligible ev fp now (refresh now d)))"
  have "moves (refresh now d) (if adjudicable ev then {#ev#} else {#}) rest"
    using moves_discontinuity moves_immediate moves_eligible[OF refresh_not_expired]
      moves_frame[OF moves_none, of _ "refresh now d"]
    by (cases "pe_Kind ev"; cases el) (simp_all add: rest_def b adjudicable_def del: refresh_fields)
  then have "moves (refresh now d) (if adjudicable ev then {#ev#} else {#}) (fst rest, snd rest)" by simp
  from moves_trans[OF moves_refresh this] show ?thesis
    by (simp add: passive_event_refresh Let_def flip: rest_def)
qed

lemma on_passive_stamped:
  "OnPassiveClassifiedEvent C obs clock ev d =
     handlePassiveEvent C obs (stamped clock ev) (pe_ObservedAt (stamped clock ev)) d"
  by (simp add: OnPassiveClassifiedEvent_def stamped_def)

lemma adjudicable_stamped [simp]: "adjudicable (stamped clock ev) = adjudicable ev"
  by (simp add: adjudicable_def stamped_def)

lemma moves_step:
  assumes "dedup_wf d"
  shows "moves d (mset (submitted op)) (dedup_step C d op)"
proof (cases op)
  case (PassiveOp obs clock ev)
  with moves_passive_event[OF assms, of "stamped clock ev" C obs] show ?thesis
    by (cases "adjudicable ev") (simp_all add: on_passive_stamped)
qed (simp_all add: assms moves_bus_event moves_release moves_discontinuity)

lemma moves_run:
  assumes "dedup_wf d"
  shows "moves d (mset (concat (map submitted ops)))
           (fst (run (dedup_step C) d ops), concat (snd (run (dedup_step C) d ops)))"
  using assms
proof (induction ops arbitrary: d)
  case (Cons op ops)
  have "moves d (mset (submitted op)) (fst (dedup_step C d op), snd (dedup_step C d op))"
    using moves_step[OF Cons.prems] by simp
  from moves_trans[OF this Cons.IH[OF dedup_machine.step_keeps[OF Cons.prems]]] show ?case by simp
qed simp

section \<open>Lemmas: one match per own transaction\<close>

lemma matched_copies_simps [simp]:
  "matched_copies h [] = 0"
  "matched_copies h (xs @ ys) = matched_copies h xs + matched_copies h ys"
  "\<not> a_MatchedActiveDuplicate a \<Longrightarrow> matched_copies h [a] = 0"
  "matched_copies h [adjudicateMatchedActiveDuplicate ev fp e] = (if f_Hash fp = h then 1 else 0)"
  by (simp_all add: matched_copies_def adjudicateMatchedActiveDuplicate_def blank_adjudication_def)

lemma matched_copies_release [simp]: "matched_copies h (map (release_verdict g e) ps) = 0"
  by (induction ps) (simp_all add: matched_copies_def)

lemma retained_cong: "map_of (active d') = map_of (active d) \<Longrightarrow> retained d' h = retained d h"
  by (simp add: retained_def)

lemma retained_frame [simp]:
  "retained (count_adjudication k d) h = retained d h"
  "retained (enterDegradedLocked r d) h = retained d h"
  "retained (recordRecoveryEvidenceLocked now d) h = retained d h"
  "retained (fst (updateLocalAddressLocked a d)) h = retained d h"
  "retained (fst (publishImmediateLocked ev fp k d)) h = retained d h"
  "retained (d\<lparr> pending := ps \<rparr>) h = retained d h"
  "retained (d\<lparr> active := [] \<rparr>) h = 0"
  "retained (fst (makeDiscontinuityLocked t reason r d)) h = 0"
  "retained (fst (releaseExpiredPendingLocked now d)) h = retained d h"
  by (simp_all add: retained_def release_expired_spec)

lemma retained_refresh: "dedup_wf d \<Longrightarrow> retained (refresh now d) h \<le> retained d h"
  by (simp add: retained_def prune_lookup split: option.splits)

lemma retained_retain:
  "dedup_wf d \<Longrightarrow> retained (retain_active fp now d) h = retained d h + (if h = f_Hash fp then 1 else 0)"
proof -
  assume wf: "dedup_wf d"
  have "map_of (active d) h = Some a \<Longrightarrow> 0 < ra_Count a" for a using wf by (auto simp: dedup_wf_def)
  then show ?thesis
    by (cases "map_of (active d) h") (auto simp: retained_def retain_lookup nat_add_distrib)
qed

lemma retained_consume:
  assumes "dedup_wf d" "snd (consumeActiveLocked h d)"
  shows "retained (fst (consumeActiveLocked h d)) h' + (if h' = h then 1 else 0) = retained d h'"
proof -
  obtain a where a: "map_of (active d) h = Some a" using assms consume_true_iff by auto
  then have "0 < ra_Count a" using assms(1) by (auto simp: dedup_wf_def)
  with a show ?thesis by (auto simp: retained_def consume_lookup)
qed

lemma budget_match:
  assumes "dedup_wf d"
  shows "matched_copies h (snd (matchPendingLocked fp now (retain_active fp now d))) +
           retained (fst (matchPendingLocked fp now (retain_active fp now d))) h
         = retained d h + (if h = f_Hash fp then 1 else 0)"
proof -
  let ?d = "retain_active fp now d"
  have "\<forall>p \<in> set (pending ?d). pp_Epoch p = currentEpoch ?d \<and> f_Epoch (pp_Fingerprint p) = currentEpoch ?d"
    using assms by (simp add: dedup_wf_def)
  then show ?thesis
  proof (cases rule: match_pending_cases[where act = fp and now = now])
    case (hit xs p ys)
    have none: "map_of (active d) (f_Hash fp) = None" using assms hit(1,2) by (auto simp: dedup_wf_def)
    have "retained (fst (consumeActiveLocked (f_Hash fp) ?d)) h = retained d h"
      by (rule retained_cong) (rule retain_then_consume[OF assms none])
    with hit(2) show ?thesis unfolding hit(3) by auto
  next
    case miss
    then show ?thesis using retained_retain[OF assms] by simp
  qed
qed

lemma active_digest_of:
  "map_option f_Hash (buildActiveFingerprint C obs e ev t) = active_digest C ev"
  by (simp add: active_digest_def buildActiveFingerprint_def Let_def split: FrameType.splits)

lemma budget_success:
  assumes "dedup_wf d"
  shows "matched_copies h (snd (handle_success C obs ev now d)) + retained (fst (handle_success C obs ev now d)) h
         \<le> retained d h + (if active_digest C ev = Some h then 1 else 0)"
proof -
  let ?u = "updateLocalAddressLocked (Source (be_Request ev)) d"
  let ?a = "if snd ?u then makeDiscontinuityLocked now PassiveDiscontinuityTransportReset ''local_address_epoch'' (fst ?u)
            else (fst ?u, [])"
  have a: "retained (fst ?a) h \<le> retained d h" "matched_copies h (snd ?a) = 0" by simp_all
  have wf: "dedup_wf (fst ?a)" using assms by (simp add: wf_discontinuity)
  show ?thesis
  proof (cases "buildActiveFingerprint C obs (currentEpoch (fst ?a)) ev now")
    case None
    then have "handle_success C obs ev now d = (enterDegradedLocked ''active_fingerprint_build'' (fst ?a), snd ?a)"
      by (simp add: handle_success_def Let_def case_prod_beta)
    with a show ?thesis by simp
  next
    case (Some fp)
    let ?m = "matchPendingLocked fp now (retain_active fp now (fst ?a))"
    have "handle_success C obs ev now d = (recordRecoveryEvidenceLocked now (fst ?m), snd ?a @ snd ?m)"
      using Some by (simp add: handle_success_def Let_def case_prod_beta)
    moreover have "active_digest C ev = Some (f_Hash fp)"
      using active_digest_of[of C obs "currentEpoch (fst ?a)" ev now] by (simp add: Some)
    ultimately show ?thesis using a budget_match[OF wf, of h fp now] by simp
  qed
qed

lemma budget_eligible:
  assumes "dedup_wf d" "list_all (\<lambda>p. \<not> expired now p) (pending d)"
  shows "matched_copies h (snd (handle_eligible ev fp now d)) + retained (fst (handle_eligible ev fp now d)) h \<le> retained d h"
  using assms retained_consume[OF assms(1), of "f_Hash fp" h] by (auto simp: handle_eligible_cases)

lemma matched_immediate: "matched_copies h (snd (publishImmediateLocked ev fp k d)) = 0"
  by (cases k) (simp_all add: publishImmediateLocked_def)

lemma budget_step:
  assumes "dedup_wf d"
  shows "matched_copies h (snd (dedup_step C d op)) + retained (fst (dedup_step C d op)) h
         \<le> retained d h + completed C h op"
proof (cases op)
  case (BusOp obs ev now)
  have rel: "matched_copies h (snd (releaseExpiredPendingLocked now d)) = 0" by (simp add: release_expired_spec)
  show ?thesis
  proof (cases "be_Kind ev = BusEventAttemptComplete \<and> be_Success ev \<and> be_HasRequest ev")
    case True
    with rel budget_success[OF wf_refresh[OF assms], of h C obs ev now now] retained_refresh[OF assms, of now h]
    show ?thesis by (simp add: BusOp bus_event_refresh)
  next
    case False
    with rel retained_refresh[OF assms, of now h] show ?thesis
      by (cases "be_Kind ev") (auto simp: BusOp bus_event_refresh)
  qed
next
  case (PassiveOp obs clock ev0)
  define ev now where "ev = stamped clock ev0" and "now = pe_ObservedAt (stamped clock ev0)"
  have rel: "matched_copies h (snd (releaseExpiredPendingLocked now d)) = 0" by (simp add: release_expired_spec)
  obtain el k where b: "buildPassiveFingerprintLocked C obs (refresh now d) ev now =
      (passive_fingerprint C obs (refresh now d) ev now, el, k)"
    by (rule build_passive)
  have "matched_copies h (snd (handlePassiveEvent C obs ev now d)) + retained (fst (handlePassiveEvent C obs ev now d)) h
        \<le> retained (refresh now d) h"
    using rel budget_eligible[OF wf_refresh[OF assms] refresh_not_expired, of h ev _ now]
    by (cases "pe_Kind ev"; cases el)
       (simp_all add: passive_event_refresh Let_def b matched_immediate del: refresh_fields)
  also have "\<dots> \<le> retained d h" by (rule retained_refresh[OF assms])
  finally show ?thesis by (simp add: PassiveOp on_passive_stamped ev_def now_def)
qed (simp_all add: release_expired_spec(1))

lemma budget_run:
  "dedup_wf d \<Longrightarrow>
   matched_copies h (concat (snd (run (dedup_step C) d ops))) + retained (fst (run (dedup_step C) d ops)) h
     \<le> retained d h + sum_list (map (completed C h) ops)"
proof (induction ops arbitrary: d)
  case (Cons op ops)
  from Cons.IH[OF dedup_machine.step_keeps[OF Cons.prems], of C op] budget_step[OF Cons.prems, of h C op]
  show ?case by simp
qed simp

section \<open>Lemmas: third-party events\<close>

fun op_time :: "dedup_op \<Rightarrow> int" where
  "op_time (BusOp obs ev now) = now"
| "op_time (PassiveOp obs clock ev) = pe_ObservedAt (stamped clock ev)"
| "op_time (ExpiryOp now) = now"
| "op_time (ResetOp observedAt reason degradeReason) = observedAt"

lemma no_third_party:
  "a \<in> set (snd (matchPendingLocked fp now d)) \<Longrightarrow> \<not> a_ThirdPartyEligible a"
  "k \<noteq> DedupDispositionUnmatchedThirdParty \<Longrightarrow> a \<in> set (snd (publishImmediateLocked ev fp k d)) \<Longrightarrow> \<not> a_ThirdPartyEligible a"
proof -
  have "\<forall>a \<in> set outs. \<not> a_ThirdPartyEligible a \<Longrightarrow>
      \<forall>a \<in> set (snd (match_loop fp ps next_ps outs m d)). \<not> a_ThirdPartyEligible a" for ps next_ps outs m d
    by (induction fp ps next_ps outs m d rule: match_loop.induct) (auto simp: Let_def)
  from this[of "[]" "pending d" "[]" False d]
  show "a \<in> set (snd (matchPendingLocked fp now d)) \<Longrightarrow> \<not> a_ThirdPartyEligible a"
    by (auto simp: matchPendingLocked_def case_prod_beta split: if_splits)
qed (cases k; auto simp: publishImmediateLocked_def)+

lemma no_third_party_success: "a \<in> set (snd (handle_success C obs ev now d)) \<Longrightarrow> \<not> a_ThirdPartyEligible a"
  by (auto simp: handle_success_def Let_def case_prod_beta no_third_party split: option.splits if_splits)

lemma third_party_step:
  assumes "a \<in> set (snd (dedup_step C d op))" "a_ThirdPartyEligible a"
  shows "a \<in> set (snd (releaseExpiredPendingLocked (op_time op) d))"
proof (cases op)
  case (BusOp obs ev now)
  with assms show ?thesis
    by (auto simp: bus_event_refresh no_third_party_success split: BusEventKind.splits if_splits)
next
  case (PassiveOp obs clock ev0)
  define ev now where "ev = stamped clock ev0" and "now = pe_ObservedAt (stamped clock ev0)"
  obtain el k where b: "buildPassiveFingerprintLocked C obs (refresh now d) ev now =
      (passive_fingerprint C obs (refresh now d) ev now, el, k)" "k \<noteq> DedupDispositionUnmatchedThirdParty"
    by (rule build_passive)
  have "a \<in> set (snd (handlePassiveEvent C obs ev now d))"
    using assms(1) by (simp add: PassiveOp on_passive_stamped ev_def now_def)
  then have "a \<in> set (snd (releaseExpiredPendingLocked now d))"
    using assms(2) b
    by (cases "pe_Kind ev"; cases el)
       (auto simp: passive_event_refresh Let_def no_third_party handle_eligible_cases[OF refresh_not_expired]
         split: if_splits)
  then show ?thesis by (simp add: PassiveOp now_def)
qed (use assms in auto)

section \<open>Lemmas: construction and budgets\<close>

lemma wrap64_id: "- (2 ^ 63) \<le> x \<Longrightarrow> x < 2 ^ 63 \<Longrightarrow> wrap64 x = x"
  by (simp add: wrap64_def)

lemma new_dedup_inv:
  assumes "NewActivePassiveDeduplicator env cfg snapshot = Inr d"
  obtains required where "deriveDedupTimingBudgets env = Inr required"
    "LogicalRequestEnvelope (budgets d) = LogicalRequestEnvelope required"
    "ActivePublishBudget required \<le> ActivePublishBudget (budgets d)"
    "PendingGraceTimeout required \<le> PendingGraceTimeout (budgets d)"
    "ActiveFingerprintRetention required \<le> ActiveFingerprintRetention (budgets d)"
    "PendingCapacity required \<le> PendingCapacity (budgets d)"
    "PassiveDeliveryBudget required \<le> PassiveDeliveryBudget (budgets d)"
    "active d = []" "pending d = []" "degraded d" "currentEpoch d = 1" "recovery_st d = zero_recovery"
    "pendingFlushTotal d = (\<lambda>_. 0)" "adjudicationsTotal d = (\<lambda>_. 0)"
  using assms
  by (auto simp: NewActivePassiveDeduplicator_def Let_def updateExpvarsLocked_def split: sum.splits if_splits)

lemma required_capacity: "deriveDedupTimingBudgets env = Inr b \<Longrightarrow> PendingCapacity b = 256"
  by (auto simp: deriveDedupTimingBudgets_def Let_def dedup_budget_defs split: if_splits)

lemma wf_new:
  assumes "NewActivePassiveDeduplicator env cfg snapshot = Inr d"
  shows "dedup_wf d \<and> (\<forall>h. retained d h = 0) \<and> waiting d = {#}"
  using assms by (rule new_dedup_inv) (auto simp: dedup_wf_def retained_def waiting_def dest: required_capacity)

lemma run_dedup_wf:
  assumes "dedup_wf d"
  shows "dedup_wf (fst (run (dedup_step C) d ops))"
  unfolding fst_run_foldl using assms by (rule dedup_machine.run_keeps)

section \<open>Lemmas: the identity of a transaction\<close>

lemma of_char_byte_eq_iff: "(of_char c :: byte) = of_char d \<longleftrightarrow> c = d"
proof
  assume "(of_char c :: byte) = of_char d"
  then have "(of_nat (of_char c) :: byte) = of_nat (of_char d)" by (simp add: of_nat_of_char)
  moreover have "of_char c \<le> (255 :: nat)" "of_char d \<le> (255 :: nat)"
    using nat_of_char_less_256[of c] nat_of_char_less_256[of d] by linarith+
  ultimately have "(of_char c :: nat) = of_char d" by (metis unat_of_nat_byte)
  then show "c = d" by simp
qed simp

lemma text_bytes_eq_iff [simp]: "text_bytes s = text_bytes t \<longleftrightarrow> s = t"
proof -
  have "inj (of_char :: char \<Rightarrow> byte)" by (rule injI) (simp add: of_char_byte_eq_iff)
  then show ?thesis by (simp add: text_bytes_def inj_map_eq_map)
qed

lemma prefixed_text_eq_iff:
  assumes "length s \<le> 255" "length t \<le> 255"
  shows "(of_nat (length s) :: byte) # text_bytes s @ xs = of_nat (length t) # text_bytes t @ ys \<longleftrightarrow> s = t \<and> xs = ys"
proof
  assume eq: "(of_nat (length s) :: byte) # text_bytes s @ xs = of_nat (length t) # text_bytes t @ ys"
  then have "length s = length t" using assms by (metis list.inject unat_of_nat_byte)
  then have "length (text_bytes s) = length (text_bytes t)" by (simp add: text_bytes_def)
  with eq show "s = t \<and> xs = ys" by (simp add: append_eq_append_conv)
qed simp

lemma text_lengths: "length (class_text c) \<le> 255" "length (response_text r) \<le> 255" "length (outcome_text oc) \<le> 255"
proof -
  show "length (class_text c) \<le> 255" by (cases c) simp_all
  show "length (response_text r) \<le> 255" by (cases r) simp_all
  show "length (outcome_text oc) \<le> 255" by (cases oc) simp_all
qed

lemma text_inj [simp]: "class_text c = class_text c' \<longleftrightarrow> c = c'"
  "response_text r = response_text r' \<longleftrightarrow> r = r'" "outcome_text oc = outcome_text oc' \<longleftrightarrow> oc = oc'"
proof -
  show "class_text c = class_text c' \<longleftrightarrow> c = c'" by (cases c; cases c') simp_all
  show "response_text r = response_text r' \<longleftrightarrow> r = r'" by (cases r; cases r') simp_all
  show "outcome_text oc = outcome_text oc' \<longleftrightarrow> oc = oc'" by (cases oc; cases oc') simp_all
qed

lemma split16_eq_iff:
  fixes n m :: uint16
  shows "(ucast (drop_bit 8 n) :: byte) = ucast (drop_bit 8 m) \<Longrightarrow> (ucast n :: byte) = ucast m \<Longrightarrow> n = m"
proof (rule bit_word_eqI)
  fix i
  assume hi: "(ucast (drop_bit 8 n) :: byte) = ucast (drop_bit 8 m)" and lo: "(ucast n :: byte) = ucast m"
    and i: "i < LENGTH(16)"
  show "bit n i = bit m i"
  proof (cases "i < 8")
    case True
    have "bit (ucast n :: byte) i = bit (ucast m :: byte) i" by (simp add: lo)
    with True show ?thesis by (simp add: bit_ucast_iff)
  next
    case False
    have "bit (ucast (drop_bit 8 n) :: byte) (i - 8) = bit (ucast (drop_bit 8 m) :: byte) (i - 8)" by (simp add: hi)
    moreover have "i - 8 < 8" using i by simp
    ultimately show ?thesis using False by (simp add: bit_ucast_iff bit_drop_bit_eq)
  qed
qed

lemma prefixed_payload_eq_iff:
  assumes "length p < 65536" "length q < 65536"
  shows "(ucast (drop_bit 8 (of_nat (length p) :: uint16)) :: byte) # ucast (of_nat (length p) :: uint16) # p @ xs =
         ucast (drop_bit 8 (of_nat (length q) :: uint16)) # ucast (of_nat (length q) :: uint16) # q @ ys \<longleftrightarrow>
         p = q \<and> xs = ys"
proof
  assume eq: "(ucast (drop_bit 8 (of_nat (length p) :: uint16)) :: byte) # ucast (of_nat (length p) :: uint16) # p @ xs =
         ucast (drop_bit 8 (of_nat (length q) :: uint16)) # ucast (of_nat (length q) :: uint16) # q @ ys"
  then have "(of_nat (length p) :: uint16) = of_nat (length q)" by (intro split16_eq_iff) simp_all
  then have "unat (of_nat (length p) :: uint16) = unat (of_nat (length q) :: uint16)" by simp
  then have "length p = length q" using assms by (simp add: unat_of_nat)
  with eq show "p = q \<and> xs = ys" by (simp add: append_eq_append_conv)
qed simp

text \<open>The two kinds of fields of the encoding, each with its length in front.\<close>

definition text_field :: "string \<Rightarrow> byte list" where
  "text_field s = of_nat (length s) # text_bytes s"

definition payload_field :: "byte list \<Rightarrow> byte list" where
  "payload_field p = ucast (drop_bit 8 (of_nat (length p) :: uint16)) # ucast (of_nat (length p) :: uint16) # p"

lemma identity_bytes_fields:
  "identity_bytes c s t r oc p q =
     text_field (class_text c) @ s # t # text_field (response_text r) @ text_field (outcome_text oc) @
     payload_field p @ payload_field q"
  by (simp add: identity_bytes_def appendLengthPrefixed_def text_field_def payload_field_def Let_def)

lemma text_field_append_iff:
  "length s \<le> 255 \<Longrightarrow> length t \<le> 255 \<Longrightarrow> text_field s @ xs = text_field t @ ys \<longleftrightarrow> s = t \<and> xs = ys"
  using prefixed_text_eq_iff[of s t xs ys] by (simp add: text_field_def)

lemma payload_field_append_iff:
  "length p < 65536 \<Longrightarrow> length q < 65536 \<Longrightarrow> payload_field p @ xs = payload_field q @ ys \<longleftrightarrow> p = q \<and> xs = ys"
  using prefixed_payload_eq_iff[of p q xs ys] by (simp add: payload_field_def)

lemma identity_bytes_eq_iff:
  assumes "length p < 65536" "length q < 65536" "length p' < 65536" "length q' < 65536"
  shows "identity_bytes c s t r oc p q = identity_bytes c' s' t' r' oc' p' q' \<longleftrightarrow>
         c = c' \<and> s = s' \<and> t = t' \<and> r = r' \<and> oc = oc' \<and> p = p' \<and> q = q'"
  using payload_field_append_iff[OF assms(2,4), of "[]" "[]"]
  by (simp add: identity_bytes_fields text_field_append_iff text_lengths payload_field_append_iff[OF assms(1,3)])

lemma frame_of_canonical:
  assumes "length (Data f) \<le> 255"
  shows "dedupRequestFrameFromFingerprint (canonicalFrameBytes C f) = Some f"
  using assms by (simp add: canonicalFrameBytes_def dedupRequestFrameFromFingerprint_def Let_def)

lemma canonical_frame_eq_iff:
  assumes "length (Data f) \<le> 255" "length (Data g) \<le> 255"
  shows "canonicalFrameBytes C f = canonicalFrameBytes C g \<longleftrightarrow> f = g"
  by (metis assms frame_of_canonical option.inject)

lemma canonical_frame_length: "length (canonicalFrameBytes C f) = 6 + length (Data f)"
  by (simp add: canonicalFrameBytes_def Let_def)

lemma third_party_released:
  assumes "dedup_wf d" "a \<in> set (snd (dedup_step C d op))" "a_ThirdPartyEligible a"
  shows "\<not> degraded d \<and>
    (\<exists>p \<in> set (pending d). a_Event a = pp_Event p \<and> a_Fingerprint a = Some (pp_Fingerprint p) \<and>
       pp_InsertedAt p + PendingGraceTimeout (budgets d) \<le> op_time op \<and>
       map_of (active d) (f_Hash (pp_Fingerprint p)) = None \<and>
       dedupFamilyPolicyAllowsRuntimeThirdParty (f_FamilyPolicy (pp_Fingerprint p)))"
proof -
  obtain p where p: "p \<in> set (pending d)" "expired (op_time op) p" "a = release_verdict (degraded d) (currentEpoch d) p"
    using third_party_step[OF assms(2,3)] by (auto simp: release_expired_spec)
  then have allowed: "\<not> degraded d" "dedupFamilyPolicyAllowsRuntimeThirdParty (f_FamilyPolicy (pp_Fingerprint p))"
    using assms(3) by simp_all
  then have "a_Fingerprint a = Some (pp_Fingerprint p)"
    by (simp add: p(3) release_verdict_def adjudicate_defs)
  moreover have "pp_InsertedAt p + PendingGraceTimeout (budgets d) \<le> op_time op"
    "map_of (active d) (f_Hash (pp_Fingerprint p)) = None"
    using assms(1) p(1,2) by (auto simp: dedup_wf_def)
  ultimately show ?thesis using p(1,3) allowed by (intro conjI bexI[OF _ p(1)]) simp_all
qed

text \<open>Retry counts a bus configuration can sensibly have, and the envelope they give.\<close>

definition sane_policy :: "retry_policy \<Rightarrow> bool" where
  "sane_policy p \<longleftrightarrow> \<bar>TimeoutRetries p\<bar> \<le> 1000000 \<and> \<bar>NACKRetries p\<bar> \<le> 1000000"

definition sane_envelope :: "BusRetryEnvelope \<Rightarrow> bool" where
  "sane_envelope env \<longleftrightarrow> sane_policy (InitiatorTarget env) \<and> sane_policy (InitiatorInitiator env) \<and>
     CollisionResyncSYNCount env \<le> 1000000"

lemma envelope_formula:
  assumes "\<bar>t\<bar> \<le> 1000000" "\<bar>n\<bar> \<le> 1000000" "c \<le> 1000000"
  shows "wrap64 (wrap64 (wrap64 (1 + maxInt t 0 + maxInt n 0) * dedupAttemptBudgetUnit) +
           wrap64 (maxInt c 0 * dedupCollisionResyncBudgetUnit)) =
         (1 + max t 0 + max n 0) * dedupAttemptBudgetUnit + max c 0 * dedupCollisionResyncBudgetUnit"
    and "dedupAttemptBudgetUnit \<le> (1 + max t 0 + max n 0) * dedupAttemptBudgetUnit + max c 0 * dedupCollisionResyncBudgetUnit"
    and "(1 + max t 0 + max n 0) * dedupAttemptBudgetUnit + max c 0 * dedupCollisionResyncBudgetUnit \<le> 700000000000000"
proof -
  let ?r = "1 + max t 0 + max n 0" and ?c = "max c 0"
  have r: "1 \<le> ?r" "?r \<le> 2000001" and c: "0 \<le> ?c" "?c \<le> 1000000" using assms by auto
  have eq: "maxInt x 0 = max x 0" for x by (simp add: maxInt_def max_def)
  have a: "wrap64 ?r = ?r" "wrap64 (?r * 250000000) = ?r * 250000000" "wrap64 (?c * 125000000) = ?c * 125000000"
    by (rule wrap64_id; use r c in simp)+
  show "wrap64 (wrap64 (wrap64 (1 + maxInt t 0 + maxInt n 0) * dedupAttemptBudgetUnit) +
           wrap64 (maxInt c 0 * dedupCollisionResyncBudgetUnit)) =
         ?r * dedupAttemptBudgetUnit + ?c * dedupCollisionResyncBudgetUnit"
    unfolding eq using r c a by (simp add: dedup_budget_defs wrap64_id)
  show "dedupAttemptBudgetUnit \<le> ?r * dedupAttemptBudgetUnit + ?c * dedupCollisionResyncBudgetUnit"
    using r c by (simp add: dedup_budget_defs)
  show "?r * dedupAttemptBudgetUnit + ?c * dedupCollisionResyncBudgetUnit \<le> 700000000000000"
    using r c by (simp add: dedup_budget_defs)
qed

lemma sane_budgets:
  assumes "sane_envelope env"
  obtains e where "logicalRequestRetryEnvelope env = e" "dedupAttemptBudgetUnit \<le> e" "e \<le> 700000000000000"
proof -
  define pol where "pol = (if wrap64 (TimeoutRetries (InitiatorInitiator env) + NACKRetries (InitiatorInitiator env)) >
                       wrap64 (TimeoutRetries (InitiatorTarget env) + NACKRetries (InitiatorTarget env))
                    then InitiatorInitiator env else InitiatorTarget env)"
  have "sane_policy pol" "CollisionResyncSYNCount env \<le> 1000000"
    using assms by (simp_all add: sane_envelope_def pol_def)
  then have bounds: "\<bar>TimeoutRetries pol\<bar> \<le> 1000000" "\<bar>NACKRetries pol\<bar> \<le> 1000000"
    "CollisionResyncSYNCount env \<le> 1000000" by (simp_all add: sane_policy_def)
  note f = envelope_formula[OF this]
  have "logicalRequestRetryEnvelope env =
      (1 + max (TimeoutRetries pol) 0 + max (NACKRetries pol) 0) * dedupAttemptBudgetUnit +
      max (CollisionResyncSYNCount env) 0 * dedupCollisionResyncBudgetUnit"
    unfolding logicalRequestRetryEnvelope_def Let_def pol_def[symmetric] by (rule f(1))
  with f(2,3) show ?thesis by (intro that[of "logicalRequestRetryEnvelope env"]) simp_all
qed

lemma derive_ok:
  assumes "sane_envelope env"
  defines "e \<equiv> logicalRequestRetryEnvelope env"
  defines "p \<equiv> e + dedupPublicationSlack"
  defines "g \<equiv> max p defaultDedupPassiveDeliveryBudget + dedupPendingMatchSlack"
  shows "0 < e"
    and "deriveDedupTimingBudgets env =
      Inr \<lparr> LogicalRequestEnvelope = e, ActivePublishBudget = p,
        PassiveDeliveryBudget = defaultDedupPassiveDeliveryBudget, PendingGraceTimeout = g,
        ActiveFingerprintRetention = g + defaultDedupPassiveDeliveryBudget,
        PendingCapacity = defaultDedupPendingCapacity, RecoveryHysteresis = dedupRecoveryHealthyWindow,
        RecoveryEventThreshold = dedupRecoveryMinimumEvents \<rparr>"
proof -
  have b: "250000000 \<le> e" "e \<le> 700000000000000"
    using sane_budgets[OF assms(1)] unfolding e_def dedup_budget_defs by auto
  then show "0 < e" by simp
  have p: "wrap64 (e + dedupPublicationSlack) = p"
    unfolding p_def by (rule wrap64_id) (use b in \<open>simp_all add: dedup_budget_defs\<close>)
  have pb: "500000000 \<le> p" "p \<le> 700000250000000" using b by (simp_all add: p_def dedup_budget_defs)
  have m: "maxDuration p defaultDedupPassiveDeliveryBudget = max p defaultDedupPassiveDeliveryBudget"
    by (simp add: maxDuration_def max_def)
  have gb: "0 \<le> g" "g \<le> 700000500000000" using pb by (auto simp: g_def dedup_budget_defs)
  have g: "wrap64 (max p defaultDedupPassiveDeliveryBudget + dedupPendingMatchSlack) = g"
    unfolding g_def[symmetric] by (rule wrap64_id) (use gb in simp_all)
  have "wrap64 (g + defaultDedupPassiveDeliveryBudget) = g + defaultDedupPassiveDeliveryBudget"
    by (rule wrap64_id) (use gb in \<open>simp_all add: dedup_budget_defs\<close>)
  with b show "deriveDedupTimingBudgets env =
      Inr \<lparr> LogicalRequestEnvelope = e, ActivePublishBudget = p,
        PassiveDeliveryBudget = defaultDedupPassiveDeliveryBudget, PendingGraceTimeout = g,
        ActiveFingerprintRetention = g + defaultDedupPassiveDeliveryBudget,
        PendingCapacity = defaultDedupPendingCapacity, RecoveryHysteresis = dedupRecoveryHealthyWindow,
        RecoveryEventThreshold = dedupRecoveryMinimumEvents \<rparr>"
    unfolding deriveDedupTimingBudgets_def Let_def e_def[symmetric] p m g by simp
qed

lemma config_fill:
  assumes "deriveDedupTimingBudgets env = Inr required" "f \<in> set guarded_budgets"
  shows "f (dedup_config_defaults env cfg) = (if f cfg \<le> 0 then f required else f cfg)"
  using assms by (auto simp: guarded_budgets_def dedup_config_defaults_def defaultPassiveDedupBudgets_def Let_def)

lemma new_dedup_iff:
  assumes "deriveDedupTimingBudgets env = Inr required"
  shows "(\<exists>d. NewActivePassiveDeduplicator env cfg snapshot = Inr d) \<longleftrightarrow>
         list_all (\<lambda>f. f cfg \<le> 0 \<or> f required \<le> f cfg) guarded_budgets"
proof -
  let ?b = "dedup_config_defaults env cfg"
  have "(\<exists>d. NewActivePassiveDeduplicator env cfg snapshot = Inr d) \<longleftrightarrow>
      list_all (\<lambda>f. f required \<le> f ?b) guarded_budgets"
    by (simp add: NewActivePassiveDeduplicator_def assms Let_def guarded_budgets_def not_less conj_ac)
  moreover have "f required \<le> f ?b \<longleftrightarrow> f cfg \<le> 0 \<or> f required \<le> f cfg" if "f \<in> set guarded_budgets" for f
    unfolding config_fill[OF assms that] by simp
  ultimately show ?thesis by (simp add: list_all_iff)
qed

lemma example_new: "\<exists>d. NewActivePassiveDeduplicator example_envelope unset_budgets None = Inr d"
proof -
  have "sane_envelope example_envelope" by code_simp
  note derive_ok(2)[OF this]
  from new_dedup_iff[OF this] show ?thesis by (simp add: guarded_budgets_def unset_budgets_def)
qed

section \<open>Properties\<close>

text \<open>
  C4. No passive event is lost or decided twice. Over every sequence of bus events, passive
  events, expiries and resets from a new deduplicator, the transactions, initiator frames and
  abandoned transactions submitted are, as a multiset, those decided by the outputs, those still
  waiting and those flushed by a new epoch; the flush counter counts the last, none is flushed
  unless a discontinuity was reported, and the adjudication counters count the outputs.
\<close>

theorem dedup_conserves_events:
  assumes "NewActivePassiveDeduplicator env cfg snapshot = Inr d"
  shows "let (d', outs) = run (dedup_step C) d ops in
         (\<exists>flushed. mset (concat (map submitted ops)) = decided (concat outs) + waiting d' + flushed \<and>
            pendingFlushTotal d' ''epoch_reset'' = of_nat (size flushed) \<and>
            ((\<forall>a \<in> set (concat outs). \<not> is_discontinuity a) \<longrightarrow> flushed = {#})) \<and>
         (\<forall>k. adjudicationsTotal d' k = of_nat (count_disposition k (concat outs)))"
proof -
  have wf: "dedup_wf d" "waiting d = {#}" using wf_new[OF assms] by simp_all
  have zero: "pendingFlushTotal d = (\<lambda>_. 0)" "adjudicationsTotal d = (\<lambda>_. 0)"
    using new_dedup_inv[OF assms] by metis+
  show ?thesis
    using moves_run[OF wf(1), of ops C] unfolding moves_def fst_conv snd_conv wf(2) zero
    by (simp add: case_prod_beta)
qed

theorem dedup_conserves_events_witness:
  "\<exists>d. NewActivePassiveDeduplicator example_envelope unset_budgets None = Inr d \<and>
     (let (d', outs) = run (dedup_step example_cfg) d example_dedup_ops in
      \<exists>flushed. {# example_passive 1, example_passive 9 #} = decided (concat outs) + waiting d' + flushed \<and>
         pendingFlushTotal d' ''epoch_reset'' = of_nat (size flushed))"
proof -
  have "mset (concat (map submitted example_dedup_ops)) = {# example_passive 1, example_passive 9 #}"
    by (simp add: example_dedup_ops_def adjudicable_def stamped_def example_passive_def blank_event_def)
  moreover obtain d where d: "NewActivePassiveDeduplicator example_envelope unset_budgets None = Inr d"
    using example_new by blast
  ultimately show ?thesis
    using dedup_conserves_events[OF d, of example_cfg example_dedup_ops]
    by (intro exI[of _ d] conjI[OF d]) (auto simp: case_prod_beta)
qed

text \<open>
  C10. One own transaction suppresses at most one passive copy, and a copy that can be matched is
  matched. Over every sequence of operations from a new deduplicator, and for every digest, the
  passive events reported as copies of own transactions are at most as many as the own
  transactions completed with this digest; at every moment no waiting passive event has the
  digest of a retained own transaction, and the waiting events stay within the capacity.
\<close>

theorem dedup_matches_exactly:
  assumes "NewActivePassiveDeduplicator env cfg snapshot = Inr d"
  shows "let (d', outs) = run (dedup_step C) d ops in
         matched_copies h (concat outs) \<le> sum_list (map (completed C h) ops) \<and>
         list_all (\<lambda>p. map_of (active d') (f_Hash (pp_Fingerprint p)) = None) (pending d') \<and>
         int (length (pending d')) \<le> PendingCapacity (budgets d')"
proof -
  have wf: "dedup_wf d" "retained d h = 0" using wf_new[OF assms] by simp_all
  have "matched_copies h (concat (snd (run (dedup_step C) d ops))) \<le> sum_list (map (completed C h) ops)"
    using budget_run[OF wf(1), of h C ops] wf(2) by simp
  with run_dedup_wf[OF wf(1), of C ops] show ?thesis
    by (simp add: case_prod_beta dedup_wf_def list_all_iff)
qed

theorem dedup_matches_exactly_witness:
  "\<exists>d h. NewActivePassiveDeduplicator example_envelope unset_budgets None = Inr d \<and>
     active_digest example_cfg example_own = Some h \<and>
     sum_list (map (completed example_cfg h) example_dedup_ops) = 1 \<and>
     (let (d', outs) = run (dedup_step example_cfg) d example_dedup_ops in matched_copies h (concat outs) \<le> 1)"
proof -
  obtain d where d: "NewActivePassiveDeduplicator example_envelope unset_budgets None = Inr d"
    using example_new by blast
  obtain h where h: "active_digest example_cfg example_own = Some h"
    by (simp add: active_digest_def buildActiveFingerprint_def example_own_def Let_def)
  have "sum_list (map (completed example_cfg h) example_dedup_ops) = 1"
    using h by (simp add: example_dedup_ops_def example_own_def)
  with d h dedup_matches_exactly[OF d, of example_cfg example_dedup_ops h] show ?thesis
    by (intro exI[of _ d] exI[of _ h]) (simp add: case_prod_beta)
qed

text \<open>
  C27. An event is released as third-party traffic only when that is justified: the deduplicator is
  not degraded, the event has waited the whole grace time, no own transaction with its digest is
  retained, and the policy of its family allows it.
\<close>

theorem dedup_third_party_justified:
  assumes "NewActivePassiveDeduplicator env cfg snapshot = Inr d0"
    and "d = fst (run (dedup_step C) d0 ops)"
    and "a \<in> set (snd (dedup_step C d op))" "a_ThirdPartyEligible a"
  shows "\<not> degraded d \<and>
    (\<exists>p \<in> set (pending d). a_Event a = pp_Event p \<and> a_Fingerprint a = Some (pp_Fingerprint p) \<and>
       pp_InsertedAt p + PendingGraceTimeout (budgets d) \<le> op_time op \<and>
       map_of (active d) (f_Hash (pp_Fingerprint p)) = None \<and>
       dedupFamilyPolicyAllowsRuntimeThirdParty (f_FamilyPolicy (pp_Fingerprint p)))"
proof -
  have "dedup_wf d" using wf_new[OF assms(1)] run_dedup_wf[of d0 C ops] by (simp add: assms(2))
  then show ?thesis using assms(3,4) by (rule third_party_released)
qed

theorem dedup_third_party_justified_witness:
  "\<exists>a. a \<in> set (snd (dedup_step example_cfg (fst (run (dedup_step example_cfg) example_start example_recovery_ops))
                        (ExpiryOp (20 * second)))) \<and> a_ThirdPartyEligible a \<and>
       \<not> degraded (fst (run (dedup_step example_cfg) example_start example_recovery_ops))"
proof -
  let ?d = "fst (run (dedup_step example_cfg) example_start example_recovery_ops)"
  let ?outs = "snd (dedup_step example_cfg ?d (ExpiryOp (20 * second)))"
  have "map a_ThirdPartyEligible ?outs = [True]" by code_simp
  then obtain a where a: "a \<in> set ?outs" "a_ThirdPartyEligible a" by auto
  obtain d where "NewActivePassiveDeduplicator example_envelope unset_budgets None = Inr d"
    using example_new by blast
  then have "NewActivePassiveDeduplicator example_envelope unset_budgets None = Inr example_start"
    by (simp add: example_start_def)
  from dedup_third_party_justified[OF this refl a] a show ?thesis by blast
qed



text \<open>
  The construction refuses exactly the configurations that lower a budget. For retry counts up to a
  million no duration overflows: the derived budgets are positive and ordered (an active result is
  published within its budget, which with the match slack fits the grace time, and a fingerprint
  is retained a delivery budget longer), and a deduplicator is built exactly when every guarded
  budget is left unset or at least the derived one; otherwise the error reports both.
\<close>

theorem dedup_budgets_checked:
  assumes "sane_envelope env"
  shows "\<exists>required. deriveDedupTimingBudgets env = Inr required \<and>
    0 < LogicalRequestEnvelope required \<and>
    LogicalRequestEnvelope required < ActivePublishBudget required \<and>
    ActivePublishBudget required + dedupPendingMatchSlack \<le> PendingGraceTimeout required \<and>
    PassiveDeliveryBudget required + dedupPendingMatchSlack \<le> PendingGraceTimeout required \<and>
    PendingGraceTimeout required + PassiveDeliveryBudget required = ActiveFingerprintRetention required \<and>
    (case NewActivePassiveDeduplicator env cfg snapshot of
       Inr d \<Rightarrow> list_all (\<lambda>f. f cfg \<le> 0 \<or> f required \<le> f cfg) guarded_budgets \<and>
                list_all (\<lambda>f. f required \<le> f (budgets d)) guarded_budgets
     | Inl e \<Rightarrow> (\<exists>b. e = BudgetsBelowMinimum b required) \<and>
                \<not> list_all (\<lambda>f. f cfg \<le> 0 \<or> f required \<le> f cfg) guarded_budgets)"
proof -
  note ok = derive_ok[OF assms]
  define required where "required = (case deriveDedupTimingBudgets env of Inr r \<Rightarrow> r)"
  have req: "deriveDedupTimingBudgets env = Inr required" by (simp add: required_def ok(2))
  have order: "0 < LogicalRequestEnvelope required \<and>
    LogicalRequestEnvelope required < ActivePublishBudget required \<and>
    ActivePublishBudget required + dedupPendingMatchSlack \<le> PendingGraceTimeout required \<and>
    PassiveDeliveryBudget required + dedupPendingMatchSlack \<le> PendingGraceTimeout required \<and>
    PendingGraceTimeout required + PassiveDeliveryBudget required = ActiveFingerprintRetention required"
    using ok(1) by (simp add: required_def ok(2) dedup_budget_defs)
  have "case NewActivePassiveDeduplicator env cfg snapshot of
       Inr d \<Rightarrow> list_all (\<lambda>f. f cfg \<le> 0 \<or> f required \<le> f cfg) guarded_budgets \<and>
                list_all (\<lambda>f. f required \<le> f (budgets d)) guarded_budgets
     | Inl e \<Rightarrow> (\<exists>b. e = BudgetsBelowMinimum b required) \<and>
                \<not> list_all (\<lambda>f. f cfg \<le> 0 \<or> f required \<le> f cfg) guarded_budgets"
  proof (cases "NewActivePassiveDeduplicator env cfg snapshot")
    case (Inr d)
    then have "list_all (\<lambda>f. f required \<le> f (budgets d)) guarded_budgets"
      using req by (rule_tac new_dedup_inv[OF Inr]) (auto simp: guarded_budgets_def)
    with Inr new_dedup_iff[OF req, of cfg snapshot] show ?thesis by simp
  next
    case (Inl e)
    then have "\<exists>b. e = BudgetsBelowMinimum b required"
      using req by (auto simp: NewActivePassiveDeduplicator_def Let_def split: if_splits)
    with Inl new_dedup_iff[OF req, of cfg snapshot] show ?thesis by simp
  qed
  with req order show ?thesis by blast
qed

theorem dedup_budgets_checked_witness:
  "sane_envelope example_envelope \<and>
   (\<exists>required. deriveDedupTimingBudgets example_envelope = Inr required \<and>
      LogicalRequestEnvelope required < ActivePublishBudget required)"
proof -
  have "sane_envelope example_envelope" by code_simp
  with dedup_budgets_checked[OF this, of unset_budgets None] show ?thesis by blast
qed

end
