(* ===== verification/Dedup_Fanout.thy ===== *)
theory Dedup_Fanout
  imports Dedup "HOL-Library.Sublist"
begin

text \<open>
  The subscribers of the deduplicator, \<^verbatim>\<open>src/active_passive_deduplicator.go\<close>: subscribing, publishing
  with its reset when a critical subscriber overflows, unsubscribing and closing.
\<close>

section \<open>Subscribers\<close>

text \<open>
  A subscription with its buffered channel. Under its \<^verbatim>\<open>closeOnce\<close> a subscription leaves the map of
  subscribers and its channel is closed, so one flag stands for both; what was buffered before the
  close can still be received. The map itself is nil once the deduplicator is closed. A receive
  takes the oldest event. Publishing runs to its end before the next operation.
\<close>

datatype DedupSubscriberPriority = DedupSubscriberCritical | DedupSubscriberNonCritical

record AdjudicatedPassiveSubscription =
  sub_id :: uint64
  sub_name :: string
  sub_priority :: DedupSubscriberPriority
  sub_ch :: "AdjudicatedPassiveEvent list"
  sub_cap :: nat
  sub_closed :: bool

record dedup_fanout =
  subscriptions :: "AdjudicatedPassiveSubscription list"
  subscribersOpen :: bool
  nextSubID :: uint64

datatype subscribe_error = SubscriberMissingName | DeduplicatorClosed

definition defaultDedupSubscriberBuffer :: "DedupSubscriberPriority \<Rightarrow> nat" where
  "defaultDedupSubscriberBuffer priority = (if priority = DedupSubscriberCritical then 128 else 32)"

text \<open>The priority is absent for the zero value, which means non-critical.\<close>

definition Subscribe ::
  "string \<Rightarrow> DedupSubscriberPriority option \<Rightarrow> int \<Rightarrow> dedup_fanout \<Rightarrow> dedup_fanout \<times> (subscribe_error + uint64)" where
  "Subscribe name prio buffer F =
     (if name = '''' then (F, Inl SubscriberMissingName)
      else let priority = (case prio of None \<Rightarrow> DedupSubscriberNonCritical | Some p \<Rightarrow> p);
               cap = (if buffer \<le> 0 then defaultDedupSubscriberBuffer priority else nat buffer);
               new_id = nextSubID F + 1;
               F1 = F\<lparr> nextSubID := new_id \<rparr> in
           if \<not> subscribersOpen F then (F1, Inl DeduplicatorClosed)
           else (F1\<lparr> subscriptions := subscriptions F1 @
                      [\<lparr> sub_id = new_id, sub_name = name, sub_priority = priority, sub_ch = [],
                         sub_cap = cap, sub_closed = False \<rparr>] \<rparr>, Inr new_id))"

definition drainAdjudicatedSubscription :: "AdjudicatedPassiveSubscription \<Rightarrow> AdjudicatedPassiveSubscription" where
  "drainAdjudicatedSubscription sub = sub\<lparr> sub_ch := [] \<rparr>"

text \<open>A send on a closed channel panics and is recovered as not sent.\<close>

definition trySendAdjudicatedEvent ::
  "AdjudicatedPassiveEvent \<Rightarrow> AdjudicatedPassiveSubscription \<Rightarrow> AdjudicatedPassiveSubscription \<times> bool" where
  "trySendAdjudicatedEvent ev sub =
     (if sub_closed sub \<or> length (sub_ch sub) \<ge> sub_cap sub then (sub, False)
      else (sub\<lparr> sub_ch := sub_ch sub @ [ev] \<rparr>, True))"

definition unsubscribeCore ::
  "AdjudicatedPassiveEvent option \<Rightarrow> AdjudicatedPassiveSubscription \<Rightarrow> AdjudicatedPassiveSubscription" where
  "unsubscribeCore fault sub =
     (if sub_closed sub then sub
      else let s1 = (case fault of
                       None \<Rightarrow> sub
                     | Some ev \<Rightarrow> fst (trySendAdjudicatedEvent ev (drainAdjudicatedSubscription sub))) in
           s1\<lparr> sub_closed := True \<rparr>)"

definition subscriber_fault :: "string \<Rightarrow> int \<Rightarrow> uint64 \<Rightarrow> AdjudicatedPassiveEvent" where
  "subscriber_fault name observedAt epoch =
     (blank_adjudication
        ((blank_event PassiveClassifiedEventDiscontinuity observedAt)
           \<lparr> pe_DiscontinuityReason := PassiveDiscontinuityCriticalSubscriberFault, pe_Subscriber := name \<rparr>)
        None DedupDispositionDiscontinuity epoch)\<lparr> a_ObservabilityOnly := True \<rparr>"

definition unsubscribeWithFault ::
  "int \<Rightarrow> uint64 \<Rightarrow> AdjudicatedPassiveSubscription \<Rightarrow> AdjudicatedPassiveSubscription" where
  "unsubscribeWithFault observedAt epoch sub =
     unsubscribeCore (Some (subscriber_fault (sub_name sub) observedAt epoch)) sub"

text \<open>One subscriber's turn in \<^verbatim>\<open>publish\<close>, and whether it is a critical overflow.\<close>

definition deliver_one ::
  "AdjudicatedPassiveEvent \<Rightarrow> AdjudicatedPassiveSubscription \<Rightarrow> AdjudicatedPassiveSubscription \<times> bool" where
  "deliver_one ev sub =
     (if sub_closed sub then (sub, False)
      else let (s1, sent) = trySendAdjudicatedEvent ev sub in
           if sent then (s1, False)
           else if sub_priority sub \<noteq> DedupSubscriberCritical then (sub, False)
           else (unsubscribeWithFault (pe_ObservedAt (a_Event ev)) (a_Epoch ev) sub, True))"

definition deliver :: "AdjudicatedPassiveEvent \<Rightarrow> dedup_fanout \<Rightarrow> dedup_fanout \<times> bool" where
  "deliver ev F =
     (F\<lparr> subscriptions := map (\<lambda>sub. fst (deliver_one ev sub)) (subscriptions F) \<rparr>,
      list_ex (\<lambda>sub. snd (deliver_one ev sub)) (subscriptions F))"

definition critical_open :: "AdjudicatedPassiveSubscription \<Rightarrow> bool" where
  "critical_open sub \<longleftrightarrow> \<not> sub_closed sub \<and> sub_priority sub = DedupSubscriberCritical"

definition criticals :: "dedup_fanout \<Rightarrow> nat" where
  "criticals F = length (filter critical_open (subscriptions F))"

text \<open>
  \<^verbatim>\<open>publishAll\<close> with \<^verbatim>\<open>publish\<close> and \<^verbatim>\<open>handleCriticalReset\<close>: a critical overflow starts a new epoch and
  publishes its discontinuity before the events that remain.
\<close>

function publishAll ::
  "AdjudicatedPassiveEvent list \<Rightarrow> ActivePassiveDeduplicator \<Rightarrow> dedup_fanout \<Rightarrow> ActivePassiveDeduplicator \<times> dedup_fanout" where
  "publishAll [] d F = (d, F)"
| "publishAll (ev # evs) d F =
     (let (F1, criticalOverflow) = deliver ev F in
      if criticalOverflow
      then let (d1, outs) = makeDiscontinuityLocked (pe_ObservedAt (a_Event ev))
                              PassiveDiscontinuityCriticalSubscriberFault ''dedup_output_overflow'' d in
           publishAll (outs @ evs) d1 F1
      else publishAll evs d F1)"
  by pat_completeness auto

text \<open>Every overflow closes a critical subscriber, so the chain of discontinuities ends.\<close>

lemma deliver_one_critical:
  "critical_open (fst (deliver_one ev sub)) \<longleftrightarrow> critical_open sub \<and> \<not> snd (deliver_one ev sub)"
  "snd (deliver_one ev sub) \<Longrightarrow> critical_open sub"
  by (auto simp: deliver_one_def critical_open_def trySendAdjudicatedEvent_def unsubscribeWithFault_def
      unsubscribeCore_def Let_def split: if_splits option.splits)

lemma criticals_deliver: "criticals (fst (deliver ev F)) \<le> criticals F"
  "snd (deliver ev F) \<Longrightarrow> criticals (fst (deliver ev F)) < criticals F"
proof -
  have "length (filter critical_open (map (\<lambda>sub. fst (deliver_one ev sub)) ss)) +
          length (filter (\<lambda>sub. snd (deliver_one ev sub)) ss) = length (filter critical_open ss)" for ss
    by (induction ss) (auto simp: deliver_one_critical)
  then have eq: "criticals (fst (deliver ev F)) +
      length (filter (\<lambda>sub. snd (deliver_one ev sub)) (subscriptions F)) = criticals F"
    by (simp add: criticals_def deliver_def)
  then show "criticals (fst (deliver ev F)) \<le> criticals F" by linarith
  assume "snd (deliver ev F)"
  then have "filter (\<lambda>sub. snd (deliver_one ev sub)) (subscriptions F) \<noteq> []"
    by (auto simp: deliver_def list_ex_iff filter_empty_conv)
  then show "criticals (fst (deliver ev F)) < criticals F" using eq by (simp flip: length_greater_0_conv)
qed

lemma criticals_deliver_pair:
  "(F1, b) = deliver ev F \<Longrightarrow> criticals F1 \<le> criticals F"
  "(F1, True) = deliver ev F \<Longrightarrow> criticals F1 < criticals F"
  using criticals_deliver[of ev F] by (metis fst_conv, metis fst_conv snd_conv)

termination publishAll
  by (relation "measures [\<lambda>(evs, d, F). criticals F, \<lambda>(evs, d, F). length evs]")
     (auto dest: criticals_deliver_pair simp: order_le_less[symmetric])

declare publishAll.simps(2) [simp del]

definition closeAllSubscribers :: "dedup_fanout \<Rightarrow> dedup_fanout" where
  "closeAllSubscribers F =
     F\<lparr> subscribersOpen := False,
       subscriptions := map (unsubscribeCore None) (subscriptions F) \<rparr>"

definition receive :: "nat \<Rightarrow> dedup_fanout \<Rightarrow> dedup_fanout \<times> AdjudicatedPassiveEvent option" where
  "receive i F =
     (if i < length (subscriptions F) \<and> sub_ch (subscriptions F ! i) \<noteq> [] then
        (F\<lparr> subscriptions := (subscriptions F)[i := (subscriptions F ! i)\<lparr> sub_ch := tl (sub_ch (subscriptions F ! i)) \<rparr>] \<rparr>,
         Some (hd (sub_ch (subscriptions F ! i))))
      else (F, None))"

section \<open>What publishing promises\<close>

text \<open>What one subscription sees of the published events \<open>E\<close>.\<close>

definition sees :: "AdjudicatedPassiveEvent list \<Rightarrow> AdjudicatedPassiveSubscription \<Rightarrow> AdjudicatedPassiveSubscription \<Rightarrow> bool" where
  "sees E sub sub' \<longleftrightarrow>
     sub_name sub' = sub_name sub \<and> sub_priority sub' = sub_priority sub \<and> sub_cap sub' = sub_cap sub \<and>
     (if sub_closed sub then sub' = sub
      else if sub_priority sub = DedupSubscriberCritical
      then (\<not> sub_closed sub' \<and> sub_ch sub' = sub_ch sub @ E) \<or>
           (sub_closed sub' \<and> (\<exists>t epoch. sub_ch sub' = [subscriber_fault (sub_name sub) t epoch]))
      else \<not> sub_closed sub' \<and> (\<exists>E'. subseq E' E \<and> sub_ch sub' = sub_ch sub @ E'))"

definition caps_positive :: "dedup_fanout \<Rightarrow> bool" where
  "caps_positive F \<longleftrightarrow> list_all (\<lambda>sub. 0 < sub_cap sub) (subscriptions F)"

definition example_subscribers :: dedup_fanout where
  "example_subscribers =
     \<lparr> subscriptions =
         [\<lparr> sub_id = 1, sub_name = ''shadow'', sub_priority = DedupSubscriberCritical, sub_ch = [],
            sub_cap = 1, sub_closed = False \<rparr>,
          \<lparr> sub_id = 2, sub_name = ''metrics'', sub_priority = DedupSubscriberNonCritical, sub_ch = [],
            sub_cap = 4, sub_closed = False \<rparr>],
       subscribersOpen = True, nextSubID = 2 \<rparr>"

definition example_dedup :: ActivePassiveDeduplicator where
  "example_dedup = \<lparr>
     budgets = \<lparr> LogicalRequestEnvelope = 250000000, ActivePublishBudget = 500000000,
       PassiveDeliveryBudget = 500000000, PendingGraceTimeout = 750000000,
       ActiveFingerprintRetention = 1250000000, PendingCapacity = 256,
       RecoveryHysteresis = 5000000000, RecoveryEventThreshold = 10 \<rparr>,
     currentEpoch = 1, degraded = True, recovery_st = zero_recovery,
     localAddr = \<lparr> la_Address = 0, la_Known = False, la_Epoch = 0 \<rparr>, active = [], pending = [],
     expvarState = ''degraded'', expvarEpoch = 1, epochResetTotal = 0, pendingFlushTotal = (\<lambda>_. 0),
     adjudicationsTotal = (\<lambda>_. 0), degradedTransitionsTotal = (\<lambda>_. 0), localParticipantInboundTotal = 0 \<rparr>"

definition example_batch :: "AdjudicatedPassiveEvent list" where
  "example_batch =
     [blank_adjudication (blank_event PassiveClassifiedEventTransaction 5) None DedupDispositionObservabilityOnly 1,
      blank_adjudication (blank_event PassiveClassifiedEventTransaction 6) None DedupDispositionObservabilityOnly 1]"

section \<open>Lemmas\<close>

lemma sees_one:
  assumes "0 < sub_cap sub"
  shows "sees [ev] sub (fst (deliver_one ev sub))"
  using assms
  by (auto simp: sees_def deliver_one_def trySendAdjudicatedEvent_def unsubscribeWithFault_def
      unsubscribeCore_def drainAdjudicatedSubscription_def Let_def split: if_splits)

lemma sees_trans:
  assumes "sees E1 a b" "sees E2 b c"
  shows "sees (E1 @ E2) a c"
  using assms unfolding sees_def
  by (cases "sub_closed a"; cases "sub_priority a = DedupSubscriberCritical"; cases "sub_closed b")
     (fastforce intro: list_emb_append_mono)+

lemma sees_refl: "sees [] sub sub"
  by (auto simp: sees_def)

lemma sees_all:
  assumes "list_all2 (sees E1) xs ys" "list_all2 (sees E2) ys zs"
  shows "list_all2 (sees (E1 @ E2)) xs zs"
  using assms unfolding list_all2_conv_all_nth by (metis sees_trans)

lemma deliver_sees:
  assumes "caps_positive F"
  shows "list_all2 (sees [ev]) (subscriptions F) (subscriptions (fst (deliver ev F)))"
    and "caps_positive (fst (deliver ev F))"
proof -
  have "list_all2 (sees [ev]) (subscriptions F) (map (\<lambda>sub. fst (deliver_one ev sub)) (subscriptions F))"
    using assms by (auto simp: list_all2_conv_all_nth caps_positive_def list_all_length sees_one)
  then show sees: "list_all2 (sees [ev]) (subscriptions F) (subscriptions (fst (deliver ev F)))"
    by (simp add: deliver_def)
  show "caps_positive (fst (deliver ev F))"
    using sees assms by (auto simp: caps_positive_def list_all2_conv_all_nth list_all_length sees_def)
qed

lemma publish_all_spec:
  assumes "caps_positive F"
  shows "\<exists>E n. subseq evs E \<and> length E = length evs + n \<and>
     n + criticals (snd (publishAll evs d F)) \<le> criticals F \<and>
     currentEpoch (fst (publishAll evs d F)) = currentEpoch d + of_nat n \<and>
     list_all2 (sees E) (subscriptions F) (subscriptions (snd (publishAll evs d F)))"
  using assms
proof (induction evs d F rule: publishAll.induct)
  case (1 d F)
  have "list_all2 (sees []) (subscriptions F) (subscriptions F)"
    by (simp add: list_all2_conv_all_nth sees_refl)
  then show ?case by (intro exI[of _ "[]"] exI[of _ 0]) simp
next
  case (2 ev evs d F)
  obtain F1 overflow where dl: "deliver ev F = (F1, overflow)" by (cases "deliver ev F")
  have sees1: "list_all2 (sees [ev]) (subscriptions F) (subscriptions F1)" and caps1: "caps_positive F1"
    using deliver_sees[OF "2.prems", of ev] by (simp_all add: dl)
  show ?case
  proof (cases overflow)
    case False
    then have step: "publishAll (ev # evs) d F = publishAll evs d F1" by (simp add: publishAll.simps(2) dl)
    obtain E n where IH: "subseq evs E" "length E = length evs + n"
      "n + criticals (snd (publishAll evs d F1)) \<le> criticals F1"
      "currentEpoch (fst (publishAll evs d F1)) = currentEpoch d + of_nat n"
      "list_all2 (sees E) (subscriptions F1) (subscriptions (snd (publishAll evs d F1)))"
      using "2.IH"(2)[OF dl[symmetric] refl False caps1] by blast
    moreover have "criticals F1 \<le> criticals F" using criticals_deliver(1)[of ev F] by (simp add: dl)
    ultimately show ?thesis unfolding step
      using sees_all[OF sees1 IH(5)] by (intro exI[of _ "ev # E"] exI[of _ n]) simp
  next
    case True
    define r where "r = makeDiscontinuityLocked (pe_ObservedAt (a_Event ev))
      PassiveDiscontinuityCriticalSubscriberFault ''dedup_output_overflow'' d"
    obtain x where x: "snd r = [x]" by (simp add: r_def)
    have step: "publishAll (ev # evs) d F = publishAll (x # evs) (fst r) F1"
      using True x by (simp add: publishAll.simps(2) dl case_prod_beta flip: r_def)
    have "\<exists>E n. subseq (snd r @ evs) E \<and> length E = length (snd r @ evs) + n \<and>
       n + criticals (snd (publishAll (snd r @ evs) (fst r) F1)) \<le> criticals F1 \<and>
       currentEpoch (fst (publishAll (snd r @ evs) (fst r) F1)) = currentEpoch (fst r) + of_nat n \<and>
       list_all2 (sees E) (subscriptions F1) (subscriptions (snd (publishAll (snd r @ evs) (fst r) F1)))"
      by (rule "2.IH"(1)[OF dl[symmetric] refl True r_def prod.collapse caps1])
    then obtain E n where IH: "subseq (x # evs) E" "length E = Suc (length evs + n)"
      "n + criticals (snd (publishAll (x # evs) (fst r) F1)) \<le> criticals F1"
      "currentEpoch (fst (publishAll (x # evs) (fst r) F1)) = currentEpoch (fst r) + of_nat n"
      "list_all2 (sees E) (subscriptions F1) (subscriptions (snd (publishAll (x # evs) (fst r) F1)))"
      by (auto simp: x)
    have "criticals F1 < criticals F" using criticals_deliver(2)[of ev F] True by (simp add: dl)
    moreover have "currentEpoch (fst r) = currentEpoch d + 1" by (simp add: r_def)
    moreover have "subseq evs E" using IH(1) by (meson subseq_Cons')
    ultimately show ?thesis unfolding step
      using IH sees_all[OF sees1 IH(5)] by (intro exI[of _ "ev # E"] exI[of _ "Suc n"]) simp
  qed
qed

section \<open>Properties\<close>

text \<open>
  C28. Publishing a batch settles, and no critical subscriber loses an event silently. Whatever the
  batch and the buffers, there are at most as many epoch resets as critical subscribers are
  closed by it, and the published sequence is the batch with one discontinuity for each reset. A
  critical subscriber that is still open has received the whole sequence in order; one that was
  closed finds the fault report as the only event in its channel. Others receive a part of the
  sequence in order.
\<close>

theorem dedup_publish_settles:
  assumes "caps_positive F"
  shows "let (d', F') = publishAll evs d F in
         \<exists>E n. subseq evs E \<and> length E = length evs + n \<and> n + criticals F' \<le> criticals F \<and>
               currentEpoch d' = currentEpoch d + of_nat n \<and>
               list_all2 (sees E) (subscriptions F) (subscriptions F')"
  using publish_all_spec[OF assms, of evs d] by (simp add: case_prod_beta)

theorem dedup_publish_settles_witness:
  "caps_positive example_subscribers \<and>
   currentEpoch (fst (publishAll example_batch example_dedup example_subscribers)) = 2 \<and>
   criticals (snd (publishAll example_batch example_dedup example_subscribers)) = 0 \<and>
   (let (d', F') = publishAll example_batch example_dedup example_subscribers in
    \<exists>E n. subseq example_batch E \<and> length E = length example_batch + n \<and>
          n + criticals F' \<le> criticals example_subscribers \<and>
          currentEpoch d' = currentEpoch example_dedup + of_nat n \<and>
          list_all2 (sees E) (subscriptions example_subscribers) (subscriptions F'))"
proof -
  have "caps_positive example_subscribers" by code_simp
  moreover have "currentEpoch (fst (publishAll example_batch example_dedup example_subscribers)) = 2" by code_simp
  moreover have "criticals (snd (publishAll example_batch example_dedup example_subscribers)) = 0" by code_simp
  ultimately show ?thesis using dedup_publish_settles[of example_subscribers example_batch example_dedup] by blast
qed

end
