(* ===== verification/Shadow_Cache.thy ===== *)
theory Shadow_Cache
  imports Observe_First "HOL-Library.AList"
begin

text \<open>
  The shadow cache, \<^verbatim>\<open>src/shadow_cache.go\<close>: the last value seen for every watched register, written
  by confirmed active reads and by passive traffic, invalidated by foreign writes, read by the
  semantic read scheduler in place of a bus transaction.

  Every method that holds the mutex is one function from cache to cache and result. The clock the
  options carry is the argument \<open>now\<close>; where a method iterates over a Go map, the order of that
  iteration is an argument too, and \<open>range_order\<close> turns any list into an enumeration of the keys.
  An entry is stored under its canonical key; \<^verbatim>\<open>list.Element\<close> pointers are kept as the canonical
  key they carry: \<open>se_evictableElem\<close> says that the entry owns an element of \<open>sc_evictableLRU\<close>, the
  cursor of the compactor is the key it stands on. Every key owns at most one element of each list,
  which the invariant below establishes. Receivers are not nil. Times are nanoseconds, 0 is Go's
  zero time; generations are the 64-bit words of the code and wrap.
\<close>

section \<open>Data\<close>

definition DefaultShadowCacheCapacity :: int where "DefaultShadowCacheCapacity = 4096"
definition DefaultShadowCachePinnedCapacity :: int where "DefaultShadowCachePinnedCapacity = 2048"
definition DefaultShadowCacheWriteConfirmPinnedCap :: int where "DefaultShadowCacheWriteConfirmPinnedCap = 256"
definition DefaultShadowCacheTombstoneRetainWindow :: int where "DefaultShadowCacheTombstoneRetainWindow = 900 * second"
definition DefaultShadowCacheTombstoneHardLifespan :: int where "DefaultShadowCacheTombstoneHardLifespan = 86400 * second"
definition DefaultShadowCacheCompactorCadence :: int where "DefaultShadowCacheCompactorCadence = 60 * second"
definition DefaultShadowCacheCompactorBatchSize :: int where "DefaultShadowCacheCompactorBatchSize = 64"
definition DefaultShadowCacheShutdownCompactorTimeout :: int where "DefaultShadowCacheShutdownCompactorTimeout = second"

definition runtimeDescriptorDecoderPassiveFallback :: string where
  "runtimeDescriptorDecoderPassiveFallback = ''semantic.read.passive_fallback''"

lemmas shadow_default_defs = DefaultShadowCacheCapacity_def DefaultShadowCachePinnedCapacity_def
  DefaultShadowCacheWriteConfirmPinnedCap_def DefaultShadowCacheTombstoneRetainWindow_def
  DefaultShadowCacheTombstoneHardLifespan_def DefaultShadowCacheCompactorCadence_def
  DefaultShadowCacheCompactorBatchSize_def DefaultShadowCacheShutdownCompactorTimeout_def second_def

definition ShadowWriteSourcePassive :: string where "ShadowWriteSourcePassive = ''passive''"
definition ShadowWriteSourceActiveConfirmed :: string where "ShadowWriteSourceActiveConfirmed = ''active_confirmed''"
definition ShadowConfidenceNone :: string where "ShadowConfidenceNone = ''no_confidence''"
definition ShadowInvalidationReasonManual :: string where "ShadowInvalidationReasonManual = ''manual''"
definition ShadowInvalidationSourceSystem :: string where "ShadowInvalidationSourceSystem = ''system''"
definition WatchActivationSourcePoller :: string where "WatchActivationSourcePoller = ''poller''"
definition WatchActivationSourceWriteConfirm :: string where "WatchActivationSourceWriteConfirm = ''write_confirm''"

lemmas shadow_text_defs = ShadowWriteSourcePassive_def ShadowWriteSourceActiveConfirmed_def
  ShadowConfidenceNone_def ShadowInvalidationReasonManual_def ShadowInvalidationSourceSystem_def
  WatchActivationSourcePoller_def WatchActivationSourceWriteConfirm_def

text \<open>The zero value stands for the empty string of the state and reason types.\<close>

datatype ShadowEntryState =
  ShadowEntryStateZero | ShadowEntryStatePresent | ShadowEntryStateInvalidated | ShadowEntryStateTombstone

datatype ShadowWriteRejectionReason =
  NoRejection | StaleTimestamp | SameTimestampConflict | GenerationAdvanced | PolicyReject | CapacityReject

datatype shadowPinClass = shadowPinClassNone | shadowPinClassWriteConfirm | shadowPinClassStatic

record ShadowCacheOptions =
  so_FeatureFlags :: "ObserveFirstFeatureFlags option"
  so_Catalog :: "WatchCatalog option"
  so_Activations :: "WatchActivationSet option"
  so_Capacity :: int
  so_PinnedCapacity :: int
  so_WriteConfirmPinnedCap :: int
  so_TombstoneRetainWindow :: int
  so_TombstoneHardLifespan :: int
  so_CompactorCadence :: int
  so_CompactorBatchSize :: int
  so_ShutdownCompactorTimeout :: int

record shadowEligibilitySnapshotRecord =
  sn_present :: bool
  sn_state :: ShadowEntryState
  sn_generation :: uint64
  sn_observedAt :: int
  sn_expiresAt :: int

record ShadowEligibilitySnapshot =
  el_Present :: bool
  el_Eligible :: bool
  el_Generation :: uint64
  el_State :: ShadowEntryState
  el_ObservedAt :: int
  el_ExpiresAt :: int

record shadowKeyState =
  ks_generation :: uint64
  ks_lastWriteGeneration :: uint64
  ks_invalidatedAt :: int
  ks_precedenceHighWater :: int
  ks_snapshot :: shadowEligibilitySnapshotRecord

record shadowEntry =
  se_canonicalKey :: string
  se_descriptor :: WatchDescriptor
  se_source :: string
  se_confidence :: string
  se_state :: ShadowEntryState
  se_value :: "byte list"
  se_observedAt :: int
  se_expiresAt :: int
  se_generation :: uint64
  se_lastWriteGeneration :: uint64
  se_invalidationGeneration :: uint64
  se_invalidationReason :: string
  se_invalidationSource :: string
  se_invalidatedAt :: int
  se_pinClass :: shadowPinClass
  se_evictableElem :: bool

record ShadowEntryView =
  ev_CanonicalKey :: string
  ev_Descriptor :: WatchDescriptor
  ev_Source :: string
  ev_Confidence :: string
  ev_State :: ShadowEntryState
  ev_Value :: "byte list"
  ev_ObservedAt :: int
  ev_ExpiresAt :: int
  ev_Generation :: uint64
  ev_LastWriteGeneration :: uint64
  ev_InvalidationGeneration :: uint64
  ev_InvalidationReason :: string
  ev_InvalidationSource :: string
  ev_InvalidatedAt :: int
  ev_Pinned :: bool

text \<open>A result that found nothing is \<open>None\<close>; \<^verbatim>\<open>HasDescriptor\<close> is the option of the descriptor.\<close>

record ShadowLookupResult =
  lr_Entry :: ShadowEntryView
  lr_Eligible :: bool
  lr_Descriptor :: "WatchDescriptor option"

record ShadowWrite =
  sw_Key :: "WatchKey option"
  sw_Source :: string
  sw_Confidence :: string
  sw_Value :: "byte list"
  sw_ObservedAt :: int
  sw_StartGeneration :: uint64

record ShadowWriteResult =
  wr_Accepted :: bool
  wr_Generation :: uint64
  wr_LastWriteGeneration :: uint64
  wr_Reason :: ShadowWriteRejectionReason

record ShadowInvalidation =
  si_Key :: "WatchKey option"
  si_Reason :: string
  si_Source :: string
  si_InvalidatedAt :: int

record ShadowInvalidationResult =
  ir_Generation :: uint64
  ir_State :: ShadowEntryState

record ShadowCacheSummary =
  su_Enabled :: bool
  su_PinnedBudgetDegraded :: bool
  su_TotalEntries :: nat
  su_PinnedEntries :: nat
  su_EvictableEntries :: nat
  su_StaticPinnedFootprint :: nat
  su_WriteConfirmPinnedActive :: nat

record ShadowCache =
  sc_catalog :: WatchCatalog
  sc_activations :: WatchActivationSet
  sc_capacity :: int
  sc_pinnedCapacity :: int
  sc_writeConfirmPinnedCap :: int
  sc_tombstoneRetainWindow :: int
  sc_tombstoneHardLifespan :: int
  sc_compactorCadence :: int
  sc_compactorBatchSize :: int
  sc_shutdownCompactorTimeout :: int
  sc_featureFlags :: ObserveFirstFeatureFlags
  sc_lastUpdatedAt :: int
  sc_entries :: "(string \<times> shadowEntry) list"
  sc_keyState :: "string \<rightharpoonup> shadowKeyState"
  sc_evictableLRU :: "string list"
  sc_compactorList :: "string list"
  sc_compactorCursor :: "string option"
  sc_pinnedBudgetDegraded :: bool

text \<open>The zero values Go gives to a missing descriptor, a fresh key state and a fresh entry.\<close>

definition zero_descriptor :: WatchDescriptor where
  "zero_descriptor =
     \<lparr> wd_Key = None, wd_SemanticClass = '''', wd_FreshnessProfile = '''', wd_DecoderID = '''',
       wd_CorrelationPolicy = '''', wd_DirectApplyPolicy = '''', wd_FreshnessTTL = None \<rparr>"

definition zero_snapshot :: shadowEligibilitySnapshotRecord where
  "zero_snapshot =
     \<lparr> sn_present = False, sn_state = ShadowEntryStateZero, sn_generation = 0, sn_observedAt = 0,
       sn_expiresAt = 0 \<rparr>"

definition zero_key_state :: shadowKeyState where
  "zero_key_state =
     \<lparr> ks_generation = 0, ks_lastWriteGeneration = 0, ks_invalidatedAt = 0, ks_precedenceHighWater = 0,
       ks_snapshot = zero_snapshot \<rparr>"

definition fresh_entry :: "string \<Rightarrow> WatchDescriptor \<Rightarrow> shadowEntry" where
  "fresh_entry canonical descriptor =
     \<lparr> se_canonicalKey = canonical, se_descriptor = descriptor, se_source = '''', se_confidence = '''',
       se_state = ShadowEntryStateZero, se_value = [], se_observedAt = 0, se_expiresAt = 0,
       se_generation = 0, se_lastWriteGeneration = 0, se_invalidationGeneration = 0,
       se_invalidationReason = '''', se_invalidationSource = '''', se_invalidatedAt = 0,
       se_pinClass = shadowPinClassNone, se_evictableElem = False \<rparr>"

section \<open>Options\<close>

definition normalizeShadowCacheOptions :: "ShadowCacheOptions \<Rightarrow> ShadowCacheOptions" where
  "normalizeShadowCacheOptions opts =
     (let flags = NormalizeObserveFirstFeatureFlagsFromView (so_FeatureFlags opts);
          catalog = (case so_Catalog opts of None \<Rightarrow> empty_catalog | Some c \<Rightarrow> c);
          activations = (case so_Activations opts of None \<Rightarrow> NewWatchActivationSet (Some catalog) | Some s \<Rightarrow> s);
          capacity = (if so_Capacity opts \<le> 0 then DefaultShadowCacheCapacity else so_Capacity opts);
          pinned = (if so_PinnedCapacity opts \<le> 0 \<or> so_PinnedCapacity opts > capacity
                    then (if DefaultShadowCachePinnedCapacity > capacity then capacity
                          else DefaultShadowCachePinnedCapacity)
                    else so_PinnedCapacity opts);
          confirm = (if so_WriteConfirmPinnedCap opts < 0 \<or> so_WriteConfirmPinnedCap opts > pinned
                     then (if DefaultShadowCacheWriteConfirmPinnedCap > pinned then pinned
                           else DefaultShadowCacheWriteConfirmPinnedCap)
                     else so_WriteConfirmPinnedCap opts);
          retain = (if so_TombstoneRetainWindow opts \<le> 0 then DefaultShadowCacheTombstoneRetainWindow
                    else so_TombstoneRetainWindow opts);
          hard = (if so_TombstoneHardLifespan opts \<le> 0 then DefaultShadowCacheTombstoneHardLifespan
                  else so_TombstoneHardLifespan opts);
          hard' = (if hard < retain then retain else hard);
          cadence = (if so_CompactorCadence opts \<le> 0 then DefaultShadowCacheCompactorCadence
                     else so_CompactorCadence opts);
          batch = (if so_CompactorBatchSize opts \<le> 0 then DefaultShadowCacheCompactorBatchSize
                   else so_CompactorBatchSize opts);
          shutdown = (if so_ShutdownCompactorTimeout opts \<le> 0 then DefaultShadowCacheShutdownCompactorTimeout
                      else so_ShutdownCompactorTimeout opts) in
      \<lparr> so_FeatureFlags = Some flags, so_Catalog = Some catalog, so_Activations = Some activations,
        so_Capacity = capacity, so_PinnedCapacity = pinned, so_WriteConfirmPinnedCap = confirm,
        so_TombstoneRetainWindow = retain, so_TombstoneHardLifespan = hard', so_CompactorCadence = cadence,
        so_CompactorBatchSize = batch, so_ShutdownCompactorTimeout = shutdown \<rparr>)"

section \<open>Pins and the eviction order\<close>

abbreviation entry_at :: "ShadowCache \<Rightarrow> string \<Rightarrow> shadowEntry option" where
  "entry_at cache \<equiv> map_of (sc_entries cache)"

definition put_entry :: "shadowEntry \<Rightarrow> ShadowCache \<Rightarrow> ShadowCache" where
  "put_entry e cache = cache\<lparr> sc_entries := AList.update (se_canonicalKey e) e (sc_entries cache) \<rparr>"

definition shadowingEnabled :: "ShadowCache \<Rightarrow> bool" where
  "shadowingEnabled cache = (\<not> sc_pinnedBudgetDegraded cache)"

definition staticPinnedBudget :: "ShadowCache \<Rightarrow> int" where
  "staticPinnedBudget cache =
     (let budget = sc_pinnedCapacity cache - sc_writeConfirmPinnedCap cache in if budget < 0 then 0 else budget)"

definition staticPinnedFootprint :: "ShadowCache \<Rightarrow> nat" where
  "staticPinnedFootprint cache =
     length (filter (\<lambda>d. \<not> (wd_Key d = None \<or> wd_FreshnessProfile d = WatchFreshnessProfileDebug) \<and>
                         WatchActivationSourcePoller \<in> set (ActiveSources (sc_activations cache) (wd_Key d)))
             (Descriptors (sc_catalog cache)))"

definition desiredPinClass :: "WatchKey option \<Rightarrow> WatchDescriptor \<Rightarrow> string list \<Rightarrow> shadowPinClass" where
  "desiredPinClass key descriptor sources =
     (if key = None \<or> wd_FreshnessProfile descriptor = WatchFreshnessProfileDebug then shadowPinClassNone
      else if WatchActivationSourcePoller \<in> set sources then shadowPinClassStatic
      else if WatchActivationSourceWriteConfirm \<in> set sources then shadowPinClassWriteConfirm
      else shadowPinClassNone)"

definition writeConfirmPinnedCountLocked :: "ShadowCache \<Rightarrow> nat" where
  "writeConfirmPinnedCountLocked cache =
     length (filter (\<lambda>(key, e). key \<noteq> '''' \<and> se_pinClass e = shadowPinClassWriteConfirm) (sc_entries cache))"

definition canAdmitWriteConfirmPinLocked :: "shadowEntry option \<Rightarrow> ShadowCache \<Rightarrow> bool" where
  "canAdmitWriteConfirmPinLocked entry cache =
     ((case entry of
         None \<Rightarrow> False
       | Some e \<Rightarrow> se_pinClass e = shadowPinClassStatic \<or> se_pinClass e = shadowPinClassWriteConfirm) \<or>
      int (writeConfirmPinnedCountLocked cache) < sc_writeConfirmPinnedCap cache)"

definition push_evictable :: "shadowEntry \<times> string list \<Rightarrow> shadowEntry \<times> string list" where
  "push_evictable = (\<lambda>(e, lru). (e\<lparr> se_evictableElem := True \<rparr>, lru @ [se_canonicalKey e]))"

definition drop_evictable :: "shadowEntry \<times> string list \<Rightarrow> shadowEntry \<times> string list" where
  "drop_evictable = (\<lambda>(e, lru). (e\<lparr> se_evictableElem := False \<rparr>, remove1 (se_canonicalKey e) lru))"

definition pin_change :: "shadowPinClass \<Rightarrow> shadowEntry \<times> string list \<Rightarrow> shadowEntry \<times> string list" where
  "pin_change desired p =
     (let e = fst p in
      if se_pinClass e = desired then
        (if desired = shadowPinClassNone \<and> \<not> se_evictableElem e then push_evictable p
         else if desired \<noteq> shadowPinClassNone \<and> se_evictableElem e then drop_evictable p
         else p)
      else
        (let p1 = (if se_evictableElem e then drop_evictable p else p);
             p2 = ((fst p1)\<lparr> se_pinClass := desired \<rparr>, snd p1) in
         if desired = shadowPinClassNone then push_evictable p2 else p2))"

definition applyPinClassLocked :: "shadowEntry \<Rightarrow> shadowPinClass \<Rightarrow> ShadowCache \<Rightarrow> ShadowCache" where
  "applyPinClassLocked e desired cache =
     (let (e', lru) = pin_change desired (e, sc_evictableLRU cache) in
      put_entry e' (cache\<lparr> sc_evictableLRU := lru \<rparr>))"

definition touchEvictableLocked :: "shadowEntry \<Rightarrow> ShadowCache \<Rightarrow> ShadowCache" where
  "touchEvictableLocked e cache =
     (if se_pinClass e \<noteq> shadowPinClassNone then cache
      else if \<not> se_evictableElem e then
        (let (e', lru) = push_evictable (e, sc_evictableLRU cache) in
         put_entry e' (cache\<lparr> sc_evictableLRU := lru \<rparr>))
      else cache\<lparr> sc_evictableLRU := remove1 (se_canonicalKey e) (sc_evictableLRU cache) @ [se_canonicalKey e] \<rparr>)"

definition synced_pin :: "shadowEntry \<Rightarrow> ShadowCache \<Rightarrow> shadowPinClass" where
  "synced_pin e cache =
     (let key = wd_Key (se_descriptor e);
          desired = desiredPinClass key (se_descriptor e) (ActiveSources (sc_activations cache) key);
          desired1 = (if desired = shadowPinClassStatic \<and> sc_pinnedBudgetDegraded cache
                      then shadowPinClassNone else desired) in
      if desired1 = shadowPinClassWriteConfirm \<and> \<not> canAdmitWriteConfirmPinLocked (Some e) cache
      then shadowPinClassNone else desired1)"

definition syncEntryPinLocked :: "string \<Rightarrow> ShadowCache \<Rightarrow> ShadowCache" where
  "syncEntryPinLocked canonical cache =
     (case entry_at cache canonical of
        None \<Rightarrow> cache
      | Some e \<Rightarrow>
          if wd_Key (se_descriptor e) = None then cache
          else applyPinClassLocked e (synced_pin e cache) cache)"

text \<open>The keys of a map in the order an iteration meets them: those listed first, then the others.\<close>

definition range_order :: "string list \<Rightarrow> (string \<times> 'v) list \<Rightarrow> string list" where
  "range_order order m =
     (let keys = map fst m in
      filter (\<lambda>k. k \<in> set keys) (remdups order) @ filter (\<lambda>k. k \<notin> set order) keys)"

definition syncAllPinsLocked :: "string list \<Rightarrow> ShadowCache \<Rightarrow> ShadowCache" where
  "syncAllPinsLocked order cache =
     foldl (\<lambda>c k. syncEntryPinLocked k c) cache (range_order order (sc_entries cache))"

definition shadow_touchLocked :: "int \<Rightarrow> ShadowCache \<Rightarrow> ShadowCache" where
  "shadow_touchLocked at cache =
     (if at = 0 then cache
      else if sc_lastUpdatedAt cache = 0 \<or> at > sc_lastUpdatedAt cache then cache\<lparr> sc_lastUpdatedAt := at \<rparr>
      else cache)"

section \<open>Generations and snapshots\<close>

definition ensureKeyStateLocked :: "string \<Rightarrow> ShadowCache \<Rightarrow> ShadowCache \<times> shadowKeyState" where
  "ensureKeyStateLocked canonical cache =
     (case sc_keyState cache canonical of
        Some st \<Rightarrow> (cache, st)
      | None \<Rightarrow> (cache\<lparr> sc_keyState := (sc_keyState cache)(canonical \<mapsto> zero_key_state) \<rparr>, zero_key_state))"

definition put_state :: "string \<Rightarrow> shadowKeyState \<Rightarrow> ShadowCache \<Rightarrow> ShadowCache" where
  "put_state canonical st cache = cache\<lparr> sc_keyState := (sc_keyState cache)(canonical \<mapsto> st) \<rparr>"

definition advanceGenerationLocked :: "shadowEntry \<times> shadowKeyState \<Rightarrow> shadowEntry \<times> shadowKeyState" where
  "advanceGenerationLocked =
     (\<lambda>(e, st). (e\<lparr> se_generation := ks_generation st + 1 \<rparr>, st\<lparr> ks_generation := ks_generation st + 1 \<rparr>))"

definition bumpLastWriteGenerationLocked :: "shadowEntry \<times> shadowKeyState \<Rightarrow> shadowEntry \<times> shadowKeyState" where
  "bumpLastWriteGenerationLocked =
     (\<lambda>(e, st). (e\<lparr> se_lastWriteGeneration := ks_lastWriteGeneration st + 1 \<rparr>,
                 st\<lparr> ks_lastWriteGeneration := ks_lastWriteGeneration st + 1 \<rparr>))"

definition advanceAbsentGenerationLocked :: "shadowKeyState \<Rightarrow> shadowKeyState" where
  "advanceAbsentGenerationLocked st =
     st\<lparr> ks_generation := ks_generation st + 1, ks_lastWriteGeneration := ks_lastWriteGeneration st + 1 \<rparr>"

definition snapshot_of :: "shadowEntry \<Rightarrow> shadowEligibilitySnapshotRecord" where
  "snapshot_of e =
     \<lparr> sn_present = True, sn_state = se_state e, sn_generation = se_generation e,
       sn_observedAt = se_observedAt e, sn_expiresAt = se_expiresAt e \<rparr>"

definition storeSnapshotLocked :: "shadowEntry \<Rightarrow> shadowKeyState \<Rightarrow> shadowKeyState" where
  "storeSnapshotLocked e st = st\<lparr> ks_snapshot := snapshot_of e \<rparr>"

definition storeAbsentSnapshotLocked :: "shadowKeyState \<Rightarrow> shadowKeyState" where
  "storeAbsentSnapshotLocked st = st\<lparr> ks_snapshot := zero_snapshot\<lparr> sn_generation := ks_generation st \<rparr> \<rparr>"

definition loadSnapshotRecord :: "string \<Rightarrow> ShadowCache \<Rightarrow> shadowEligibilitySnapshotRecord" where
  "loadSnapshotRecord canonical cache =
     (case sc_keyState cache canonical of None \<Rightarrow> zero_snapshot | Some st \<Rightarrow> ks_snapshot st)"

definition CaptureGeneration :: "WatchKey option \<Rightarrow> ShadowCache \<Rightarrow> uint64" where
  "CaptureGeneration key cache =
     (case key of None \<Rightarrow> 0 | Some k \<Rightarrow> sn_generation (loadSnapshotRecord (Canonical k) cache))"

definition SnapshotEligibility :: "int \<Rightarrow> WatchKey option \<Rightarrow> ShadowCache \<Rightarrow> ShadowEligibilitySnapshot" where
  "SnapshotEligibility now key cache =
     (let none = \<lparr> el_Present = False, el_Eligible = False, el_Generation = 0, el_State = ShadowEntryStateZero,
                   el_ObservedAt = 0, el_ExpiresAt = 0 \<rparr> in
      case key of
        None \<Rightarrow> none
      | Some k \<Rightarrow>
          (let rec = loadSnapshotRecord (Canonical k) cache in
           if \<not> sn_present rec then none\<lparr> el_Generation := sn_generation rec \<rparr>
           else
             (let eligible = (shadowingEnabled cache \<and> sn_state rec = ShadowEntryStatePresent);
                  eligible' = (if eligible \<and> (sn_expiresAt rec = 0 \<or> now > sn_expiresAt rec) then False else eligible) in
              \<lparr> el_Present = sn_present rec, el_Eligible = eligible', el_Generation = sn_generation rec,
                el_State = sn_state rec, el_ObservedAt = sn_observedAt rec, el_ExpiresAt = sn_expiresAt rec \<rparr>)))"

definition next_in :: "string \<Rightarrow> string list \<Rightarrow> string option" where
  "next_in canonical xs = (case dropWhile (\<lambda>x. x \<noteq> canonical) xs of _ # y # _ \<Rightarrow> Some y | _ \<Rightarrow> None)"

definition removeEntryLocked :: "string \<Rightarrow> ShadowCache \<Rightarrow> ShadowCache" where
  "removeEntryLocked canonical cache =
     (case entry_at cache canonical of
        None \<Rightarrow> cache
      | Some e \<Rightarrow>
          cache\<lparr> sc_evictableLRU := (if se_evictableElem e then remove1 canonical (sc_evictableLRU cache)
                                    else sc_evictableLRU cache),
                 sc_compactorCursor := (if sc_compactorCursor cache = Some canonical
                                        then next_in canonical (sc_compactorList cache)
                                        else sc_compactorCursor cache),
                 sc_compactorList := remove1 canonical (sc_compactorList cache),
                 sc_entries := AList.delete canonical (sc_entries cache),
                 sc_keyState := (case sc_keyState cache canonical of
                                   None \<Rightarrow> sc_keyState cache
                                 | Some st \<Rightarrow> (sc_keyState cache)(canonical \<mapsto> storeAbsentSnapshotLocked st)) \<rparr>)"

section \<open>Capacity\<close>

text \<open>
  The eviction loop takes the oldest unpinned entry until there is room or nothing is left to evict.
  It would spin on a list element without an entry, so it is a partial function; that it returns in
  every state the operations reach is one of the theorems.
\<close>

partial_function (option) evict_loop :: "ShadowCache \<Rightarrow> (ShadowCache \<times> bool) option" where
  "evict_loop cache =
     (if int (length (sc_entries cache)) \<ge> sc_capacity cache then
        (case sc_evictableLRU cache of
           [] \<Rightarrow> Some (cache, False)
         | front # _ \<Rightarrow> evict_loop (removeEntryLocked front cache))
      else Some (cache, True))"

definition ensureCapacityLocked :: "shadowPinClass \<Rightarrow> ShadowCache \<Rightarrow> (ShadowCache \<times> bool) option" where
  "ensureCapacityLocked desiredPin cache =
     (if int (length (sc_entries cache)) < sc_capacity cache then Some (cache, True)
      else (case evict_loop cache of
              None \<Rightarrow> None
            | Some (c1, room) \<Rightarrow>
                if \<not> room then Some (c1, False)
                else if desiredPin = shadowPinClassWriteConfirm \<and>
                        int (writeConfirmPinnedCountLocked c1) \<ge> sc_writeConfirmPinnedCap c1
                then Some (c1, False)
                else Some (c1, True)))"

section \<open>Writing\<close>

definition shadowSourcePrecedence :: "string \<Rightarrow> int" where
  "shadowSourcePrecedence src = (if src = ShadowWriteSourceActiveConfirmed then 1 else 0)"

definition precedence_by_entry :: "shadowEntry \<Rightarrow> ShadowWrite \<Rightarrow> ShadowWriteRejectionReason" where
  "precedence_by_entry e w =
     (if sw_ObservedAt w < se_observedAt e then StaleTimestamp
      else if sw_ObservedAt w > se_observedAt e then NoRejection
      else if se_value e = [] \<or> se_value e = sw_Value w then
        (if sw_Source w = se_source e \<or>
            shadowSourcePrecedence (sw_Source w) \<ge> shadowSourcePrecedence (se_source e)
         then NoRejection else SameTimestampConflict)
      else if sw_Source w = se_source e then SameTimestampConflict
      else if shadowSourcePrecedence (sw_Source w) > shadowSourcePrecedence (se_source e) then NoRejection
      else SameTimestampConflict)"

definition rejectWriteByPrecedence ::
  "shadowKeyState \<Rightarrow> shadowEntry option \<Rightarrow> ShadowWrite \<Rightarrow> ShadowWriteRejectionReason" where
  "rejectWriteByPrecedence st entry w =
     (let qualified = (sw_Source w = ShadowWriteSourceActiveConfirmed \<and> sw_StartGeneration w = ks_generation st);
          at = sw_ObservedAt w in
      if ks_invalidatedAt st \<noteq> 0 \<and> at < ks_invalidatedAt st then StaleTimestamp
      else if ks_invalidatedAt st \<noteq> 0 \<and> at = ks_invalidatedAt st then
        (if qualified then NoRejection else StaleTimestamp)
      else (case entry of
              None \<Rightarrow>
                if ks_precedenceHighWater st \<noteq> 0 \<and> at < ks_precedenceHighWater st then StaleTimestamp
                else if ks_precedenceHighWater st \<noteq> 0 \<and> at = ks_precedenceHighWater st \<and> \<not> qualified
                then StaleTimestamp
                else NoRejection
            | Some e \<Rightarrow> precedence_by_entry e w))"

definition rejected :: "uint64 \<Rightarrow> ShadowWriteRejectionReason \<Rightarrow> ShadowWriteResult" where
  "rejected generation reason =
     \<lparr> wr_Accepted = False, wr_Generation = generation, wr_LastWriteGeneration = 0, wr_Reason = reason \<rparr>"

text \<open>The checks of \<^verbatim>\<open>Write\<close> on the fields of the write, the descriptor and the activations.\<close>

definition write_policy ::
  "ShadowWrite \<Rightarrow> ShadowCache \<Rightarrow> (WatchKey \<times> WatchDescriptor \<times> string list) option" where
  "write_policy w cache =
     (case sw_Key w of
        None \<Rightarrow> None
      | Some k \<Rightarrow>
          if sw_ObservedAt w = 0 \<or> sw_Source w = '''' \<or> sw_Confidence w = '''' then None
          else (case DescriptorByCanonical (sc_catalog cache) (Canonical k) of
                  None \<Rightarrow> None
                | Some descriptor \<Rightarrow>
                    if wd_FreshnessProfile descriptor = WatchFreshnessProfileDebug \<or>
                       sw_Confidence w = ShadowConfidenceNone then None
                    else if \<not> shadowingEnabled cache then None
                    else (let sources = ActiveSources (sc_activations cache) (Some k) in
                          if sources = [] then None else Some (k, descriptor, sources))))"

text \<open>
  The rest of the checks: a rejection, or the cache, the state of the key, the pin class and the time
  to live with which the value is stored.
\<close>

definition write_gate ::
  "ShadowWrite \<Rightarrow> WatchKey \<Rightarrow> WatchDescriptor \<Rightarrow> string list \<Rightarrow> ShadowCache \<Rightarrow>
   (ShadowCache \<times> ShadowWriteResult) + (ShadowCache \<times> shadowKeyState \<times> shadowPinClass \<times> int)" where
  "write_gate w k descriptor sources cache =
     (let canonical = Canonical k;
          (c1, st) = ensureKeyStateLocked canonical cache;
          entry = entry_at c1 canonical;
          desiredPin = desiredPinClass (Some k) descriptor sources in
      if desiredPin = shadowPinClassStatic \<and> sc_pinnedBudgetDegraded c1 then Inl (c1, rejected 0 PolicyReject)
      else if desiredPin = shadowPinClassWriteConfirm \<and> \<not> canAdmitWriteConfirmPinLocked entry c1
        then Inl (c1, rejected 0 CapacityReject)
      else
        (let c2 = syncEntryPinLocked canonical c1 in
         if sw_Source w = ShadowWriteSourceActiveConfirmed \<and> ks_generation st \<noteq> sw_StartGeneration w
           then Inl (c2, rejected (ks_generation st) GenerationAdvanced)
         else
           (let reason = rejectWriteByPrecedence st (entry_at c2 canonical) w in
            if reason \<noteq> NoRejection then Inl (c2, rejected (ks_generation st) reason)
            else (case EffectiveFreshnessTTL descriptor of
                    Inl _ \<Rightarrow> Inl (c2, rejected 0 PolicyReject)
                  | Inr ttl \<Rightarrow> if ttl \<le> 0 then Inl (c2, rejected 0 PolicyReject)
                              else Inr (c2, st, desiredPin, ttl)))))"

text \<open>The assignments to the entry and the key state once the write is admitted.\<close>

definition written_entry :: "ShadowWrite \<Rightarrow> WatchDescriptor \<Rightarrow> shadowPinClass \<Rightarrow> int \<Rightarrow> shadowEntry \<Rightarrow> shadowEntry" where
  "written_entry w descriptor desiredPin ttl e =
     e\<lparr> se_descriptor := descriptor, se_source := sw_Source w, se_confidence := sw_Confidence w,
        se_state := ShadowEntryStatePresent, se_value := sw_Value w, se_observedAt := sw_ObservedAt w,
        se_expiresAt := sw_ObservedAt w + ttl, se_invalidationReason := '''', se_invalidationSource := '''',
        se_invalidatedAt := 0, se_pinClass := desiredPin \<rparr>"

definition written_state :: "ShadowWrite \<Rightarrow> shadowKeyState \<Rightarrow> shadowKeyState" where
  "written_state w st =
     st\<lparr> ks_precedenceHighWater :=
           (if ks_precedenceHighWater st = 0 \<or> sw_ObservedAt w > ks_precedenceHighWater st
            then sw_ObservedAt w else ks_precedenceHighWater st),
         ks_invalidatedAt := 0 \<rparr>"

definition commit_entry :: "shadowEntry \<Rightarrow> shadowKeyState \<Rightarrow> shadowPinClass \<Rightarrow> int \<Rightarrow> ShadowCache \<Rightarrow> ShadowCache" where
  "commit_entry e st pin at cache =
     shadow_touchLocked at
       (put_state (se_canonicalKey e) (storeSnapshotLocked e st) (applyPinClassLocked e pin cache))"

definition store_write ::
  "ShadowWrite \<Rightarrow> WatchDescriptor \<Rightarrow> shadowPinClass \<Rightarrow> int \<Rightarrow> shadowEntry \<times> shadowKeyState \<Rightarrow> ShadowCache \<Rightarrow>
   ShadowCache \<times> ShadowWriteResult" where
  "store_write w descriptor desiredPin ttl p cache =
     (let e1 = written_entry w descriptor desiredPin ttl (fst p);
          st1 = written_state w (snd p);
          p2 = (if se_generation e1 = 0 then advanceGenerationLocked (e1, st1) else (e1, st1));
          (e3, st3) = bumpLastWriteGenerationLocked p2 in
      (commit_entry e3 st3 desiredPin (sw_ObservedAt w) cache,
       \<lparr> wr_Accepted = True, wr_Generation = se_generation e3, wr_LastWriteGeneration = se_lastWriteGeneration e3,
         wr_Reason = NoRejection \<rparr>))"

definition Write :: "ShadowWrite \<Rightarrow> ShadowCache \<Rightarrow> (ShadowCache \<times> ShadowWriteResult) option" where
  "Write w cache =
     (case write_policy w cache of
        None \<Rightarrow> Some (cache, rejected 0 PolicyReject)
      | Some (k, descriptor, sources) \<Rightarrow>
          (case write_gate w k descriptor sources cache of
             Inl res \<Rightarrow> Some res
           | Inr (c2, st, desiredPin, ttl) \<Rightarrow>
               (case entry_at c2 (Canonical k) of
                  Some e \<Rightarrow> Some (store_write w descriptor desiredPin ttl (e, st) c2)
                | None \<Rightarrow>
                    (case ensureCapacityLocked desiredPin c2 of
                       None \<Rightarrow> None
                     | Some (c3, room) \<Rightarrow>
                         if \<not> room then Some (c3, rejected 0 CapacityReject)
                         else (let c4 = c3\<lparr> sc_compactorList := sc_compactorList c3 @ [Canonical k] \<rparr> in
                               Some (store_write w descriptor desiredPin ttl
                                      (advanceGenerationLocked (fresh_entry (Canonical k) descriptor, st)) c4))))))"

section \<open>Invalidating\<close>

definition normalized_invalidation :: "int \<Rightarrow> ShadowInvalidation \<Rightarrow> ShadowInvalidation" where
  "normalized_invalidation now i =
     i\<lparr> si_Reason := (if si_Reason i = '''' then ShadowInvalidationReasonManual else si_Reason i),
        si_Source := (if si_Source i = '''' then ShadowInvalidationSourceSystem else si_Source i),
        si_InvalidatedAt := (if si_InvalidatedAt i = 0 then now else si_InvalidatedAt i) \<rparr>"

definition invalidated_state :: "int \<Rightarrow> shadowKeyState \<Rightarrow> shadowKeyState" where
  "invalidated_state at st =
     st\<lparr> ks_invalidatedAt :=
           (if ks_invalidatedAt st = 0 \<or> at > ks_invalidatedAt st then at else ks_invalidatedAt st),
         ks_precedenceHighWater :=
           (if ks_precedenceHighWater st = 0 \<or> at > ks_precedenceHighWater st then at
            else ks_precedenceHighWater st) \<rparr>"

definition invalidate_absent :: "string \<Rightarrow> shadowKeyState \<Rightarrow> ShadowCache \<Rightarrow> ShadowCache \<times> ShadowInvalidationResult" where
  "invalidate_absent canonical st cache =
     (let st' = advanceAbsentGenerationLocked st in
      (put_state canonical (storeAbsentSnapshotLocked st') cache,
       \<lparr> ir_Generation = ks_generation st', ir_State = ShadowEntryStateTombstone \<rparr>))"

definition invalidated_entry ::
  "ShadowInvalidation \<Rightarrow> WatchDescriptor \<Rightarrow> shadowPinClass \<Rightarrow> shadowKeyState \<Rightarrow> shadowEntry \<Rightarrow> shadowEntry" where
  "invalidated_entry i descriptor pin st e =
     e\<lparr> se_descriptor := descriptor,
        se_state := (if se_value e \<noteq> [] then ShadowEntryStateInvalidated else ShadowEntryStateTombstone),
        se_invalidationGeneration := se_generation e, se_invalidationReason := si_Reason i,
        se_invalidationSource := si_Source i, se_invalidatedAt := ks_invalidatedAt st, se_pinClass := pin \<rparr>"

definition store_invalidation ::
  "ShadowInvalidation \<Rightarrow> WatchDescriptor \<Rightarrow> shadowPinClass \<Rightarrow> shadowEntry \<Rightarrow> shadowKeyState \<Rightarrow> ShadowCache \<Rightarrow>
   ShadowCache \<times> ShadowInvalidationResult" where
  "store_invalidation i descriptor desiredPin e st cache =
     (let pin = (if desiredPin = shadowPinClassWriteConfirm \<and> \<not> canAdmitWriteConfirmPinLocked (Some e) cache
                 then shadowPinClassNone else desiredPin);
          (e1, st1) = advanceGenerationLocked (e, st);
          (e2, st2) = bumpLastWriteGenerationLocked (invalidated_entry i descriptor pin st1 e1, st1) in
      (commit_entry e2 st2 pin (si_InvalidatedAt i) cache,
       \<lparr> ir_Generation = se_generation e2, ir_State = se_state e2 \<rparr>))"

text \<open>The second half of \<^verbatim>\<open>Invalidate\<close>, once the times of the key are updated.\<close>

definition invalidate_key ::
  "ShadowInvalidation \<Rightarrow> WatchDescriptor \<Rightarrow> shadowPinClass \<Rightarrow> string \<Rightarrow> shadowKeyState \<Rightarrow> ShadowCache \<Rightarrow>
   (ShadowCache \<times> ShadowInvalidationResult) option" where
  "invalidate_key i descriptor desiredPin canonical st cache =
     (case entry_at cache canonical of
        Some e \<Rightarrow> Some (store_invalidation i descriptor desiredPin e st cache)
      | None \<Rightarrow>
          if desiredPin = shadowPinClassWriteConfirm \<and> \<not> canAdmitWriteConfirmPinLocked None cache
          then Some (invalidate_absent canonical st cache)
          else (case ensureCapacityLocked desiredPin cache of
                  None \<Rightarrow> None
                | Some (c3, room) \<Rightarrow>
                    if \<not> room then Some (invalidate_absent canonical st c3)
                    else (let e = fresh_entry canonical descriptor;
                              c4 = put_entry e (c3\<lparr> sc_compactorList := sc_compactorList c3 @ [canonical] \<rparr>) in
                          Some (store_invalidation i descriptor desiredPin e st c4))))"

definition Invalidate ::
  "int \<Rightarrow> ShadowInvalidation \<Rightarrow> ShadowCache \<Rightarrow> (ShadowCache \<times> ShadowInvalidationResult) option" where
  "Invalidate now req cache =
     (case si_Key req of
        None \<Rightarrow> Some (cache, \<lparr> ir_Generation = 0, ir_State = ShadowEntryStateZero \<rparr>)
      | Some k \<Rightarrow>
          (let i = normalized_invalidation now req;
               canonical = Canonical k;
               descriptor = (case DescriptorByCanonical (sc_catalog cache) canonical of
                               None \<Rightarrow> zero_descriptor | Some d \<Rightarrow> d);
               sources = ActiveSources (sc_activations cache) (Some k);
               (c1, st0) = ensureKeyStateLocked canonical cache;
               st = invalidated_state (si_InvalidatedAt i) st0 in
           invalidate_key i descriptor (desiredPinClass (Some k) descriptor sources) canonical st
             (put_state canonical st c1)))"

section \<open>Reading\<close>

definition lookupEligibleLocked :: "int \<Rightarrow> shadowEntry \<Rightarrow> int \<Rightarrow> ShadowCache \<Rightarrow> bool" where
  "lookupEligibleLocked now e maxAge cache =
     (if \<not> shadowingEnabled cache \<or> se_state e \<noteq> ShadowEntryStatePresent then False
      else (let limit = (case EffectiveFreshnessTTL (se_descriptor e) of
                           Inl _ \<Rightarrow> maxAge
                         | Inr ttl \<Rightarrow> if maxAge \<le> 0 \<or> (ttl > 0 \<and> ttl < maxAge) then ttl else maxAge);
                age = now - se_observedAt e in
            if limit \<le> 0 then False else age \<ge> 0 \<and> age \<le> limit))"

definition cloneShadowEntryView :: "shadowEntry \<Rightarrow> ShadowEntryView" where
  "cloneShadowEntryView e =
     \<lparr> ev_CanonicalKey = se_canonicalKey e, ev_Descriptor = se_descriptor e, ev_Source = se_source e,
       ev_Confidence = se_confidence e, ev_State = se_state e, ev_Value = se_value e,
       ev_ObservedAt = se_observedAt e, ev_ExpiresAt = se_expiresAt e, ev_Generation = se_generation e,
       ev_LastWriteGeneration = se_lastWriteGeneration e, ev_InvalidationGeneration = se_invalidationGeneration e,
       ev_InvalidationReason = se_invalidationReason e, ev_InvalidationSource = se_invalidationSource e,
       ev_InvalidatedAt = se_invalidatedAt e, ev_Pinned = (se_pinClass e \<noteq> shadowPinClassNone) \<rparr>"

definition Lookup :: "int \<Rightarrow> WatchKey option \<Rightarrow> int \<Rightarrow> ShadowCache \<Rightarrow> ShadowCache \<times> ShadowLookupResult option" where
  "Lookup now key maxAge cache =
     (case key of
        None \<Rightarrow> (cache, None)
      | Some k \<Rightarrow>
          (let canonical = Canonical k; c1 = syncEntryPinLocked canonical cache in
           case entry_at c1 canonical of
             None \<Rightarrow> (cache, None)
           | Some e \<Rightarrow>
               (let eligible = lookupEligibleLocked now e maxAge c1;
                    c2 = (if eligible \<and> se_pinClass e = shadowPinClassNone then touchEvictableLocked e c1 else c1) in
                (c2, Some \<lparr> lr_Entry = cloneShadowEntryView e, lr_Eligible = eligible,
                            lr_Descriptor = DescriptorByCanonical (sc_catalog c1) canonical \<rparr>))))"

definition Entry :: "WatchKey option \<Rightarrow> ShadowCache \<Rightarrow> ShadowCache \<times> ShadowEntryView option" where
  "Entry key cache =
     (case key of
        None \<Rightarrow> (cache, None)
      | Some k \<Rightarrow>
          (let c1 = syncEntryPinLocked (Canonical k) cache in
           (c1, map_option cloneShadowEntryView (entry_at c1 (Canonical k)))))"

definition shadow_Observe :: "WatchKey option \<Rightarrow> ShadowCache \<Rightarrow> ShadowCache \<times> WatchObservation" where
  "shadow_Observe key cache =
     (case key of
        None \<Rightarrow> (cache, catalog_miss)
      | Some k \<Rightarrow> (let (acts, ob) = Watch_Catalog.Observe (sc_activations cache) key in
                   (cache\<lparr> sc_activations := acts \<rparr>, ob)))"

text \<open>The loop of \<^verbatim>\<open>Summary\<close>: it brings each pin up to date and then counts it.\<close>

fun summary_loop :: "string list \<Rightarrow> ShadowCache \<Rightarrow> ShadowCache \<times> shadowPinClass list" where
  "summary_loop [] cache = (cache, [])"
| "summary_loop (k # ks) cache =
     (let c1 = syncEntryPinLocked k cache; (c2, pins) = summary_loop ks c1 in
      case entry_at c1 k of None \<Rightarrow> (c2, pins) | Some e \<Rightarrow> (c2, se_pinClass e # pins))"

definition Summary :: "string list \<Rightarrow> ShadowCache \<Rightarrow> ShadowCache \<times> ShadowCacheSummary" where
  "Summary order cache =
     (let (c1, pins) = summary_loop (range_order order (sc_entries cache)) cache in
      (c1, \<lparr> su_Enabled = shadowingEnabled c1, su_PinnedBudgetDegraded = sc_pinnedBudgetDegraded c1,
             su_TotalEntries = length (sc_entries c1),
             su_PinnedEntries = length (filter (\<lambda>p. p \<noteq> shadowPinClassNone) pins),
             su_EvictableEntries = length (filter (\<lambda>p. p = shadowPinClassNone) pins),
             su_StaticPinnedFootprint = staticPinnedFootprint c1,
             su_WriteConfirmPinnedActive = length (filter (\<lambda>p. p = shadowPinClassWriteConfirm) pins) \<rparr>))"

section \<open>Budget, activations and descriptors found at run time\<close>

definition revalidate_budget :: "string list \<Rightarrow> int \<Rightarrow> ShadowCache \<Rightarrow> ShadowCache" where
  "revalidate_budget order now cache =
     shadow_touchLocked now (syncAllPinsLocked order
       (cache\<lparr> sc_pinnedBudgetDegraded := int (staticPinnedFootprint cache) > staticPinnedBudget cache \<rparr>))"

definition RevalidatePinnedBudget ::
  "string list \<Rightarrow> string list \<Rightarrow> int \<Rightarrow> ShadowCache \<Rightarrow> ShadowCache \<times> ShadowCacheSummary" where
  "RevalidatePinnedBudget order order' now cache = Summary order' (revalidate_budget order now cache)"

definition NewShadowCache :: "int \<Rightarrow> ShadowCacheOptions \<Rightarrow> ShadowCache" where
  "NewShadowCache now opts0 =
     (let opts = normalizeShadowCacheOptions opts0;
          catalog = the (so_Catalog opts);
          cache = \<lparr> sc_catalog = catalog, sc_activations = the (so_Activations opts),
                    sc_capacity = so_Capacity opts, sc_pinnedCapacity = so_PinnedCapacity opts,
                    sc_writeConfirmPinnedCap = so_WriteConfirmPinnedCap opts,
                    sc_tombstoneRetainWindow = so_TombstoneRetainWindow opts,
                    sc_tombstoneHardLifespan = so_TombstoneHardLifespan opts,
                    sc_compactorCadence = so_CompactorCadence opts,
                    sc_compactorBatchSize = so_CompactorBatchSize opts,
                    sc_shutdownCompactorTimeout = so_ShutdownCompactorTimeout opts,
                    sc_featureFlags = NormalizeObserveFirstFeatureFlagsFromView (so_FeatureFlags opts),
                    sc_lastUpdatedAt = now, sc_entries = [], sc_keyState = Map.empty, sc_evictableLRU = [],
                    sc_compactorList = [], sc_compactorCursor = None, sc_pinnedBudgetDegraded = False \<rparr> in
      fst (RevalidatePinnedBudget [] [] now cache))"

definition RefreshActivations :: "string list \<Rightarrow> int \<Rightarrow> ShadowCache \<Rightarrow> ShadowCache" where
  "RefreshActivations order now cache = shadow_touchLocked now (syncAllPinsLocked order cache)"

definition dedupeWatchActivationSources :: "string list \<Rightarrow> string list" where
  "dedupeWatchActivationSources sources =
     foldl (\<lambda>out src. if src = '''' \<or> src \<in> set out then out else out @ [src]) [] sources"

definition shouldUpgradeRuntimeDescriptor :: "WatchDescriptor \<Rightarrow> WatchDescriptor \<Rightarrow> bool" where
  "shouldUpgradeRuntimeDescriptor existing incoming =
     (if wd_DecoderID existing \<noteq> runtimeDescriptorDecoderPassiveFallback then False
      else wd_DecoderID incoming \<noteq> runtimeDescriptorDecoderPassiveFallback)"

definition watchActivationSourcesContain :: "string list \<Rightarrow> string \<Rightarrow> bool" where
  "watchActivationSourcesContain sources goal = list_ex (\<lambda>src. src = goal) sources"

fun activate_all :: "WatchActivationSet \<Rightarrow> string list \<Rightarrow> WatchKey option \<Rightarrow> watch_error + WatchActivationSet" where
  "activate_all acts [] key = Inr acts"
| "activate_all acts (src # srcs) key =
     (case Activate acts src [key] of
        (acts', Some e) \<Rightarrow> Inl e
      | (acts', None) \<Rightarrow> activate_all acts' srcs key)"

fun bootstrap_activations ::
  "WatchDescriptor list \<Rightarrow> WatchActivationSet \<Rightarrow> string \<Rightarrow> string list \<Rightarrow> WatchActivationSet \<Rightarrow>
   watch_error + WatchActivationSet" where
  "bootstrap_activations [] current canonical extra acts = Inr acts"
| "bootstrap_activations (stored # ds) current canonical extra acts =
     (let merged = ActiveSources current (wd_Key stored) @
                   (if CanonicalKey stored = canonical then extra else []) in
      case activate_all acts (dedupeWatchActivationSources merged) (wd_Key stored) of
        Inl e \<Rightarrow> Inl e
      | Inr acts' \<Rightarrow> bootstrap_activations ds current canonical extra acts')"

definition bootstrapRuntimeActivationSet ::
  "WatchCatalog \<Rightarrow> WatchActivationSet \<Rightarrow> string \<Rightarrow> string list \<Rightarrow> watch_error + WatchActivationSet" where
  "bootstrapRuntimeActivationSet updated current canonical extra =
     bootstrap_activations (Descriptors updated) current canonical extra (NewWatchActivationSet (Some updated))"

fun replace_descriptor :: "string \<Rightarrow> WatchDescriptor \<Rightarrow> WatchDescriptor list \<Rightarrow> WatchDescriptor list" where
  "replace_descriptor canonical normalized [] = []"
| "replace_descriptor canonical normalized (stored # ds) =
     (if CanonicalKey stored = canonical then normalized # ds
      else stored # replace_descriptor canonical normalized ds)"

text \<open>
  The loop that activates the sources of a descriptor already in the catalogue, in place: the
  activation set, whether a source was new, and the first error.
\<close>

fun activate_sources ::
  "WatchActivationSet \<Rightarrow> string list \<Rightarrow> string list \<Rightarrow> bool \<Rightarrow> WatchKey option \<Rightarrow>
   WatchActivationSet \<times> bool \<times> watch_error option" where
  "activate_sources acts existing [] added key = (acts, added, None)"
| "activate_sources acts existing (src # srcs) added key =
     (let isNew = \<not> watchActivationSourcesContain existing src;
          existing' = (if isNew then existing @ [src] else existing);
          added' = (added \<or> isNew) in
      case Activate acts src [key] of
        (acts', Some e) \<Rightarrow> (acts', added', Some e)
      | (acts', None) \<Rightarrow> activate_sources acts' existing' srcs added' key)"

definition BootstrapRuntimeDescriptor ::
  "WatchDescriptor \<Rightarrow> string list \<Rightarrow> string list \<Rightarrow> int \<Rightarrow> ShadowCache \<Rightarrow> ShadowCache \<times> watch_error option" where
  "BootstrapRuntimeDescriptor descriptor sources order now cache =
     (case normalizeWatchDescriptor descriptor of
        Inl e \<Rightarrow> (cache, Some e)
      | Inr normalized \<Rightarrow>
          if wd_Key normalized = None then (cache, Some MissingKey)
          else
          (let deduped = dedupeWatchActivationSources sources;
               activationSources = (if deduped = [] then [WatchActivationSourcePoller] else deduped);
               canonical = CanonicalKey normalized;
               current = sc_activations cache;
               install = (\<lambda>descriptors upgrade.
                 case NewWatchCatalog descriptors of
                   Inl e \<Rightarrow> (cache, Some e)
                 | Inr updated \<Rightarrow>
                     (case bootstrapRuntimeActivationSet updated current canonical activationSources of
                        Inl e \<Rightarrow> (cache, Some e)
                      | Inr acts \<Rightarrow>
                          (let c1 = cache\<lparr> sc_catalog := updated, sc_activations := acts \<rparr>;
                               c2 = (case entry_at c1 canonical of
                                       Some e \<Rightarrow> if upgrade then put_entry (e\<lparr> se_descriptor := normalized \<rparr>) c1 else c1
                                     | None \<Rightarrow> c1) in
                           (revalidate_budget order now c2, None)))) in
           case DescriptorByCanonical (sc_catalog cache) canonical of
             Some existing \<Rightarrow>
               if shouldUpgradeRuntimeDescriptor existing normalized
               then install (replace_descriptor canonical normalized (Descriptors (sc_catalog cache))) True
               else (let (acts, added, err) =
                           activate_sources current (ActiveSources current (wd_Key normalized)) activationSources
                             False (wd_Key normalized);
                         c1 = cache\<lparr> sc_activations := acts \<rparr> in
                     if err \<noteq> None then (c1, err)
                     else if \<not> added then (c1, None)
                     else (revalidate_budget order now c1, None))
           | None \<Rightarrow> install (Descriptors (sc_catalog cache) @ [normalized]) False))"

section \<open>Compaction\<close>

text \<open>The entry after its pin has been brought up to date, and what its age makes of it.\<close>

definition compact_entry :: "int \<Rightarrow> string \<Rightarrow> ShadowCache \<Rightarrow> ShadowCache \<times> bool" where
  "compact_entry now canonical cache =
     (case entry_at cache canonical of
        None \<Rightarrow> (cache, False)
      | Some _ \<Rightarrow>
          (let c1 = syncEntryPinLocked canonical cache;
               (c2, st) = ensureKeyStateLocked canonical c1 in
           case entry_at c2 canonical of
             None \<Rightarrow> (c2, False)
           | Some e \<Rightarrow>
               (case se_state e of
                  ShadowEntryStateInvalidated \<Rightarrow>
                    if se_invalidatedAt e = 0 \<or> now - se_invalidatedAt e < sc_tombstoneRetainWindow c2
                    then (c2, False)
                    else (let (e1, st1) = advanceGenerationLocked (e, st);
                              (e2, st2) = bumpLastWriteGenerationLocked
                                (e1\<lparr> se_state := ShadowEntryStateTombstone, se_value := [] \<rparr>, st1) in
                          (put_state canonical (storeSnapshotLocked e2 st2) (put_entry e2 c2), True))
                | ShadowEntryStateTombstone \<Rightarrow>
                    if se_invalidatedAt e = 0 \<or> now - se_invalidatedAt e < sc_tombstoneHardLifespan c2
                    then (c2, False)
                    else (let (e1, st1) = advanceGenerationLocked (e, st) in
                          (removeEntryLocked canonical
                             (put_state canonical (storeAbsentSnapshotLocked st1) (put_entry e1 c2)), True))
                | _ \<Rightarrow> (c2, False))))"

fun compact_entries :: "int \<Rightarrow> string list \<Rightarrow> ShadowCache \<Rightarrow> ShadowCache \<times> bool" where
  "compact_entries now [] cache = (cache, False)"
| "compact_entries now (k # ks) cache =
     (let (c1, m1) = compact_entry now k cache; (c2, m2) = compact_entries now ks c1 in (c2, m1 \<or> m2))"

definition compactBatch :: "string list \<Rightarrow> int \<Rightarrow> ShadowCache \<Rightarrow> ShadowCache" where
  "compactBatch batch now cache =
     (let (c1, mutated) = compact_entries now batch cache in
      if mutated then shadow_touchLocked now c1 else c1)"

definition nextCompactorBatch :: "ShadowCache \<Rightarrow> ShadowCache \<times> string list" where
  "nextCompactorBatch cache =
     (if sc_compactorList cache = [] then (cache\<lparr> sc_compactorCursor := None \<rparr>, [])
      else (let ahead = (case sc_compactorCursor cache of
                           None \<Rightarrow> sc_compactorList cache
                         | Some c \<Rightarrow> dropWhile (\<lambda>x. x \<noteq> c) (sc_compactorList cache));
                n = nat (sc_compactorBatchSize cache) in
            (cache\<lparr> sc_compactorCursor := (case drop n ahead of [] \<Rightarrow> None | c # _ \<Rightarrow> Some c) \<rparr>, take n ahead)))"

text \<open>The passes of \<^verbatim>\<open>CompactOnce\<close>; \<open>clock\<close> is the sequence of the clock's readings.\<close>

function compact_passes :: "(nat \<Rightarrow> int) \<Rightarrow> nat \<Rightarrow> int \<Rightarrow> ShadowCache \<Rightarrow> ShadowCache \<times> nat" where
  "compact_passes clock n remaining cache =
     (if remaining > 0 then
        (let (c1, batch) = nextCompactorBatch cache in
         if batch = [] then (c1, n)
         else compact_passes clock (Suc n) (remaining - int (length batch)) (compactBatch batch (clock n) c1))
      else (cache, n))"
  by pat_completeness auto
termination
  by (relation "measure (\<lambda>(clock, n, remaining, cache). nat remaining)") auto

declare compact_passes.simps [simp del]

definition CompactOnce :: "(nat \<Rightarrow> int) \<Rightarrow> ShadowCache \<Rightarrow> ShadowCache \<times> int" where
  "CompactOnce clock cache =
     (let (c1, n) = compact_passes clock 1 (int (length (sc_compactorList cache))) cache in
      (c1, clock n - clock 0))"

section \<open>The calls the cache serves\<close>

text \<open>
  One constructor per critical section; the compactor takes the lock once to fetch a batch and once to
  work on it, so its two halves are calls of their own and anything may run between them. The
  activation set is shared with the watchers, which change it without the cache's lock.
\<close>

datatype shadow_op =
  ShadowWriteOp ShadowWrite
| ShadowInvalidateOp int ShadowInvalidation
| ShadowLookupOp int "WatchKey option" int
| ShadowEntryOp "WatchKey option"
| ShadowObserveOp "WatchKey option"
| ShadowSummaryOp "string list"
| ShadowRevalidateOp "string list" "string list" int
| ShadowRefreshOp "string list" int
| ShadowBootstrapOp WatchDescriptor "string list" "string list" int
| ShadowNextBatchOp
| ShadowCompactOp "string list" int
| ShadowActivationOp activation_op

fun shadow_call :: "ShadowCache \<Rightarrow> shadow_op \<Rightarrow> ShadowCache option" where
  "shadow_call c (ShadowWriteOp w) = map_option fst (Write w c)"
| "shadow_call c (ShadowInvalidateOp now i) = map_option fst (Invalidate now i c)"
| "shadow_call c (ShadowLookupOp now k maxAge) = Some (fst (Lookup now k maxAge c))"
| "shadow_call c (ShadowEntryOp k) = Some (fst (Entry k c))"
| "shadow_call c (ShadowObserveOp k) = Some (fst (shadow_Observe k c))"
| "shadow_call c (ShadowSummaryOp order) = Some (fst (Summary order c))"
| "shadow_call c (ShadowRevalidateOp order order' now) = Some (fst (RevalidatePinnedBudget order order' now c))"
| "shadow_call c (ShadowRefreshOp order now) = Some (RefreshActivations order now c)"
| "shadow_call c (ShadowBootstrapOp d srcs order now) = Some (fst (BootstrapRuntimeDescriptor d srcs order now c))"
| "shadow_call c ShadowNextBatchOp = Some (fst (nextCompactorBatch c))"
| "shadow_call c (ShadowCompactOp batch now) = Some (compactBatch batch now c)"
| "shadow_call c (ShadowActivationOp op) = Some (c\<lparr> sc_activations := activation_step (sc_activations c) op \<rparr>)"

text \<open>A call that never returned would keep the lock: nothing runs after it.\<close>

definition shadow_step :: "ShadowCache \<Rightarrow> shadow_op \<Rightarrow> ShadowCache" where
  "shadow_step c op = (case shadow_call c op of None \<Rightarrow> c | Some c' \<Rightarrow> c')"

section \<open>What the theorems speak of\<close>

definition generation_of :: "ShadowCache \<Rightarrow> string \<Rightarrow> uint64" where
  "generation_of c k = (case sc_keyState c k of None \<Rightarrow> 0 | Some st \<Rightarrow> ks_generation st)"

definition lists_ok :: "ShadowCache \<Rightarrow> bool" where
  "lists_ok c \<longleftrightarrow>
     distinct (map fst (sc_entries c)) \<and>
     (\<forall>k e. entry_at c k = Some e \<longrightarrow>
        se_canonicalKey e = k \<and> (se_evictableElem e \<longleftrightarrow> se_pinClass e = shadowPinClassNone)) \<and>
     distinct (sc_evictableLRU c) \<and>
     (\<forall>k. k \<in> set (sc_evictableLRU c) \<longleftrightarrow> (\<exists>e. entry_at c k = Some e \<and> se_evictableElem e)) \<and>
     distinct (sc_compactorList c) \<and> set (sc_compactorList c) = dom (entry_at c) \<and>
     (\<forall>k. sc_compactorCursor c = Some k \<longrightarrow> k \<in> set (sc_compactorList c))"

definition states_ok :: "ShadowCache \<Rightarrow> bool" where
  "states_ok c \<longleftrightarrow>
     (\<forall>k e. entry_at c k = Some e \<longrightarrow>
        se_state e \<noteq> ShadowEntryStateZero \<and>
        (\<exists>st. sc_keyState c k = Some st \<and> ks_generation st = se_generation e \<and>
              ks_lastWriteGeneration st = se_lastWriteGeneration e \<and> ks_snapshot st = snapshot_of e)) \<and>
     (\<forall>k st. entry_at c k = None \<longrightarrow> sc_keyState c k = Some st \<longrightarrow> ks_snapshot st = ks_snapshot (storeAbsentSnapshotLocked st))"

definition shadow_ok :: "ShadowCache \<Rightarrow> bool" where
  "shadow_ok c \<longleftrightarrow>
     lists_ok c \<and> states_ok c \<and> int (length (sc_entries c)) \<le> sc_capacity c \<and> 0 < sc_capacity c \<and>
     0 < sc_compactorBatchSize c"

text \<open>
  How often a call may advance the generation of a key, whether it invalidates it, whether it is an
  accepted write of it, and the times of the accepted writes of a sequence of calls.
\<close>

fun bumps :: "string \<Rightarrow> shadow_op \<Rightarrow> nat" where
  "bumps k (ShadowWriteOp w) = (if map_option Canonical (sw_Key w) = Some k then 2 else 0)"
| "bumps k (ShadowInvalidateOp now i) = (if map_option Canonical (si_Key i) = Some k then 1 else 0)"
| "bumps k (ShadowCompactOp batch now) = count_list batch k"
| "bumps k _ = 0"

fun invalidates :: "string \<Rightarrow> shadow_op \<Rightarrow> bool" where
  "invalidates k (ShadowInvalidateOp now i) = (map_option Canonical (si_Key i) = Some k)"
| "invalidates k _ = False"

fun accepts :: "string \<Rightarrow> ShadowCache \<Rightarrow> shadow_op \<Rightarrow> bool" where
  "accepts k c (ShadowWriteOp w) =
     (map_option Canonical (sw_Key w) = Some k \<and>
      (case Write w c of None \<Rightarrow> False | Some (c', r) \<Rightarrow> wr_Accepted r))"
| "accepts k c _ = False"

fun write_time :: "shadow_op \<Rightarrow> int" where
  "write_time (ShadowWriteOp w) = sw_ObservedAt w"
| "write_time _ = 0"

fun accepted_times :: "string \<Rightarrow> ShadowCache \<Rightarrow> shadow_op list \<Rightarrow> int list" where
  "accepted_times k c [] = []"
| "accepted_times k c (op # ops) =
     (if accepts k c op then write_time op # accepted_times k (shadow_step c op) ops
      else accepted_times k (shadow_step c op) ops)"

text \<open>An invalidation is timely when it is not older than what the cache knows of the key.\<close>

definition high_water :: "ShadowCache \<Rightarrow> string \<Rightarrow> int" where
  "high_water c k = (case sc_keyState c k of None \<Rightarrow> 0 | Some st \<Rightarrow> ks_precedenceHighWater st)"

fun timely :: "string \<Rightarrow> ShadowCache \<Rightarrow> shadow_op list \<Rightarrow> bool" where
  "timely k c [] = True"
| "timely k c (op # ops) =
     ((case op of
         ShadowInvalidateOp now i \<Rightarrow>
           (let at = si_InvalidatedAt (normalized_invalidation now i) in
            \<not> invalidates k op \<or> at \<noteq> 0 \<and> (high_water c k = 0 \<or> high_water c k \<le> at))
       | _ \<Rightarrow> True) \<and>
      timely k (shadow_step c op) ops)"

text \<open>A cache that watches one register, for closed examples.\<close>

definition example_key :: WatchKey where "example_key = NewB509WatchKey 8 16"

definition example_watch :: WatchDescriptor where "example_watch = example_descriptor example_key None"

definition example_shadow_options :: ShadowCacheOptions where
  "example_shadow_options =
     (let catalog = \<lparr> cat_descriptors = [Canonical example_key \<mapsto> example_watch], cat_ordered = [example_watch] \<rparr> in
      \<lparr> so_FeatureFlags = None, so_Catalog = Some catalog,
        so_Activations = Some ((NewWatchActivationSet (Some catalog))\<lparr> as_active := [Canonical example_key \<mapsto> [''tooling'']] \<rparr>),
        so_Capacity = 1, so_PinnedCapacity = 1, so_WriteConfirmPinnedCap = 0, so_TombstoneRetainWindow = 10,
        so_TombstoneHardLifespan = 20, so_CompactorCadence = 0, so_CompactorBatchSize = 0,
        so_ShutdownCompactorTimeout = 0 \<rparr>)"

definition example_cache :: ShadowCache where
  "example_cache = NewShadowCache 1000 example_shadow_options"

definition example_shadow_write :: "string \<Rightarrow> int \<Rightarrow> byte \<Rightarrow> uint64 \<Rightarrow> ShadowWrite" where
  "example_shadow_write src at b start =
     \<lparr> sw_Key = Some example_key, sw_Source = src, sw_Confidence = ''high_confidence'', sw_Value = [b],
       sw_ObservedAt = at, sw_StartGeneration = start \<rparr>"

definition example_invalidation :: "int \<Rightarrow> ShadowInvalidation" where
  "example_invalidation at =
     \<lparr> si_Key = Some example_key, si_Reason = ''external_write'', si_Source = ''passive'', si_InvalidatedAt = at \<rparr>"

section \<open>Lemmas: the association list and the pins\<close>

lemma length_alist_update:
  "length (AList.update k v al) = (if map_of al k = None then Suc (length al) else length al)"
  by (induction al) auto

lemma length_alist_delete:
  assumes "distinct (map fst al)"
  shows "length (AList.delete k al) = (if map_of al k = None then length al else length al - 1)"
proof -
  have "map fst (AList.delete k al) = remove1 k (map fst al)"
    using assms by (simp add: delete_keys distinct_remove1_removeAll)
  then have "length (AList.delete k al) = length (remove1 k (map fst al))" by (metis length_map)
  then show ?thesis by (simp add: length_remove1 map_of_eq_None_iff)
qed

lemma distinct_keys_update [simp]: "distinct (map fst (AList.update k v al)) \<longleftrightarrow> distinct (map fst al)"
  by (auto simp: update_keys)

lemmas alist_simps [simp] = update_conv' delete_conv' distinct_delete

lemma put_entry_fields [simp]:
  "entry_at (put_entry e c) = (entry_at c)(se_canonicalKey e \<mapsto> e)"
  "sc_keyState (put_entry e c) = sc_keyState c" "sc_evictableLRU (put_entry e c) = sc_evictableLRU c"
  "sc_compactorList (put_entry e c) = sc_compactorList c" "sc_compactorCursor (put_entry e c) = sc_compactorCursor c"
  "sc_capacity (put_entry e c) = sc_capacity c" "sc_compactorBatchSize (put_entry e c) = sc_compactorBatchSize c"
  "sc_catalog (put_entry e c) = sc_catalog c" "sc_activations (put_entry e c) = sc_activations c"
  "sc_pinnedBudgetDegraded (put_entry e c) = sc_pinnedBudgetDegraded c"
  "sc_writeConfirmPinnedCap (put_entry e c) = sc_writeConfirmPinnedCap c"
  "distinct (map fst (sc_entries (put_entry e c))) \<longleftrightarrow> distinct (map fst (sc_entries c))"
  "length (sc_entries (put_entry e c)) =
     (if entry_at c (se_canonicalKey e) = None then Suc (length (sc_entries c)) else length (sc_entries c))"
  by (simp_all add: put_entry_def length_alist_update)

lemma put_state_fields [simp]:
  "sc_entries (put_state k st c) = sc_entries c" "sc_keyState (put_state k st c) = (sc_keyState c)(k \<mapsto> st)"
  "sc_evictableLRU (put_state k st c) = sc_evictableLRU c" "sc_compactorList (put_state k st c) = sc_compactorList c"
  "sc_compactorCursor (put_state k st c) = sc_compactorCursor c" "sc_capacity (put_state k st c) = sc_capacity c"
  "sc_compactorBatchSize (put_state k st c) = sc_compactorBatchSize c"
  "sc_catalog (put_state k st c) = sc_catalog c" "sc_activations (put_state k st c) = sc_activations c"
  "sc_pinnedBudgetDegraded (put_state k st c) = sc_pinnedBudgetDegraded c"
  "sc_writeConfirmPinnedCap (put_state k st c) = sc_writeConfirmPinnedCap c"
  by (simp_all add: put_state_def)

lemma touch_fields [simp]:
  "sc_entries (shadow_touchLocked at c) = sc_entries c" "sc_keyState (shadow_touchLocked at c) = sc_keyState c"
  "sc_evictableLRU (shadow_touchLocked at c) = sc_evictableLRU c"
  "sc_compactorList (shadow_touchLocked at c) = sc_compactorList c"
  "sc_compactorCursor (shadow_touchLocked at c) = sc_compactorCursor c"
  "sc_capacity (shadow_touchLocked at c) = sc_capacity c"
  "sc_compactorBatchSize (shadow_touchLocked at c) = sc_compactorBatchSize c"
  "sc_catalog (shadow_touchLocked at c) = sc_catalog c" "sc_activations (shadow_touchLocked at c) = sc_activations c"
  "sc_pinnedBudgetDegraded (shadow_touchLocked at c) = sc_pinnedBudgetDegraded c"
  "sc_writeConfirmPinnedCap (shadow_touchLocked at c) = sc_writeConfirmPinnedCap c"
  by (simp_all add: shadow_touchLocked_def)

text \<open>What \<open>pin_change\<close> does when the entry knows whether it is in the eviction order.\<close>

definition repinned :: "shadowPinClass \<Rightarrow> shadowEntry \<Rightarrow> shadowEntry" where
  "repinned pin e = e\<lparr> se_pinClass := pin, se_evictableElem := (pin = shadowPinClassNone) \<rparr>"

lemma repinned_fields [simp]:
  "se_canonicalKey (repinned p e) = se_canonicalKey e" "se_descriptor (repinned p e) = se_descriptor e"
  "se_source (repinned p e) = se_source e" "se_state (repinned p e) = se_state e"
  "se_value (repinned p e) = se_value e" "se_observedAt (repinned p e) = se_observedAt e"
  "se_expiresAt (repinned p e) = se_expiresAt e" "se_generation (repinned p e) = se_generation e"
  "se_lastWriteGeneration (repinned p e) = se_lastWriteGeneration e"
  "se_invalidatedAt (repinned p e) = se_invalidatedAt e"
  "se_pinClass (repinned p e) = p" "se_evictableElem (repinned p e) \<longleftrightarrow> p = shadowPinClassNone"
  "snapshot_of (repinned p e) = snapshot_of e"
  by (simp_all add: repinned_def snapshot_of_def)

lemma pin_change_entry: "fst (pin_change p (e, lru)) = repinned p e"
  by (auto simp: pin_change_def repinned_def push_evictable_def drop_evictable_def Let_def)

lemma pin_change_lru:
  assumes "distinct lru" and "se_evictableElem e \<longleftrightarrow> se_canonicalKey e \<in> set lru"
  shows "distinct (snd (pin_change p (e, lru)))"
    and "set (snd (pin_change p (e, lru))) =
           (if p = shadowPinClassNone then insert (se_canonicalKey e) (set lru) else set lru - {se_canonicalKey e})"
  using assms by (auto simp: pin_change_def push_evictable_def drop_evictable_def Let_def)

lemma apply_pin_fields [simp]:
  "entry_at (applyPinClassLocked e p c) = (entry_at c)(se_canonicalKey e \<mapsto> repinned p e)"
  "sc_evictableLRU (applyPinClassLocked e p c) = snd (pin_change p (e, sc_evictableLRU c))"
  "sc_keyState (applyPinClassLocked e p c) = sc_keyState c"
  "sc_compactorList (applyPinClassLocked e p c) = sc_compactorList c"
  "sc_compactorCursor (applyPinClassLocked e p c) = sc_compactorCursor c"
  "sc_capacity (applyPinClassLocked e p c) = sc_capacity c"
  "sc_compactorBatchSize (applyPinClassLocked e p c) = sc_compactorBatchSize c"
  "sc_catalog (applyPinClassLocked e p c) = sc_catalog c"
  "sc_activations (applyPinClassLocked e p c) = sc_activations c"
  "sc_pinnedBudgetDegraded (applyPinClassLocked e p c) = sc_pinnedBudgetDegraded c"
  "sc_writeConfirmPinnedCap (applyPinClassLocked e p c) = sc_writeConfirmPinnedCap c"
  "distinct (map fst (sc_entries (applyPinClassLocked e p c))) \<longleftrightarrow> distinct (map fst (sc_entries c))"
  "length (sc_entries (applyPinClassLocked e p c)) =
     (if entry_at c (se_canonicalKey e) = None then Suc (length (sc_entries c)) else length (sc_entries c))"
  using pin_change_entry[of p e "sc_evictableLRU c"]
  by (simp_all add: applyPinClassLocked_def Let_def case_prod_beta)

section \<open>Lemmas: every call keeps the invariant\<close>

lemma lists_okI:
  assumes "distinct (map fst (sc_entries c))"
    and "\<And>k e. entry_at c k = Some e \<Longrightarrow>
           se_canonicalKey e = k \<and> (se_evictableElem e \<longleftrightarrow> se_pinClass e = shadowPinClassNone)"
    and "distinct (sc_evictableLRU c)"
    and "\<And>k. k \<in> set (sc_evictableLRU c) \<longleftrightarrow> (\<exists>e. entry_at c k = Some e \<and> se_evictableElem e)"
    and "distinct (sc_compactorList c)" and "set (sc_compactorList c) = dom (entry_at c)"
    and "\<And>k. sc_compactorCursor c = Some k \<Longrightarrow> k \<in> set (sc_compactorList c)"
  shows "lists_ok c"
  using assms unfolding lists_ok_def by blast

lemma lists_ok_entry:
  assumes "lists_ok c" and "entry_at c k = Some e"
  shows "se_canonicalKey e = k" and "se_evictableElem e \<longleftrightarrow> k \<in> set (sc_evictableLRU c)"
    and "se_evictableElem e \<longleftrightarrow> se_pinClass e = shadowPinClassNone" and "k \<in> set (sc_compactorList c)"
  using assms by (auto simp: lists_ok_def)

lemma shadow_ok_cong:
  assumes "sc_entries c' = sc_entries c" "sc_keyState c' = sc_keyState c" "sc_evictableLRU c' = sc_evictableLRU c"
    "sc_compactorList c' = sc_compactorList c" "sc_compactorCursor c' = sc_compactorCursor c"
    "sc_capacity c' = sc_capacity c" "sc_compactorBatchSize c' = sc_compactorBatchSize c"
  shows "shadow_ok c' \<longleftrightarrow> shadow_ok c"
  by (simp add: shadow_ok_def lists_ok_def states_ok_def assms)

lemma shadow_ok_touch [simp]: "shadow_ok (shadow_touchLocked at c) \<longleftrightarrow> shadow_ok c"
  by (rule shadow_ok_cong) simp_all

lemma lists_ok_apply:
  assumes ok: "lists_ok c" and e: "se_evictableElem e \<longleftrightarrow> se_canonicalKey e \<in> set (sc_evictableLRU c)"
    and lists: "sc_compactorList c' = sc_compactorList c \<and> entry_at c (se_canonicalKey e) \<noteq> None \<or>
                sc_compactorList c' = sc_compactorList c @ [se_canonicalKey e] \<and> entry_at c (se_canonicalKey e) = None"
    and same: "distinct (map fst (sc_entries c'))" "entry_at c' = entry_at c \<or> (\<exists>e'. entry_at c' = (entry_at c)(se_canonicalKey e \<mapsto> e'))"
      "sc_evictableLRU c' = sc_evictableLRU c" "sc_compactorCursor c' = sc_compactorCursor c"
  shows "lists_ok (applyPinClassLocked e p c')"
proof -
  note pc = pin_change_lru[of "sc_evictableLRU c" e p]
  have d: "distinct (sc_evictableLRU c)" using ok by (simp add: lists_ok_def)
  have upd: "entry_at (applyPinClassLocked e p c') = (entry_at c)(se_canonicalKey e \<mapsto> repinned p e)"
    using same(2) by auto
  have lru: "k \<in> set (sc_evictableLRU (applyPinClassLocked e p c')) \<longleftrightarrow>
             (\<exists>x. entry_at (applyPinClassLocked e p c') k = Some x \<and> se_evictableElem x)" for k
    unfolding upd using ok pc(2)[OF d e] same(3) by (auto simp: lists_ok_def)
  have list: "distinct (sc_compactorList c')" "set (sc_compactorList c') = insert (se_canonicalKey e) (dom (entry_at c))"
    using ok lists by (auto simp: lists_ok_def)
  have cur: "sc_compactorCursor c' = Some k \<Longrightarrow> k \<in> set (sc_compactorList c')" for k
    using ok list(2) same(4) by (auto simp: lists_ok_def)
  have ent: "((entry_at c)(se_canonicalKey e \<mapsto> repinned p e)) k = Some x \<Longrightarrow>
             se_canonicalKey x = k \<and> (se_evictableElem x \<longleftrightarrow> se_pinClass x = shadowPinClassNone)" for k x
    using ok by (auto simp: lists_ok_def split: if_splits)
  show ?thesis
  proof (rule lists_okI)
    show "distinct (sc_evictableLRU (applyPinClassLocked e p c'))" using pc(1)[OF d e] same(3) by simp
    show "set (sc_compactorList (applyPinClassLocked e p c')) = dom (entry_at (applyPinClassLocked e p c'))"
      unfolding upd using list(2) by simp
    show "distinct (map fst (sc_entries (applyPinClassLocked e p c')))" using same(1) by simp
    show "distinct (sc_compactorList (applyPinClassLocked e p c'))" using list(1) by simp
  next
    fix k x
    assume "entry_at (applyPinClassLocked e p c') k = Some x"
    then show "se_canonicalKey x = k \<and> (se_evictableElem x \<longleftrightarrow> se_pinClass x = shadowPinClassNone)"
      unfolding upd by (rule ent)
  next
    fix k
    show "k \<in> set (sc_evictableLRU (applyPinClassLocked e p c')) \<longleftrightarrow>
          (\<exists>x. entry_at (applyPinClassLocked e p c') k = Some x \<and> se_evictableElem x)" by (rule lru)
  next
    fix k
    assume "sc_compactorCursor (applyPinClassLocked e p c') = Some k"
    then show "k \<in> set (sc_compactorList (applyPinClassLocked e p c'))" using cur by simp
  qed
qed

lemma states_ok_present:
  assumes "states_ok c" and "entry_at c' = (entry_at c)(k \<mapsto> e)" and "sc_keyState c' = (sc_keyState c)(k \<mapsto> st)"
    and "se_state e \<noteq> ShadowEntryStateZero" "ks_generation st = se_generation e"
      "ks_lastWriteGeneration st = se_lastWriteGeneration e" "ks_snapshot st = snapshot_of e"
  shows "states_ok c'"
  using assms(1,4-) unfolding states_ok_def assms(2,3) by auto

lemma states_ok_absent:
  assumes "states_ok c" and "entry_at c' = (entry_at c)(k := None)" and "sc_keyState c' = (sc_keyState c)(k \<mapsto> st)"
    and "ks_snapshot st = ks_snapshot (storeAbsentSnapshotLocked st)"
  shows "states_ok c'"
  using assms(1,4-) unfolding states_ok_def assms(2,3) by auto

lemma states_ok_entry:
  assumes "states_ok c" and "entry_at c k = Some e"
  obtains st where "sc_keyState c k = Some st" "ks_generation st = se_generation e"
    "ks_lastWriteGeneration st = se_lastWriteGeneration e" "ks_snapshot st = snapshot_of e"
    "se_state e \<noteq> ShadowEntryStateZero"
  using assms unfolding states_ok_def by blast

lemma no_state_no_entry: "states_ok c \<Longrightarrow> sc_keyState c k = None \<Longrightarrow> entry_at c k = None"
  using states_ok_entry by (metis option.distinct(1) option.exhaust)

lemma absent_snapshot [simp]:
  "ks_snapshot (storeAbsentSnapshotLocked (storeAbsentSnapshotLocked st)) = ks_snapshot (storeAbsentSnapshotLocked st)"
  by (simp add: storeAbsentSnapshotLocked_def)

lemma zero_absent: "ks_snapshot zero_key_state = ks_snapshot (storeAbsentSnapshotLocked zero_key_state)"
  by (simp add: zero_key_state_def storeAbsentSnapshotLocked_def zero_snapshot_def)

lemma shadow_ok_ensure:
  assumes "shadow_ok c"
  shows "shadow_ok (fst (ensureKeyStateLocked k c))"
proof (cases "sc_keyState c k")
  case None
  then have "entry_at c k = None" using assms by (simp add: shadow_ok_def no_state_no_entry)
  then have "entry_at c = (entry_at c)(k := None)" by (metis fun_upd_triv)
  moreover have "states_ok c" using assms by (simp add: shadow_ok_def)
  ultimately have "states_ok (fst (ensureKeyStateLocked k c))"
    by - (rule states_ok_absent[of c _ k zero_key_state], simp_all add: ensureKeyStateLocked_def None, rule zero_absent)
  moreover have "lists_ok (fst (ensureKeyStateLocked k c)) = lists_ok c"
    by (simp add: lists_ok_def ensureKeyStateLocked_def None)
  ultimately show ?thesis using assms None by (simp add: shadow_ok_def ensureKeyStateLocked_def)
qed (simp add: ensureKeyStateLocked_def assms)

lemma ensure_fields [simp]:
  "sc_entries (fst (ensureKeyStateLocked k c)) = sc_entries c"
  "sc_evictableLRU (fst (ensureKeyStateLocked k c)) = sc_evictableLRU c"
  "sc_compactorList (fst (ensureKeyStateLocked k c)) = sc_compactorList c"
  "sc_compactorCursor (fst (ensureKeyStateLocked k c)) = sc_compactorCursor c"
  "sc_capacity (fst (ensureKeyStateLocked k c)) = sc_capacity c"
  "sc_compactorBatchSize (fst (ensureKeyStateLocked k c)) = sc_compactorBatchSize c"
  "sc_catalog (fst (ensureKeyStateLocked k c)) = sc_catalog c"
  "sc_activations (fst (ensureKeyStateLocked k c)) = sc_activations c"
  "sc_pinnedBudgetDegraded (fst (ensureKeyStateLocked k c)) = sc_pinnedBudgetDegraded c"
  "sc_writeConfirmPinnedCap (fst (ensureKeyStateLocked k c)) = sc_writeConfirmPinnedCap c"
  "sc_keyState (fst (ensureKeyStateLocked k c)) = (sc_keyState c)(k \<mapsto> snd (ensureKeyStateLocked k c))"
  by (auto simp: ensureKeyStateLocked_def fun_upd_idem_iff split: option.splits)

lemma ensure_generation: "ks_generation (snd (ensureKeyStateLocked k c)) = generation_of c k"
  by (simp add: ensureKeyStateLocked_def generation_of_def zero_key_state_def split: option.splits)

lemma shadow_ok_apply:
  assumes ok: "shadow_ok c" and e: "entry_at c k = Some e"
  shows "shadow_ok (applyPinClassLocked e p c)"
proof -
  have l: "lists_ok c" and s: "states_ok c" using ok by (simp_all add: shadow_ok_def)
  note le = lists_ok_entry[OF l e]
  obtain st where st: "sc_keyState c k = Some st" "ks_generation st = se_generation e"
    "ks_lastWriteGeneration st = se_lastWriteGeneration e" "ks_snapshot st = snapshot_of e"
    "se_state e \<noteq> ShadowEntryStateZero" using s e by (rule states_ok_entry)
  have "states_ok (applyPinClassLocked e p c)"
    by (rule states_ok_present[OF s, of _ k "repinned p e" st]) (use st le(1) in \<open>auto simp: fun_upd_idem_iff\<close>)
  moreover have "lists_ok (applyPinClassLocked e p c)"
  proof (rule lists_ok_apply[OF l])
    show "distinct (map fst (sc_entries c))" using l by (simp add: lists_ok_def)
  qed (use le(1,2) e in auto)
  ultimately show ?thesis using ok e le(1) by (simp add: shadow_ok_def)
qed

lemma shadow_ok_sync: "shadow_ok c \<Longrightarrow> shadow_ok (syncEntryPinLocked k c)"
  by (simp add: syncEntryPinLocked_def shadow_ok_apply split: option.splits)

lemma shadow_ok_sync_all: "shadow_ok c \<Longrightarrow> shadow_ok (foldl (\<lambda>c k. syncEntryPinLocked k c) c ks)"
  by (induction ks arbitrary: c) (simp_all add: shadow_ok_sync)

lemma shadow_ok_summary_loop: "shadow_ok c \<Longrightarrow> shadow_ok (fst (summary_loop ks c))"
proof (induction ks arbitrary: c)
  case (Cons k ks)
  then have "shadow_ok (fst (summary_loop ks (syncEntryPinLocked k c)))" by (simp add: shadow_ok_sync)
  then show ?case by (simp add: Let_def case_prod_beta split: option.split)
qed simp

lemma shadow_ok_revalidate: "shadow_ok c \<Longrightarrow> shadow_ok (revalidate_budget order now c)"
  unfolding revalidate_budget_def syncAllPinsLocked_def shadow_ok_touch
  by (rule shadow_ok_sync_all) (subst shadow_ok_cong[of _ c], simp_all)

lemma next_in_set: "next_in k xs = Some y \<Longrightarrow> y \<in> set xs"
  by (auto simp: next_in_def split: list.splits dest!: arg_cong[of _ _ set] set_dropWhileD)

lemma next_in_other: "distinct xs \<Longrightarrow> next_in k xs = Some y \<Longrightarrow> y \<noteq> k"
proof -
  assume d: "distinct xs" and n: "next_in k xs = Some y"
  obtain a ys where dw: "dropWhile (\<lambda>x. x \<noteq> k) xs = a # y # ys"
    using n by (auto simp: next_in_def split: list.splits)
  have "a = k" using hd_dropWhile[of "\<lambda>x. x \<noteq> k" xs] dw by simp
  moreover have "distinct (a # y # ys)" using distinct_dropWhile[OF d, of "\<lambda>x. x \<noteq> k"] dw by simp
  ultimately show "y \<noteq> k" by auto
qed

lemma remove_fields:
  assumes "entry_at c k = Some e"
  shows "entry_at (removeEntryLocked k c) = (entry_at c)(k := None)"
    and "sc_keyState (removeEntryLocked k c) =
           (case sc_keyState c k of None \<Rightarrow> sc_keyState c
            | Some st \<Rightarrow> (sc_keyState c)(k \<mapsto> storeAbsentSnapshotLocked st))"
    and "sc_compactorList (removeEntryLocked k c) = remove1 k (sc_compactorList c)"
    and "sc_compactorCursor (removeEntryLocked k c) =
           (if sc_compactorCursor c = Some k then next_in k (sc_compactorList c) else sc_compactorCursor c)"
    and "sc_entries (removeEntryLocked k c) = AList.delete k (sc_entries c)"
    and "sc_evictableLRU (removeEntryLocked k c) =
           (if se_evictableElem e then remove1 k (sc_evictableLRU c) else sc_evictableLRU c)"
  using assms by (simp_all add: removeEntryLocked_def)

lemma remove_keeps_fields [simp]:
  "sc_capacity (removeEntryLocked k c) = sc_capacity c"
  "sc_compactorBatchSize (removeEntryLocked k c) = sc_compactorBatchSize c"
  "sc_catalog (removeEntryLocked k c) = sc_catalog c" "sc_activations (removeEntryLocked k c) = sc_activations c"
  "sc_pinnedBudgetDegraded (removeEntryLocked k c) = sc_pinnedBudgetDegraded c"
  "sc_writeConfirmPinnedCap (removeEntryLocked k c) = sc_writeConfirmPinnedCap c"
  by (simp_all add: removeEntryLocked_def split: option.split)

lemma lists_ok_remove:
  assumes ok: "lists_ok c" and e: "entry_at c k = Some e"
  shows "lists_ok (removeEntryLocked k c)"
proof (rule lists_okI)
  note f = remove_fields[OF e] and le = lists_ok_entry[OF ok e]
  have d: "distinct (map fst (sc_entries c))" "distinct (sc_compactorList c)" "distinct (sc_evictableLRU c)"
    and set: "set (sc_compactorList c) = dom (entry_at c)"
    using ok by (simp_all add: lists_ok_def)
  show "distinct (map fst (sc_entries (removeEntryLocked k c)))" using d(1) by (simp add: f distinct_delete)
  show "distinct (sc_compactorList (removeEntryLocked k c))" using d(2) by (simp add: f)
  show "distinct (sc_evictableLRU (removeEntryLocked k c))" using d(3) by (simp add: f)
  show "set (sc_compactorList (removeEntryLocked k c)) = dom (entry_at (removeEntryLocked k c))"
    unfolding f(1,3) using d(2) set by auto
  show "x \<in> set (sc_evictableLRU (removeEntryLocked k c)) \<longleftrightarrow>
        (\<exists>y. entry_at (removeEntryLocked k c) x = Some y \<and> se_evictableElem y)" for x
    unfolding f(1,6) using ok d(3) le(2) by (auto simp: lists_ok_def)
  show "sc_compactorCursor (removeEntryLocked k c) = Some x \<Longrightarrow> x \<in> set (sc_compactorList (removeEntryLocked k c))" for x
    unfolding f(3,4) using ok d(2) next_in_set[of k "sc_compactorList c" x] next_in_other[OF d(2), of k x]
    by (auto simp: lists_ok_def split: if_splits)
  show "entry_at (removeEntryLocked k c) x = Some y \<Longrightarrow>
        se_canonicalKey y = x \<and> (se_evictableElem y \<longleftrightarrow> se_pinClass y = shadowPinClassNone)" for x y
    unfolding f(1) using ok by (auto simp: lists_ok_def split: if_splits)
qed

lemma shadow_ok_remove:
  assumes ok: "shadow_ok c" and e: "entry_at c k = Some e"
  shows "shadow_ok (removeEntryLocked k c)"
    and "length (sc_entries (removeEntryLocked k c)) = length (sc_entries c) - 1"
    and "0 < length (sc_entries c)"
proof -
  have l: "lists_ok c" and s: "states_ok c" using ok by (simp_all add: shadow_ok_def)
  note f = remove_fields[OF e]
  obtain st where st: "sc_keyState c k = Some st" using states_ok_entry[OF s e] by metis
  have "states_ok (removeEntryLocked k c)"
    by (rule states_ok_absent[OF s, of _ k "storeAbsentSnapshotLocked st"]) (simp_all add: f(1,2) st)
  moreover show len: "length (sc_entries (removeEntryLocked k c)) = length (sc_entries c) - 1"
    using l e by (simp add: f(5) length_alist_delete lists_ok_def)
  moreover note lists_ok_remove[OF l e]
  moreover have "int (length (sc_entries c)) \<le> sc_capacity c" using ok by (simp add: shadow_ok_def)
  then have "int (length (sc_entries c) - 1) \<le> sc_capacity c" by linarith
  ultimately show "shadow_ok (removeEntryLocked k c)" using ok by (simp add: shadow_ok_def)
  show "0 < length (sc_entries c)" using e by (cases "sc_entries c") auto
qed

section \<open>Lemmas: what a call leaves alone\<close>

text \<open>
  The calls are compared key by key: \<open>calm c c' k\<close> says that the generations and times of \<open>k\<close> are as
  before, and that its entry is as before, but for its pin and descriptor, or gone.
\<close>

definition key_state :: "ShadowCache \<Rightarrow> string \<Rightarrow> shadowKeyState" where
  "key_state c k = (case sc_keyState c k of None \<Rightarrow> zero_key_state | Some st \<Rightarrow> st)"

definition bare :: "shadowKeyState \<Rightarrow> shadowKeyState" where
  "bare st = st\<lparr> ks_snapshot := zero_snapshot \<rparr>"

definition core :: "shadowEntry \<Rightarrow> shadowEntry" where
  "core e = e\<lparr> se_descriptor := zero_descriptor, se_pinClass := shadowPinClassNone, se_evictableElem := False \<rparr>"

definition calm :: "ShadowCache \<Rightarrow> ShadowCache \<Rightarrow> string \<Rightarrow> bool" where
  "calm c c' k \<longleftrightarrow>
     bare (key_state c' k) = bare (key_state c k) \<and>
     (\<forall>e'. entry_at c' k = Some e' \<longrightarrow> (\<exists>e. entry_at c k = Some e \<and> core e' = core e))"

lemma core_repinned [simp]: "core (repinned p e) = core e"
  by (simp add: core_def repinned_def)

lemma core_eqD:
  assumes "core e' = core e"
  shows "se_state e' = se_state e" "se_value e' = se_value e" "se_observedAt e' = se_observedAt e"
    "se_source e' = se_source e" "se_expiresAt e' = se_expiresAt e" "se_invalidatedAt e' = se_invalidatedAt e"
    "se_generation e' = se_generation e" "se_canonicalKey e' = se_canonicalKey e"
  using assms by (cases e; cases e'; simp add: core_def)+

lemma bare_eqD:
  assumes "bare st' = bare st"
  shows "ks_generation st' = ks_generation st" "ks_invalidatedAt st' = ks_invalidatedAt st"
    "ks_precedenceHighWater st' = ks_precedenceHighWater st"
  using assms by (cases st; cases st'; simp add: bare_def)+

lemma calm_refl [simp]: "calm c c k"
  by (simp add: calm_def)

lemma calm_trans [trans]: "calm a b k \<Longrightarrow> calm b c k \<Longrightarrow> calm a c k"
  unfolding calm_def by metis

lemma calm_same:
  assumes "sc_keyState c' k = sc_keyState c k" "entry_at c' k = entry_at c k"
  shows "calm c c' k"
  using assms by (simp add: calm_def key_state_def)

text \<open>
  The eviction loop returns, removes only unpinned entries, and leaves the keys that are left
  untouched; the keys it removed keep their generation.
\<close>

definition evicted :: "ShadowCache \<Rightarrow> ShadowCache \<Rightarrow> bool" where
  "evicted c c' \<longleftrightarrow>
     shadow_ok c' \<and> (\<forall>k. calm c c' k) \<and>
     sc_capacity c' = sc_capacity c \<and> sc_catalog c' = sc_catalog c \<and> sc_activations c' = sc_activations c \<and>
     sc_pinnedBudgetDegraded c' = sc_pinnedBudgetDegraded c \<and>
     sc_writeConfirmPinnedCap c' = sc_writeConfirmPinnedCap c"

lemma evicted_refl: "shadow_ok c \<Longrightarrow> evicted c c"
  by (simp add: evicted_def)

lemma evicted_trans: "evicted a b \<Longrightarrow> evicted b c \<Longrightarrow> evicted a c"
  unfolding evicted_def by (metis calm_trans)

lemma evicted_remove:
  assumes "shadow_ok c" and "entry_at c k = Some e"
  shows "evicted c (removeEntryLocked k c)"
  using shadow_ok_remove(1)[OF assms] assms(2) remove_fields(1,2)[OF assms(2)]
  by (auto simp: evicted_def calm_def key_state_def bare_def storeAbsentSnapshotLocked_def split: option.splits)

lemma evict_loop_returns:
  assumes "shadow_ok c"
  shows "\<exists>c' room. evict_loop c = Some (c', room) \<and> evicted c c' \<and>
           (room \<longrightarrow> int (length (sc_entries c')) < sc_capacity c') \<and> (\<not> room \<longrightarrow> sc_evictableLRU c' = [])"
  using assms
proof (induction "length (sc_entries c)" arbitrary: c rule: less_induct)
  case less
  show ?case
  proof (cases "int (length (sc_entries c)) \<ge> sc_capacity c \<and> sc_evictableLRU c \<noteq> []")
    case True
    then obtain k ks where lru: "sc_evictableLRU c = k # ks" by (cases "sc_evictableLRU c") auto
    then have "\<exists>e. entry_at c k = Some e" using less.prems unfolding shadow_ok_def lists_ok_def by (metis list.set_intros(1))
    then obtain e where e: "entry_at c k = Some e" ..
    note r = shadow_ok_remove[OF less.prems e]
    have "length (sc_entries (removeEntryLocked k c)) < length (sc_entries c)" using r(2,3) by linarith
    from less.hyps[OF this r(1)] obtain c' room where
      c': "evict_loop (removeEntryLocked k c) = Some (c', room)" "evicted (removeEntryLocked k c) c'"
      "room \<longrightarrow> int (length (sc_entries c')) < sc_capacity c'" "\<not> room \<longrightarrow> sc_evictableLRU c' = []" by blast
    have "evict_loop c = Some (c', room)" using True lru c'(1) by (subst evict_loop.simps) simp
    with c' evicted_trans[OF evicted_remove[OF less.prems e]] show ?thesis by blast
  next
    case False
    then show ?thesis using evicted_refl[OF less.prems] by (subst evict_loop.simps) (auto split: list.splits)
  qed
qed

lemma ensure_capacity_returns:
  assumes "shadow_ok c"
  obtains c' room where "ensureCapacityLocked p c = Some (c', room)" "evicted c c'"
    "room \<longrightarrow> int (length (sc_entries c')) < sc_capacity c'"
proof (cases "int (length (sc_entries c)) < sc_capacity c")
  case True
  then show ?thesis using that[of c True] evicted_refl[OF assms] by (simp add: ensureCapacityLocked_def)
next
  case False
  obtain c' room where "evict_loop c = Some (c', room)" "evicted c c'"
    "room \<longrightarrow> int (length (sc_entries c')) < sc_capacity c'" using evict_loop_returns[OF assms] by blast
  then show ?thesis using False that[of c' True] that[of c' False]
    by (cases "room \<and> \<not> (p = shadowPinClassWriteConfirm \<and>
                 sc_writeConfirmPinnedCap c' \<le> int (writeConfirmPinnedCountLocked c'))")
       (auto simp: ensureCapacityLocked_def)
qed

lemma calm_ensure: "calm c (fst (ensureKeyStateLocked k c)) k'"
  by (simp add: calm_def key_state_def ensureKeyStateLocked_def split: option.split)

lemma ensure_snd: "snd (ensureKeyStateLocked k c) = key_state c k"
  by (simp add: key_state_def ensureKeyStateLocked_def split: option.split)

lemma calm_apply: "entry_at c (se_canonicalKey e) = Some e \<Longrightarrow> calm c (applyPinClassLocked e p c) k"
  by (simp add: calm_def key_state_def)

lemma calm_sync: "shadow_ok c \<Longrightarrow> calm c (syncEntryPinLocked k c) k'"
  using lists_ok_entry(1)[of c k]
  by (auto simp: syncEntryPinLocked_def shadow_ok_def intro: calm_apply split: option.split)

lemma sync_entry:
  assumes "shadow_ok c"
  shows "entry_at (syncEntryPinLocked k c) k = None \<longleftrightarrow> entry_at c k = None"
    and "entry_at c k = Some e \<Longrightarrow> \<exists>p. entry_at (syncEntryPinLocked k c) k = Some (repinned p e)"
proof -
  show "entry_at (syncEntryPinLocked k c) k = None \<longleftrightarrow> entry_at c k = None"
    using assms lists_ok_entry(1)[of c k]
    by (auto simp: syncEntryPinLocked_def shadow_ok_def simp del: map_of_eq_None_iff split: option.split)
  assume e: "entry_at c k = Some e"
  then have "se_canonicalKey e = k" "e = repinned (se_pinClass e) e"
    using assms lists_ok_entry(1,3)[of c k e] by (auto simp: shadow_ok_def repinned_def)
  then show "\<exists>p. entry_at (syncEntryPinLocked k c) k = Some (repinned p e)"
    using e by (auto simp: syncEntryPinLocked_def)
qed

lemma sync_fields [simp]:
  "sc_keyState (syncEntryPinLocked k c) = sc_keyState c" "sc_catalog (syncEntryPinLocked k c) = sc_catalog c"
  "sc_activations (syncEntryPinLocked k c) = sc_activations c" "sc_capacity (syncEntryPinLocked k c) = sc_capacity c"
  "sc_pinnedBudgetDegraded (syncEntryPinLocked k c) = sc_pinnedBudgetDegraded c"
  "sc_writeConfirmPinnedCap (syncEntryPinLocked k c) = sc_writeConfirmPinnedCap c"
  "sc_compactorBatchSize (syncEntryPinLocked k c) = sc_compactorBatchSize c"
  "sc_compactorList (syncEntryPinLocked k c) = sc_compactorList c"
  "sc_compactorCursor (syncEntryPinLocked k c) = sc_compactorCursor c"
  by (simp_all add: syncEntryPinLocked_def split: option.split)

lemma calm_sync_all: "shadow_ok c \<Longrightarrow> calm c (foldl (\<lambda>c k. syncEntryPinLocked k c) c ks) k'"
proof (induction ks arbitrary: c)
  case (Cons k ks)
  from calm_sync[OF Cons.prems] Cons.IH[OF shadow_ok_sync[OF Cons.prems]] show ?case
    by (simp, blast intro: calm_trans)
qed simp

lemma summary_loop_fst: "fst (summary_loop ks c) = foldl (\<lambda>c k. syncEntryPinLocked k c) c ks"
  by (induction ks arbitrary: c) (simp_all add: Let_def case_prod_beta split: option.split)

lemma shadow_ok_put_state:
  assumes ok: "shadow_ok c" and st0: "sc_keyState c k = Some st0"
    and "ks_generation st = ks_generation st0" "ks_lastWriteGeneration st = ks_lastWriteGeneration st0"
      "ks_snapshot st = ks_snapshot st0"
  shows "shadow_ok (put_state k st c)"
proof -
  have s: "states_ok c" using ok by (simp add: shadow_ok_def)
  have "states_ok (put_state k st c)"
    unfolding states_ok_def
  proof (intro conjI allI impI)
    fix k' e
    assume e: "entry_at (put_state k st c) k' = Some e"
    then have "entry_at c k' = Some e" by simp
    with s obtain st1 where st1: "sc_keyState c k' = Some st1" "ks_generation st1 = se_generation e"
      "ks_lastWriteGeneration st1 = se_lastWriteGeneration e" "ks_snapshot st1 = snapshot_of e"
      "se_state e \<noteq> ShadowEntryStateZero" by (rule states_ok_entry)
    then show "se_state e \<noteq> ShadowEntryStateZero" by simp
    from st1 show "\<exists>st'. sc_keyState (put_state k st c) k' = Some st' \<and> ks_generation st' = se_generation e \<and>
              ks_lastWriteGeneration st' = se_lastWriteGeneration e \<and> ks_snapshot st' = snapshot_of e"
      using assms by (cases "k' = k") auto
  next
    fix k' st'
    assume "entry_at (put_state k st c) k' = None" and "sc_keyState (put_state k st c) k' = Some st'"
    with s assms show "ks_snapshot st' = ks_snapshot (storeAbsentSnapshotLocked st')"
      by (auto simp: states_ok_def storeAbsentSnapshotLocked_def simp del: map_of_eq_None_iff split: if_splits)
  qed
  moreover have "lists_ok (put_state k st c) = lists_ok c" by (simp add: lists_ok_def)
  ultimately show ?thesis using ok by (simp add: shadow_ok_def)
qed

text \<open>\<open>slot c k c'\<close>: the cache \<open>c'\<close> is \<open>c\<close> with a place for the entry of \<open>k\<close>.\<close>

definition slot :: "ShadowCache \<Rightarrow> string \<Rightarrow> ShadowCache \<Rightarrow> bool" where
  "slot c k c' \<longleftrightarrow>
     (entry_at c k \<noteq> None \<and> c' = c) \<or>
     (entry_at c k = None \<and> int (length (sc_entries c)) < sc_capacity c \<and>
      (let c1 = c\<lparr> sc_compactorList := sc_compactorList c @ [k] \<rparr> in
       c' = c1 \<or> (\<exists>e. se_canonicalKey e = k \<and> c' = put_entry e c1)))"

lemma slot_fields:
  assumes "slot c k c'"
  shows "sc_keyState c' = sc_keyState c" "sc_evictableLRU c' = sc_evictableLRU c" "sc_catalog c' = sc_catalog c"
    "sc_activations c' = sc_activations c" "sc_pinnedBudgetDegraded c' = sc_pinnedBudgetDegraded c"
    "sc_compactorCursor c' = sc_compactorCursor c" "sc_capacity c' = sc_capacity c"
    "sc_compactorBatchSize c' = sc_compactorBatchSize c"
    "distinct (map fst (sc_entries c')) \<longleftrightarrow> distinct (map fst (sc_entries c))"
    "entry_at c' = entry_at c \<or> (\<exists>e. entry_at c' = (entry_at c)(k \<mapsto> e))"
    "sc_compactorList c' = sc_compactorList c \<and> entry_at c k \<noteq> None \<or>
     sc_compactorList c' = sc_compactorList c @ [k] \<and> entry_at c k = None"
  using assms by (auto simp: slot_def Let_def simp del: map_of_eq_None_iff)

lemma slot_apply_length:
  assumes "slot c k c'" and "se_canonicalKey e = k" and "int (length (sc_entries c)) \<le> sc_capacity c"
  shows "int (length (sc_entries (applyPinClassLocked e p c'))) \<le> sc_capacity c"
  using assms by (auto simp: slot_def Let_def simp del: map_of_eq_None_iff)

lemma commit_fields:
  "entry_at (commit_entry e st p at c) = (entry_at c)(se_canonicalKey e \<mapsto> repinned p e)"
  "sc_keyState (commit_entry e st p at c) = (sc_keyState c)(se_canonicalKey e \<mapsto> storeSnapshotLocked e st)"
  "sc_catalog (commit_entry e st p at c) = sc_catalog c"
  "sc_activations (commit_entry e st p at c) = sc_activations c"
  "sc_pinnedBudgetDegraded (commit_entry e st p at c) = sc_pinnedBudgetDegraded c"
  by (simp_all add: commit_entry_def)

lemma store_snapshot_fields [simp]:
  "ks_generation (storeSnapshotLocked e st) = ks_generation st"
  "ks_lastWriteGeneration (storeSnapshotLocked e st) = ks_lastWriteGeneration st"
  "ks_snapshot (storeSnapshotLocked e st) = snapshot_of e" "bare (storeSnapshotLocked e st) = bare st"
  by (simp_all add: storeSnapshotLocked_def bare_def)

lemma shadow_ok_commit:
  assumes ok: "shadow_ok c" and slot: "slot c (se_canonicalKey e) c'"
    and elem: "se_evictableElem e \<longleftrightarrow> se_canonicalKey e \<in> set (sc_evictableLRU c)"
    and e: "se_state e \<noteq> ShadowEntryStateZero" "ks_generation st = se_generation e"
      "ks_lastWriteGeneration st = se_lastWriteGeneration e"
  shows "shadow_ok (commit_entry e st p at c')"
proof -
  have l: "lists_ok c" and s: "states_ok c" using ok by (simp_all add: shadow_ok_def)
  note f = slot_fields[OF slot]
  have lists: "lists_ok (applyPinClassLocked e p c')"
    by (rule lists_ok_apply[OF l elem]) (use f(2,6,9-) l in \<open>auto simp: lists_ok_def simp del: map_of_eq_None_iff\<close>)
  have "states_ok (commit_entry e st p at c')"
    by (rule states_ok_present[OF s, of _ "se_canonicalKey e" "repinned p e" "storeSnapshotLocked e st"])
       (use e f(1,10) in \<open>auto simp: commit_fields\<close>)
  moreover have "lists_ok (commit_entry e st p at c') = lists_ok (applyPinClassLocked e p c')"
    by (simp add: lists_ok_def commit_entry_def)
  moreover have "int (length (sc_entries (commit_entry e st p at c'))) \<le> sc_capacity c"
    using slot_apply_length[OF slot refl] ok by (simp add: commit_entry_def shadow_ok_def)
  moreover have "sc_capacity (commit_entry e st p at c') = sc_capacity c"
    "sc_compactorBatchSize (commit_entry e st p at c') = sc_compactorBatchSize c"
    using f(7,8) by (simp_all add: commit_entry_def)
  ultimately show ?thesis using ok lists by (simp add: shadow_ok_def)
qed

lemma calm_commit: "slot c (se_canonicalKey e) c' \<Longrightarrow> k \<noteq> se_canonicalKey e \<Longrightarrow> calm c (commit_entry e st p at c') k"
  using slot_fields(1,10)[of c "se_canonicalKey e" c'] by (intro calm_same) (auto simp: commit_fields)

definition later :: "int \<Rightarrow> int \<Rightarrow> int" where
  "later high at = (if high = 0 \<or> at > high then at else high)"

text \<open>What a stored write leaves behind.\<close>

definition stored :: "ShadowWrite \<Rightarrow> WatchDescriptor \<Rightarrow> int \<Rightarrow> ShadowCache \<Rightarrow> string \<Rightarrow> bool" where
  "stored w d ttl c' k \<longleftrightarrow>
     (\<exists>e. entry_at c' k = Some e \<and> se_state e = ShadowEntryStatePresent \<and> se_value e = sw_Value w \<and>
          se_observedAt e = sw_ObservedAt w \<and> se_expiresAt e = sw_ObservedAt w + ttl \<and>
          se_source e = sw_Source w \<and> se_descriptor e = d) \<and>
     ks_invalidatedAt (key_state c' k) = 0"

lemma store_write_spec:
  assumes ok: "shadow_ok c" and slot: "slot c k c'" and e: "se_canonicalKey e = k"
    and elem: "se_evictableElem e \<longleftrightarrow> k \<in> set (sc_evictableLRU c)" and gen: "ks_generation st = se_generation e"
    and res_def: "res = store_write w d pin ttl (e, st) c'"
  shows "shadow_ok (fst res)" and "k' \<noteq> k \<Longrightarrow> calm c (fst res) k'" and "wr_Accepted (snd res)"
    and "stored w d ttl (fst res) k"
    and "generation_of (fst res) k = (if se_generation e = 0 then se_generation e + 1 else se_generation e)"
    and "wr_Generation (snd res) = generation_of (fst res) k"
    and "ks_precedenceHighWater (key_state (fst res) k) = later (ks_precedenceHighWater st) (sw_ObservedAt w)"
    and "sc_pinnedBudgetDegraded (fst res) = sc_pinnedBudgetDegraded c" and "sc_catalog (fst res) = sc_catalog c"
proof -
  define g where "g = (if se_generation e = 0 then se_generation e + 1 else se_generation e)"
  define p2 where "p2 = (let e1 = written_entry w d pin ttl e; st1 = written_state w st in
      if se_generation e1 = 0 then advanceGenerationLocked (e1, st1) else (e1, st1))"
  define e3 st3 where "e3 = fst (bumpLastWriteGenerationLocked p2)" and "st3 = snd (bumpLastWriteGenerationLocked p2)"
  have f: "se_generation (fst p2) = g" "ks_generation (snd p2) = g" "se_canonicalKey (fst p2) = k"
    "se_evictableElem (fst p2) = se_evictableElem e" "se_state (fst p2) = ShadowEntryStatePresent"
    "se_value (fst p2) = sw_Value w" "se_observedAt (fst p2) = sw_ObservedAt w"
    "se_expiresAt (fst p2) = sw_ObservedAt w + ttl" "se_source (fst p2) = sw_Source w"
    "se_descriptor (fst p2) = d" "ks_invalidatedAt (snd p2) = 0"
    "ks_precedenceHighWater (snd p2) = later (ks_precedenceHighWater st) (sw_ObservedAt w)"
    by (simp_all add: p2_def Let_def advanceGenerationLocked_def written_entry_def written_state_def later_def
        g_def gen e)
  have e3: "se_generation e3 = g" "ks_generation st3 = g" "se_canonicalKey e3 = k"
    "se_evictableElem e3 = se_evictableElem e" "se_state e3 = ShadowEntryStatePresent"
    "se_value e3 = sw_Value w" "se_observedAt e3 = sw_ObservedAt w"
    "se_expiresAt e3 = sw_ObservedAt w + ttl" "se_source e3 = sw_Source w"
    "se_descriptor e3 = d" "ks_invalidatedAt st3 = 0"
    "ks_precedenceHighWater st3 = later (ks_precedenceHighWater st) (sw_ObservedAt w)"
    "ks_lastWriteGeneration st3 = se_lastWriteGeneration e3"
    using f by (simp_all add: e3_def st3_def bumpLastWriteGenerationLocked_def case_prod_beta)
  have res: "fst res = commit_entry e3 st3 pin (sw_ObservedAt w) c'" "wr_Accepted (snd res)" "wr_Generation (snd res) = g"
    unfolding res_def store_write_def using e3(1)
    by (simp_all add: e3_def st3_def p2_def Let_def case_prod_beta)
  have st: "key_state (fst res) k = storeSnapshotLocked e3 st3"
    "sc_keyState (fst res) k = Some (storeSnapshotLocked e3 st3)"
    by (simp_all add: res key_state_def commit_fields e3)
  show "shadow_ok (fst res)"
    using shadow_ok_commit[OF ok, of e3 c' st3 pin "sw_ObservedAt w"] slot elem e3 by (simp add: res)
  show "k' \<noteq> k \<Longrightarrow> calm c (fst res) k'"
    using calm_commit[of c e3 c' k'] slot e3(3) by (simp add: res)
  show "stored w d ttl (fst res) k"
    unfolding stored_def st by (simp add: res commit_fields e3 storeSnapshotLocked_def)
  show "ks_precedenceHighWater (key_state (fst res) k) = later (ks_precedenceHighWater st) (sw_ObservedAt w)"
    unfolding st by (simp add: storeSnapshotLocked_def e3)
  show gen': "generation_of (fst res) k = (if se_generation e = 0 then se_generation e + 1 else se_generation e)"
    by (simp add: generation_of_def st(2) e3) (simp add: g_def)
  show "wr_Generation (snd res) = generation_of (fst res) k" unfolding gen' by (simp add: res g_def)
  show "wr_Accepted (snd res)" by (simp add: res)
  show "sc_pinnedBudgetDegraded (fst res) = sc_pinnedBudgetDegraded c" "sc_catalog (fst res) = sc_catalog c"
    using slot_fields(3,5)[OF slot] by (simp_all add: res commit_fields)
qed

lemma write_gate_ok:
  assumes ok: "shadow_ok c"
  shows "write_gate w k d srcs c = Inl (c', r) \<Longrightarrow> \<not> wr_Accepted r \<and> shadow_ok c' \<and> (\<forall>k'. calm c c' k')"
    and "write_gate w k d srcs c = Inr (c', st, pin, ttl) \<Longrightarrow>
           shadow_ok c' \<and> (\<forall>k'. calm c c' k') \<and> st = key_state c (Canonical k) \<and>
           sc_keyState c' (Canonical k) = Some st \<and>
           rejectWriteByPrecedence st (entry_at c' (Canonical k)) w = NoRejection \<and>
           (entry_at c' (Canonical k) = None \<longleftrightarrow> entry_at c (Canonical k) = None) \<and>
           (sw_Source w = ShadowWriteSourceActiveConfirmed \<longrightarrow> ks_generation st = sw_StartGeneration w) \<and>
           EffectiveFreshnessTTL d = Inr ttl \<and> 0 < ttl \<and>
           sc_pinnedBudgetDegraded c' = sc_pinnedBudgetDegraded c \<and> sc_catalog c' = sc_catalog c"
proof -
  define c1 where "c1 = fst (ensureKeyStateLocked (Canonical k) c)"
  define c2 where "c2 = syncEntryPinLocked (Canonical k) c1"
  have c1: "shadow_ok c1" unfolding c1_def by (rule shadow_ok_ensure[OF ok])
  have cc1: "calm c c1 k'" for k' unfolding c1_def by (rule calm_ensure)
  have c2: "shadow_ok c2" unfolding c2_def by (rule shadow_ok_sync[OF c1])
  have cc2: "calm c c2 k'" for k' using cc1 calm_sync[OF c1] unfolding c2_def by (blast intro: calm_trans)
  have ens: "ensureKeyStateLocked (Canonical k) c = (c1, key_state c (Canonical k))"
    by (simp add: c1_def ensure_snd prod_eq_iff)
  have same: "entry_at c2 (Canonical k) = None \<longleftrightarrow> entry_at c (Canonical k) = None"
    using sync_entry(1)[OF c1, of "Canonical k"] unfolding c2_def by (simp add: c1_def)
  have fields: "sc_pinnedBudgetDegraded c2 = sc_pinnedBudgetDegraded c" "sc_catalog c2 = sc_catalog c"
    "sc_keyState c2 (Canonical k) = Some (key_state c (Canonical k))"
    by (simp_all add: c2_def c1_def ensure_snd)
  show "write_gate w k d srcs c = Inl (c', r) \<Longrightarrow> \<not> wr_Accepted r \<and> shadow_ok c' \<and> (\<forall>k'. calm c c' k')"
    using c1 c2 cc1 cc2 unfolding write_gate_def ens Let_def prod.case c2_def[symmetric]
    by (auto simp: rejected_def split: if_splits sum.splits)
  show "write_gate w k d srcs c = Inr (c', st, pin, ttl) \<Longrightarrow>
           shadow_ok c' \<and> (\<forall>k'. calm c c' k') \<and> st = key_state c (Canonical k) \<and>
           sc_keyState c' (Canonical k) = Some st \<and>
           rejectWriteByPrecedence st (entry_at c' (Canonical k)) w = NoRejection \<and>
           (entry_at c' (Canonical k) = None \<longleftrightarrow> entry_at c (Canonical k) = None) \<and>
           (sw_Source w = ShadowWriteSourceActiveConfirmed \<longrightarrow> ks_generation st = sw_StartGeneration w) \<and>
           EffectiveFreshnessTTL d = Inr ttl \<and> 0 < ttl \<and>
           sc_pinnedBudgetDegraded c' = sc_pinnedBudgetDegraded c \<and> sc_catalog c' = sc_catalog c"
    using c2 cc2 same fields unfolding write_gate_def ens Let_def prod.case c2_def[symmetric]
    by (auto simp: rejected_def simp del: map_of_eq_None_iff split: if_splits sum.splits)
qed

lemma generation_key_state: "generation_of c k = ks_generation (key_state c k)"
  by (simp add: generation_of_def key_state_def zero_key_state_def split: option.split)

lemma calm_generation: "calm c c' k \<Longrightarrow> generation_of c' k = generation_of c k"
  unfolding calm_def generation_key_state by (blast dest: bare_eqD)

lemma write_policy_key: "write_policy w c = Some (k, d, srcs) \<Longrightarrow> sw_Key w = Some k \<and> sw_ObservedAt w \<noteq> 0 \<and>
   DescriptorByCanonical (sc_catalog c) (Canonical k) = Some d \<and> shadowingEnabled c"
  by (auto simp: write_policy_def Let_def split: option.splits if_splits)

text \<open>
  \<open>admitted w c c' r key d ttl ent\<close>: the write was stored, and \<open>ent\<close> is the entry it was compared with.
\<close>

definition admitted ::
  "ShadowWrite \<Rightarrow> ShadowCache \<Rightarrow> ShadowCache \<Rightarrow> ShadowWriteResult \<Rightarrow> WatchKey \<Rightarrow> WatchDescriptor \<Rightarrow> int \<Rightarrow>
   shadowEntry option \<Rightarrow> bool" where
  "admitted w c c' r key d ttl ent \<longleftrightarrow>
     sw_Key w = Some key \<and> sw_ObservedAt w \<noteq> 0 \<and>
     DescriptorByCanonical (sc_catalog c) (Canonical key) = Some d \<and> shadowingEnabled c \<and>
     wr_Accepted r \<and> (\<forall>k. k \<noteq> Canonical key \<longrightarrow> calm c c' k) \<and>
     stored w d ttl c' (Canonical key) \<and> EffectiveFreshnessTTL d = Inr ttl \<and> 0 < ttl \<and>
     rejectWriteByPrecedence (key_state c (Canonical key)) ent w = NoRejection \<and>
     (ent = None \<longleftrightarrow> entry_at c (Canonical key) = None) \<and>
     (\<forall>e'. ent = Some e' \<longrightarrow> (\<exists>e. entry_at c (Canonical key) = Some e \<and> core e' = core e)) \<and>
     (sw_Source w = ShadowWriteSourceActiveConfirmed \<longrightarrow> generation_of c (Canonical key) = sw_StartGeneration w) \<and>
     (\<exists>n \<le> 2. generation_of c' (Canonical key) = generation_of c (Canonical key) + of_nat n) \<and>
     wr_Generation r = generation_of c' (Canonical key) \<and>
     ks_precedenceHighWater (key_state c' (Canonical key)) =
       later (ks_precedenceHighWater (key_state c (Canonical key))) (sw_ObservedAt w) \<and>
     sc_pinnedBudgetDegraded c' = sc_pinnedBudgetDegraded c \<and> sc_catalog c' = sc_catalog c"

lemma admitted_from_store:
  assumes pol: "write_policy w c = Some (key, d, srcs)" and ok: "shadow_ok c"
    and gate: "write_gate w key d srcs c = Inr (c2, st, pin, ttl)"
    and ev: "shadow_ok c3" "\<And>k. calm c2 c3 k" "sc_pinnedBudgetDegraded c3 = sc_pinnedBudgetDegraded c2" "sc_catalog c3 = sc_catalog c2"
    and slot: "slot c3 (Canonical key) c4" and e: "se_canonicalKey e = Canonical key"
    and elem: "se_evictableElem e \<longleftrightarrow> Canonical key \<in> set (sc_evictableLRU c3)"
    and gen: "ks_generation st' = se_generation e" "\<exists>n \<le> 1. ks_generation st' = ks_generation st + of_nat n"
    and st': "ks_precedenceHighWater st' = ks_precedenceHighWater st"
    and res: "res = store_write w d pin ttl (e, st') c4"
  shows "admitted w c (fst res) (snd res) key d ttl (entry_at c2 (Canonical key))" and "shadow_ok (fst res)"
proof -
  note spec = store_write_spec[OF ev(1) slot e elem gen(1) res]
  note g = write_gate_ok(2)[OF ok gate]
  show "shadow_ok (fst res)" by (rule spec(1))
  have c2: "calm c c2 k" for k using g by simp
  have calm: "k \<noteq> Canonical key \<Longrightarrow> calm c (fst res) k" for k
    using c2 ev(2) spec(2) by (blast intro: calm_trans)
  have "\<exists>n \<le> 2. generation_of (fst res) (Canonical key) = generation_of c (Canonical key) + of_nat n"
  proof -
    obtain n where n: "n \<le> 1" "se_generation e = ks_generation st + of_nat n" using gen by auto
    have "generation_of (fst res) (Canonical key) = ks_generation st + of_nat n \<or>
          generation_of (fst res) (Canonical key) = ks_generation st + of_nat (Suc n)"
      by (simp add: spec(5) n(2) del: of_nat_Suc) (simp add: ac_simps)
    moreover have "ks_generation st = generation_of c (Canonical key)" using g by (simp add: generation_key_state)
    ultimately show ?thesis using n(1) by (metis Suc_1 Suc_le_mono le_SucI)
  qed
  moreover have "(entry_at c2 (Canonical key) = Some e' \<longrightarrow> (\<exists>e. entry_at c (Canonical key) = Some e \<and> core e' = core e))" for e'
    using c2[of "Canonical key"] by (simp add: calm_def)
  ultimately show "admitted w c (fst res) (snd res) key d ttl (entry_at c2 (Canonical key))"
    unfolding admitted_def
    using write_policy_key[OF pol] g spec(3,4,6,7,8,9) calm ev(3,4) st'
    by (elim conjE) (simp add: generation_key_state del: map_of_eq_None_iff)
qed

lemma advance_fields [simp]:
  "se_canonicalKey (fst (advanceGenerationLocked p)) = se_canonicalKey (fst p)"
  "se_evictableElem (fst (advanceGenerationLocked p)) = se_evictableElem (fst p)"
  "se_generation (fst (advanceGenerationLocked p)) = ks_generation (snd p) + 1"
  "ks_generation (snd (advanceGenerationLocked p)) = ks_generation (snd p) + 1"
  "ks_precedenceHighWater (snd (advanceGenerationLocked p)) = ks_precedenceHighWater (snd p)"
  "ks_invalidatedAt (snd (advanceGenerationLocked p)) = ks_invalidatedAt (snd p)"
  by (simp_all add: advanceGenerationLocked_def case_prod_beta)

lemma write_existing:
  assumes ok: "shadow_ok c" and pol: "write_policy w c = Some (key, d, srcs)"
    and gate: "write_gate w key d srcs c = Inr (c2, st, pin, ttl)" and e: "entry_at c2 (Canonical key) = Some e"
  shows "\<exists>c' r. Write w c = Some (c', r) \<and> shadow_ok c' \<and> admitted w c c' r key d ttl (Some e)"
proof -
  note g = write_gate_ok(2)[OF ok gate]
  then have ok2: "shadow_ok c2" by simp
  then have l: "lists_ok c2" and s: "states_ok c2" by (simp_all add: shadow_ok_def)
  have "ks_generation st = se_generation e" using g states_ok_entry[OF s e] by force
  moreover have "slot c2 (Canonical key) c2" using e by (simp add: slot_def)
  ultimately have "admitted w c (fst (store_write w d pin ttl (e, st) c2)) (snd (store_write w d pin ttl (e, st) c2))
        key d ttl (Some e)" "shadow_ok (fst (store_write w d pin ttl (e, st) c2))"
    using admitted_from_store[OF pol ok gate ok2 calm_refl refl refl, of c2 e st] lists_ok_entry(1,2)[OF l e] e
    by (auto simp: exI[of _ 0])
  moreover have "Write w c = Some (store_write w d pin ttl (e, st) c2)" using pol gate e by (simp add: Write_def)
  ultimately show ?thesis by (metis prod.collapse)
qed

lemma write_new:
  assumes ok: "shadow_ok c" and pol: "write_policy w c = Some (key, d, srcs)"
    and gate: "write_gate w key d srcs c = Inr (c2, st, pin, ttl)" and none2: "entry_at c2 (Canonical key) = None"
  shows "\<exists>c' r. Write w c = Some (c', r) \<and> shadow_ok c' \<and>
           (\<not> wr_Accepted r \<and> (\<forall>k. calm c c' k) \<or> admitted w c c' r key d ttl None)"
proof -
  note g = write_gate_ok(2)[OF ok gate]
  then have ok2: "shadow_ok c2" by simp
  obtain c3 room where ens: "ensureCapacityLocked pin c2 = Some (c3, room)" "evicted c2 c3"
    "room \<longrightarrow> int (length (sc_entries c3)) < sc_capacity c3" by (rule ensure_capacity_returns[OF ok2])
  have ok3: "shadow_ok c3" and calm3: "\<And>k. calm c2 c3 k" and f3: "sc_pinnedBudgetDegraded c3 = sc_pinnedBudgetDegraded c2"
    "sc_catalog c3 = sc_catalog c2" using ens(2) by (simp_all add: evicted_def)
  show ?thesis
  proof (cases room)
    case False
    then have "Write w c = Some (c3, rejected 0 CapacityReject)" using pol gate none2 ens(1) by (simp add: Write_def)
    moreover have "calm c c3 k" for k using g calm3 by (blast intro: calm_trans)
    ultimately show ?thesis using ok3 by (auto simp: rejected_def)
  next
    case True
    have none: "entry_at c3 (Canonical key) = None"
      using calm3[of "Canonical key"] none2 by (auto simp: calm_def simp del: map_of_eq_None_iff)
    define c4 where "c4 = c3\<lparr> sc_compactorList := sc_compactorList c3 @ [Canonical key] \<rparr>"
    define p where "p = advanceGenerationLocked (fresh_entry (Canonical key) d, st)"
    define res where "res = store_write w d pin ttl p c4"
    have slot: "slot c3 (Canonical key) c4" using none True ens(3) by (simp add: slot_def c4_def del: map_of_eq_None_iff)
    have p: "se_canonicalKey (fst p) = Canonical key" "\<not> se_evictableElem (fst p)"
      "ks_generation (snd p) = se_generation (fst p)" "ks_generation (snd p) = ks_generation st + 1"
      "ks_precedenceHighWater (snd p) = ks_precedenceHighWater st"
      by (simp_all add: p_def fresh_entry_def)
    have "Canonical key \<notin> set (sc_evictableLRU c3)" using none ok3 by (simp add: shadow_ok_def lists_ok_def)
    then have "admitted w c (fst res) (snd res) key d ttl None \<and> shadow_ok (fst res)"
      using admitted_from_store[OF pol ok gate ok3 calm3 f3 slot, of "fst p" "snd p" res] p none2
      by (auto simp: res_def exI[of _ 1])
    moreover have "Write w c = Some (fst res, snd res)"
      using pol gate none2 ens(1) True by (simp add: Write_def res_def p_def c4_def)
    ultimately show ?thesis by blast
  qed
qed

lemma write_cases [consumes 1, case_names rejected accepted]:
  assumes ok: "shadow_ok c"
  obtains c' r where "Write w c = Some (c', r)" "\<not> wr_Accepted r" "shadow_ok c'" "\<And>k. calm c c' k"
  | c' r key d ttl ent where "Write w c = Some (c', r)" "shadow_ok c'" "admitted w c c' r key d ttl ent"
proof (cases "write_policy w c")
  case None
  then show thesis using that(1)[of c "rejected 0 PolicyReject"] ok by (simp add: Write_def rejected_def)
next
  case (Some a)
  then obtain key d srcs where pol: "write_policy w c = Some (key, d, srcs)" by (cases a) auto
  show thesis
  proof (cases "write_gate w key d srcs c")
    case (Inl b)
    then obtain c' r where "write_gate w key d srcs c = Inl (c', r)" by (cases b) auto
    then show thesis using that(1)[of c' r] write_gate_ok(1)[OF ok] pol by (simp add: Write_def)
  next
    case (Inr b)
    then obtain c2 st pin ttl where gate: "write_gate w key d srcs c = Inr (c2, st, pin, ttl)" by (cases b) auto
    show thesis
      using write_existing[OF ok pol gate] write_new[OF ok pol gate] that
      by (cases "entry_at c2 (Canonical key)") blast+
  qed
qed

text \<open>What an invalidation leaves behind.\<close>

definition dropped :: "int \<Rightarrow> ShadowCache \<Rightarrow> ShadowCache \<Rightarrow> string \<Rightarrow> bool" where
  "dropped at c c' k \<longleftrightarrow>
     (\<forall>k'. k' \<noteq> k \<longrightarrow> calm c c' k') \<and>
     generation_of c' k = generation_of c k + 1 \<and>
     ks_invalidatedAt (key_state c' k) = later (ks_invalidatedAt (key_state c k)) at \<and>
     ks_precedenceHighWater (key_state c' k) = later (ks_precedenceHighWater (key_state c k)) at \<and>
     (\<forall>e. entry_at c' k = Some e \<longrightarrow>
        se_state e \<noteq> ShadowEntryStatePresent \<and>
        se_observedAt e = (case entry_at c k of None \<Rightarrow> 0 | Some e0 \<Rightarrow> se_observedAt e0))"

lemma invalidated_state_fields [simp]:
  "ks_generation (invalidated_state at st) = ks_generation st"
  "ks_lastWriteGeneration (invalidated_state at st) = ks_lastWriteGeneration st"
  "ks_snapshot (invalidated_state at st) = ks_snapshot st"
  "ks_invalidatedAt (invalidated_state at st) = later (ks_invalidatedAt st) at"
  "ks_precedenceHighWater (invalidated_state at st) = later (ks_precedenceHighWater st) at"
  by (simp_all add: invalidated_state_def later_def)

lemma store_invalidation_spec:
  assumes ok: "shadow_ok c" and slot: "slot c k c'" and e: "se_canonicalKey e = k"
    and elem: "se_evictableElem e \<longleftrightarrow> k \<in> set (sc_evictableLRU c)"
    and res_def: "res = store_invalidation i d pin e st c'"
  shows "shadow_ok (fst res)" and "k' \<noteq> k \<Longrightarrow> calm c (fst res) k'"
    and "generation_of (fst res) k = ks_generation st + 1"
    and "ks_invalidatedAt (key_state (fst res) k) = ks_invalidatedAt st"
    and "ks_precedenceHighWater (key_state (fst res) k) = ks_precedenceHighWater st"
    and "entry_at (fst res) k = Some x \<Longrightarrow> se_state x \<noteq> ShadowEntryStatePresent \<and> se_observedAt x = se_observedAt e"
proof -
  define pin' where "pin' = (if pin = shadowPinClassWriteConfirm \<and> \<not> canAdmitWriteConfirmPinLocked (Some e) c'
                 then shadowPinClassNone else pin)"
  define p1 where "p1 = advanceGenerationLocked (e, st)"
  define p2 where "p2 = bumpLastWriteGenerationLocked (invalidated_entry i d pin' (snd p1) (fst p1), snd p1)"
  have res: "fst res = commit_entry (fst p2) (snd p2) pin' (si_InvalidatedAt i) c'"
    by (simp add: res_def store_invalidation_def p2_def p1_def pin'_def Let_def case_prod_beta)
  have f: "se_canonicalKey (fst p2) = k" "se_evictableElem (fst p2) = se_evictableElem e"
    "se_state (fst p2) \<noteq> ShadowEntryStateZero" "se_state (fst p2) \<noteq> ShadowEntryStatePresent"
    "se_observedAt (fst p2) = se_observedAt e" "ks_generation (snd p2) = se_generation (fst p2)"
    "ks_generation (snd p2) = ks_generation st + 1"
    "ks_lastWriteGeneration (snd p2) = se_lastWriteGeneration (fst p2)" "ks_invalidatedAt (snd p2) = ks_invalidatedAt st"
    "ks_precedenceHighWater (snd p2) = ks_precedenceHighWater st"
    by (simp_all add: p2_def p1_def bumpLastWriteGenerationLocked_def invalidated_entry_def
        advanceGenerationLocked_def e)
  have st: "key_state (fst res) k = storeSnapshotLocked (fst p2) (snd p2)" by (simp add: res key_state_def commit_fields f)
  show "shadow_ok (fst res)"
    using shadow_ok_commit[OF ok, of "fst p2" c' "snd p2" pin' "si_InvalidatedAt i"] slot elem f by (simp add: res)
  show "k' \<noteq> k \<Longrightarrow> calm c (fst res) k'" using calm_commit[of c "fst p2" c' k'] slot f(1) by (simp add: res)
  show "generation_of (fst res) k = ks_generation st + 1" using f(7) by (simp add: generation_key_state st)
  show "ks_invalidatedAt (key_state (fst res) k) = ks_invalidatedAt st"
    "ks_precedenceHighWater (key_state (fst res) k) = ks_precedenceHighWater st"
    by (simp_all add: st storeSnapshotLocked_def f)
  show "entry_at (fst res) k = Some x \<Longrightarrow> se_state x \<noteq> ShadowEntryStatePresent \<and> se_observedAt x = se_observedAt e"
    by (auto simp: res commit_fields f)
qed

lemma invalidate_absent_spec:
  assumes ok: "shadow_ok c" and none: "entry_at c k = None" and res_def: "res = invalidate_absent k st c"
  shows "shadow_ok (fst res)" and "k' \<noteq> k \<Longrightarrow> calm c (fst res) k'"
    and "generation_of (fst res) k = ks_generation st + 1"
    and "ks_invalidatedAt (key_state (fst res) k) = ks_invalidatedAt st"
    and "ks_precedenceHighWater (key_state (fst res) k) = ks_precedenceHighWater st"
    and "entry_at (fst res) k = None"
proof -
  let ?st = "storeAbsentSnapshotLocked (advanceAbsentGenerationLocked st)"
  have res: "fst res = put_state k ?st c" by (simp add: res_def invalidate_absent_def Let_def)
  have "states_ok (fst res)"
  proof (rule states_ok_absent[of c _ k ?st])
    show "entry_at (fst res) = (entry_at c)(k := None)" using none by (simp add: res fun_upd_idem del: map_of_eq_None_iff)
  qed (use ok in \<open>simp_all add: res shadow_ok_def\<close>)
  moreover have "lists_ok (fst res) = lists_ok c" by (simp add: res lists_ok_def)
  ultimately show "shadow_ok (fst res)" using ok by (simp add: shadow_ok_def res)
  show "k' \<noteq> k \<Longrightarrow> calm c (fst res) k'" by (rule calm_same) (simp_all add: res)
  show "generation_of (fst res) k = ks_generation st + 1"
    by (simp add: res generation_of_def storeAbsentSnapshotLocked_def advanceAbsentGenerationLocked_def)
  show "ks_invalidatedAt (key_state (fst res) k) = ks_invalidatedAt st"
    "ks_precedenceHighWater (key_state (fst res) k) = ks_precedenceHighWater st"
    by (simp_all add: res key_state_def storeAbsentSnapshotLocked_def advanceAbsentGenerationLocked_def)
  show "entry_at (fst res) k = None" using none by (simp add: res)
qed

text \<open>The state of an invalidated key, from the times \<open>st\<close> and the time of the entry before.\<close>

definition dropped_key :: "shadowKeyState \<Rightarrow> int \<Rightarrow> ShadowCache \<Rightarrow> ShadowCache \<Rightarrow> string \<Rightarrow> bool" where
  "dropped_key st seen c c' k \<longleftrightarrow>
     (\<forall>k'. k' \<noteq> k \<longrightarrow> calm c c' k') \<and> generation_of c' k = ks_generation st + 1 \<and>
     ks_invalidatedAt (key_state c' k) = ks_invalidatedAt st \<and>
     ks_precedenceHighWater (key_state c' k) = ks_precedenceHighWater st \<and>
     (\<forall>e. entry_at c' k = Some e \<longrightarrow> se_state e \<noteq> ShadowEntryStatePresent \<and> se_observedAt e = seen)"

lemma dropped_key_calm: "(\<And>k. calm c c3 k) \<Longrightarrow> dropped_key st seen c3 c' k \<Longrightarrow> dropped_key st seen c c' k"
  unfolding dropped_key_def by (blast intro: calm_trans)

lemma dropped_key_absent:
  assumes "shadow_ok c" and "entry_at c k = None"
  shows "dropped_key st seen c (fst (invalidate_absent k st c)) k" and "shadow_ok (fst (invalidate_absent k st c))"
  using invalidate_absent_spec[OF assms refl] by (simp_all add: dropped_key_def)

lemma dropped_key_store:
  assumes "shadow_ok c" and "slot c k c'" and "se_canonicalKey e = k"
    and "se_evictableElem e \<longleftrightarrow> k \<in> set (sc_evictableLRU c)"
  shows "dropped_key st (se_observedAt e) c (fst (store_invalidation i d pin e st c')) k"
    and "shadow_ok (fst (store_invalidation i d pin e st c'))"
  using store_invalidation_spec[OF assms refl] by (simp_all add: dropped_key_def)

lemma invalidate_key_absent:
  assumes ok: "shadow_ok c" and none: "entry_at c k = None"
  shows "\<exists>res. invalidate_key i d pin k st c = Some res \<and> shadow_ok (fst res) \<and> dropped_key st 0 c (fst res) k"
proof (cases "pin = shadowPinClassWriteConfirm \<and> \<not> canAdmitWriteConfirmPinLocked None c")
  case True
  then show ?thesis using dropped_key_absent[OF assms] none by (simp add: invalidate_key_def del: map_of_eq_None_iff)
next
  case False
  obtain c3 room where ens: "ensureCapacityLocked pin c = Some (c3, room)" "evicted c c3"
    "room \<longrightarrow> int (length (sc_entries c3)) < sc_capacity c3" by (rule ensure_capacity_returns[OF ok])
  have ok3: "shadow_ok c3" and calm3: "\<And>k. calm c c3 k" using ens(2) by (simp_all add: evicted_def)
  have none3: "entry_at c3 k = None" using calm3[of k] none by (auto simp: calm_def simp del: map_of_eq_None_iff)
  show ?thesis
  proof (cases room)
    case True
    define c4 where "c4 = put_entry (fresh_entry k d) (c3\<lparr> sc_compactorList := sc_compactorList c3 @ [k] \<rparr>)"
    have fresh: "se_canonicalKey (fresh_entry k d) = k" "se_observedAt (fresh_entry k d) = 0"
      "se_evictableElem (fresh_entry k d) \<longleftrightarrow> k \<in> set (sc_evictableLRU c3)"
      using none3 ok3 by (simp_all add: fresh_entry_def shadow_ok_def lists_ok_def)
    have slot: "slot c3 k c4" unfolding slot_def Let_def c4_def using none3 True ens(3) fresh(1) by blast
    from False none ens(1) True
    have "invalidate_key i d pin k st c = Some (store_invalidation i d pin (fresh_entry k d) st c4)"
      by (auto simp: invalidate_key_def c4_def Let_def simp del: map_of_eq_None_iff)
    then show ?thesis using dropped_key_store[OF ok3 slot fresh(1,3)] dropped_key_calm[OF calm3] fresh(2) by metis
  next
    case no_room: False
    with False none ens(1) have "invalidate_key i d pin k st c = Some (invalidate_absent k st c3)"
      by (auto simp: invalidate_key_def simp del: map_of_eq_None_iff)
    then show ?thesis using dropped_key_absent[OF ok3 none3] dropped_key_calm[OF calm3] by blast
  qed
qed

lemma invalidate_key_spec:
  assumes ok: "shadow_ok c"
  shows "\<exists>res. invalidate_key i d pin k st c = Some res \<and> shadow_ok (fst res) \<and>
           dropped_key st (case entry_at c k of None \<Rightarrow> 0 | Some e \<Rightarrow> se_observedAt e) c (fst res) k"
proof (cases "entry_at c k")
  case None
  then show ?thesis using invalidate_key_absent[OF ok] by simp
next
  case (Some e)
  have le: "se_canonicalKey e = k" "se_evictableElem e \<longleftrightarrow> k \<in> set (sc_evictableLRU c)"
    using ok lists_ok_entry(1,2)[OF _ Some] by (simp_all add: shadow_ok_def)
  have "slot c k c" using Some by (simp add: slot_def)
  from dropped_key_store[OF ok this le] show ?thesis using Some by (simp add: invalidate_key_def)
qed

lemma invalidate_spec:
  assumes ok: "shadow_ok c" and key: "si_Key i = Some key"
  shows "\<exists>c' r. Invalidate now i c = Some (c', r) \<and> shadow_ok c' \<and>
           dropped (si_InvalidatedAt (normalized_invalidation now i)) c c' (Canonical key)"
proof -
  define k where "k = Canonical key"
  define n where "n = normalized_invalidation now i"
  define c1 where "c1 = fst (ensureKeyStateLocked k c)"
  define st where "st = invalidated_state (si_InvalidatedAt n) (key_state c k)"
  define c2 where "c2 = put_state k st c1"
  have ens: "ensureKeyStateLocked k c = (c1, key_state c k)" by (simp add: c1_def ensure_snd prod_eq_iff)
  have ok2: "shadow_ok c2" unfolding c2_def
    by (rule shadow_ok_put_state[of _ _ "key_state c k"])
       (use shadow_ok_ensure[OF ok] in \<open>simp_all add: c1_def st_def ensure_snd\<close>)
  have same: "entry_at c2 k = entry_at c k" by (simp add: c2_def c1_def)
  have calm2: "k' \<noteq> k \<Longrightarrow> calm c c2 k'" for k' by (rule calm_same) (simp_all add: c2_def c1_def)
  obtain d pin where inv: "Invalidate now i c = invalidate_key n d pin k st c2"
    by (simp add: Invalidate_def key Let_def ens flip: k_def n_def st_def c2_def)
  obtain res where res: "invalidate_key n d pin k st c2 = Some res" "shadow_ok (fst res)"
      "dropped_key st (case entry_at c k of None \<Rightarrow> 0 | Some e \<Rightarrow> se_observedAt e) c2 (fst res) k"
    using invalidate_key_spec[OF ok2, of n d pin k st] unfolding same by blast
  have "dropped (si_InvalidatedAt n) c (fst res) k"
    unfolding dropped_def using res(3) calm2 calm_trans
    by (fastforce simp: dropped_key_def st_def generation_key_state)
  with res(1,2) show ?thesis unfolding inv k_def n_def by (cases res) auto
qed

text \<open>
  Compaction ages a key: its generation moves by the number of changes, its times stay, and an entry
  that still offers a value is the entry of before.
\<close>

definition aged :: "nat \<Rightarrow> ShadowCache \<Rightarrow> ShadowCache \<Rightarrow> string \<Rightarrow> bool" where
  "aged n c c' k \<longleftrightarrow>
     generation_of c' k = generation_of c k + of_nat n \<and>
     ks_invalidatedAt (key_state c' k) = ks_invalidatedAt (key_state c k) \<and>
     ks_precedenceHighWater (key_state c' k) = ks_precedenceHighWater (key_state c k) \<and>
     (\<forall>e'. entry_at c' k = Some e' \<longrightarrow>
        (\<exists>e. entry_at c k = Some e \<and> se_observedAt e' = se_observedAt e \<and>
             (se_state e' = ShadowEntryStatePresent \<longrightarrow> core e' = core e)))"

lemma calm_aged: "calm c c' k \<Longrightarrow> aged 0 c c' k"
  unfolding aged_def
  by (simp add: calm_generation) (auto simp: calm_def dest: bare_eqD(2,3) intro: core_eqD(3) sym)

lemma aged_trans:
  assumes "aged m a b k" and "aged n b c k"
  shows "aged (m + n) a c k"
  using assms unfolding aged_def by (auto simp: core_def) (metis core_def core_eqD(1))+

lemma lists_ok_put:
  assumes ok: "lists_ok c" and e: "entry_at c k = Some e"
    and same: "se_canonicalKey e' = k" "se_evictableElem e' = se_evictableElem e" "se_pinClass e' = se_pinClass e"
  shows "lists_ok (put_entry e' c)"
proof (rule lists_okI)
  have upd: "entry_at (put_entry e' c) = (entry_at c)(k \<mapsto> e')" using same by simp
  show "distinct (map fst (sc_entries (put_entry e' c)))" "distinct (sc_evictableLRU (put_entry e' c))"
    "distinct (sc_compactorList (put_entry e' c))"
    using ok by (simp_all add: lists_ok_def)
  show "set (sc_compactorList (put_entry e' c)) = dom (entry_at (put_entry e' c))"
    unfolding upd using ok e by (auto simp: lists_ok_def)
  show "sc_compactorCursor (put_entry e' c) = Some x \<Longrightarrow> x \<in> set (sc_compactorList (put_entry e' c))" for x
    using ok unfolding lists_ok_def by auto
  show "x \<in> set (sc_evictableLRU (put_entry e' c)) \<longleftrightarrow>
        (\<exists>y. entry_at (put_entry e' c) x = Some y \<and> se_evictableElem y)" for x
    unfolding upd using lists_ok_entry(2)[OF ok e] ok same by (auto simp: lists_ok_def)
  show "entry_at (put_entry e' c) x = Some y \<Longrightarrow>
        se_canonicalKey y = x \<and> (se_evictableElem y \<longleftrightarrow> se_pinClass y = shadowPinClassNone)" for x y
    unfolding upd using ok same lists_ok_entry(3)[OF ok e] by (auto simp: lists_ok_def split: if_splits)
qed

lemma shadow_ok_rewrite:
  assumes ok: "shadow_ok c" and e: "entry_at c k = Some e"
    and same: "se_canonicalKey e' = k" "se_evictableElem e' = se_evictableElem e" "se_pinClass e' = se_pinClass e"
    and st: "se_state e' \<noteq> ShadowEntryStateZero" "ks_generation st = se_generation e'"
      "ks_lastWriteGeneration st = se_lastWriteGeneration e'"
  shows "shadow_ok (put_state k (storeSnapshotLocked e' st) (put_entry e' c))"
proof -
  have "states_ok (put_state k (storeSnapshotLocked e' st) (put_entry e' c))"
    by (rule states_ok_present[of c _ k e' "storeSnapshotLocked e' st"])
       (use ok same st in \<open>simp_all add: shadow_ok_def\<close>)
  moreover have "lists_ok (put_entry e' c)" using lists_ok_put[OF _ e same] ok by (simp add: shadow_ok_def)
  moreover have "lists_ok (put_state k (storeSnapshotLocked e' st) (put_entry e' c)) = lists_ok (put_entry e' c)"
    by (simp add: lists_ok_def)
  ultimately show ?thesis using ok same(1) e by (simp add: shadow_ok_def)
qed

lemma shadow_ok_retire:
  assumes ok: "shadow_ok c" and e: "entry_at c k = Some e"
    and same: "se_canonicalKey e' = k" "se_evictableElem e' = se_evictableElem e" "se_pinClass e' = se_pinClass e"
  defines "c2 \<equiv> \<lambda>st. put_state k (storeAbsentSnapshotLocked st) (put_entry e' c)"
  shows "shadow_ok (removeEntryLocked k (c2 st))"
    and "entry_at (removeEntryLocked k (c2 st)) = (entry_at c)(k := None)"
    and "sc_keyState (removeEntryLocked k (c2 st)) =
           (sc_keyState c)(k \<mapsto> storeAbsentSnapshotLocked (storeAbsentSnapshotLocked st))"
proof -
  have e2: "entry_at (c2 st) k = Some e'" by (simp add: c2_def same)
  note f = remove_fields[OF e2]
  show ent: "entry_at (removeEntryLocked k (c2 st)) = (entry_at c)(k := None)"
    unfolding f(1) by (simp add: c2_def same)
  show ks: "sc_keyState (removeEntryLocked k (c2 st)) =
           (sc_keyState c)(k \<mapsto> storeAbsentSnapshotLocked (storeAbsentSnapshotLocked st))"
    unfolding f(2) by (simp add: c2_def)
  have "states_ok (removeEntryLocked k (c2 st))"
    by (rule states_ok_absent[OF _ ent ks]) (use ok in \<open>simp_all add: shadow_ok_def\<close>)
  moreover have "lists_ok (c2 st) = lists_ok (put_entry e' c)" by (simp add: c2_def lists_ok_def)
  then have "lists_ok (removeEntryLocked k (c2 st))"
    using lists_ok_put[OF _ e same] ok by (intro lists_ok_remove[OF _ e2]) (simp add: shadow_ok_def)
  moreover have "length (sc_entries (removeEntryLocked k (c2 st))) \<le> length (sc_entries c)"
    unfolding f(5) using e by (simp add: c2_def same put_entry_def delete_update_same length_delete_le)
  ultimately show "shadow_ok (removeEntryLocked k (c2 st))" using ok by (simp add: shadow_ok_def c2_def)
qed

lemma compact_entry_spec:
  assumes ok: "shadow_ok c" and res: "compact_entry now k c = (c', mutated)"
  shows "shadow_ok c' \<and> (\<forall>k'. k' \<noteq> k \<longrightarrow> calm c c' k') \<and> (\<exists>n \<le> 1. aged n c c' k)"
proof (cases "entry_at c k")
  case None
  with ok res show ?thesis using calm_aged[OF calm_refl, of c k] by (auto simp: compact_entry_def simp del: map_of_eq_None_iff)
next
  case (Some e0)
  obtain p where e0: "entry_at (syncEntryPinLocked k c) k = Some (repinned p e0)" using sync_entry(2)[OF ok Some] by blast
  define e where "e = repinned p e0"
  define c1 where "c1 = syncEntryPinLocked k c"
  have c1: "shadow_ok c1" "\<And>k'. calm c c1 k'" and e: "entry_at c1 k = Some e"
    using shadow_ok_sync[OF ok] calm_sync[OF ok] e0 by (simp_all add: c1_def e_def)
  then have s: "states_ok c1" and l: "lists_ok c1" by (simp_all add: shadow_ok_def)
  obtain st where st: "sc_keyState c1 k = Some st" "ks_generation st = se_generation e"
    "ks_lastWriteGeneration st = se_lastWriteGeneration e" "ks_snapshot st = snapshot_of e" using s e by (rule states_ok_entry)
  note le = lists_ok_entry[OF l e]
  have ens: "ensureKeyStateLocked k c1 = (c1, st)" by (simp add: ensureKeyStateLocked_def st(1))
  have ks: "key_state c1 k = st" by (simp add: key_state_def st(1))
  define p1 where "p1 = advanceGenerationLocked (e, st)"
  define p2 where "p2 = bumpLastWriteGenerationLocked
      ((fst p1)\<lparr> se_state := ShadowEntryStateTombstone, se_value := [] \<rparr>, snd p1)"
  define to_tomb where "to_tomb = put_state k (storeSnapshotLocked (fst p2) (snd p2)) (put_entry (fst p2) c1)"
  define gone where "gone = removeEntryLocked k (put_state k (storeAbsentSnapshotLocked (snd p1)) (put_entry (fst p1) c1))"
  have cases: "c' = c1 \<or> c' = to_tomb \<or> c' = gone"
    using res Some ens e unfolding compact_entry_def c1_def[symmetric] to_tomb_def gone_def p2_def p1_def
    by (auto simp: Let_def case_prod_beta split: if_splits ShadowEntryState.splits)
  have p2: "se_canonicalKey (fst p2) = k" "se_generation (fst p2) = ks_generation st + 1"
    "se_state (fst p2) = ShadowEntryStateTombstone" "se_observedAt (fst p2) = se_observedAt e"
    "se_evictableElem (fst p2) = se_evictableElem e" "se_pinClass (fst p2) = se_pinClass e"
    "ks_generation (snd p2) = ks_generation st + 1" "ks_lastWriteGeneration (snd p2) = se_lastWriteGeneration (fst p2)"
    "ks_invalidatedAt (snd p2) = ks_invalidatedAt st" "ks_precedenceHighWater (snd p2) = ks_precedenceHighWater st"
    using le(1) by (simp_all add: p2_def p1_def bumpLastWriteGenerationLocked_def advanceGenerationLocked_def)
  have tomb: "shadow_ok to_tomb" "aged 1 c1 to_tomb k" "\<And>k'. k' \<noteq> k \<Longrightarrow> calm c1 to_tomb k'"
    using shadow_ok_rewrite[OF c1(1) e, of "fst p2" "snd p2"] p2 st(2)
    by (auto simp: to_tomb_def aged_def e key_state_def st(1) generation_of_def storeSnapshotLocked_def intro: calm_same)
  have p1: "se_canonicalKey (fst p1) = k" "se_evictableElem (fst p1) = se_evictableElem e"
    "se_pinClass (fst p1) = se_pinClass e" "ks_generation (snd p1) = ks_generation st + 1"
    "ks_invalidatedAt (snd p1) = ks_invalidatedAt st" "ks_precedenceHighWater (snd p1) = ks_precedenceHighWater st"
    using le(1) by (simp_all add: p1_def advanceGenerationLocked_def)
  note retire = shadow_ok_retire[OF c1(1) e p1(1-3), where st = "snd p1", folded gone_def]
  have gone: "shadow_ok gone" "aged 1 c1 gone k" "\<And>k'. k' \<noteq> k \<Longrightarrow> calm c1 gone k'"
    using retire p1
    by (auto simp: aged_def key_state_def st(1) generation_of_def storeAbsentSnapshotLocked_def intro: calm_same)
  have "aged n c1 x k \<Longrightarrow> aged n c x k" for n x using aged_trans[OF calm_aged[OF c1(2)]] by fastforce
  moreover have "aged 0 c1 c1 k" by (rule calm_aged) simp
  ultimately show ?thesis using cases c1 tomb gone calm_trans by (metis le_numeral_extra(4) zero_le_one)
qed

lemma compact_entries_spec:
  assumes "shadow_ok c" and "compact_entries now ks c = (c', mutated)"
  shows "shadow_ok c' \<and> (\<forall>k. \<exists>n \<le> count_list ks k. aged n c c' k)"
  using assms
proof (induction ks arbitrary: c mutated)
  case Nil
  then show ?case using calm_aged[OF calm_refl] by auto
next
  case (Cons k ks)
  obtain c1 m1 where c1: "compact_entry now k c = (c1, m1)" by fastforce
  obtain m2 where c2: "compact_entries now ks c1 = (c', m2)"
    using Cons.prems(2) c1 by (auto simp: Let_def split: prod.splits)
  note s1 = compact_entry_spec[OF Cons.prems(1) c1]
  have s2: "shadow_ok c'" "\<exists>n \<le> count_list ks k'. aged n c1 c' k'" for k' using Cons.IH[OF _ c2] s1 by simp_all
  have "\<exists>n \<le> count_list (k # ks) k'. aged n c c' k'" for k'
  proof -
    have "\<exists>n \<le> (if k' = k then 1 else 0). aged n c c1 k'"
      using s1 calm_aged[of c c1 k'] by (cases "k' = k") auto
    then obtain n where n: "n \<le> (if k' = k then 1 else 0)" "aged n c c1 k'" by blast
    obtain m where m: "m \<le> count_list ks k'" "aged m c1 c' k'" using s2(2) by blast
    have "n + m \<le> count_list (k # ks) k'" using n(1) m(1) by (auto split: if_splits)
    then show ?thesis using aged_trans[OF n(2) m(2)] by blast
  qed
  with s2(1) show ?case by blast
qed

lemma compact_batch_spec:
  assumes "shadow_ok c"
  shows "shadow_ok (compactBatch batch now c)" and "\<exists>n \<le> count_list batch k. aged n c (compactBatch batch now c) k"
proof -
  obtain c' m where c': "compact_entries now batch c = (c', m)" by fastforce
  note s = compact_entries_spec[OF assms c']
  have t: "calm c' (shadow_touchLocked now c') k" by (rule calm_same) simp_all
  show "shadow_ok (compactBatch batch now c)" using s by (simp add: compactBatch_def c')
  show "\<exists>n \<le> count_list batch k. aged n c (compactBatch batch now c) k"
    using s aged_trans[OF _ calm_aged[OF t], of _ c] by (cases m) (fastforce simp: compactBatch_def c')+
qed

lemma revalidate_calm: "shadow_ok c \<Longrightarrow> calm c (revalidate_budget order now c) k"
proof -
  assume ok: "shadow_ok c"
  let ?c1 = "c\<lparr> sc_pinnedBudgetDegraded := int (staticPinnedFootprint c) > staticPinnedBudget c \<rparr>"
  have "shadow_ok ?c1" using ok by (subst shadow_ok_cong[of _ c]) simp_all
  then have "calm ?c1 (syncAllPinsLocked order ?c1) k" unfolding syncAllPinsLocked_def by (rule calm_sync_all)
  moreover have "calm c ?c1 k" by (rule calm_same) simp_all
  moreover have "calm (syncAllPinsLocked order ?c1) (revalidate_budget order now c) k"
    by (rule calm_same) (simp_all add: revalidate_budget_def)
  ultimately show ?thesis by (blast intro: calm_trans)
qed

lemma shadow_ok_redescribe:
  assumes ok: "shadow_ok c" and e: "entry_at c k = Some e"
  shows "shadow_ok (put_entry (e\<lparr> se_descriptor := d \<rparr>) c)" and "calm c (put_entry (e\<lparr> se_descriptor := d \<rparr>) c) k'"
proof -
  have l: "lists_ok c" and s: "states_ok c" using ok by (simp_all add: shadow_ok_def)
  note le = lists_ok_entry(1)[OF l e]
  obtain st where st: "sc_keyState c k = Some st" "ks_generation st = se_generation e"
    "ks_lastWriteGeneration st = se_lastWriteGeneration e" "ks_snapshot st = snapshot_of e"
    "se_state e \<noteq> ShadowEntryStateZero" using s e by (rule states_ok_entry)
  have "states_ok (put_entry (e\<lparr> se_descriptor := d \<rparr>) c)"
    by (rule states_ok_present[OF s, of _ k "e\<lparr> se_descriptor := d \<rparr>" st])
       (use st le in \<open>simp_all add: fun_upd_idem snapshot_of_def\<close>)
  then show "shadow_ok (put_entry (e\<lparr> se_descriptor := d \<rparr>) c)"
    using lists_ok_put[OF l e, of "e\<lparr> se_descriptor := d \<rparr>"] ok le e by (simp add: shadow_ok_def)
  show "calm c (put_entry (e\<lparr> se_descriptor := d \<rparr>) c) k'" using e le by (simp add: calm_def key_state_def core_def)
qed

lemma shadow_ok_catalog [simp]:
  "shadow_ok (c\<lparr> sc_catalog := x \<rparr>) \<longleftrightarrow> shadow_ok c"
  "shadow_ok (c\<lparr> sc_activations := y \<rparr>) \<longleftrightarrow> shadow_ok c"
  by (rule shadow_ok_cong; simp)+

lemma calm_catalog [simp]: "calm c (c\<lparr> sc_catalog := x, sc_activations := y \<rparr>) k" "calm c (c\<lparr> sc_activations := y \<rparr>) k"
  by (rule calm_same; simp)+

lemma bootstrap_spec:
  assumes ok: "shadow_ok c"
  shows "shadow_ok (fst (BootstrapRuntimeDescriptor d srcs order now c)) \<and>
         calm c (fst (BootstrapRuntimeDescriptor d srcs order now c)) k"
proof -
  have reval: "shadow_ok x \<Longrightarrow> calm c x k \<Longrightarrow>
      shadow_ok (revalidate_budget order now x) \<and> calm c (revalidate_budget order now x) k" for x
    using shadow_ok_revalidate revalidate_calm calm_trans by blast
  have upd: "shadow_ok (put_entry (e\<lparr> se_descriptor := n \<rparr>) (c\<lparr> sc_catalog := u, sc_activations := a \<rparr>)) \<and>
      calm c (put_entry (e\<lparr> se_descriptor := n \<rparr>) (c\<lparr> sc_catalog := u, sc_activations := a \<rparr>)) k"
    if "entry_at c k0 = Some e" for e k0 n u a
    using shadow_ok_redescribe(1)[of "c\<lparr> sc_catalog := u, sc_activations := a \<rparr>" k0 e n]
      shadow_ok_redescribe(2)[of "c\<lparr> sc_catalog := u, sc_activations := a \<rparr>" k0 e n k] that ok
      calm_trans[OF calm_catalog(1)] by simp
  show ?thesis
    using ok reval upd unfolding BootstrapRuntimeDescriptor_def Let_def
    by (auto split: sum.split option.split prod.split)
qed

section \<open>Lemmas: the effect of a call on a key\<close>

definition effect :: "shadow_op \<Rightarrow> ShadowCache \<Rightarrow> ShadowCache \<Rightarrow> string \<Rightarrow> bool" where
  "effect op c c' k \<longleftrightarrow>
     \<not> invalidates k op \<and> \<not> accepts k c op \<and> (\<exists>n \<le> bumps k op. aged n c c' k) \<or>
     (\<exists>w r key d ttl ent. op = ShadowWriteOp w \<and> Write w c = Some (c', r) \<and> Canonical key = k \<and>
        accepts k c op \<and> admitted w c c' r key d ttl ent) \<or>
     (\<exists>now i. op = ShadowInvalidateOp now i \<and> invalidates k op \<and>
        dropped (si_InvalidatedAt (normalized_invalidation now i)) c c' k)"

lemma effect_quiet:
  "calm c c' k \<Longrightarrow> \<not> invalidates k op \<Longrightarrow> \<not> accepts k c op \<Longrightarrow> effect op c c' k"
  unfolding effect_def using calm_aged by blast

lemma write_effect:
  assumes "shadow_ok c"
  shows "\<exists>c'. shadow_call c (ShadowWriteOp w) = Some c' \<and> shadow_ok c' \<and> (\<forall>k. effect (ShadowWriteOp w) c c' k)"
  using assms
proof (cases rule: write_cases[where w = w])
  case (rejected c' r)
  then show ?thesis by (auto intro!: effect_quiet)
next
  case (accepted c' r key d ttl ent)
  then have key: "sw_Key w = Some key" "wr_Accepted r" "k \<noteq> Canonical key \<Longrightarrow> calm c c' k" for k
    by (auto simp: admitted_def)
  have "effect (ShadowWriteOp w) c c' k" for k
  proof (cases "k = Canonical key")
    case True
    then have "accepts k c (ShadowWriteOp w)" using accepted key by simp
    with accepted True show ?thesis unfolding effect_def by blast
  next
    case False
    then show ?thesis using key by (intro effect_quiet) auto
  qed
  with accepted show ?thesis by auto
qed

lemma invalidate_effect:
  assumes "shadow_ok c"
  shows "\<exists>c'. shadow_call c (ShadowInvalidateOp now i) = Some c' \<and> shadow_ok c' \<and>
              (\<forall>k. effect (ShadowInvalidateOp now i) c c' k)"
proof (cases "si_Key i")
  case None
  then show ?thesis using assms by (auto simp: Invalidate_def intro!: effect_quiet)
next
  case (Some key)
  from invalidate_spec[OF assms Some, of now] obtain c' r where c': "Invalidate now i c = Some (c', r)" "shadow_ok c'"
    "dropped (si_InvalidatedAt (normalized_invalidation now i)) c c' (Canonical key)" by blast
  have "effect (ShadowInvalidateOp now i) c c' k" for k
  proof (cases "k = Canonical key")
    case True
    with c'(3) Some show ?thesis by (simp add: effect_def)
  next
    case False
    with c'(3) Some show ?thesis by (intro effect_quiet) (auto simp: dropped_def)
  qed
  with c' show ?thesis by auto
qed

lemma calm_lookup:
  assumes "shadow_ok c"
  shows "shadow_ok (fst (Lookup now key maxAge c))" "calm c (fst (Lookup now key maxAge c)) k"
proof -
  have touch: "shadow_ok (touchEvictableLocked e x) \<and> calm x (touchEvictableLocked e x) k'"
    if ok: "shadow_ok x" and e: "entry_at x k0 = Some e" "se_pinClass e = shadowPinClassNone" for x e k0 k'
  proof -
    have l: "lists_ok x" using ok by (simp add: shadow_ok_def)
    have elem: "se_evictableElem e" "se_canonicalKey e = k0" "k0 \<in> set (sc_evictableLRU x)"
      using lists_ok_entry(1-3)[OF l e(1)] e(2) by auto
    then have t: "touchEvictableLocked e x = x\<lparr> sc_evictableLRU := remove1 k0 (sc_evictableLRU x) @ [k0] \<rparr>"
      using e(2) by (simp add: touchEvictableLocked_def)
    have "set (remove1 k0 (sc_evictableLRU x) @ [k0]) = set (sc_evictableLRU x)"
      "distinct (remove1 k0 (sc_evictableLRU x) @ [k0])" using l elem(3) by (auto simp: lists_ok_def)
    then have "lists_ok (touchEvictableLocked e x) = lists_ok x" using l unfolding t by (simp add: lists_ok_def)
    moreover have "states_ok (touchEvictableLocked e x) = states_ok x" by (simp add: t states_ok_def)
    ultimately have "shadow_ok (touchEvictableLocked e x)" using ok by (simp add: shadow_ok_def t)
    moreover have "calm x (touchEvictableLocked e x) k'" by (rule calm_same) (simp_all add: t)
    ultimately show ?thesis ..
  qed
  show "shadow_ok (fst (Lookup now key maxAge c))" "calm c (fst (Lookup now key maxAge c)) k"
    using assms shadow_ok_sync[OF assms] calm_sync[OF assms] touch calm_trans[OF calm_sync[OF assms]]
    by (auto simp: Lookup_def Let_def split: option.split) blast
qed

lemma next_batch_ok:
  assumes "shadow_ok c"
  shows "shadow_ok (fst (nextCompactorBatch c))" and "calm c (fst (nextCompactorBatch c)) k"
proof -
  have cur: "fst (nextCompactorBatch c) = c\<lparr> sc_compactorCursor := sc_compactorCursor (fst (nextCompactorBatch c)) \<rparr>"
    by (simp add: nextCompactorBatch_def Let_def)
  have "x \<in> set (sc_compactorList c)" if "sc_compactorCursor (fst (nextCompactorBatch c)) = Some x" for x
    using that by (auto simp: nextCompactorBatch_def Let_def split: if_splits list.splits option.splits
        dest!: arg_cong[of _ "x # _" set] in_set_dropD set_dropWhileD)
  then show "shadow_ok (fst (nextCompactorBatch c))"
    using assms by (subst cur) (simp add: shadow_ok_def lists_ok_def states_ok_def)
  show "calm c (fst (nextCompactorBatch c)) k" by (subst cur) (rule calm_same, simp_all)
qed

lemma summary_ok:
  assumes "shadow_ok c"
  shows "shadow_ok (fst (Summary order c))" and "calm c (fst (Summary order c)) k"
  using shadow_ok_summary_loop[OF assms] calm_sync_all[OF assms]
  by (simp_all add: Summary_def Let_def case_prod_beta summary_loop_fst)

lemma call_effect:
  assumes ok: "shadow_ok c"
  shows "\<exists>c'. shadow_call c op = Some c' \<and> shadow_ok c' \<and> (\<forall>k. effect op c c' k)"
proof -
  have quiet: "shadow_call c op = Some c' \<Longrightarrow> shadow_ok c' \<Longrightarrow> (\<And>k. calm c c' k) \<Longrightarrow>
      (\<And>k. \<not> invalidates k op \<and> \<not> accepts k c op) \<Longrightarrow> ?thesis" for c' by (blast intro: effect_quiet)
  show ?thesis
  proof (cases op)
    case (ShadowWriteOp w)
    then show ?thesis using write_effect[OF ok] by simp
  next
    case (ShadowInvalidateOp now i)
    then show ?thesis using invalidate_effect[OF ok] by simp
  next
    case (ShadowLookupOp now key maxAge)
    then show ?thesis by (intro quiet[of "fst (Lookup now key maxAge c)"]) (simp_all add: calm_lookup[OF ok])
  next
    case (ShadowEntryOp key)
    then show ?thesis using ok
      by (intro quiet[of "fst (Entry key c)"])
         (auto simp: Entry_def Let_def shadow_ok_sync calm_sync split: option.split)
  next
    case (ShadowObserveOp key)
    then show ?thesis using ok
      by (intro quiet[of "fst (shadow_Observe key c)"]) (auto simp: shadow_Observe_def split: option.split prod.split)
  next
    case (ShadowSummaryOp order)
    then show ?thesis by (intro quiet[of "fst (Summary order c)"]) (simp_all add: summary_ok[OF ok])
  next
    case (ShadowRevalidateOp order order' now)
    note r = shadow_ok_revalidate[OF ok, of order now] revalidate_calm[OF ok, of order now]
    show ?thesis unfolding ShadowRevalidateOp
      by (rule quiet[unfolded ShadowRevalidateOp, of "fst (RevalidatePinnedBudget order order' now c)"])
         (simp_all add: RevalidatePinnedBudget_def summary_ok[OF r(1)] calm_trans[OF r(2) summary_ok(2)[OF r(1)]])
  next
    case (ShadowRefreshOp order now)
    have "calm (syncAllPinsLocked order c) (RefreshActivations order now c) k" for k
      by (rule calm_same) (simp_all add: RefreshActivations_def)
    then show ?thesis using ShadowRefreshOp shadow_ok_sync_all[OF ok] calm_sync_all[OF ok] calm_trans
      by (intro quiet[of "RefreshActivations order now c"])
         (simp_all add: RefreshActivations_def syncAllPinsLocked_def, blast)
  next
    case (ShadowBootstrapOp d srcs order now)
    then show ?thesis
      by (intro quiet[of "fst (BootstrapRuntimeDescriptor d srcs order now c)"]) (simp_all add: bootstrap_spec[OF ok])
  next
    case ShadowNextBatchOp
    then show ?thesis by (intro quiet[of "fst (nextCompactorBatch c)"]) (simp_all add: next_batch_ok[OF ok])
  next
    case (ShadowCompactOp batch now)
    then show ?thesis using compact_batch_spec[OF ok] by (auto simp: effect_def)
  next
    case (ShadowActivationOp aop)
    then show ?thesis using ok by (intro quiet[of "c\<lparr> sc_activations := activation_step (sc_activations c) aop \<rparr>"]) simp_all
  qed
qed

lemma step_effect:
  assumes "shadow_ok c"
  shows "shadow_ok (shadow_step c op)" and "effect op c (shadow_step c op) k" and "shadow_call c op = Some (shadow_step c op)"
  using call_effect[OF assms, of op] by (auto simp: shadow_step_def)

interpretation shadow_machine: kept_invariant shadow_step shadow_ok
  by unfold_locales (rule step_effect(1))

lemma options_normal:
  "0 < so_Capacity (normalizeShadowCacheOptions opts)" "0 < so_CompactorBatchSize (normalizeShadowCacheOptions opts)"
  "0 \<le> so_WriteConfirmPinnedCap (normalizeShadowCacheOptions opts)"
  "so_WriteConfirmPinnedCap (normalizeShadowCacheOptions opts) \<le> so_PinnedCapacity (normalizeShadowCacheOptions opts)"
  "so_PinnedCapacity (normalizeShadowCacheOptions opts) \<le> so_Capacity (normalizeShadowCacheOptions opts)"
  by (simp_all add: normalizeShadowCacheOptions_def Let_def shadow_default_defs)

lemma new_cache_ok: "shadow_ok (NewShadowCache now opts)"
  unfolding NewShadowCache_def Let_def RevalidatePinnedBudget_def
  by (intro summary_ok(1) shadow_ok_revalidate) (simp add: shadow_ok_def lists_ok_def states_ok_def options_normal less_imp_le)

lemmas reachable_ok = shadow_machine.run_keeps[OF new_cache_ok]

section \<open>Lemmas: sequences of calls\<close>

lemma effect_generation:
  assumes "effect op c c' k"
  shows "\<exists>n \<le> bumps k op. generation_of c' k = generation_of c k + of_nat n \<and> (invalidates k op \<longrightarrow> n = 1)"
  using assms unfolding effect_def
proof (elim disjE conjE exE)
  fix w r key d ttl ent
  assume op: "op = ShadowWriteOp w" and key: "Canonical key = k" and adm: "admitted w c c' r key d ttl ent"
  then have "bumps k op = 2" by (auto simp: admitted_def)
  moreover have "\<exists>n \<le> 2. generation_of c' k = generation_of c k + of_nat n"
    using adm unfolding admitted_def key by blast
  ultimately show ?thesis using op by auto
next
  fix now i
  assume "op = ShadowInvalidateOp now i" "invalidates k op"
    "dropped (si_InvalidatedAt (normalized_invalidation now i)) c c' k"
  then show ?thesis by (intro exI[of _ 1]) (simp add: dropped_def)
qed (auto simp: aged_def)

lemma run_generation:
  assumes "shadow_ok c"
  shows "\<exists>n \<le> sum_list (map (bumps k) ops). generation_of (foldl shadow_step c ops) k = generation_of c k + of_nat n \<and>
           (list_ex (invalidates k) ops \<longrightarrow> 0 < n)"
  using assms
proof (induction ops arbitrary: c)
  case Nil
  then show ?case by simp
next
  case (Cons op ops)
  obtain n where n: "n \<le> bumps k op" "generation_of (shadow_step c op) k = generation_of c k + of_nat n"
    "invalidates k op \<longrightarrow> n = 1" using effect_generation[OF step_effect(2)[OF Cons.prems]] by blast
  obtain m where m: "m \<le> sum_list (map (bumps k) ops)" "list_ex (invalidates k) ops \<longrightarrow> 0 < m"
    "generation_of (foldl shadow_step (shadow_step c op) ops) k = generation_of (shadow_step c op) k + of_nat m"
    using Cons.IH[OF step_effect(1)[OF Cons.prems], of op] by blast
  show ?case by (rule exI[of _ "n + m"]) (use n m in auto)
qed

lemma word_of_nat_zero: "n < 2 ^ 64 \<Longrightarrow> (of_nat n :: uint64) = 0 \<Longrightarrow> n = 0"
  by (simp add: word_of_nat_eq_0_iff) (meson dvd_imp_le linorder_not_less neq0_conv)

lemma generation_unmoved:
  assumes ok: "shadow_ok c" and few: "sum_list (map (bumps k) ops) < 2 ^ 64"
    and same: "generation_of (foldl shadow_step c ops) k = generation_of c k"
  shows "generation_of (foldl shadow_step c (take n ops)) k = generation_of c k" and "\<not> list_ex (invalidates k) ops"
proof -
  let ?b = "\<lambda>xs. sum_list (map (bumps k) xs)"
  obtain p where p: "p \<le> ?b (take n ops)"
    "generation_of (foldl shadow_step c (take n ops)) k = generation_of c k + of_nat p"
    using run_generation[OF ok] by blast
  obtain q where q: "q \<le> ?b (drop n ops)"
    "generation_of (foldl shadow_step (foldl shadow_step c (take n ops)) (drop n ops)) k =
     generation_of (foldl shadow_step c (take n ops)) k + of_nat q"
    using run_generation[OF shadow_machine.run_keeps[OF ok]] by blast
  have "?b ops = ?b (take n ops) + ?b (drop n ops)"
    by (metis append_take_drop_id map_append sum_list_append)
  then have "p + q < 2 ^ 64" using p(1) q(1) few by linarith
  moreover have "foldl shadow_step (foldl shadow_step c (take n ops)) (drop n ops) = foldl shadow_step c ops"
    by (metis append_take_drop_id foldl_append)
  then have "(of_nat (p + q) :: uint64) = 0" using same p(2) q(2) by (simp add: add.assoc)
  ultimately have "p + q = 0" by (rule word_of_nat_zero)
  then show "generation_of (foldl shadow_step c (take n ops)) k = generation_of c k" using p(2) by simp
  obtain m where m: "m \<le> ?b ops" "generation_of (foldl shadow_step c ops) k = generation_of c k + of_nat m"
    "list_ex (invalidates k) ops \<longrightarrow> 0 < m" using run_generation[OF ok] by blast
  have "m = 0" by (rule word_of_nat_zero) (use m few same in auto)
  with m(3) show "\<not> list_ex (invalidates k) ops" by simp
qed

lemma snapshot_faithful:
  assumes "shadow_ok c"
  shows "loadSnapshotRecord k c =
           (case entry_at c k of Some e \<Rightarrow> snapshot_of e
            | None \<Rightarrow> zero_snapshot\<lparr> sn_generation := generation_of c k \<rparr>)"
    and "sn_generation (loadSnapshotRecord k c) = generation_of c k"
proof -
  have s: "states_ok c" using assms by (simp add: shadow_ok_def)
  show rec: "loadSnapshotRecord k c =
           (case entry_at c k of Some e \<Rightarrow> snapshot_of e
            | None \<Rightarrow> zero_snapshot\<lparr> sn_generation := generation_of c k \<rparr>)"
  proof (cases "entry_at c k")
    case None
    then have "ks_snapshot st = zero_snapshot\<lparr> sn_generation := ks_generation st \<rparr>" if "sc_keyState c k = Some st" for st
      using s that by (auto simp: states_ok_def storeAbsentSnapshotLocked_def simp del: map_of_eq_None_iff)
    then show ?thesis using None
      by (auto simp: loadSnapshotRecord_def generation_of_def zero_snapshot_def simp del: map_of_eq_None_iff split: option.split)
  next
    case (Some e)
    with s obtain st where "sc_keyState c k = Some st" "ks_snapshot st = snapshot_of e" by (rule states_ok_entry)
    then show ?thesis using Some by (simp add: loadSnapshotRecord_def)
  qed
  show "sn_generation (loadSnapshotRecord k c) = generation_of c k"
  proof (cases "entry_at c k")
    case (Some e)
    with s obtain st where "sc_keyState c k = Some st" "ks_generation st = se_generation e" by (rule states_ok_entry)
    then show ?thesis unfolding rec using Some by (simp add: snapshot_of_def generation_of_def)
  qed (simp add: rec del: map_of_eq_None_iff)
qed

text \<open>What the cache knows of a key while its invalidations are timely.\<close>

definition ordered_key :: "ShadowCache \<Rightarrow> string \<Rightarrow> bool" where
  "ordered_key c k \<longleftrightarrow>
     (let st = key_state c k in
      (ks_precedenceHighWater st = 0 \<longrightarrow> ks_invalidatedAt st = 0 \<and> entry_at c k = None) \<and>
      (ks_invalidatedAt st \<noteq> 0 \<longrightarrow> ks_invalidatedAt st = ks_precedenceHighWater st) \<and>
      (\<forall>e. entry_at c k = Some e \<and> ks_invalidatedAt st = 0 \<longrightarrow> se_observedAt e = ks_precedenceHighWater st))"

lemma high_water_key_state: "high_water c k = ks_precedenceHighWater (key_state c k)"
  by (simp add: high_water_def key_state_def zero_key_state_def split: option.split)

lemma ordered_aged:
  assumes ord: "ordered_key c k" and aged: "aged n c c' k"
  shows "ordered_key c' k \<and> high_water c' k = high_water c k"
proof -
  have t: "ks_invalidatedAt (key_state c' k) = ks_invalidatedAt (key_state c k)"
    "ks_precedenceHighWater (key_state c' k) = ks_precedenceHighWater (key_state c k)"
    using aged by (simp_all add: aged_def)
  have e: "entry_at c k = None \<Longrightarrow> entry_at c' k = None"
    using aged by (cases "entry_at c' k") (auto simp: aged_def simp del: map_of_eq_None_iff)
  have e': "entry_at c' k = Some e' \<Longrightarrow> \<exists>e. entry_at c k = Some e \<and> se_observedAt e' = se_observedAt e" for e'
    using aged unfolding aged_def by blast
  have "ordered_key c' k"
    unfolding ordered_key_def Let_def t
    using ord e e' unfolding ordered_key_def Let_def by metis
  then show ?thesis by (simp add: high_water_key_state t)
qed

lemma ordered_dropped:
  assumes "ordered_key c k" and "dropped at c c' k" and "at \<noteq> 0" and "high_water c k = 0 \<or> high_water c k \<le> at"
  shows "ordered_key c' k" and "high_water c' k = at"
proof -
  have t: "ks_invalidatedAt (key_state c' k) = at" "ks_precedenceHighWater (key_state c' k) = at"
  proof -
    define i h where "i = ks_invalidatedAt (key_state c k)" and "h = ks_precedenceHighWater (key_state c k)"
    have "i = 0 \<or> i = h" "h = 0 \<or> h \<le> at" using assms(1,4) by (auto simp: ordered_key_def high_water_key_state Let_def i_def h_def)
    moreover have "ks_invalidatedAt (key_state c' k) = later i at" "ks_precedenceHighWater (key_state c' k) = later h at"
      using assms(2) by (simp_all add: dropped_def i_def h_def)
    ultimately show "ks_invalidatedAt (key_state c' k) = at" "ks_precedenceHighWater (key_state c' k) = at"
      by (auto simp: later_def)
  qed
  then show "ordered_key c' k" "high_water c' k = at" using assms(3) by (simp_all add: ordered_key_def high_water_key_state)
qed

lemma ordered_admitted:
  assumes ord: "ordered_key c (Canonical key)" and adm: "admitted w c c' r key d ttl ent"
  shows "high_water c (Canonical key) = 0 \<or> high_water c (Canonical key) \<le> sw_ObservedAt w"
    and "ordered_key c' (Canonical key)" and "high_water c' (Canonical key) = sw_ObservedAt w"
proof -
  let ?st = "key_state c (Canonical key)"
  have adm': "rejectWriteByPrecedence ?st ent w = NoRejection" "sw_ObservedAt w \<noteq> 0"
    "stored w d ttl c' (Canonical key)"
    "ks_precedenceHighWater (key_state c' (Canonical key)) = later (ks_precedenceHighWater ?st) (sw_ObservedAt w)"
    using adm by (simp_all add: admitted_def)
  have ent: "ent = Some e' \<Longrightarrow> ks_invalidatedAt ?st = 0 \<Longrightarrow> se_observedAt e' = ks_precedenceHighWater ?st" for e'
    using adm ord core_eqD(3) unfolding admitted_def ordered_key_def Let_def by metis
  have inv: "ks_invalidatedAt ?st \<noteq> 0 \<Longrightarrow> ks_invalidatedAt ?st = ks_precedenceHighWater ?st"
    using ord by (simp add: ordered_key_def Let_def)
  show le: "high_water c (Canonical key) = 0 \<or> high_water c (Canonical key) \<le> sw_ObservedAt w"
    using adm'(1) ent inv unfolding high_water_key_state
    by (cases "ks_invalidatedAt ?st = 0"; cases ent)
       (auto simp: rejectWriteByPrecedence_def precedence_by_entry_def Let_def split: if_splits)
  have hw: "ks_precedenceHighWater (key_state c' (Canonical key)) = sw_ObservedAt w"
    using adm'(4) le by (auto simp: later_def high_water_key_state)
  then show "high_water c' (Canonical key) = sw_ObservedAt w" by (simp add: high_water_key_state)
  show "ordered_key c' (Canonical key)" using adm'(2,3) hw by (auto simp: ordered_key_def stored_def)
qed

lemma effect_ordered:
  assumes ord: "ordered_key c k" and eff: "effect op c c' k"
    and timely: "case op of ShadowInvalidateOp now i \<Rightarrow>
           (let at = si_InvalidatedAt (normalized_invalidation now i) in
            \<not> invalidates k op \<or> at \<noteq> 0 \<and> (high_water c k = 0 \<or> high_water c k \<le> at)) | _ \<Rightarrow> True"
  shows "ordered_key c' k" and "accepts k c op \<Longrightarrow> high_water c' k = write_time op"
    and "high_water c k = 0 \<or> high_water c' k \<noteq> 0 \<and> high_water c k \<le> high_water c' k"
proof -
  have "ordered_key c' k \<and> (accepts k c op \<longrightarrow> high_water c' k = write_time op) \<and>
        (high_water c k = 0 \<or> high_water c' k \<noteq> 0 \<and> high_water c k \<le> high_water c' k)"
    using eff unfolding effect_def
  proof (elim disjE conjE exE)
    fix n assume "\<not> accepts k c op" "aged n c c' k"
    then show ?thesis using ordered_aged[OF ord] by auto
  next
    fix w r key d ttl ent
    assume "op = ShadowWriteOp w" "Canonical key = k" "admitted w c c' r key d ttl ent"
    then show ?thesis using ordered_admitted[of c key w c' r d ttl ent] ord by (auto simp: admitted_def)
  next
    fix now i
    assume "op = ShadowInvalidateOp now i" "invalidates k op"
      "dropped (si_InvalidatedAt (normalized_invalidation now i)) c c' k"
    then show ?thesis using ordered_dropped[OF ord] timely by (auto simp: Let_def)
  qed
  then show "ordered_key c' k" "accepts k c op \<Longrightarrow> high_water c' k = write_time op"
    "high_water c k = 0 \<or> high_water c' k \<noteq> 0 \<and> high_water c k \<le> high_water c' k" by simp_all
qed

lemma accepted_in_order:
  assumes "shadow_ok c" and "ordered_key c k" and "timely k c ops"
  shows "sorted (accepted_times k c ops) \<and>
         (\<forall>t \<in> set (accepted_times k c ops). high_water c k = 0 \<or> high_water c k \<le> t)"
  using assms
proof (induction ops arbitrary: c)
  case Nil
  then show ?case by simp
next
  case (Cons op ops)
  note eff = effect_ordered[OF Cons.prems(2) step_effect(2)[OF Cons.prems(1), of op]]
  have t: "case op of ShadowInvalidateOp now i \<Rightarrow>
           (let at = si_InvalidatedAt (normalized_invalidation now i) in
            \<not> invalidates k op \<or> at \<noteq> 0 \<and> (high_water c k = 0 \<or> high_water c k \<le> at)) | _ \<Rightarrow> True"
    and rest: "timely k (shadow_step c op) ops" using Cons.prems(3) by simp_all
  note ih = Cons.IH[OF step_effect(1)[OF Cons.prems(1)] eff(1)[OF t] rest]
  show ?case
  proof (cases "accepts k c op")
    case True
    then obtain w where w: "op = ShadowWriteOp w" by (cases op) simp_all
    have "write_time op \<noteq> 0"
      using step_effect(2)[OF Cons.prems(1), of op k] True w by (auto simp: effect_def admitted_def)
    with True ih eff(2,3)[OF t] show ?thesis by auto
  next
    case False
    with ih eff(3)[OF t] show ?thesis by auto
  qed
qed

definition unserved :: "ShadowCache \<Rightarrow> string \<Rightarrow> bool" where
  "unserved c k \<longleftrightarrow> (\<forall>e. entry_at c k = Some e \<longrightarrow> se_state e \<noteq> ShadowEntryStatePresent)"

lemma unserved_run:
  assumes "shadow_ok c" and "unserved c k" and "accepted_times k c ops = []"
  shows "unserved (foldl shadow_step c ops) k"
  using assms
proof (induction ops arbitrary: c)
  case (Cons op ops)
  have na: "\<not> accepts k c op" and rest: "accepted_times k (shadow_step c op) ops = []"
    using Cons.prems(3) by (simp_all split: if_splits)
  have "effect op c (shadow_step c op) k" by (rule step_effect(2)[OF Cons.prems(1)])
  then have "unserved (shadow_step c op) k"
    using na Cons.prems(2) core_eqD(1) unfolding effect_def aged_def dropped_def unserved_def by metis
  then show ?case using Cons.IH[OF step_effect(1)[OF Cons.prems(1)] _ rest] by simp
qed simp

lemma unserved_lookup:
  assumes ok: "shadow_ok c" and un: "unserved c (Canonical key)"
  shows "case snd (Lookup t (Some key) maxAge c) of None \<Rightarrow> True | Some l \<Rightarrow> \<not> lr_Eligible l"
    and "\<not> el_Eligible (SnapshotEligibility t (Some key) c)"
proof -
  have "se_state e \<noteq> ShadowEntryStatePresent"
    if "entry_at (syncEntryPinLocked (Canonical key) c) (Canonical key) = Some e" for e
    using calm_sync[OF ok, of "Canonical key" "Canonical key"] that un core_eqD(1)
    unfolding calm_def unserved_def by metis
  then show "case snd (Lookup t (Some key) maxAge c) of None \<Rightarrow> True | Some l \<Rightarrow> \<not> lr_Eligible l"
    by (auto simp: Lookup_def Let_def lookupEligibleLocked_def split: option.split)
  show "\<not> el_Eligible (SnapshotEligibility t (Some key) c)"
    unfolding SnapshotEligibility_def Let_def option.case snapshot_faithful(1)[OF ok]
    using un by (auto simp: snapshot_of_def zero_snapshot_def unserved_def simp del: map_of_eq_None_iff split: option.split)
qed

lemma stored_lookup:
  assumes ok: "shadow_ok c'" and st: "stored w d ttl c' (Canonical key)" and on: "shadowingEnabled c'"
    and ttl: "EffectiveFreshnessTTL d = Inr ttl" "0 < ttl"
  shows "\<exists>l. snd (Lookup t (Some key) maxAge c') = Some l \<and> ev_Value (lr_Entry l) = sw_Value w \<and>
           ev_ObservedAt (lr_Entry l) = sw_ObservedAt w \<and> ev_Source (lr_Entry l) = sw_Source w \<and>
           (lr_Eligible l \<longleftrightarrow> sw_ObservedAt w \<le> t \<and>
              t \<le> sw_ObservedAt w + (if maxAge \<le> 0 \<or> ttl < maxAge then ttl else maxAge))"
proof -
  obtain e where e: "entry_at c' (Canonical key) = Some e" "se_state e = ShadowEntryStatePresent"
    "se_value e = sw_Value w" "se_observedAt e = sw_ObservedAt w" "se_source e = sw_Source w" "se_descriptor e = d"
    using st unfolding stored_def by blast
  obtain p where p: "entry_at (syncEntryPinLocked (Canonical key) c') (Canonical key) = Some (repinned p e)"
    using sync_entry(2)[OF ok e(1)] by blast
  have en: "shadowingEnabled (syncEntryPinLocked (Canonical key) c')" using on by (simp add: shadowingEnabled_def)
  show ?thesis
    using p en e ttl by (auto simp: Lookup_def Let_def lookupEligibleLocked_def cloneShadowEntryView_def)
qed

text \<open>The compactor's pass is a sequence of its two calls, so what holds of calls holds of it.\<close>

lemma compact_passes_run: "\<exists>ops. fst (compact_passes clock n remaining c) = foldl shadow_step c ops"
proof (induction clock n remaining c rule: compact_passes.induct)
  case (1 clock n remaining c)
  obtain c1 batch where nb: "nextCompactorBatch c = (c1, batch)" by fastforce
  have s1: "c1 = shadow_step c ShadowNextBatchOp" by (simp add: shadow_step_def nb)
  have s2: "compactBatch batch (clock n) c1 = shadow_step c1 (ShadowCompactOp batch (clock n))" by (simp add: shadow_step_def)
  show ?case
  proof (cases "remaining > 0 \<and> batch \<noteq> []")
    case True
    then obtain ops where "fst (compact_passes clock (Suc n) (remaining - int (length batch))
        (compactBatch batch (clock n) c1)) = foldl shadow_step (compactBatch batch (clock n) c1) ops"
      using "1.IH"[OF _ nb[symmetric] refl] by blast
    then have "fst (compact_passes clock n remaining c) =
        foldl shadow_step c (ShadowNextBatchOp # ShadowCompactOp batch (clock n) # ops)"
      using True by (subst compact_passes.simps) (simp add: nb s2 flip: s1)
    then show ?thesis by blast
  next
    case False
    then have "fst (compact_passes clock n remaining c) = c \<or> fst (compact_passes clock n remaining c) = c1"
      by (subst (1 2) compact_passes.simps) (simp add: nb)
    then show ?thesis using s1 by (metis foldl.simps)
  qed
qed

lemma compact_once_run: "\<exists>ops. fst (CompactOnce clock c) = foldl shadow_step c ops"
  using compact_passes_run[of clock 1 "int (length (sc_compactorList c))" c]
  by (simp add: CompactOnce_def case_prod_beta)

text \<open>
  Two states the code reaches that its names do not announce. An entry pinned for the poller keeps a
  pin when only write confirmation is left, however many such pins there are, so their number can
  exceed \<^verbatim>\<open>writeConfirmPinnedCap\<close>. And after an invalidation that carries a time older than the stored
  observation, a confirmed read with exactly that time replaces the newer value.
\<close>

lemma write_confirm_cap_exceeded:
  "let c = foldl shadow_step example_cache
        [ShadowActivationOp (ActivateOp ''poller'' [Some example_key]),
         ShadowWriteOp (example_shadow_write ''passive'' 1000 7 0),
         ShadowActivationOp (ActivateOp ''write_confirm'' [Some example_key]),
         ShadowActivationOp (DeactivateOp ''poller'' [Some example_key]), ShadowRefreshOp [] 2000] in
   writeConfirmPinnedCountLocked c = 1 \<and> sc_writeConfirmPinnedCap c = 0"
  unfolding Let_def by (rule conjI; code_simp)

lemma late_invalidation_reorders:
  "accepted_times (Canonical example_key) example_cache
     [ShadowWriteOp (example_shadow_write ''passive'' 1000 7 0), ShadowInvalidateOp 0 (example_invalidation 500),
      ShadowWriteOp (example_shadow_write ''active_confirmed'' 500 8 2)] = [1000, 500]"
  by code_simp

section \<open>Properties\<close>


text \<open>
  C14. In every state the cache can reach it holds at most as many entries as its capacity, the
  eviction order lists the unpinned entries and nothing else, each once, the compactor's list every
  entry once, and the snapshot a reader loads without the lock is that of the entry, or the one that
  says absent, with the current generation of the key either way.
\<close>

theorem shadow_cache_consistent:
  "let c = foldl shadow_step (NewShadowCache now opts) ops in
   int (length (sc_entries c)) \<le> sc_capacity c \<and>
   distinct (sc_evictableLRU c) \<and>
   set (sc_evictableLRU c) = {k. \<exists>e. entry_at c k = Some e \<and> se_pinClass e = shadowPinClassNone} \<and>
   distinct (sc_compactorList c) \<and> set (sc_compactorList c) = dom (entry_at c) \<and>
   loadSnapshotRecord k c =
     (case entry_at c k of
        Some e \<Rightarrow> snapshot_of e
      | None \<Rightarrow> zero_snapshot\<lparr> sn_generation := generation_of c k \<rparr>) \<and>
   CaptureGeneration (Some key) c = generation_of c (Canonical key)"
proof -
  let ?c = "foldl shadow_step (NewShadowCache now opts) ops"
  have ok: "shadow_ok ?c" by (rule reachable_ok)
  then have l: "lists_ok ?c" by (simp add: shadow_ok_def)
  have "set (sc_evictableLRU ?c) = {k. \<exists>e. entry_at ?c k = Some e \<and> se_pinClass e = shadowPinClassNone}"
    using l unfolding lists_ok_def by blast
  moreover have "distinct (sc_evictableLRU ?c)" "distinct (sc_compactorList ?c)" "set (sc_compactorList ?c) = dom (entry_at ?c)"
    using l by (simp_all add: lists_ok_def)
  moreover have "int (length (sc_entries ?c)) \<le> sc_capacity ?c" using ok by (simp add: shadow_ok_def)
  ultimately show ?thesis
    using snapshot_faithful[OF ok] unfolding Let_def CaptureGeneration_def option.case by blast
qed

text \<open>
  C13. A confirmed read that was started with the generation it captured is stored only if nothing
  superseded it: the generation of its key has not moved at any point since, and the key was not
  invalidated, whatever calls ran in between, as long as they could not have turned the 64-bit
  counter once round.
\<close>

theorem shadow_active_write_current:
  assumes "c = foldl shadow_step (NewShadowCache now opts) before" and "sw_Key w = Some key"
    and "sw_Source w = ShadowWriteSourceActiveConfirmed" and "sw_StartGeneration w = CaptureGeneration (Some key) c"
    and "sum_list (map (bumps (Canonical key)) ops) < 2 ^ 64"
    and "Write w (foldl shadow_step c ops) = Some (c', r)" and "wr_Accepted r"
  shows "generation_of (foldl shadow_step c (take n ops)) (Canonical key) = CaptureGeneration (Some key) c \<and>
         \<not> list_ex (invalidates (Canonical key)) ops"
proof -
  have ok: "shadow_ok c" unfolding assms(1) by (rule reachable_ok)
  have cap: "CaptureGeneration (Some key) c = generation_of c (Canonical key)"
    using snapshot_faithful(2)[OF ok] by (simp add: CaptureGeneration_def)
  have "shadow_ok (foldl shadow_step c ops)" by (rule shadow_machine.run_keeps[OF ok])
  then have "generation_of (foldl shadow_step c ops) (Canonical key) = generation_of c (Canonical key)"
    by (cases rule: write_cases[where w = w]) (use assms(2-4,6,7) cap in \<open>auto simp: admitted_def\<close>)
  with generation_unmoved[OF ok assms(5)] show ?thesis by (simp add: cap)
qed

theorem shadow_active_write_current_witness:
  "let c = foldl shadow_step example_cache [ShadowWriteOp (example_shadow_write ''passive'' 1000 7 0)];
       ops = [ShadowWriteOp (example_shadow_write ''passive'' 1500 7 0), ShadowLookupOp 1600 (Some example_key) 0] in
   generation_of (foldl shadow_step c (take 1 ops)) (Canonical example_key) = CaptureGeneration (Some example_key) c \<and>
   \<not> list_ex (invalidates (Canonical example_key)) ops"
proof -
  let ?c = "foldl shadow_step example_cache [ShadowWriteOp (example_shadow_write ''passive'' 1000 7 0)]"
  let ?ops = "[ShadowWriteOp (example_shadow_write ''passive'' 1500 7 0), ShadowLookupOp 1600 (Some example_key) 0]"
  let ?w = "example_shadow_write ''active_confirmed'' 3000 7 1"
  have acc: "map_option (\<lambda>(c, r). wr_Accepted r) (Write ?w (foldl shadow_step ?c ?ops)) = Some True" by code_simp
  then obtain c' r where acc: "Write ?w (foldl shadow_step ?c ?ops) = Some (c', r)" "wr_Accepted r" by auto
  have start: "sw_StartGeneration ?w = CaptureGeneration (Some example_key) ?c" by code_simp
  have few: "sum_list (map (bumps (Canonical example_key)) ?ops) < 2 ^ 64" by (simp add: example_shadow_write_def)
  have c: "?c = foldl shadow_step (NewShadowCache 1000 example_shadow_options)
      [ShadowWriteOp (example_shadow_write ''passive'' 1000 7 0)]" by (simp add: example_cache_def)
  have w: "sw_Key ?w = Some example_key" "sw_Source ?w = ShadowWriteSourceActiveConfirmed"
    by (simp_all add: example_shadow_write_def ShadowWriteSourceActiveConfirmed_def)
  show ?thesis unfolding Let_def by (rule shadow_active_write_current[OF c w start few acc])
qed

text \<open>
  C5. A value that was invalidated is not served again: from the invalidation until the next accepted
  write of the key, whatever other calls run, no lookup and no lock-free snapshot finds it eligible,
  at any time and with any age limit.
\<close>

theorem shadow_invalidated_not_served:
  assumes "Invalidate at i (foldl shadow_step (NewShadowCache now opts) before) = Some (c1, res)"
    and "si_Key i = Some key" and "accepted_times (Canonical key) c1 ops = []"
  shows "(case snd (Lookup t (Some key) maxAge (foldl shadow_step c1 ops)) of
            None \<Rightarrow> True | Some l \<Rightarrow> \<not> lr_Eligible l) \<and>
         \<not> el_Eligible (SnapshotEligibility t (Some key) (foldl shadow_step c1 ops))"
proof -
  have "shadow_ok c1" and "unserved c1 (Canonical key)"
    using invalidate_spec[OF reachable_ok assms(2), of at now opts before] assms(1) by (auto simp: dropped_def unserved_def)
  then have "shadow_ok (foldl shadow_step c1 ops)" "unserved (foldl shadow_step c1 ops) (Canonical key)"
    using shadow_machine.run_keeps unserved_run[OF _ _ assms(3)] by blast+
  then show ?thesis using unserved_lookup by blast
qed

theorem shadow_invalidated_not_served_witness:
  "let c1 = foldl shadow_step example_cache [ShadowWriteOp (example_shadow_write ''passive'' 1000 7 0),
              ShadowInvalidateOp 0 (example_invalidation 2000)];
       c2 = foldl shadow_step c1 [ShadowWriteOp (example_shadow_write ''passive'' 1900 8 0)] in
   \<not> el_Eligible (SnapshotEligibility 2000 (Some example_key) c2)"
proof -
  let ?b = "[ShadowWriteOp (example_shadow_write ''passive'' 1000 7 0)]"
  let ?c = "foldl shadow_step (NewShadowCache 1000 example_shadow_options) ?b"
  let ?c1 = "foldl shadow_step example_cache [ShadowWriteOp (example_shadow_write ''passive'' 1000 7 0),
              ShadowInvalidateOp 0 (example_invalidation 2000)]"
  have "shadow_call ?c (ShadowInvalidateOp 0 (example_invalidation 2000)) = Some ?c1"
    using step_effect(3)[OF reachable_ok, of 1000 example_shadow_options ?b]
    by (simp add: example_cache_def del: shadow_call.simps)
  then obtain res where inv: "Invalidate 0 (example_invalidation 2000) ?c = Some (?c1, res)" by auto
  have key: "si_Key (example_invalidation 2000) = Some example_key" by (simp add: example_invalidation_def)
  have none: "accepted_times (Canonical example_key) ?c1 [ShadowWriteOp (example_shadow_write ''passive'' 1900 8 0)] = []"
    by code_simp
  show ?thesis unfolding Let_def using shadow_invalidated_not_served[OF inv key none] by blast
qed

text \<open>
  C22. What an accepted write stored is what a lookup right after it returns, with its time and source,
  and it is offered for reading exactly while its age is between zero and the smaller of the limit the
  reader gave and the time to live of its descriptor.
\<close>

theorem shadow_write_read_back:
  assumes "Write w (foldl shadow_step (NewShadowCache now opts) ops) = Some (c', r)" and "wr_Accepted r"
    and "sw_Key w = Some key"
  shows "\<exists>d ttl l. DescriptorByCanonical (sc_catalog c') (Canonical key) = Some d \<and> EffectiveFreshnessTTL d = Inr ttl \<and>
           snd (Lookup t (Some key) maxAge c') = Some l \<and> ev_Value (lr_Entry l) = sw_Value w \<and>
           ev_ObservedAt (lr_Entry l) = sw_ObservedAt w \<and> ev_Source (lr_Entry l) = sw_Source w \<and>
           (lr_Eligible l \<longleftrightarrow> sw_ObservedAt w \<le> t \<and>
              t \<le> sw_ObservedAt w + (if maxAge \<le> 0 \<or> ttl < maxAge then ttl else maxAge))"
proof -
  have "shadow_ok (foldl shadow_step (NewShadowCache now opts) ops)" by (rule reachable_ok)
  then show ?thesis
  proof (cases rule: write_cases[where w = w])
    case (accepted c2 r2 key2 d ttl ent)
    then have eq: "c2 = c'" "r2 = r" "key2 = key" using assms by (simp_all add: admitted_def)
    have adm: "stored w d ttl c' (Canonical key)" "EffectiveFreshnessTTL d = Inr ttl" "0 < ttl" "shadowingEnabled c'"
      "DescriptorByCanonical (sc_catalog c') (Canonical key) = Some d"
      using accepted(3) unfolding eq admitted_def by (auto simp: shadowingEnabled_def)
    from stored_lookup[OF accepted(2)[unfolded eq] adm(1,4,2,3), of t maxAge] adm(2,5) show ?thesis by blast
  qed (use assms in auto)
qed

theorem shadow_write_read_back_witness:
  "\<exists>c' r l. Write (example_shadow_write ''passive'' 1000 7 0) (foldl shadow_step (NewShadowCache 1000 example_shadow_options) []) = Some (c', r) \<and>
     snd (Lookup 1500 (Some example_key) 0 c') = Some l \<and> ev_Value (lr_Entry l) = [7] \<and> lr_Eligible l"
proof -
  let ?w = "example_shadow_write ''passive'' 1000 7 0"
  have "map_option (\<lambda>(c, r). wr_Accepted r) (Write ?w (foldl shadow_step (NewShadowCache 1000 example_shadow_options) [])) = Some True"
    by code_simp
  then obtain c' r where acc: "Write ?w (foldl shadow_step (NewShadowCache 1000 example_shadow_options) []) = Some (c', r)" "wr_Accepted r"
    by auto
  have key: "sw_Key ?w = Some example_key" by (simp add: example_shadow_write_def)
  have ttl: "EffectiveFreshnessTTL example_watch = Inr (30 * second)" by code_simp
  have cat: "map_option (\<lambda>(c, r). DescriptorByCanonical (sc_catalog c) (Canonical example_key))
      (Write ?w (foldl shadow_step (NewShadowCache 1000 example_shadow_options) [])) = Some (Some example_watch)" by code_simp
  from shadow_write_read_back[OF acc key, of 1500 0] show ?thesis
    using acc ttl cat by (auto simp: example_shadow_write_def second_def)
qed

text \<open>
  C24. As long as no invalidation carries a time older than what the cache already knows of its key,
  the writes the cache accepts for a key are in the order of their observation, across invalidations,
  evictions and compactions: an older observation never replaces a newer one.
\<close>

theorem shadow_accepts_in_order:
  assumes "timely k (NewShadowCache now opts) ops"
  shows "sorted (accepted_times k (NewShadowCache now opts) ops)"
proof -
  have "sc_keyState (NewShadowCache now opts) k = None \<and> entry_at (NewShadowCache now opts) k = None"
    by (simp add: NewShadowCache_def RevalidatePinnedBudget_def Summary_def revalidate_budget_def
        syncAllPinsLocked_def range_order_def Let_def case_prod_beta)
  then have "ordered_key (NewShadowCache now opts) k"
    by (simp add: ordered_key_def key_state_def zero_key_state_def del: map_of_eq_None_iff)
  from accepted_in_order[OF new_cache_ok this assms] show ?thesis by blast
qed

theorem shadow_accepts_in_order_witness:
  "let ops = [ShadowWriteOp (example_shadow_write ''passive'' 1000 7 0), ShadowInvalidateOp 0 (example_invalidation 2000),
        ShadowWriteOp (example_shadow_write ''active_confirmed'' 1500 8 2),
        ShadowWriteOp (example_shadow_write ''active_confirmed'' 2000 9 2)];
       times = accepted_times (Canonical example_key) (NewShadowCache 1000 example_shadow_options) ops in
   times = [1000, 2000] \<and> sorted times"
proof -
  let ?ops = "[ShadowWriteOp (example_shadow_write ''passive'' 1000 7 0), ShadowInvalidateOp 0 (example_invalidation 2000),
        ShadowWriteOp (example_shadow_write ''active_confirmed'' 1500 8 2),
        ShadowWriteOp (example_shadow_write ''active_confirmed'' 2000 9 2)]"
  have t: "timely (Canonical example_key) (NewShadowCache 1000 example_shadow_options) ?ops" by code_simp
  have "accepted_times (Canonical example_key) (NewShadowCache 1000 example_shadow_options) ?ops = [1000, 2000]" by code_simp
  with shadow_accepts_in_order[OF t] show ?thesis by (simp add: Let_def)
qed

end
