(* ===== verification/Read_Scheduler.thy ===== *)
theory Read_Scheduler
  imports Shadow_Cache
begin

text \<open>
  The semantic read scheduler, \<^verbatim>\<open>src/semantic_read_scheduler.go\<close>: it serves a read from the shadow
  cache or from its own last value when these are fresh enough, lets one caller per key go to the bus
  while the others wait for its result, and stops asking a register that keeps failing.

  \<^verbatim>\<open>getWithWatchKey\<close> takes the scheduler's lock twice per turn of its loop; the two critical sections
  are \<open>enter_section\<close> and \<open>finish_section\<close>, and a caller is a program counter between them. What the
  sections read from outside is an argument: the shadow cache's answers, the result of the fetch and
  the clock, whose successive readings in one section are \<open>clock 0\<close>, \<open>clock 1\<close> and so on. So the theorems
  hold whatever the shadow cache and the bus do meanwhile. Callers, channels and the events handed to
  the callbacks are kept in \<open>read_world\<close>; a channel is a number and is closed once. A context is seen
  only where the code selects on it, while waiting. The receiver is not nil.
\<close>

section \<open>Data\<close>

definition DefaultSemanticReadFailureBudget :: int where "DefaultSemanticReadFailureBudget = 2"
definition DefaultSemanticReadOpenCooldown :: int where "DefaultSemanticReadOpenCooldown = 15 * second"
definition DefaultSemanticReadHalfOpenProbeLimit :: int where "DefaultSemanticReadHalfOpenProbeLimit = 1"
definition semanticReadShadowMaxPreActivePasses :: int where [simp]: "semanticReadShadowMaxPreActivePasses = 2"
definition semanticReadShadowMaxRecomputeCycles :: int where [simp]: "semanticReadShadowMaxRecomputeCycles = 1"

text \<open>
  Errors: those of the scheduler, those of the caller's context, and those of the fetch, of which the
  code only asks whether they wrap \<^verbatim>\<open>ErrSemanticReadSupersededInFlight\<close>.
\<close>

datatype read_error =
  ErrSemanticReadCircuitOpen string int
| ErrSemanticReadSupersededInFlight
| ErrSemanticReadRevalidationExhausted string
| ContextError
| ContextCanceled
| FetchError string bool

fun is_superseded :: "read_error \<Rightarrow> bool" where
  "is_superseded ErrSemanticReadSupersededInFlight = True"
| "is_superseded (FetchError text wraps) = wraps"
| "is_superseded _ = False"

datatype SemanticReadCircuitState =
  CircuitStateZero | SemanticReadCircuitStateClosed | SemanticReadCircuitStateOpen | SemanticReadCircuitStateHalfOpen

record SemanticReadCircuitBreakerTransition =
  bt_Key :: string
  bt_From :: SemanticReadCircuitState
  bt_To :: SemanticReadCircuitState
  bt_ConsecutiveFailures :: int

record SemanticReadCircuitBreakerSuppression =
  bs_Key :: string
  bs_State :: SemanticReadCircuitState
  bs_SuppressedTotal :: uint64
  bs_RetryAfter :: int

text \<open>Of the callbacks the options carry only whether they are set.\<close>

record SemanticReadCircuitBreakerOptions =
  bo_FailureBudget :: int
  bo_OpenCooldown :: int
  bo_HalfOpenProbeLimit :: int
  bo_OnTransition :: bool
  bo_OnSuppressed :: bool

record semanticReadCircuitBreakerConfig =
  bc_enabled :: bool
  bc_failureBudget :: int
  bc_openCooldown :: int
  bc_halfOpenProbeLimit :: int
  bc_onTransition :: bool
  bc_onSuppressed :: bool

record semanticReadEntry =
  re_running :: bool
  re_done :: nat
  re_lastOKAt :: int
  re_lastOK :: "byte list"
  re_lastErr :: "read_error option"
  re_lastOKShadowGeneration :: uint64
  re_lastOKHasGeneration :: bool
  re_lastOKFromShadow :: bool
  re_lastOKFromPassive :: bool
  re_breakerState :: SemanticReadCircuitState
  re_consecutiveFailures :: int
  re_openedAt :: int
  re_halfOpenProbesRemaining :: int
  re_suppressedTotal :: uint64

record SemanticReadScheduler =
  rs_entries :: "string \<rightharpoonup> semanticReadEntry"
  rs_breaker :: semanticReadCircuitBreakerConfig
  rs_shadow :: bool

record semanticReadShadowCandidate =
  ca_value :: "byte list"
  ca_generation :: uint64
  ca_source :: string

record SemanticReadExecutionStats =
  es_ServedFromShadow :: bool
  es_ServedFromPassiveShadow :: bool
  es_ActiveFetchAttempted :: bool
  es_ActiveFetchSucceeded :: bool
  es_ActiveFetchDuration :: int

definition no_breaker :: semanticReadCircuitBreakerConfig where
  "no_breaker =
     \<lparr> bc_enabled = False, bc_failureBudget = 0, bc_openCooldown = 0, bc_halfOpenProbeLimit = 0,
       bc_onTransition = False, bc_onSuppressed = False \<rparr>"

definition NewSemanticReadScheduler :: SemanticReadScheduler where
  "NewSemanticReadScheduler = \<lparr> rs_entries = Map.empty, rs_breaker = no_breaker, rs_shadow = False \<rparr>"

definition new_read_entry :: semanticReadEntry where
  "new_read_entry =
     \<lparr> re_running = False, re_done = 0, re_lastOKAt = 0, re_lastOK = [], re_lastErr = None,
       re_lastOKShadowGeneration = 0, re_lastOKHasGeneration = False, re_lastOKFromShadow = False,
       re_lastOKFromPassive = False, re_breakerState = SemanticReadCircuitStateClosed,
       re_consecutiveFailures = 0, re_openedAt = 0, re_halfOpenProbesRemaining = 0, re_suppressedTotal = 0 \<rparr>"

section \<open>The circuit breaker\<close>

definition normalizeSemanticReadCircuitBreakerOptions ::
  "SemanticReadCircuitBreakerOptions \<Rightarrow> semanticReadCircuitBreakerConfig" where
  "normalizeSemanticReadCircuitBreakerOptions opts =
     (let failureBudget = bo_FailureBudget opts;
          openCooldown = (if bo_OpenCooldown opts = 0 then DefaultSemanticReadOpenCooldown else bo_OpenCooldown opts);
          limit = (if bo_HalfOpenProbeLimit opts = 0 then DefaultSemanticReadHalfOpenProbeLimit
                   else bo_HalfOpenProbeLimit opts);
          limit' = (if limit < 1 then 1 else limit);
          openCooldown' = (if openCooldown < 0 then 0 else openCooldown) in
      \<lparr> bc_enabled = (failureBudget > 0), bc_failureBudget = failureBudget, bc_openCooldown = openCooldown',
        bc_halfOpenProbeLimit = limit', bc_onTransition = bo_OnTransition opts, bc_onSuppressed = bo_OnSuppressed opts \<rparr>)"

definition breaker_reset :: "semanticReadCircuitBreakerConfig \<Rightarrow> semanticReadEntry \<Rightarrow> semanticReadEntry" where
  "breaker_reset settings e =
     (let e1 = e\<lparr> re_lastErr := None,
                  re_breakerState := (if re_breakerState e = CircuitStateZero then SemanticReadCircuitStateClosed
                                      else re_breakerState e) \<rparr> in
      if bc_enabled settings then e1
      else e1\<lparr> re_breakerState := SemanticReadCircuitStateClosed, re_consecutiveFailures := 0, re_openedAt := 0,
               re_halfOpenProbesRemaining := 0 \<rparr>)"

definition SetCircuitBreaker :: "SemanticReadCircuitBreakerOptions \<Rightarrow> SemanticReadScheduler \<Rightarrow> SemanticReadScheduler" where
  "SetCircuitBreaker opts s =
     (let settings = normalizeSemanticReadCircuitBreakerOptions opts in
      s\<lparr> rs_breaker := settings, rs_entries := (\<lambda>k. map_option (breaker_reset settings) (rs_entries s k)) \<rparr>)"

definition SetShadowCache :: "bool \<Rightarrow> SemanticReadScheduler \<Rightarrow> SemanticReadScheduler" where
  "SetShadowCache cache s = s\<lparr> rs_shadow := cache \<rparr>"

definition transitionBreakerLocked ::
  "semanticReadCircuitBreakerConfig \<Rightarrow> string \<Rightarrow> SemanticReadCircuitState \<Rightarrow> semanticReadEntry \<Rightarrow>
   semanticReadEntry \<times> SemanticReadCircuitBreakerTransition option" where
  "transitionBreakerLocked cfg key to0 e =
     (if \<not> bc_enabled cfg then (e, None)
      else
        (let from = (if re_breakerState e = CircuitStateZero then SemanticReadCircuitStateClosed else re_breakerState e);
             to = (if to0 = CircuitStateZero then SemanticReadCircuitStateClosed else to0) in
         if from = to then (e, None)
         else
           (let e1 = e\<lparr> re_breakerState := to \<rparr>;
                e2 = (case to of
                        SemanticReadCircuitStateClosed \<Rightarrow>
                          e1\<lparr> re_consecutiveFailures := 0, re_openedAt := 0,
                              re_halfOpenProbesRemaining := bc_halfOpenProbeLimit cfg \<rparr>
                      | SemanticReadCircuitStateHalfOpen \<Rightarrow> e1\<lparr> re_halfOpenProbesRemaining := bc_halfOpenProbeLimit cfg \<rparr>
                      | SemanticReadCircuitStateOpen \<Rightarrow> e1\<lparr> re_halfOpenProbesRemaining := 0 \<rparr>
                      | CircuitStateZero \<Rightarrow> e1) in
            (e2, Some \<lparr> bt_Key = key, bt_From = from, bt_To = to,
                        bt_ConsecutiveFailures = re_consecutiveFailures e2 \<rparr>))))"

type_synonym guard_result =
  "semanticReadEntry \<times> SemanticReadCircuitBreakerTransition option \<times>
   SemanticReadCircuitBreakerSuppression option \<times> read_error option"

text \<open>The error's text rounds the delay to milliseconds; the delay itself is kept.\<close>

definition guardBreakerLocked ::
  "semanticReadCircuitBreakerConfig \<Rightarrow> string \<Rightarrow> int \<Rightarrow> semanticReadEntry \<Rightarrow> guard_result" where
  "guardBreakerLocked cfg key now e =
     (if \<not> bc_enabled cfg then (e, None, None, None)
      else if re_breakerState e = SemanticReadCircuitStateOpen then
        (if bc_openCooldown cfg \<le> 0 \<or> now - re_openedAt e \<ge> bc_openCooldown cfg then
           (let (e1, tr) = transitionBreakerLocked cfg key SemanticReadCircuitStateHalfOpen e in
            (e1\<lparr> re_halfOpenProbesRemaining := bc_halfOpenProbeLimit cfg \<rparr>, tr, None, None))
         else
           (let wait = bc_openCooldown cfg - (now - re_openedAt e);
                retryAfter = (if wait < 0 then 0 else wait);
                e1 = e\<lparr> re_suppressedTotal := re_suppressedTotal e + 1 \<rparr> in
            (e1, None,
             Some \<lparr> bs_Key = key, bs_State = SemanticReadCircuitStateOpen, bs_SuppressedTotal = re_suppressedTotal e1,
                    bs_RetryAfter = retryAfter \<rparr>,
             Some (ErrSemanticReadCircuitOpen key retryAfter))))
      else if re_breakerState e = SemanticReadCircuitStateHalfOpen then
        (if re_halfOpenProbesRemaining e > 0 then (e, None, None, None)
         else
           (let (e1, tr) = transitionBreakerLocked cfg key SemanticReadCircuitStateOpen e;
                e2 = e1\<lparr> re_openedAt := now, re_suppressedTotal := re_suppressedTotal e1 + 1 \<rparr>;
                retryAfter = (if bc_openCooldown cfg < 0 then 0 else bc_openCooldown cfg) in
            (e2, tr,
             Some \<lparr> bs_Key = key, bs_State = SemanticReadCircuitStateOpen, bs_SuppressedTotal = re_suppressedTotal e2,
                    bs_RetryAfter = retryAfter \<rparr>,
             Some (ErrSemanticReadCircuitOpen key retryAfter))))
      else (e, None, None, None))"

definition recordFailureLocked ::
  "semanticReadCircuitBreakerConfig \<Rightarrow> string \<Rightarrow> int \<Rightarrow> semanticReadEntry \<Rightarrow>
   semanticReadEntry \<times> SemanticReadCircuitBreakerTransition option" where
  "recordFailureLocked cfg key now e =
     (if \<not> bc_enabled cfg then (e, None)
      else
        (let e1 = e\<lparr> re_consecutiveFailures := re_consecutiveFailures e + 1 \<rparr>;
             opening = (let (e2, tr) = transitionBreakerLocked cfg key SemanticReadCircuitStateOpen e1 in
                        (e2\<lparr> re_openedAt := now \<rparr>, tr)) in
         case re_breakerState e1 of
           SemanticReadCircuitStateHalfOpen \<Rightarrow> if re_halfOpenProbesRemaining e1 > 0 then (e1, None) else opening
         | SemanticReadCircuitStateClosed \<Rightarrow>
             if re_consecutiveFailures e1 \<ge> bc_failureBudget cfg then opening else (e1, None)
         | _ \<Rightarrow> (e1, None)))"

section \<open>The shadow cache as the scheduler uses it\<close>

definition consultSemanticReadShadow ::
  "int \<Rightarrow> WatchKey option \<Rightarrow> int \<Rightarrow> ShadowCache \<Rightarrow> ShadowCache \<times> semanticReadShadowCandidate option" where
  "consultSemanticReadShadow now key maxAge cache =
     (if key = None \<or> maxAge \<le> 0 then (cache, None)
      else (case Lookup now key maxAge cache of
              (c1, None) \<Rightarrow> (c1, None)
            | (c1, Some l) \<Rightarrow>
                if \<not> lr_Eligible l \<or> ev_State (lr_Entry l) \<noteq> ShadowEntryStatePresent then (c1, None)
                else (c1, Some \<lparr> ca_value = ev_Value (lr_Entry l), ca_generation = ev_Generation (lr_Entry l),
                                 ca_source = ev_Source (lr_Entry l) \<rparr>)))"

definition shadowSnapshotEligibleForMaxAge :: "ShadowEligibilitySnapshot \<Rightarrow> int \<Rightarrow> int \<Rightarrow> bool" where
  "shadowSnapshotEligibleForMaxAge snapshot maxAge now =
     (if \<not> el_Present snapshot \<or> \<not> el_Eligible snapshot \<or> el_State snapshot \<noteq> ShadowEntryStatePresent then False
      else if maxAge \<le> 0 then False
      else if el_ExpiresAt snapshot \<noteq> 0 \<and> now > el_ExpiresAt snapshot then False
      else (let age = now - el_ObservedAt snapshot in age \<ge> 0 \<and> age \<le> maxAge))"

definition revalidateSemanticReadShadowCandidate ::
  "ShadowEligibilitySnapshot \<Rightarrow> semanticReadShadowCandidate \<Rightarrow> int \<Rightarrow> int \<Rightarrow> bool" where
  "revalidateSemanticReadShadowCandidate snapshot candidate maxAge now =
     (if el_Generation snapshot \<noteq> ca_generation candidate then False
      else shadowSnapshotEligibleForMaxAge snapshot maxAge now)"

definition clearSemanticReadCacheLocked :: "semanticReadEntry \<Rightarrow> semanticReadEntry" where
  "clearSemanticReadCacheLocked e =
     e\<lparr> re_lastOKAt := 0, re_lastOK := [], re_lastOKShadowGeneration := 0, re_lastOKHasGeneration := False,
        re_lastOKFromShadow := False, re_lastOKFromPassive := False \<rparr>"

section \<open>The first critical section\<close>

text \<open>What the section decides: wait, serve, go round again, refuse, or go to the bus.\<close>

datatype enter_outcome =
  EnterWait nat
| EnterServed "byte list" bool bool
| EnterAgain
| EnterRefused read_error "SemanticReadCircuitBreakerTransition option" "SemanticReadCircuitBreakerSuppression option"
| EnterStart "SemanticReadCircuitBreakerTransition option"

definition entry_or_new :: "semanticReadEntry option \<Rightarrow> semanticReadEntry" where
  "entry_or_new entry =
     (case entry of
        None \<Rightarrow> new_read_entry
      | Some e \<Rightarrow> if re_breakerState e = CircuitStateZero
                  then e\<lparr> re_breakerState := SemanticReadCircuitStateClosed \<rparr> else e)"

text \<open>A candidate of the shadow cache that is still valid becomes the cached value.\<close>

definition adopt_candidate ::
  "semanticReadShadowCandidate \<Rightarrow> ShadowEligibilitySnapshot \<Rightarrow> int \<Rightarrow> semanticReadEntry \<Rightarrow> semanticReadEntry" where
  "adopt_candidate ca snapshot now e =
     e\<lparr> re_lastOKAt := now, re_lastOK := ca_value ca, re_lastErr := None,
        re_lastOKShadowGeneration := el_Generation snapshot, re_lastOKHasGeneration := True,
        re_lastOKFromShadow := True, re_lastOKFromPassive := (ca_source ca = ShadowWriteSourcePassive) \<rparr>"

text \<open>The cached value: served, or dropped when the shadow cache has moved on, or left when too old.\<close>

definition consult_cache ::
  "bool \<Rightarrow> int \<Rightarrow> ShadowEligibilitySnapshot \<Rightarrow> (nat \<Rightarrow> int) \<Rightarrow> semanticReadEntry \<Rightarrow> semanticReadEntry \<times> bool" where
  "consult_cache watched maxAge snapshot clock e =
     (if re_lastOK e \<noteq> [] \<and> maxAge > 0 then
        (let age = clock 2 - re_lastOKAt e in
         if age \<ge> 0 \<and> age \<le> maxAge then
           (if \<not> watched \<or> \<not> re_lastOKHasGeneration e then (e, True)
            else if el_Generation snapshot \<noteq> re_lastOKShadowGeneration e then (clearSemanticReadCacheLocked e, False)
            else if re_lastOKFromShadow e \<and> \<not> shadowSnapshotEligibleForMaxAge snapshot maxAge (clock 3)
              then (clearSemanticReadCacheLocked e, False)
            else (e, True))
         else (e, False))
      else (e, False))"

definition go_to_bus ::
  "semanticReadCircuitBreakerConfig \<Rightarrow> string \<Rightarrow> int \<Rightarrow> nat \<Rightarrow> semanticReadEntry \<Rightarrow> semanticReadEntry \<times> enter_outcome" where
  "go_to_bus cfg key now fresh e =
     (case guardBreakerLocked cfg key now e of
        (e1, tr, supp, Some err) \<Rightarrow> (e1, EnterRefused err tr supp)
      | (e1, tr, supp, None) \<Rightarrow>
          (let e2 = (if re_breakerState e1 = SemanticReadCircuitStateHalfOpen
                     then e1\<lparr> re_halfOpenProbesRemaining := re_halfOpenProbesRemaining e1 - 1 \<rparr> else e1) in
           (e2\<lparr> re_running := True, re_done := fresh \<rparr>, EnterStart tr)))"

text \<open>Past the shadow cache's candidate: the own value if it may be served, else the bus.\<close>

definition serve_or_fetch ::
  "semanticReadCircuitBreakerConfig \<Rightarrow> string \<Rightarrow> bool \<Rightarrow> int \<Rightarrow> ShadowEligibilitySnapshot \<Rightarrow> (nat \<Rightarrow> int) \<Rightarrow> nat \<Rightarrow>
   semanticReadEntry \<Rightarrow> semanticReadEntry \<times> enter_outcome" where
  "serve_or_fetch cfg key watched maxAge snapshot clock fresh e =
     (let (e1, serve) = consult_cache watched maxAge snapshot clock e in
      if serve then (e1, EnterServed (re_lastOK e1) (re_lastOKFromShadow e1) (re_lastOKFromPassive e1))
      else go_to_bus cfg key (clock 4) fresh e1)"

definition enter_section ::
  "semanticReadCircuitBreakerConfig \<Rightarrow> string \<Rightarrow> bool \<Rightarrow> int \<Rightarrow> int \<Rightarrow> semanticReadShadowCandidate option \<Rightarrow>
   ShadowEligibilitySnapshot \<Rightarrow> ShadowEligibilitySnapshot \<Rightarrow> (nat \<Rightarrow> int) \<Rightarrow> nat \<Rightarrow> semanticReadEntry option \<Rightarrow>
   semanticReadEntry \<times> enter_outcome" where
  "enter_section cfg key watched maxAge passes candidate snapshot1 snapshot2 clock fresh entry =
     (let e = entry_or_new entry in
      if re_running e then (e, EnterWait (re_done e))
      else (case candidate of
              None \<Rightarrow> serve_or_fetch cfg key watched maxAge snapshot2 clock fresh e
            | Some ca \<Rightarrow>
                if revalidateSemanticReadShadowCandidate snapshot1 ca maxAge (clock 0)
                then (adopt_candidate ca snapshot1 (clock 1) e,
                      EnterServed (ca_value ca) True (ca_source ca = ShadowWriteSourcePassive))
                else if passes > 0 then (e, EnterAgain)
                else serve_or_fetch cfg key watched maxAge snapshot2 clock fresh e))"

section \<open>The second critical section\<close>

text \<open>
  The error after the attempt to store the fetched value in the shadow cache: a value that lost
  against what the cache knows is superseded, other refusals do not matter.
\<close>

definition after_shadow_write :: "read_error option \<Rightarrow> ShadowWriteResult option \<Rightarrow> read_error option" where
  "after_shadow_write err write =
     (case (err, write) of
        (None, Some r) \<Rightarrow>
          if \<not> wr_Accepted r \<and>
             (wr_Reason r = GenerationAdvanced \<or> wr_Reason r = StaleTimestamp \<or> wr_Reason r = SameTimestampConflict)
          then Some ErrSemanticReadSupersededInFlight else None
      | _ \<Rightarrow> err)"

definition expected_generation :: "uint64 \<Rightarrow> ShadowWriteResult option \<Rightarrow> uint64" where
  "expected_generation startGeneration write =
     (case write of Some r \<Rightarrow> if wr_Accepted r then wr_Generation r else startGeneration | None \<Rightarrow> startGeneration)"

text \<open>The error the section settles on, and whether it counts as an invalidation in flight.\<close>

definition finish_error ::
  "bool \<Rightarrow> uint64 \<Rightarrow> read_error option \<Rightarrow> ShadowWriteResult option \<Rightarrow> uint64 \<Rightarrow> read_error option \<times> bool" where
  "finish_error watched startGeneration err0 write currentGeneration =
     (let err = after_shadow_write err0 write in
      case err of
        Some x \<Rightarrow> (err, is_superseded x)
      | None \<Rightarrow> if watched \<and> currentGeneration \<noteq> expected_generation startGeneration write
                then (Some ErrSemanticReadSupersededInFlight, True) else (None, False))"

definition finish_section ::
  "semanticReadCircuitBreakerConfig \<Rightarrow> string \<Rightarrow> bool \<Rightarrow> uint64 \<Rightarrow> byte list \<Rightarrow> read_error option \<Rightarrow>
   ShadowWriteResult option \<Rightarrow> uint64 \<Rightarrow> (nat \<Rightarrow> int) \<Rightarrow> semanticReadEntry \<Rightarrow>
   semanticReadEntry \<times> SemanticReadCircuitBreakerTransition option \<times> read_error option \<times> bool" where
  "finish_section cfg key watched startGeneration value err0 write currentGeneration clock e0 =
     (let e = e0\<lparr> re_running := False \<rparr>;
          (err, invalidated) = finish_error watched startGeneration err0 write currentGeneration in
      case err of
        None \<Rightarrow>
          (let e1 = e\<lparr> re_lastOKAt := clock 0, re_lastOK := value, re_lastErr := None, re_lastOKFromShadow := False,
                       re_lastOKFromPassive := False, re_lastOKHasGeneration := watched,
                       re_lastOKShadowGeneration := (if watched then expected_generation startGeneration write else 0),
                       re_consecutiveFailures := 0 \<rparr>;
               (e2, tr) = transitionBreakerLocked cfg key SemanticReadCircuitStateClosed e1 in
           (e2, tr, None, False))
      | Some x \<Rightarrow>
          (let e1 = e\<lparr> re_lastErr := Some x \<rparr> in
           if invalidated then
             (let e2 = clearSemanticReadCacheLocked e1;
                  e3 = (if bc_enabled cfg \<and> re_breakerState e2 = SemanticReadCircuitStateHalfOpen \<and>
                           re_halfOpenProbesRemaining e2 < bc_halfOpenProbeLimit cfg
                        then e2\<lparr> re_halfOpenProbesRemaining := re_halfOpenProbesRemaining e2 + 1 \<rparr> else e2) in
              (e3, None, Some x, True))
           else (let (e2, tr) = recordFailureLocked cfg key (clock 0) e1 in (e2, tr, Some x, False))))"

section \<open>Callers\<close>

text \<open>
  The program counter of a caller, with the locals that are alive there. \<open>rc_fetches\<close> and
  \<open>rc_consults\<close> only count.
\<close>

datatype read_pc =
  PcTop
| PcEnter "semanticReadShadowCandidate option"
| PcWait nat
| PcStart nat
| PcFetch nat uint64 int
| PcWrite nat uint64 "byte list" "read_error option"
| PcFinish nat uint64 "byte list" "read_error option" "ShadowWriteResult option"
| PcDirect int
| PcReturned "read_error + byte list"
| PcPanicked

record read_call =
  rc_key :: string
  rc_watched :: bool
  rc_maxAge :: int
  rc_passes :: int
  rc_recompute :: int
  rc_stats :: SemanticReadExecutionStats
  rc_pc :: read_pc
  rc_fetches :: int
  rc_consults :: int

record read_world =
  rw_sched :: SemanticReadScheduler
  rw_nextDone :: nat
  rw_closed :: "nat list"
  rw_calls :: "read_call list"
  rw_transitions :: "SemanticReadCircuitBreakerTransition list"
  rw_suppressions :: "SemanticReadCircuitBreakerSuppression list"

text \<open>What a step reads from outside.\<close>

record read_input =
  in_candidate :: "semanticReadShadowCandidate option"
  in_snapshot1 :: ShadowEligibilitySnapshot
  in_snapshot2 :: ShadowEligibilitySnapshot
  in_clock :: "nat \<Rightarrow> int"
  in_error :: "read_error option"
  in_value :: "byte list"
  in_write :: ShadowWriteResult

definition no_stats :: SemanticReadExecutionStats where
  "no_stats =
     \<lparr> es_ServedFromShadow = False, es_ServedFromPassiveShadow = False, es_ActiveFetchAttempted = False,
       es_ActiveFetchSucceeded = False, es_ActiveFetchDuration = 0 \<rparr>"

text \<open>
  The start of \<^verbatim>\<open>getWithWatchKey\<close>. An empty key goes to the bus at once, before the check that there is
  something to fetch with. A read counts as watched when it has a watch key and the scheduler had a
  shadow cache when the call began.
\<close>

definition start_call :: "SemanticReadScheduler \<Rightarrow> string \<Rightarrow> bool \<Rightarrow> int \<Rightarrow> bool \<Rightarrow> int \<Rightarrow> read_call" where
  "start_call s key hasWatchKey maxAge hasFetch now =
     \<lparr> rc_key = key, rc_watched = (rs_shadow s \<and> hasWatchKey), rc_maxAge = maxAge,
       rc_passes = semanticReadShadowMaxPreActivePasses, rc_recompute = semanticReadShadowMaxRecomputeCycles,
       rc_stats = (if key = '''' then no_stats\<lparr> es_ActiveFetchAttempted := True \<rparr> else no_stats),
       rc_pc = (if key = '''' then (if hasFetch then PcDirect now else PcPanicked)
                else if \<not> hasFetch then PcReturned (Inl ContextCanceled) else PcTop),
       rc_fetches = (if key = '''' \<and> hasFetch then 1 else 0), rc_consults = 0 \<rparr>"

definition emitBreakerTransition ::
  "SemanticReadCircuitBreakerTransition option \<Rightarrow> read_world \<Rightarrow> read_world" where
  "emitBreakerTransition event w =
     (case event of
        None \<Rightarrow> w
      | Some ev \<Rightarrow> if bc_onTransition (rs_breaker (rw_sched w))
                   then w\<lparr> rw_transitions := rw_transitions w @ [ev] \<rparr> else w)"

definition emitBreakerSuppression ::
  "SemanticReadCircuitBreakerSuppression option \<Rightarrow> read_world \<Rightarrow> read_world" where
  "emitBreakerSuppression event w =
     (case event of
        None \<Rightarrow> w
      | Some ev \<Rightarrow> if bc_onSuppressed (rs_breaker (rw_sched w))
                   then w\<lparr> rw_suppressions := rw_suppressions w @ [ev] \<rparr> else w)"

definition put_read_entry :: "string \<Rightarrow> semanticReadEntry \<Rightarrow> read_world \<Rightarrow> read_world" where
  "put_read_entry key e w =
     w\<lparr> rw_sched := (rw_sched w)\<lparr> rs_entries := (rs_entries (rw_sched w))(key \<mapsto> e) \<rparr> \<rparr>"

definition put_call :: "nat \<Rightarrow> read_call \<Rightarrow> read_world \<Rightarrow> read_world" where
  "put_call i c w = w\<lparr> rw_calls := (rw_calls w)[i := c] \<rparr>"

text \<open>The top of the loop: one look at the shadow cache as long as passes remain.\<close>

definition step_top :: "read_input \<Rightarrow> read_call \<Rightarrow> read_call" where
  "step_top x c =
     (if rc_watched c \<and> rc_maxAge c > 0 \<and> rc_passes c > 0
      then c\<lparr> rc_passes := rc_passes c - 1, rc_consults := rc_consults c + 1, rc_pc := PcEnter (in_candidate x) \<rparr>
      else c\<lparr> rc_pc := PcEnter None \<rparr>)"

definition served_stats :: "bool \<Rightarrow> bool \<Rightarrow> read_call \<Rightarrow> read_call" where
  "served_stats fromShadow fromPassive c =
     c\<lparr> rc_stats := (rc_stats c)\<lparr> es_ServedFromShadow := fromShadow, es_ServedFromPassiveShadow := fromPassive \<rparr> \<rparr>"

definition step_enter :: "nat \<Rightarrow> read_input \<Rightarrow> semanticReadShadowCandidate option \<Rightarrow> read_call \<Rightarrow> read_world \<Rightarrow> read_world" where
  "step_enter i x candidate c w =
     (let s = rw_sched w;
          (e, res) = enter_section (rs_breaker s) (rc_key c) (rc_watched c) (rc_maxAge c) (rc_passes c) candidate
                       (in_snapshot1 x) (in_snapshot2 x) (in_clock x) (rw_nextDone w) (rs_entries s (rc_key c));
          w1 = put_read_entry (rc_key c) e w in
      case res of
        EnterWait d \<Rightarrow> put_call i (c\<lparr> rc_pc := PcWait d \<rparr>) w1
      | EnterServed v fs fp \<Rightarrow> put_call i ((served_stats fs fp c)\<lparr> rc_pc := PcReturned (Inr v) \<rparr>) w1
      | EnterAgain \<Rightarrow> put_call i (c\<lparr> rc_pc := PcTop \<rparr>) w1
      | EnterRefused err tr supp \<Rightarrow>
          emitBreakerSuppression supp (emitBreakerTransition tr (put_call i (c\<lparr> rc_pc := PcReturned (Inl err) \<rparr>) w1))
      | EnterStart tr \<Rightarrow>
          emitBreakerTransition tr
            (put_call i (c\<lparr> rc_pc := PcStart (rw_nextDone w) \<rparr>) (w1\<lparr> rw_nextDone := Suc (rw_nextDone w) \<rparr>)))"

text \<open>The fetch returns: its duration is recorded, and a watched value goes to the shadow cache first.\<close>

definition step_fetched :: "read_input \<Rightarrow> nat \<Rightarrow> uint64 \<Rightarrow> int \<Rightarrow> read_call \<Rightarrow> read_call" where
  "step_fetched x d g startedAt c =
     (let endedAt = in_clock x 0;
          c1 = (if endedAt \<ge> startedAt
                then c\<lparr> rc_stats := (rc_stats c)\<lparr> es_ActiveFetchDuration := endedAt - startedAt \<rparr> \<rparr> else c) in
      if in_error x = None \<and> rc_watched c then c1\<lparr> rc_pc := PcWrite d g (in_value x) (in_error x) \<rparr>
      else c1\<lparr> rc_pc := PcFinish d g (in_value x) (in_error x) None \<rparr>)"

text \<open>After the second critical section: return, or one more turn when the value was invalidated in flight.\<close>

definition step_finish ::
  "nat \<Rightarrow> read_input \<Rightarrow> nat \<Rightarrow> uint64 \<Rightarrow> byte list \<Rightarrow> read_error option \<Rightarrow> ShadowWriteResult option \<Rightarrow> read_call \<Rightarrow>
   read_world \<Rightarrow> read_world" where
  "step_finish i x d g v err0 write c w =
     (let s = rw_sched w;
          e0 = (case rs_entries s (rc_key c) of None \<Rightarrow> new_read_entry | Some e \<Rightarrow> e);
          (e, tr, err, invalidated) = finish_section (rs_breaker s) (rc_key c) (rc_watched c) g v err0 write
                                        (el_Generation (in_snapshot1 x)) (in_clock x) e0;
          w1 = emitBreakerTransition tr ((put_read_entry (rc_key c) e w)\<lparr> rw_closed := d # rw_closed w \<rparr>) in
      case err of
        None \<Rightarrow> put_call i (c\<lparr> rc_stats := (rc_stats c)\<lparr> es_ActiveFetchSucceeded := True \<rparr>,
                              rc_pc := PcReturned (Inr v) \<rparr>) w1
      | Some y \<Rightarrow>
          if invalidated then
            (if rc_recompute c > 0
             then put_call i (c\<lparr> rc_recompute := rc_recompute c - 1,
                                 rc_passes := semanticReadShadowMaxPreActivePasses, rc_pc := PcTop \<rparr>) w1
             else put_call i (c\<lparr> rc_pc := PcReturned (Inl (ErrSemanticReadRevalidationExhausted (rc_key c))) \<rparr>) w1)
          else put_call i (c\<lparr> rc_pc := PcReturned (Inl y) \<rparr>) w1)"

definition step_call :: "nat \<Rightarrow> read_input \<Rightarrow> read_call \<Rightarrow> read_world \<Rightarrow> read_world" where
  "step_call i x c w =
     (case rc_pc c of
        PcTop \<Rightarrow> put_call i (step_top x c) w
      | PcEnter candidate \<Rightarrow> step_enter i x candidate c w
      | PcWait d \<Rightarrow> if d \<in> set (rw_closed w) then put_call i (c\<lparr> rc_pc := PcTop \<rparr>) w else w
      | PcStart d \<Rightarrow>
          put_call i (c\<lparr> rc_stats := (rc_stats c)\<lparr> es_ActiveFetchAttempted := True \<rparr>, rc_fetches := rc_fetches c + 1,
                         rc_pc := PcFetch d (if rc_watched c then el_Generation (in_snapshot1 x) else 0) (in_clock x 0) \<rparr>) w
      | PcFetch d g startedAt \<Rightarrow> put_call i (step_fetched x d g startedAt c) w
      | PcWrite d g v err \<Rightarrow> put_call i (c\<lparr> rc_pc := PcFinish d g v err (Some (in_write x)) \<rparr>) w
      | PcFinish d g v err write \<Rightarrow> step_finish i x d g v err write c w
      | PcDirect startedAt \<Rightarrow>
          put_call i (c\<lparr> rc_stats := (rc_stats c)\<lparr> es_ActiveFetchDuration := in_clock x 0 - startedAt,
                                                   es_ActiveFetchSucceeded := (in_error x = None) \<rparr>,
                         rc_pc := PcReturned (case in_error x of None \<Rightarrow> Inr (in_value x) | Some y \<Rightarrow> Inl y) \<rparr>) w
      | PcReturned r \<Rightarrow> w
      | PcPanicked \<Rightarrow> w)"

datatype read_op =
  ReadCallOp string bool int bool int
| ReadStepOp nat read_input
| ReadCancelOp nat
| ReadSetBreakerOp SemanticReadCircuitBreakerOptions
| ReadSetShadowOp bool

fun read_step :: "read_world \<Rightarrow> read_op \<Rightarrow> read_world" where
  "read_step w (ReadCallOp key hasWatchKey maxAge hasFetch now) =
     w\<lparr> rw_calls := rw_calls w @ [start_call (rw_sched w) key hasWatchKey maxAge hasFetch now] \<rparr>"
| "read_step w (ReadStepOp i x) = (if i < length (rw_calls w) then step_call i x (rw_calls w ! i) w else w)"
| "read_step w (ReadCancelOp i) =
     (if i < length (rw_calls w)
      then (case rc_pc (rw_calls w ! i) of
              PcWait d \<Rightarrow> put_call i ((rw_calls w ! i)\<lparr> rc_pc := PcReturned (Inl ContextError) \<rparr>) w
            | _ \<Rightarrow> w)
      else w)"
| "read_step w (ReadSetBreakerOp opts) = w\<lparr> rw_sched := SetCircuitBreaker opts (rw_sched w) \<rparr>"
| "read_step w (ReadSetShadowOp present) = w\<lparr> rw_sched := SetShadowCache present (rw_sched w) \<rparr>"

definition new_read_world :: read_world where
  "new_read_world =
     \<lparr> rw_sched = NewSemanticReadScheduler, rw_nextDone = 0, rw_closed = [], rw_calls = [], rw_transitions = [],
       rw_suppressions = [] \<rparr>"

section \<open>What the theorems speak of\<close>

text \<open>The channel a caller will close, if it is between the two critical sections.\<close>

fun in_flight :: "read_pc \<Rightarrow> nat option" where
  "in_flight (PcStart d) = Some d"
| "in_flight (PcFetch d g t) = Some d"
| "in_flight (PcWrite d g v err) = Some d"
| "in_flight (PcFinish d g v err write) = Some d"
| "in_flight _ = None"

fun waits_for :: "read_pc \<Rightarrow> nat option" where
  "waits_for (PcWait d) = Some d"
| "waits_for _ = None"

definition flight_of :: "read_world \<Rightarrow> string \<Rightarrow> nat option" where
  "flight_of w k =
     (case rs_entries (rw_sched w) k of
        None \<Rightarrow> None | Some e \<Rightarrow> if re_running e then Some (re_done e) else None)"

definition flight_ok :: "read_world \<Rightarrow> bool" where
  "flight_ok w \<longleftrightarrow>
     (\<forall>i < length (rw_calls w). \<forall>d. in_flight (rc_pc (rw_calls w ! i)) = Some d \<longrightarrow>
        d < rw_nextDone w \<and> d \<notin> set (rw_closed w) \<and> flight_of w (rc_key (rw_calls w ! i)) = Some d) \<and>
     (\<forall>i < length (rw_calls w). \<forall>j < length (rw_calls w). \<forall>d.
        in_flight (rc_pc (rw_calls w ! i)) = Some d \<and> in_flight (rc_pc (rw_calls w ! j)) = Some d \<longrightarrow> i = j) \<and>
     (\<forall>k d. flight_of w k = Some d \<longrightarrow>
        (\<exists>i < length (rw_calls w). rc_key (rw_calls w ! i) = k \<and> in_flight (rc_pc (rw_calls w ! i)) = Some d)) \<and>
     (\<forall>i < length (rw_calls w). \<forall>d. waits_for (rc_pc (rw_calls w ! i)) = Some d \<longrightarrow>
        d \<in> set (rw_closed w) \<or> flight_of w (rc_key (rw_calls w ! i)) = Some d) \<and>
     (\<forall>d \<in> set (rw_closed w). d < rw_nextDone w)"

text \<open>What the breaker of a key may look like while its settings stay.\<close>

definition breaker_ok :: "semanticReadCircuitBreakerConfig \<Rightarrow> semanticReadEntry \<Rightarrow> bool" where
  "breaker_ok cfg e \<longleftrightarrow>
     (case re_breakerState e of
        SemanticReadCircuitStateClosed \<Rightarrow> 0 \<le> re_consecutiveFailures e \<and> re_consecutiveFailures e < bc_failureBudget cfg
      | SemanticReadCircuitStateHalfOpen \<Rightarrow>
          0 \<le> re_halfOpenProbesRemaining e \<and> re_halfOpenProbesRemaining e \<le> bc_halfOpenProbeLimit cfg \<and>
          (if re_running e then re_halfOpenProbesRemaining e < bc_halfOpenProbeLimit cfg
           else 0 < re_halfOpenProbesRemaining e)
      | SemanticReadCircuitStateOpen \<Rightarrow> \<not> re_running e \<and> re_halfOpenProbesRemaining e = 0
      | CircuitStateZero \<Rightarrow> False)"

text \<open>Calls that leave the settings of the breaker alone.\<close>

fun keeps_breaker :: "read_op \<Rightarrow> bool" where
  "keeps_breaker (ReadSetBreakerOp opts) = False"
| "keeps_breaker _ = True"

text \<open>No reading of the clock in the call is later than the end of the cooldown.\<close>

fun within_cooldown :: "int \<Rightarrow> int \<Rightarrow> read_op \<Rightarrow> bool" where
  "within_cooldown opened cooldown (ReadStepOp i x) = (in_clock x 4 - opened < cooldown)"
| "within_cooldown opened cooldown _ = True"

text \<open>Readings of a step for closed examples: nothing from the shadow cache, a constant clock.\<close>

definition example_input :: "int \<Rightarrow> read_error option \<Rightarrow> byte list \<Rightarrow> read_input" where
  "example_input t err v =
     (let none = \<lparr> el_Present = False, el_Eligible = False, el_Generation = 0, el_State = ShadowEntryStateZero,
                   el_ObservedAt = 0, el_ExpiresAt = 0 \<rparr> in
      \<lparr> in_candidate = None, in_snapshot1 = none, in_snapshot2 = none, in_clock = (\<lambda>n. t), in_error = err, in_value = v,
        in_write = rejected 0 PolicyReject \<rparr>)"

definition example_breaker :: SemanticReadCircuitBreakerOptions where
  "example_breaker =
     \<lparr> bo_FailureBudget = 1, bo_OpenCooldown = 100, bo_HalfOpenProbeLimit = 0, bo_OnTransition = True, bo_OnSuppressed = True \<rparr>"

text \<open>Two callers of one register: the first goes to the bus, the second waits for it.\<close>

definition example_two_callers :: "read_op list" where
  "example_two_callers =
     [ReadCallOp ''r'' False 10 True 0, ReadCallOp ''r'' False 10 True 0, ReadStepOp 0 (example_input 5 None []),
      ReadStepOp 0 (example_input 5 None []), ReadStepOp 1 (example_input 6 None []), ReadStepOp 1 (example_input 6 None [])]"

text \<open>One caller whose fetch fails at time 20.\<close>

definition example_failed_read :: "read_op list" where
  "example_failed_read =
     [ReadCallOp ''r'' False 10 True 0, ReadStepOp 0 (example_input 5 None []), ReadStepOp 0 (example_input 5 None []),
      ReadStepOp 0 (example_input 5 None []), ReadStepOp 0 (example_input 20 (Some (FetchError ''nack'' False)) []),
      ReadStepOp 0 (example_input 20 None [])]"

section \<open>Lemmas: one caller per key on the bus\<close>

lemma guard_frame [simp]:
  "re_running (fst (guardBreakerLocked cfg key now e)) = re_running e"
  "re_done (fst (guardBreakerLocked cfg key now e)) = re_done e"
  by (simp_all add: guardBreakerLocked_def transitionBreakerLocked_def Let_def case_prod_beta
      split: SemanticReadCircuitState.split)

lemma transition_frame [simp]:
  "re_running (fst (transitionBreakerLocked cfg key to e)) = re_running e"
  "re_done (fst (transitionBreakerLocked cfg key to e)) = re_done e"
  by (simp_all add: transitionBreakerLocked_def Let_def split: SemanticReadCircuitState.split)

lemma record_failure_frame [simp]: "re_running (fst (recordFailureLocked cfg key now e)) = re_running e"
  by (simp add: recordFailureLocked_def Let_def case_prod_beta split: SemanticReadCircuitState.split)

lemma clear_frame [simp]:
  "re_running (clearSemanticReadCacheLocked e) = re_running e" "re_done (clearSemanticReadCacheLocked e) = re_done e"
  "re_breakerState (clearSemanticReadCacheLocked e) = re_breakerState e"
  "re_consecutiveFailures (clearSemanticReadCacheLocked e) = re_consecutiveFailures e"
  "re_openedAt (clearSemanticReadCacheLocked e) = re_openedAt e"
  "re_halfOpenProbesRemaining (clearSemanticReadCacheLocked e) = re_halfOpenProbesRemaining e"
  by (simp_all add: clearSemanticReadCacheLocked_def)

lemma consult_cache_cases:
  "fst (consult_cache watched maxAge snap clock e) = e \<or>
   fst (consult_cache watched maxAge snap clock e) = clearSemanticReadCacheLocked e"
  by (simp add: consult_cache_def Let_def)

lemma consult_cache_frame [simp]:
  "re_running (fst (consult_cache watched maxAge snap clock e)) = re_running e"
  "re_done (fst (consult_cache watched maxAge snap clock e)) = re_done e"
  using consult_cache_cases[of watched maxAge snap clock e] by auto

lemma finish_frame [simp]:
  "\<not> re_running (fst (finish_section cfg key watched g v err write cur clock e))"
  by (simp add: finish_section_def Let_def case_prod_beta split: option.split)

lemma entry_or_new_flight: "re_running (entry_or_new x) \<longleftrightarrow> (\<exists>e. x = Some e \<and> re_running e)"
  "x = Some e \<Longrightarrow> re_done (entry_or_new x) = re_done e"
  by (auto simp: entry_or_new_def new_read_entry_def split: option.split)

lemma go_to_bus_flight:
  "\<not> re_running e \<Longrightarrow>
   (case go_to_bus cfg key now fresh e of
      (e', EnterRefused err tr supp) \<Rightarrow> \<not> re_running e'
    | (e', EnterStart tr) \<Rightarrow> re_running e' \<and> re_done e' = fresh
    | _ \<Rightarrow> False)"
  using guard_frame(1)[of cfg key now e]
  by (cases "guardBreakerLocked cfg key now e") (auto simp: go_to_bus_def Let_def split: option.splits)

lemma serve_or_fetch_flight:
  assumes "\<not> re_running e"
  shows "case serve_or_fetch cfg key watched maxAge snap clock fresh e of
           (e', EnterWait d) \<Rightarrow> False
         | (e', EnterStart tr) \<Rightarrow> re_running e' \<and> re_done e' = fresh
         | (e', _) \<Rightarrow> \<not> re_running e'"
proof -
  obtain e1 serve where c: "consult_cache watched maxAge snap clock e = (e1, serve)" by fastforce
  then have "\<not> re_running e1" using consult_cache_frame(1)[of watched maxAge snap clock e] assms by simp
  then show ?thesis using go_to_bus_flight[where e = e1 and cfg = cfg and key = key and now = "clock 4" and fresh = fresh]
    by (auto simp: serve_or_fetch_def c split: prod.splits enter_outcome.splits)
qed

lemma enter_flight:
  "case enter_section cfg key watched maxAge passes ca s1 s2 clock fresh x of
     (e', EnterWait d) \<Rightarrow> (\<exists>e. x = Some e \<and> re_running e \<and> re_done e = d) \<and> re_running e' \<and> re_done e' = d
   | (e', EnterStart tr) \<Rightarrow> (\<forall>e. x = Some e \<longrightarrow> \<not> re_running e) \<and> re_running e' \<and> re_done e' = fresh
   | (e', _) \<Rightarrow> (\<forall>e. x = Some e \<longrightarrow> \<not> re_running e) \<and> \<not> re_running e'"
proof (cases "re_running (entry_or_new x)")
  case True
  then obtain e where "x = Some e" "re_running e" using entry_or_new_flight(1) by blast
  then show ?thesis using True entry_or_new_flight(2)[of x e] by (simp add: enter_section_def Let_def)
next
  case False
  then have "\<forall>e. x = Some e \<longrightarrow> \<not> re_running e" using entry_or_new_flight(1) by blast
  then show ?thesis
    using False serve_or_fetch_flight[OF False, where cfg = cfg and key = key and watched = watched and maxAge = maxAge and
        snap = s2 and clock = clock and fresh = fresh]
    by (auto simp: enter_section_def Let_def adopt_candidate_def split: option.splits enter_outcome.splits prod.splits)
qed

lemma world_fields [simp]:
  "rw_calls (put_read_entry k e w) = rw_calls w" "rw_nextDone (put_read_entry k e w) = rw_nextDone w"
  "rw_closed (put_read_entry k e w) = rw_closed w"
  "rs_entries (rw_sched (put_read_entry k e w)) = (rs_entries (rw_sched w))(k \<mapsto> e)"
  "rs_breaker (rw_sched (put_read_entry k e w)) = rs_breaker (rw_sched w)"
  "rw_calls (put_call i c w) = (rw_calls w)[i := c]" "rw_nextDone (put_call i c w) = rw_nextDone w"
  "rw_closed (put_call i c w) = rw_closed w" "rw_sched (put_call i c w) = rw_sched w"
  "rw_calls (emitBreakerTransition tr w) = rw_calls w" "rw_nextDone (emitBreakerTransition tr w) = rw_nextDone w"
  "rw_closed (emitBreakerTransition tr w) = rw_closed w" "rw_sched (emitBreakerTransition tr w) = rw_sched w"
  "rw_calls (emitBreakerSuppression su w) = rw_calls w" "rw_nextDone (emitBreakerSuppression su w) = rw_nextDone w"
  "rw_closed (emitBreakerSuppression su w) = rw_closed w" "rw_sched (emitBreakerSuppression su w) = rw_sched w"
  by (simp_all add: put_read_entry_def put_call_def emitBreakerTransition_def emitBreakerSuppression_def split: option.split)

lemma flight_of_put:
  "flight_of (put_read_entry k e w) k' =
     (if k' = k then (if re_running e then Some (re_done e) else None) else flight_of w k')"
  by (simp add: flight_of_def)

lemma flight_of_sched: "rw_sched w' = rw_sched w \<Longrightarrow> flight_of w' = flight_of w"
  by (simp add: flight_of_def fun_eq_iff)

lemma flight_of_frame [simp]:
  "flight_of (put_call i c w) = flight_of w" "flight_of (emitBreakerTransition tr w) = flight_of w"
  "flight_of (emitBreakerSuppression su w) = flight_of w" "flight_of (w\<lparr> rw_closed := ds \<rparr>) = flight_of w"
  "flight_of (w\<lparr> rw_nextDone := n \<rparr>) = flight_of w" "flight_of (w\<lparr> rw_calls := cs \<rparr>) = flight_of w"
  by (rule flight_of_sched; simp)+

lemma flight_okD:
  assumes "flight_ok w" and "i < length (rw_calls w)"
  shows "in_flight (rc_pc (rw_calls w ! i)) = Some d \<Longrightarrow> d < rw_nextDone w"
    and "in_flight (rc_pc (rw_calls w ! i)) = Some d \<Longrightarrow> d \<notin> set (rw_closed w)"
    and "in_flight (rc_pc (rw_calls w ! i)) = Some d \<Longrightarrow> flight_of w (rc_key (rw_calls w ! i)) = Some d"
    and "in_flight (rc_pc (rw_calls w ! i)) = Some d \<Longrightarrow> j < length (rw_calls w) \<Longrightarrow>
         in_flight (rc_pc (rw_calls w ! j)) = Some d \<Longrightarrow> i = j"
    and "waits_for (rc_pc (rw_calls w ! i)) = Some d \<Longrightarrow>
         d \<in> set (rw_closed w) \<or> flight_of w (rc_key (rw_calls w ! i)) = Some d"
  using assms unfolding flight_ok_def by blast+

lemma flight_okD':
  assumes "flight_ok w"
  shows "flight_of w k = Some d \<Longrightarrow>
         \<exists>i < length (rw_calls w). rc_key (rw_calls w ! i) = k \<and> in_flight (rc_pc (rw_calls w ! i)) = Some d"
    and "d \<in> set (rw_closed w) \<Longrightarrow> d < rw_nextDone w"
  using assms unfolding flight_ok_def by blast+

lemma flight_okI:
  assumes "\<And>i d. i < length (rw_calls w) \<Longrightarrow> in_flight (rc_pc (rw_calls w ! i)) = Some d \<Longrightarrow>
        d < rw_nextDone w \<and> d \<notin> set (rw_closed w) \<and> flight_of w (rc_key (rw_calls w ! i)) = Some d"
    and "\<And>i j d. i < length (rw_calls w) \<Longrightarrow> j < length (rw_calls w) \<Longrightarrow>
        in_flight (rc_pc (rw_calls w ! i)) = Some d \<Longrightarrow> in_flight (rc_pc (rw_calls w ! j)) = Some d \<Longrightarrow> i = j"
    and "\<And>k d. flight_of w k = Some d \<Longrightarrow>
        \<exists>i < length (rw_calls w). rc_key (rw_calls w ! i) = k \<and> in_flight (rc_pc (rw_calls w ! i)) = Some d"
    and "\<And>i d. i < length (rw_calls w) \<Longrightarrow> waits_for (rc_pc (rw_calls w ! i)) = Some d \<Longrightarrow>
        d \<in> set (rw_closed w) \<or> flight_of w (rc_key (rw_calls w ! i)) = Some d"
    and "\<And>d. d \<in> set (rw_closed w) \<Longrightarrow> d < rw_nextDone w"
  shows "flight_ok w"
  using assms unfolding flight_ok_def by blast

lemma flight_ok_cong:
  assumes "rw_calls w' = rw_calls w" "rw_nextDone w' = rw_nextDone w" "rw_closed w' = rw_closed w" "flight_of w' = flight_of w"
  shows "flight_ok w' \<longleftrightarrow> flight_ok w"
  by (simp add: flight_ok_def assms)

lemma flight_ok_call:
  assumes ok: "flight_ok w" and i: "i < length (rw_calls w)" and key: "rc_key c = rc_key (rw_calls w ! i)"
    and fl: "in_flight (rc_pc c) = in_flight (rc_pc (rw_calls w ! i))"
    and wt: "\<And>d. waits_for (rc_pc c) = Some d \<Longrightarrow> flight_of w (rc_key c) = Some d"
  shows "flight_ok (put_call i c w)"
proof -
  have pc: "in_flight (rc_pc ((rw_calls w)[i := c] ! j)) = in_flight (rc_pc (rw_calls w ! j))"
    and ky: "rc_key ((rw_calls w)[i := c] ! j) = rc_key (rw_calls w ! j)" if "j < length (rw_calls w)" for j
    using that i key fl by (simp_all add: nth_list_update)
  show ?thesis
  proof (rule flight_okI, goal_cases)
    case (1 j d)
    then show ?case using flight_okD(1-3)[OF ok, of j d] pc[of j] ky[of j] by simp
  next
    case (2 j k d)
    then show ?case using flight_okD(4)[OF ok, of j d k] pc[of j] pc[of k] by simp
  next
    case (3 k d)
    then obtain j where "j < length (rw_calls w)" "rc_key (rw_calls w ! j) = k" "in_flight (rc_pc (rw_calls w ! j)) = Some d"
      using flight_okD'(1)[OF ok, of k d] by auto
    then show ?case using pc[of j] ky[of j] by (intro exI[of _ j]) simp
  next
    case (4 j d)
    then show ?case using flight_okD(5)[OF ok, of j d] wt[of d] i key
      by (cases "j = i") (auto simp: nth_list_update)
  next
    case (5 d)
    then show ?case using flight_okD'(2)[OF ok] by simp
  qed
qed

lemma flight_ok_start:
  assumes ok: "flight_ok w" and i: "i < length (rw_calls w)" and key: "rc_key c = rc_key (rw_calls w ! i)"
    and none: "flight_of w (rc_key c) = None" and c: "rc_pc c = PcStart (rw_nextDone w)"
    and w': "rw_calls w' = (rw_calls w)[i := c]" "rw_nextDone w' = Suc (rw_nextDone w)" "rw_closed w' = rw_closed w"
      "flight_of w' = (flight_of w)(rc_key c \<mapsto> rw_nextDone w)"
  shows "flight_ok w'"
proof -
  have nf: "in_flight (rc_pc (rw_calls w ! i)) = None"
    using flight_okD(3)[OF ok i] none key by (cases "in_flight (rc_pc (rw_calls w ! i))") auto
  have other: "j < length (rw_calls w) \<Longrightarrow> in_flight (rc_pc (rw_calls w ! j)) = Some d \<Longrightarrow>
      j \<noteq> i \<and> d < rw_nextDone w \<and> d \<notin> set (rw_closed w) \<and> rc_key (rw_calls w ! j) \<noteq> rc_key c \<and>
      flight_of w (rc_key (rw_calls w ! j)) = Some d" for j d
    using flight_okD(1-3)[OF ok, of j d] none nf by auto
  show ?thesis
  proof (rule flight_okI, goal_cases)
    case (1 j d)
    then show ?case using other[of j d] flight_okD'(2)[OF ok, of d] i c by (auto simp: w' nth_list_update split: if_splits)
  next
    case (2 j k d)
    then show ?case using other[of j d] other[of k d] flight_okD(4)[OF ok, of j d k] i c
      by (auto simp: w' nth_list_update split: if_splits)
  next
    case (3 k d)
    then show ?case
    proof (cases "k = rc_key c")
      case True
      then show ?thesis using 3 i c by (intro exI[of _ i]) (simp add: w')
    next
      case False
      then obtain j where j: "j < length (rw_calls w)" "rc_key (rw_calls w ! j) = k" "in_flight (rc_pc (rw_calls w ! j)) = Some d"
        using 3 flight_okD'(1)[OF ok] by (auto simp: w')
      then show ?thesis using other[of j d] by (intro exI[of _ j]) (simp add: w' nth_list_update)
    qed
  next
    case (4 j d)
    then show ?case using flight_okD(5)[OF ok, of j d] none i c by (auto simp: w' nth_list_update split: if_splits)
  next
    case (5 d)
    then show ?case using flight_okD'(2)[OF ok, of d] by (simp add: w')
  qed
qed

lemma flight_ok_finish:
  assumes ok: "flight_ok w" and i: "i < length (rw_calls w)" and key: "rc_key c = rc_key (rw_calls w ! i)"
    and d: "in_flight (rc_pc (rw_calls w ! i)) = Some d" and c: "in_flight (rc_pc c) = None" "waits_for (rc_pc c) = None"
    and w': "rw_calls w' = (rw_calls w)[i := c]" "rw_nextDone w' = rw_nextDone w" "rw_closed w' = d # rw_closed w"
      "flight_of w' = (flight_of w)(rc_key c := None)"
  shows "flight_ok w'"
proof -
  note mine = flight_okD(1-3)[OF ok i d]
  have other: "j < length (rw_calls w) \<Longrightarrow> j \<noteq> i \<Longrightarrow> in_flight (rc_pc (rw_calls w ! j)) = Some x \<Longrightarrow>
      x \<noteq> d \<and> x < rw_nextDone w \<and> x \<notin> set (rw_closed w) \<and> rc_key (rw_calls w ! j) \<noteq> rc_key c \<and>
      flight_of w (rc_key (rw_calls w ! j)) = Some x" for j x
    using flight_okD(1-3)[OF ok, of j x] flight_okD(4)[OF ok i d, of j] mine(3) key by auto
  show ?thesis
  proof (rule flight_okI, goal_cases)
    case (1 j x)
    then show ?case using other[of j x] i c by (auto simp: w' nth_list_update split: if_splits)
  next
    case (2 j k x)
    then show ?case using flight_okD(4)[OF ok, of j x k] i c by (auto simp: w' nth_list_update split: if_splits)
  next
    case (3 k x)
    then obtain j where j: "j < length (rw_calls w)" "rc_key (rw_calls w ! j) = k" "in_flight (rc_pc (rw_calls w ! j)) = Some x"
      "k \<noteq> rc_key c" using flight_okD'(1)[OF ok, of k x] by (auto simp: w' split: if_splits)
    then have "j \<noteq> i" using key by auto
    with j show ?case by (intro exI[of _ j]) (simp add: w')
  next
    case (4 j x)
    then show ?case using flight_okD(5)[OF ok, of j x] mine(3) key i c by (auto simp: w' nth_list_update split: if_splits)
  next
    case (5 x)
    then show ?case using flight_okD'(2)[OF ok, of x] mine(1) by (auto simp: w')
  qed
qed

lemma step_enter_flight:
  assumes ok: "flight_ok w" and i: "i < length (rw_calls w)" and c: "c = rw_calls w ! i" and pc: "rc_pc c = PcEnter ca"
  shows "flight_ok (step_enter i x ca c w)"
proof -
  obtain e res where sec: "enter_section (rs_breaker (rw_sched w)) (rc_key c) (rc_watched c) (rc_maxAge c) (rc_passes c) ca
      (in_snapshot1 x) (in_snapshot2 x) (in_clock x) (rw_nextDone w) (rs_entries (rw_sched w) (rc_key c)) = (e, res)" by fastforce
  define w1 where "w1 = put_read_entry (rc_key c) e w"
  note en = enter_flight[where cfg = "rs_breaker (rw_sched w)" and key = "rc_key c" and watched = "rc_watched c" and
      maxAge = "rc_maxAge c" and passes = "rc_passes c" and ca = ca and ?s1.0 = "in_snapshot1 x" and ?s2.0 = "in_snapshot2 x" and
      clock = "in_clock x" and fresh = "rw_nextDone w" and x = "rs_entries (rw_sched w) (rc_key c)", unfolded sec prod.case]
  have same: "flight_ok w1" if "flight_of w (rc_key c) = (if re_running e then Some (re_done e) else None)"
    using ok that unfolding w1_def by (subst flight_ok_cong[of _ w]) (auto simp: flight_of_put fun_eq_iff)
  have quiet: "flight_ok (put_call i c' w1)"
    if "flight_ok w1" "rc_key c' = rc_key c" "in_flight (rc_pc c') = None"
      "\<And>d. waits_for (rc_pc c') = Some d \<Longrightarrow> flight_of w1 (rc_key c) = Some d" for c'
    using flight_ok_call[OF that(1), of i c'] that i c pc by (simp add: w1_def)
  have rest: "flight_ok (put_call i c' w1)"
    if "\<forall>e. rs_entries (rw_sched w) (rc_key c) = Some e \<longrightarrow> \<not> re_running e" "\<not> re_running e"
      "rc_key c' = rc_key c" "in_flight (rc_pc c') = None" "waits_for (rc_pc c') = None" for c'
  proof -
    have "flight_of w (rc_key c) = None" using that(1) by (simp add: flight_of_def split: option.split)
    then have "flight_ok w1" using that(2) by (intro same) simp
    then show ?thesis by (rule quiet) (use that in simp_all)
  qed
  have emit: "flight_ok (emitBreakerSuppression su (emitBreakerTransition tr v)) = flight_ok v"
    "flight_ok (emitBreakerTransition tr v) = flight_ok v" for su tr v
    by (rule flight_ok_cong; simp)+
  show ?thesis
  proof (cases res)
    case (EnterWait d)
    then have f: "flight_of w (rc_key c) = (if re_running e then Some (re_done e) else None)" "flight_of w1 (rc_key c) = Some d"
      using en by (auto simp: flight_of_def w1_def)
    show ?thesis using quiet[OF same[OF f(1)], of "c\<lparr> rc_pc := PcWait d \<rparr>"] f(2)
      by (simp add: step_enter_def sec EnterWait Let_def flip: w1_def)
  next
    case (EnterStart tr)
    then have f: "flight_of w (rc_key c) = None" "flight_of w1 = (flight_of w)(rc_key c \<mapsto> rw_nextDone w)"
      using en by (auto simp: flight_of_def w1_def flight_of_put fun_eq_iff split: option.split)
    have "flight_ok (put_call i (c\<lparr> rc_pc := PcStart (rw_nextDone w) \<rparr>) (w1\<lparr> rw_nextDone := Suc (rw_nextDone w) \<rparr>))"
      by (rule flight_ok_start[OF ok i, where c = "c\<lparr> rc_pc := PcStart (rw_nextDone w) \<rparr>"])
         (use f c in \<open>simp_all add: w1_def\<close>)
    then show ?thesis by (simp add: step_enter_def sec EnterStart Let_def emit flip: w1_def)
  qed (use en rest in \<open>simp_all add: step_enter_def sec Let_def emit served_stats_def flip: w1_def\<close>)
qed

lemma step_finish_flight:
  assumes ok: "flight_ok w" and i: "i < length (rw_calls w)" and c: "c = rw_calls w ! i"
    and pc: "rc_pc c = PcFinish d g v err write"
  shows "flight_ok (step_finish i x d g v err write c w)"
proof -
  let ?e0 = "case rs_entries (rw_sched w) (rc_key c) of None \<Rightarrow> new_read_entry | Some e \<Rightarrow> e"
  obtain e tr er inv where sec: "finish_section (rs_breaker (rw_sched w)) (rc_key c) (rc_watched c) g v err write
      (el_Generation (in_snapshot1 x)) (in_clock x) ?e0 = (e, tr, er, inv)" by (metis prod_cases4)
  have nr: "\<not> re_running e"
    using finish_frame sec by (metis fst_conv)
  define w1 where "w1 = emitBreakerTransition tr ((put_read_entry (rc_key c) e w)\<lparr> rw_closed := d # rw_closed w \<rparr>)"
  have fl: "flight_of w1 = (flight_of w)(rc_key c := None)"
    using nr by (simp add: w1_def flight_of_put fun_eq_iff)
  have "flight_ok (put_call i c' w1)" if "rc_key c' = rc_key c" "in_flight (rc_pc c') = None" "waits_for (rc_pc c') = None" for c'
    by (rule flight_ok_finish[OF ok i, where c = c' and d = d])
       (use that c pc fl in \<open>simp_all add: w1_def\<close>)
  then show ?thesis unfolding step_finish_def Let_def sec prod.case w1_def[symmetric]
    by (simp split: option.split)
qed

lemma step_call_flight:
  assumes ok: "flight_ok w" and i: "i < length (rw_calls w)"
  shows "flight_ok (step_call i x (rw_calls w ! i) w)"
proof -
  define c where "c = rw_calls w ! i"
  have quiet: "flight_ok (put_call i c' w)"
    if "rc_key c' = rc_key c" "in_flight (rc_pc c') = in_flight (rc_pc c)" "waits_for (rc_pc c') = None" for c'
    using flight_ok_call[OF ok i, of c'] that by (simp add: c_def)
  show ?thesis unfolding c_def[symmetric] step_call_def
    by (cases "rc_pc c")
       (use ok step_enter_flight[OF ok i c_def] step_finish_flight[OF ok i c_def] quiet in
        \<open>auto simp: step_top_def step_fetched_def Let_def\<close>)
qed

lemma flight_of_new_breaker: "flight_of (w\<lparr> rw_sched := SetCircuitBreaker opts (rw_sched w) \<rparr>) = flight_of w"
  by (auto simp: flight_of_def SetCircuitBreaker_def breaker_reset_def Let_def fun_eq_iff split: option.split)

lemma start_call_pc:
  "in_flight (rc_pc (start_call s key hw maxAge hf now)) = None" "waits_for (rc_pc (start_call s key hw maxAge hf now)) = None"
  by (simp_all add: start_call_def)

lemma flight_ok_append:
  assumes ok: "flight_ok w" and c: "in_flight (rc_pc c) = None" "waits_for (rc_pc c) = None"
  shows "flight_ok (w\<lparr> rw_calls := rw_calls w @ [c] \<rparr>)"
proof -
  show ?thesis
  proof (rule flight_okI, goal_cases)
    case (3 k d)
    then obtain j where "j < length (rw_calls w)" "rc_key (rw_calls w ! j) = k" "in_flight (rc_pc (rw_calls w ! j)) = Some d"
      using flight_okD'(1)[OF ok, of k d] by auto
    then show ?case by (intro exI[of _ j]) (simp add: nth_append)
  qed (use flight_okD[OF ok] flight_okD'(2)[OF ok] c in \<open>auto simp: nth_append less_Suc_eq split: if_splits\<close>)
qed

lemma read_step_flight: "flight_ok w \<Longrightarrow> flight_ok (read_step w op)"
proof (cases op)
  case (ReadCancelOp i)
  assume ok: "flight_ok w"
  show ?thesis
  proof (cases "i < length (rw_calls w)")
    case True
    show ?thesis unfolding ReadCancelOp
      using flight_ok_call[OF ok True, of "(rw_calls w ! i)\<lparr> rc_pc := PcReturned (Inl ContextError) \<rparr>"] ok True
      by (cases "rc_pc (rw_calls w ! i)") simp_all
  qed (simp add: ReadCancelOp ok)
next
  case (ReadSetBreakerOp opts)
  assume "flight_ok w"
  then show ?thesis by (subst ReadSetBreakerOp, subst read_step.simps, subst flight_ok_cong[of _ w]) (simp_all add: flight_of_new_breaker)
next
  case (ReadSetShadowOp b)
  assume "flight_ok w"
  moreover have "flight_of (w\<lparr> rw_sched := SetShadowCache b (rw_sched w) \<rparr>) = flight_of w"
    by (simp add: flight_of_def SetShadowCache_def fun_eq_iff)
  ultimately show ?thesis by (subst ReadSetShadowOp, subst read_step.simps, subst flight_ok_cong[of _ w]) simp_all
qed (simp_all add: step_call_flight flight_ok_append start_call_pc)

lemma new_world_flight: "flight_ok new_read_world"
  by (simp add: flight_ok_def new_read_world_def flight_of_def NewSemanticReadScheduler_def)

interpretation read_flights: kept_invariant read_step flight_ok
  by unfold_locales (rule read_step_flight)

section \<open>Lemmas: the work of a call\<close>

fun fetch_allowance :: "read_pc \<Rightarrow> int \<Rightarrow> int" where
  "fetch_allowance (PcFetch d g t) recompute = 2 - recompute"
| "fetch_allowance (PcWrite d g v err) recompute = 2 - recompute"
| "fetch_allowance (PcFinish d g v err wres) recompute = 2 - recompute"
| "fetch_allowance (PcDirect t) recompute = 2"
| "fetch_allowance (PcReturned r) recompute = 2"
| "fetch_allowance PcPanicked recompute = 2"
| "fetch_allowance _ recompute = 1 - recompute"

definition call_bounded :: "read_call \<Rightarrow> bool" where
  "call_bounded c \<longleftrightarrow>
     0 \<le> rc_recompute c \<and> rc_recompute c \<le> 1 \<and> 0 \<le> rc_passes c \<and> rc_passes c \<le> 2 \<and>
     rc_consults c + rc_passes c \<le> 2 * (2 - rc_recompute c) \<and>
     rc_fetches c \<le> fetch_allowance (rc_pc c) (rc_recompute c)"

definition calls_bounded :: "read_world \<Rightarrow> bool" where
  "calls_bounded w \<longleftrightarrow> list_all call_bounded (rw_calls w)"

lemma calls_bounded_put: "calls_bounded w \<Longrightarrow> call_bounded c \<Longrightarrow> calls_bounded (put_call i c w)"
  using set_update_subset_insert[of "rw_calls w" i c] by (auto simp: calls_bounded_def list_all_iff)

lemma calls_bounded_frame [simp]:
  "calls_bounded (put_read_entry k e w) = calls_bounded w" "calls_bounded (emitBreakerTransition tr w) = calls_bounded w"
  "calls_bounded (emitBreakerSuppression su w) = calls_bounded w" "calls_bounded (w\<lparr> rw_closed := ds \<rparr>) = calls_bounded w"
  "calls_bounded (w\<lparr> rw_nextDone := n \<rparr>) = calls_bounded w" "calls_bounded (w\<lparr> rw_sched := s \<rparr>) = calls_bounded w"
  by (simp_all add: calls_bounded_def)

lemma step_call_bounded:
  assumes w: "calls_bounded w" and c: "call_bounded c"
  shows "calls_bounded (step_call i x c w)"
proof -
  have put: "call_bounded c' \<Longrightarrow> calls_bounded w' = calls_bounded w \<Longrightarrow> calls_bounded (put_call i c' w')" for c' w'
    using w by (simp add: calls_bounded_put)
  show ?thesis
  proof (cases "rc_pc c")
    case (PcEnter ca)
    then show ?thesis using c
      by (auto simp: step_call_def step_enter_def Let_def served_stats_def call_bounded_def case_prod_beta
          split: enter_outcome.split intro!: put)
  next
    case (PcFinish d g v err wres)
    then show ?thesis using c
      by (auto simp: step_call_def step_finish_def Let_def call_bounded_def case_prod_beta
          split: option.split intro!: put)
  qed (use w c in \<open>auto simp: step_call_def step_top_def step_fetched_def Let_def call_bounded_def intro!: put\<close>)
qed

lemma read_step_bounded: "calls_bounded w \<Longrightarrow> calls_bounded (read_step w op)"
proof (cases op)
  case (ReadStepOp i x)
  assume "calls_bounded w"
  moreover from this have "i < length (rw_calls w) \<Longrightarrow> call_bounded (rw_calls w ! i)"
    by (simp add: calls_bounded_def list_all_length)
  ultimately show ?thesis by (simp add: ReadStepOp step_call_bounded)
next
  case (ReadCancelOp i)
  assume w: "calls_bounded w"
  show ?thesis
  proof (cases "i < length (rw_calls w)")
    case True
    then have "call_bounded (rw_calls w ! i)" using w by (simp add: calls_bounded_def list_all_length)
    then show ?thesis using w True
      by (cases "rc_pc (rw_calls w ! i)") (auto simp: ReadCancelOp call_bounded_def intro!: calls_bounded_put)
  qed (simp add: ReadCancelOp w)
qed (simp_all, simp add: calls_bounded_def start_call_def call_bounded_def)

interpretation read_bounds: kept_invariant read_step calls_bounded
  by unfold_locales (rule read_step_bounded)

lemma allowance_le: "0 \<le> r \<Longrightarrow> fetch_allowance pc r \<le> 2"
  by (cases pc) simp_all

section \<open>Lemmas: the breaker\<close>

definition breaker_on :: "semanticReadCircuitBreakerConfig \<Rightarrow> bool" where
  "breaker_on cfg \<longleftrightarrow> bc_enabled cfg \<and> 0 < bc_failureBudget cfg \<and> 1 \<le> bc_halfOpenProbeLimit cfg"

lemma normalized_on: "0 < bo_FailureBudget opts \<Longrightarrow> breaker_on (normalizeSemanticReadCircuitBreakerOptions opts)"
  by (simp add: breaker_on_def normalizeSemanticReadCircuitBreakerOptions_def Let_def)

lemma breaker_ok_new: "breaker_on cfg \<Longrightarrow> breaker_ok cfg new_read_entry"
  by (simp add: breaker_ok_def breaker_on_def new_read_entry_def)

lemma breaker_ok_or_new:
  "breaker_on cfg \<Longrightarrow> (\<And>e. x = Some e \<Longrightarrow> breaker_ok cfg e) \<Longrightarrow> breaker_ok cfg (entry_or_new x)"
  using breaker_ok_new[of cfg] by (cases x) (auto simp: entry_or_new_def breaker_ok_def)

lemma breaker_ok_clear: "breaker_ok cfg (clearSemanticReadCacheLocked e) = breaker_ok cfg e"
  by (simp add: breaker_ok_def split: SemanticReadCircuitState.split)

lemma breaker_ok_cache: "breaker_ok cfg e \<Longrightarrow> breaker_ok cfg (fst (consult_cache watched maxAge snap clock e))"
  using consult_cache_cases[of watched maxAge snap clock e] breaker_ok_clear[of cfg e] by auto

lemma go_to_bus_ok:
  assumes "breaker_on cfg" and "breaker_ok cfg e" and "\<not> re_running e"
  shows "breaker_ok cfg (fst (go_to_bus cfg key now fresh e))"
  using assms
  by (cases "re_breakerState e")
     (auto simp: go_to_bus_def guardBreakerLocked_def transitionBreakerLocked_def breaker_ok_def breaker_on_def Let_def)

lemma enter_ok:
  assumes on: "breaker_on cfg" and x: "\<And>e. x = Some e \<Longrightarrow> breaker_ok cfg e"
  shows "breaker_ok cfg (fst (enter_section cfg key watched maxAge passes ca s1 s2 clock fresh x))"
proof -
  have e: "breaker_ok cfg (entry_or_new x)" by (rule breaker_ok_or_new[OF on x])
  have own: "breaker_ok cfg (fst (serve_or_fetch cfg key watched maxAge s2 clock fresh (entry_or_new x)))"
    if "\<not> re_running (entry_or_new x)"
    using breaker_ok_cache[OF e] go_to_bus_ok[OF on breaker_ok_cache[OF e]] that
    by (simp add: serve_or_fetch_def case_prod_beta)
  have "breaker_ok cfg (adopt_candidate a s1 (clock 1) (entry_or_new x))" for a
    using e by (simp add: breaker_ok_def adopt_candidate_def split: SemanticReadCircuitState.splits)
  then show ?thesis using e own by (simp add: enter_section_def Let_def split: option.split)
qed

lemma finish_ok:
  assumes "breaker_on cfg" and "breaker_ok cfg e" and "re_running e"
  shows "breaker_ok cfg (fst (finish_section cfg key watched g v err wres cur clock e))"
  using assms
  by (cases "re_breakerState e")
     (auto simp: finish_section_def recordFailureLocked_def transitionBreakerLocked_def breaker_ok_def breaker_on_def
        clearSemanticReadCacheLocked_def Let_def case_prod_beta split: option.split)

lemma step_call_entries:
  "rs_entries (rw_sched (step_call i x c w)) =
     (case rc_pc c of
        PcEnter ca \<Rightarrow> (rs_entries (rw_sched w))(rc_key c \<mapsto>
          fst (enter_section (rs_breaker (rw_sched w)) (rc_key c) (rc_watched c) (rc_maxAge c) (rc_passes c) ca
                 (in_snapshot1 x) (in_snapshot2 x) (in_clock x) (rw_nextDone w) (rs_entries (rw_sched w) (rc_key c))))
      | PcFinish d g v err wres \<Rightarrow> (rs_entries (rw_sched w))(rc_key c \<mapsto>
          fst (finish_section (rs_breaker (rw_sched w)) (rc_key c) (rc_watched c) g v err wres
                 (el_Generation (in_snapshot1 x)) (in_clock x)
                 (case rs_entries (rw_sched w) (rc_key c) of None \<Rightarrow> new_read_entry | Some e \<Rightarrow> e)))
      | _ \<Rightarrow> rs_entries (rw_sched w))"
  by (cases "rc_pc c")
     (simp_all add: step_call_def step_enter_def step_finish_def Let_def case_prod_beta split: enter_outcome.split option.split)

lemma step_call_breaker [simp]: "rs_breaker (rw_sched (step_call i x c w)) = rs_breaker (rw_sched w)"
  by (cases "rc_pc c")
     (simp_all add: step_call_def step_enter_def step_finish_def Let_def case_prod_beta split: enter_outcome.split option.split)

definition breaker_world :: "semanticReadCircuitBreakerConfig \<Rightarrow> read_world \<Rightarrow> bool" where
  "breaker_world cfg w \<longleftrightarrow>
     flight_ok w \<and> rs_breaker (rw_sched w) = cfg \<and> (\<forall>k e. rs_entries (rw_sched w) k = Some e \<longrightarrow> breaker_ok cfg e)"

lemma finish_entry_running:
  assumes "flight_ok w" and "i < length (rw_calls w)" and "rc_pc (rw_calls w ! i) = PcFinish d g v err wres"
  obtains e where "rs_entries (rw_sched w) (rc_key (rw_calls w ! i)) = Some e" "re_running e"
  using flight_okD(3)[OF assms(1,2), of d] assms(3) that by (auto simp: flight_of_def split: option.splits if_splits)

lemma step_call_breaker_ok:
  assumes on: "breaker_on cfg" and w: "breaker_world cfg w" and i: "i < length (rw_calls w)"
    and e': "rs_entries (rw_sched (step_call i x (rw_calls w ! i) w)) k = Some e'"
  shows "breaker_ok cfg e'"
proof -
  have fl: "flight_ok w" and cfg: "rs_breaker (rw_sched w) = cfg"
    and old: "\<And>k e. rs_entries (rw_sched w) k = Some e \<Longrightarrow> breaker_ok cfg e" using w by (auto simp: breaker_world_def)
  show ?thesis
  proof (cases "rc_pc (rw_calls w ! i)")
    case (PcEnter ca)
    then show ?thesis using e' old enter_ok[OF on old]
      by (auto simp: step_call_entries cfg split: if_splits)
  next
    case (PcFinish d g v err wres)
    obtain e where e: "rs_entries (rw_sched w) (rc_key (rw_calls w ! i)) = Some e" "re_running e"
      by (rule finish_entry_running[OF fl i PcFinish])
    then show ?thesis using e' old finish_ok[OF on old[OF e(1)] e(2)]
      by (auto simp: step_call_entries cfg PcFinish split: if_splits)
  qed (use e' old in \<open>simp_all add: step_call_entries\<close>)
qed

lemma breaker_world_step:
  assumes on: "breaker_on cfg" and w: "breaker_world cfg w" and op: "keeps_breaker op"
  shows "breaker_world cfg (read_step w op)"
proof -
  have fl: "flight_ok w" and cfg: "rs_breaker (rw_sched w) = cfg"
    and old: "\<And>k e. rs_entries (rw_sched w) k = Some e \<Longrightarrow> breaker_ok cfg e" using w by (auto simp: breaker_world_def)
  have "rs_breaker (rw_sched (read_step w op)) = cfg"
    using op cfg by (cases op) (simp_all add: SetShadowCache_def split: read_pc.split)
  moreover have "breaker_ok cfg e" if "rs_entries (rw_sched (read_step w op)) k = Some e" for k e
    using that op old step_call_breaker_ok[OF on w]
    by (cases op) (auto simp: SetShadowCache_def split: read_pc.splits if_splits)
  ultimately show ?thesis using read_step_flight[OF fl] by (simp add: breaker_world_def)
qed

lemma breaker_world_run:
  "breaker_on cfg \<Longrightarrow> breaker_world cfg w \<Longrightarrow> list_all keeps_breaker ops \<Longrightarrow> breaker_world cfg (foldl read_step w ops)"
  by (induction ops arbitrary: w) (simp_all add: breaker_world_step)

lemma breaker_world_new:
  assumes "0 < bo_FailureBudget opts"
  shows "breaker_world (normalizeSemanticReadCircuitBreakerOptions opts) (read_step new_read_world (ReadSetBreakerOp opts))"
  using read_step_flight[OF new_world_flight, of "ReadSetBreakerOp opts"]
  by (simp add: breaker_world_def new_read_world_def NewSemanticReadScheduler_def SetCircuitBreaker_def Let_def)

definition held_open :: "string \<Rightarrow> int \<Rightarrow> read_world \<Rightarrow> bool" where
  "held_open k opened w \<longleftrightarrow>
     (\<exists>e. rs_entries (rw_sched w) k = Some e \<and> re_breakerState e = SemanticReadCircuitStateOpen \<and> re_openedAt e = opened)"

lemma enter_held_open:
  assumes "bc_enabled cfg" and "0 < bc_openCooldown cfg" and "clock 4 - re_openedAt e < bc_openCooldown cfg"
    and "re_breakerState e = SemanticReadCircuitStateOpen" and "\<not> re_running e"
  shows "re_breakerState (fst (enter_section cfg key watched maxAge passes ca s1 s2 clock fresh (Some e))) =
           SemanticReadCircuitStateOpen \<and>
         re_openedAt (fst (enter_section cfg key watched maxAge passes ca s1 s2 clock fresh (Some e))) = re_openedAt e"
proof -
  have en: "entry_or_new (Some e) = e" using assms(4) by (simp add: entry_or_new_def)
  have own: "re_breakerState (fst (serve_or_fetch cfg key watched maxAge s2 clock fresh e)) = SemanticReadCircuitStateOpen \<and>
      re_openedAt (fst (serve_or_fetch cfg key watched maxAge s2 clock fresh e)) = re_openedAt e"
    using consult_cache_cases[of watched maxAge s2 clock e] assms
    by (auto simp: serve_or_fetch_def go_to_bus_def guardBreakerLocked_def Let_def case_prod_beta)
  show ?thesis using own assms(4,5)
    by (simp add: enter_section_def en adopt_candidate_def Let_def split: option.split)
qed

lemma held_open_step:
  assumes on: "breaker_on cfg" and cool: "0 < bc_openCooldown cfg" and w: "breaker_world cfg w" and held: "held_open k T w"
    and op: "keeps_breaker op" "within_cooldown T (bc_openCooldown cfg) op"
  shows "held_open k T (read_step w op)"
proof -
  obtain e where e: "rs_entries (rw_sched w) k = Some e" "re_breakerState e = SemanticReadCircuitStateOpen" "re_openedAt e = T"
    using held by (auto simp: held_open_def)
  have cfg: "rs_breaker (rw_sched w) = cfg" and fl: "flight_ok w" and nr: "\<not> re_running e"
    using w e by (auto simp: breaker_world_def breaker_ok_def split: SemanticReadCircuitState.splits)
  have en: "bc_enabled cfg" using on by (simp add: breaker_on_def)
  show ?thesis
  proof (cases op)
    case (ReadStepOp i x)
    show ?thesis
    proof (cases "i < length (rw_calls w)")
      case True
      define c where "c = rw_calls w ! i"
      have T: "in_clock x 4 - re_openedAt e < bc_openCooldown cfg" using op(2) e(3) by (simp add: ReadStepOp)
      show ?thesis
      proof (cases "rc_pc c")
        case (PcEnter ca)
        then show ?thesis
          using True e enter_held_open[OF en cool, where clock = "in_clock x" and e = e, OF T e(2) nr]
          by (auto simp: ReadStepOp held_open_def step_call_entries cfg simp flip: c_def)
      next
        case (PcFinish d g v err wres)
        then obtain e1 where "rs_entries (rw_sched w) (rc_key c) = Some e1" "re_running e1"
          unfolding c_def by (rule finish_entry_running[OF fl True])
        then have "rc_key c \<noteq> k" using e(1) nr by auto
        then show ?thesis using True e PcFinish by (simp add: ReadStepOp held_open_def step_call_entries flip: c_def)
      qed (use True e in \<open>simp_all add: ReadStepOp held_open_def step_call_entries flip: c_def\<close>)
    qed (use held in \<open>simp add: ReadStepOp\<close>)
  qed (use held op(1) in \<open>simp_all add: held_open_def SetShadowCache_def split: read_pc.split\<close>)
qed

lemma held_open_run:
  "breaker_on cfg \<Longrightarrow> 0 < bc_openCooldown cfg \<Longrightarrow> breaker_world cfg w \<Longrightarrow> held_open k T w \<Longrightarrow> list_all keeps_breaker ops \<Longrightarrow>
   list_all (within_cooldown T (bc_openCooldown cfg)) ops \<Longrightarrow> held_open k T (foldl read_step w ops)"
  by (induction ops arbitrary: w) (simp_all add: breaker_world_step held_open_step)

lemma held_open_no_flight:
  assumes w: "breaker_world cfg w" and held: "held_open k T w" and c: "c \<in> set (rw_calls w)" "rc_key c = k"
  shows "in_flight (rc_pc c) = None"
proof (rule ccontr)
  assume "in_flight (rc_pc c) \<noteq> None"
  then obtain d where d: "in_flight (rc_pc c) = Some d" by auto
  obtain i where i: "i < length (rw_calls w)" "rw_calls w ! i = c" using c(1) by (auto simp: in_set_conv_nth)
  then have fl: "flight_of w k = Some d" using flight_okD(3)[OF _ i(1), of d] w d c(2) by (simp add: breaker_world_def)
  obtain e where e: "rs_entries (rw_sched w) k = Some e" "re_breakerState e = SemanticReadCircuitStateOpen"
    using held by (auto simp: held_open_def)
  have "breaker_ok cfg e" using w e(1) by (simp add: breaker_world_def)
  then have "\<not> re_running e" using e(2) by (simp add: breaker_ok_def)
  with fl e(1) show False by (simp add: flight_of_def)
qed

section \<open>Properties\<close>

text \<open>
  C6. However callers, fetches, cancellations and changes of the settings interleave, at most one
  caller of a key is between its two critical sections, so the bus is asked for a register by one
  caller at a time; and no caller waits in vain: the channel it waits for is closed, or the caller
  that will close it is on its way.
\<close>

theorem read_single_flight:
  assumes "w = foldl read_step new_read_world ops" and "i < length (rw_calls w)" and "j < length (rw_calls w)"
    and "rc_key (rw_calls w ! i) = rc_key (rw_calls w ! j)"
  shows "(in_flight (rc_pc (rw_calls w ! i)) \<noteq> None \<and> in_flight (rc_pc (rw_calls w ! j)) \<noteq> None \<longrightarrow> i = j) \<and>
         (\<forall>d. rc_pc (rw_calls w ! i) = PcWait d \<longrightarrow>
            d \<in> set (rw_closed w) \<or>
            (\<exists>n < length (rw_calls w). rc_key (rw_calls w ! n) = rc_key (rw_calls w ! i) \<and>
                                       in_flight (rc_pc (rw_calls w ! n)) = Some d))"
proof -
  have ok: "flight_ok w" unfolding assms(1) by (rule read_flights.run_keeps[OF new_world_flight])
  have "i = j" if "in_flight (rc_pc (rw_calls w ! i)) = Some d" "in_flight (rc_pc (rw_calls w ! j)) = Some d'" for d d'
    using flight_okD(3)[OF ok assms(2) that(1)] flight_okD(3)[OF ok assms(3) that(2)] assms(4)
      flight_okD(4)[OF ok assms(2) that(1) assms(3)] that(2) by simp
  moreover have "d \<in> set (rw_closed w) \<or> (\<exists>n < length (rw_calls w). rc_key (rw_calls w ! n) = rc_key (rw_calls w ! i) \<and>
      in_flight (rc_pc (rw_calls w ! n)) = Some d)" if "rc_pc (rw_calls w ! i) = PcWait d" for d
    using flight_okD(5)[OF ok assms(2), of d] flight_okD'(1)[OF ok] that by auto
  ultimately show ?thesis by blast
qed

theorem read_single_flight_witness:
  "let w = foldl read_step new_read_world example_two_callers in
   rc_pc (rw_calls w ! 1) = PcWait 0 \<and> rc_pc (rw_calls w ! 0) = PcStart 0 \<and>
   (0 \<in> set (rw_closed w) \<or>
    (\<exists>n < length (rw_calls w). rc_key (rw_calls w ! n) = rc_key (rw_calls w ! 1) \<and>
                               in_flight (rc_pc (rw_calls w ! n)) = Some 0))"
proof -
  let ?w = "foldl read_step new_read_world example_two_callers"
  have l: "length (rw_calls ?w) = 2" by code_simp
  have k: "rc_key (rw_calls ?w ! 1) = rc_key (rw_calls ?w ! 0)" by code_simp
  have w1: "rc_pc (rw_calls ?w ! 1) = PcWait 0" by code_simp
  have w0: "rc_pc (rw_calls ?w ! 0) = PcStart 0" by code_simp
  show ?thesis unfolding Let_def using read_single_flight[OF refl _ _ k] l w1 w0 by auto
qed

text \<open>
  C31. A call goes to the bus at most twice and looks into the shadow cache at most four times before
  it returns, whatever is invalidated while it runs and however often it has to wait for others.
\<close>

theorem read_work_bounded:
  assumes "c \<in> set (rw_calls (foldl read_step new_read_world ops))"
  shows "rc_fetches c \<le> semanticReadShadowMaxRecomputeCycles + 1 \<and>
         rc_consults c \<le> semanticReadShadowMaxPreActivePasses * (semanticReadShadowMaxRecomputeCycles + 1)"
proof -
  have "calls_bounded (foldl read_step new_read_world ops)"
    by (rule read_bounds.run_keeps) (simp add: calls_bounded_def new_read_world_def)
  then have "call_bounded c" using assms by (simp add: calls_bounded_def list_all_iff)
  then show ?thesis using allowance_le[of "rc_recompute c" "rc_pc c"] by (simp add: call_bounded_def)
qed

theorem read_work_bounded_witness:
  "\<exists>c. rw_calls (foldl read_step new_read_world example_failed_read) = [c] \<and> rc_fetches c = 1 \<and> rc_fetches c \<le> 2"
proof -
  let ?cs = "rw_calls (foldl read_step new_read_world example_failed_read)"
  have l: "length ?cs = 1" by code_simp
  have f: "rc_fetches (?cs ! 0) = 1" by code_simp
  have cs: "?cs = [?cs ! 0]" using l by (cases ?cs) auto
  then have "?cs ! 0 \<in> set ?cs" by (metis list.set_intros(1))
  from read_work_bounded[OF this] f cs show ?thesis by auto
qed

text \<open>
  C32. While its settings stay, the breaker of every key is in one of three shapes: closed with fewer
  failures in a row than the budget, half open with a probe left for the next caller, or with one out
  and fewer left than the limit, or open with no probe left and nobody on the bus.
\<close>

theorem read_breaker_shapes:
  assumes "0 < bo_FailureBudget opts" and "list_all keeps_breaker ops"
    and "rs_entries (rw_sched (foldl read_step (read_step new_read_world (ReadSetBreakerOp opts)) ops)) k = Some e"
  shows "breaker_ok (normalizeSemanticReadCircuitBreakerOptions opts) e"
  using breaker_world_run[OF normalized_on breaker_world_new, OF assms(1,1,2)] assms(3)
  by (auto simp: breaker_world_def)

theorem read_breaker_shapes_witness:
  "\<exists>e. rs_entries (rw_sched (foldl read_step (read_step new_read_world (ReadSetBreakerOp example_breaker)) example_failed_read)) ''r'' =
         Some e \<and> re_breakerState e = SemanticReadCircuitStateOpen \<and> re_openedAt e = 20 \<and>
       breaker_ok (normalizeSemanticReadCircuitBreakerOptions example_breaker) e"
proof -
  let ?x = "rs_entries (rw_sched (foldl read_step (read_step new_read_world (ReadSetBreakerOp example_breaker)) example_failed_read)) ''r''"
  have x: "map_option (\<lambda>e. (re_breakerState e, re_openedAt e)) ?x = Some (SemanticReadCircuitStateOpen, 20)" by code_simp
  have b: "0 < bo_FailureBudget example_breaker" by (simp add: example_breaker_def)
  have k: "list_all keeps_breaker example_failed_read" by (simp add: example_failed_read_def)
  obtain e where "?x = Some e" "re_breakerState e = SemanticReadCircuitStateOpen" "re_openedAt e = 20" using x by auto
  with read_breaker_shapes[OF b k] show ?thesis by blast
qed



end
