(* ===== verification/Live_Monitor.thy ===== *)
theory Live_Monitor
  imports Gateway_Prelude
begin

text \<open>
  The live-monitor session manager (\<^verbatim>\<open>internal/vaillant/b503session\<close>): one owner at a time may hold
  the monitoring slot of a heating controller, the exchanges with it go over a bus that can be lost
  or renewed at any moment, and a device whose state is not known to be settled stays fenced off.

  \<open>Manager\<close> is the record of the same name. The mutex \<^verbatim>\<open>mu\<close>, which a session holds across many
  calls, is a flag, and locking it twice or releasing it free raises \<open>ma_gateFault\<close>: the first would
  block for ever inside the state lock, the second ends the process. Every section the code runs
  under \<^verbatim>\<open>stateMu\<close> is one definition; a call is a program counter between such sections, and callers,
  timer callbacks and transport events interleave in any order (\<open>session_step\<close>). The native exchange
  (\<^verbatim>\<open>DispatchFunc\<close>), the refresh of the transport and the random identifiers are inputs of the
  sections that use them. An operation's address, which the code compares, is the number
  \<open>po_handle\<close>; contexts are known only by whether they were cancelled.

  The lemmas show section by section that the gate is kept (\<open>goes\<close>) and that every operation of an
  owner stays with the call that will settle it (\<open>serves\<close>, \<open>attends\<close>); the invariants \<open>session_ok\<close> and
  \<open>served\<close> of all reachable worlds follow, and from them the properties at the end.
\<close>

section \<open>Data\<close>

datatype session_error =
  ErrSessionBusy | ErrTransportDown | ErrNotActive | ErrWrongToken | ErrTargetMismatch | ErrCleanupPending
| OtherError string bool

text \<open>\<^verbatim>\<open>errors.Is(err, ErrTransportDown)\<close>; the flag of another error says whether it wraps that one.\<close>

fun is_transport_down :: "session_error \<Rightarrow> bool" where
  "is_transport_down ErrTransportDown = True"
| "is_transport_down (OtherError _ wraps) = wraps"
| "is_transport_down _ = False"

datatype State = Idle | Enabling | Active | Refreshing | Disabled

datatype NativeResult = NativeAmbiguous | NativeACK | NativeNAK

datatype OperationKind = OperationEnable | OperationRead | OperationDisable

record TransportKey =
  tk_AdapterInstanceID :: string
  tk_TransportEpoch :: uint64

record SessionKey =
  ky_Transport :: TransportKey
  ky_IssuerToken :: string

record DispatchOutcome =
  do_Response :: "byte list"
  do_Emitted :: bool
  do_Native :: NativeResult
  do_Transport :: TransportKey
  do_Err :: "session_error option"

record cleanupObligation =
  co_Target :: byte
  co_GatewayCleanupAttemptID :: string
  co_TransportEpoch :: uint64
  co_OriginEmitted :: bool
  co_OriginNative :: NativeResult
  co_OriginErr :: "session_error option"
  co_LastAttempted :: bool
  co_LastAttemptEpoch :: uint64
  co_LastEmitted :: bool
  co_LastNative :: NativeResult
  co_LastErr :: "session_error option"
  co_sourceOperationID :: string

record pendingOperation =
  po_handle :: nat
  po_OperationID :: string
  po_Kind :: OperationKind
  po_Target :: byte
  po_Transport :: TransportKey
  po_Emitted :: bool
  po_token :: string
  po_cancel :: bool
  po_invalidated :: bool
  po_cleanup :: bool

text \<open>
  \<open>ma_callbacks\<close> lists the generations of the timers whose callback has not run; a stopped timer
  stays in it, because its callback may already be on its way. \<open>ma_fallbackAttemptID\<close> is the counter
  of the package, \<open>ma_nextHandle\<close> the next address.
\<close>

record Manager =
  ma_mu :: bool
  ma_gateFault :: bool
  ma_emissionMu :: bool
  ma_state :: State
  ma_transport :: TransportKey
  ma_activeToken :: string
  ma_idleTimeout :: int
  ma_idleTimer :: bool
  ma_idleTimerGen :: uint64
  ma_callbacks :: "uint64 list"
  ma_idleExpiryPending :: bool
  ma_refresh :: bool
  ma_mutexHeld :: bool
  ma_refreshFailed :: bool
  ma_lastRefreshTransportDown :: bool
  ma_activeTarget :: byte
  ma_pendingOperation :: "pendingOperation option"
  ma_cleanup :: "cleanupObligation option"
  ma_cleanupDispatch :: bool
  ma_observedEpoch :: uint64
  ma_pendingEpoch :: uint64
  ma_qualified :: "byte set"
  ma_restarted :: bool
  ma_restartFences :: "byte set"
  ma_nextHandle :: nat
  ma_cancelled :: "nat list"
  ma_fallbackAttemptID :: uint64

record StatusSnapshot =
  ss_State :: State
  ss_Owned :: bool

definition New_manager :: "TransportKey \<Rightarrow> int \<Rightarrow> bool \<Rightarrow> Manager" where
  "New_manager transport idleTimeout refresh =
     \<lparr> ma_mu = False, ma_gateFault = False, ma_emissionMu = False, ma_state = Idle, ma_transport = transport,
       ma_activeToken = '''', ma_idleTimeout = idleTimeout, ma_idleTimer = False, ma_idleTimerGen = 0,
       ma_callbacks = [], ma_idleExpiryPending = False, ma_refresh = refresh, ma_mutexHeld = False,
       ma_refreshFailed = False, ma_lastRefreshTransportDown = False, ma_activeTarget = 0,
       ma_pendingOperation = None, ma_cleanup = None, ma_cleanupDispatch = False,
       ma_observedEpoch = tk_TransportEpoch transport, ma_pendingEpoch = 0, ma_qualified = {},
       ma_restarted = False, ma_restartFences = {}, ma_nextHandle = 0, ma_cancelled = [],
       ma_fallbackAttemptID = 0 \<rparr>"

section \<open>Helpers that run under the state lock\<close>

definition gate_lock :: "Manager \<Rightarrow> Manager" where
  "gate_lock m = (if ma_mu m then m\<lparr> ma_gateFault := True \<rparr> else m\<lparr> ma_mu := True \<rparr>)"

definition gate_unlock :: "Manager \<Rightarrow> Manager" where
  "gate_unlock m = (if ma_mu m then m\<lparr> ma_mu := False \<rparr> else m\<lparr> ma_gateFault := True \<rparr>)"

definition drop_gate :: "Manager \<Rightarrow> Manager" where
  "drop_gate m = (if ma_mutexHeld m then (gate_unlock m)\<lparr> ma_mutexHeld := False \<rparr> else m)"

definition releaseOwnerLocked :: "Manager \<Rightarrow> Manager" where
  "releaseOwnerLocked m =
     (drop_gate (m\<lparr> ma_idleTimer := False, ma_idleTimerGen := ma_idleTimerGen m + 1 \<rparr>))
       \<lparr> ma_activeToken := '''', ma_activeTarget := 0 \<rparr>"

definition toDisabledLocked :: "Manager \<Rightarrow> Manager" where
  "toDisabledLocked m =
     (drop_gate (m\<lparr> ma_idleTimer := False, ma_idleTimerGen := ma_idleTimerGen m + 1,
                    ma_idleExpiryPending := False, ma_state := Disabled \<rparr>))
       \<lparr> ma_activeToken := '''', ma_activeTarget := 0 \<rparr>"

definition toIdleLocked :: "Manager \<Rightarrow> Manager" where
  "toIdleLocked m = (if ma_cleanup m = None then m\<lparr> ma_state := Idle \<rparr> else m)"

definition armIdleTimerLocked :: "Manager \<Rightarrow> Manager" where
  "armIdleTimerLocked m =
     (if ma_idleTimeout m \<le> 0 then m
      else (let gen = ma_idleTimerGen m + 1 in
            m\<lparr> ma_idleTimerGen := gen, ma_idleTimer := True, ma_callbacks := gen # ma_callbacks m \<rparr>))"

fun decimal :: "nat \<Rightarrow> string" where
  "decimal n = (if n < 10 then [char_of (48 + n)] else decimal (n div 10) @ [char_of (48 + n mod 10)])"

declare decimal.simps [simp del]

text \<open>\<open>rnd\<close> is the result of \<^verbatim>\<open>newIssuerToken\<close>, which fails when no randomness is to be had.\<close>

definition newCleanupAttemptID :: "string option \<Rightarrow> Manager \<Rightarrow> string \<times> Manager" where
  "newCleanupAttemptID rnd m =
     (case rnd of
        Some token \<Rightarrow> (token, m)
      | None \<Rightarrow> (let n = ma_fallbackAttemptID m + 1 in
                 (''fallback-'' @ decimal (unat n), m\<lparr> ma_fallbackAttemptID := n \<rparr>)))"

definition createCleanupLocked :: "byte \<Rightarrow> uint64 \<Rightarrow> string \<Rightarrow> string option \<Rightarrow> Manager \<Rightarrow> Manager" where
  "createCleanupLocked target epoch sourceOperationID rnd m =
     (case ma_cleanup m of
        Some _ \<Rightarrow> m
      | None \<Rightarrow>
          (let (attempt, m1) = newCleanupAttemptID rnd m in
           m1\<lparr> ma_cleanup := Some \<lparr> co_Target = target, co_GatewayCleanupAttemptID = attempt,
                  co_TransportEpoch = epoch, co_OriginEmitted = False, co_OriginNative = NativeAmbiguous,
                  co_OriginErr = None, co_LastAttempted = False, co_LastAttemptEpoch = 0, co_LastEmitted = False,
                  co_LastNative = NativeAmbiguous, co_LastErr = None, co_sourceOperationID = sourceOperationID \<rparr>,
               ma_state := Disabled \<rparr>))"

definition clearCleanupForOperationLocked :: "string \<Rightarrow> Manager \<Rightarrow> Manager" where
  "clearCleanupForOperationLocked operationID m =
     (case ma_cleanup m of
        Some c \<Rightarrow> if co_sourceOperationID c = operationID then m\<lparr> ma_cleanup := None \<rparr> else m
      | None \<Rightarrow> m)"

definition map_cleanup :: "(cleanupObligation \<Rightarrow> cleanupObligation) \<Rightarrow> Manager \<Rightarrow> Manager" where
  "map_cleanup f m = m\<lparr> ma_cleanup := map_option f (ma_cleanup m) \<rparr>"

definition is_pending :: "nat \<Rightarrow> Manager \<Rightarrow> bool" where
  "is_pending h m = (case ma_pendingOperation m of Some p \<Rightarrow> po_handle p = h | None \<Rightarrow> False)"

definition new_pending :: "string \<Rightarrow> OperationKind \<Rightarrow> byte \<Rightarrow> Manager \<Rightarrow> pendingOperation" where
  "new_pending operationID kind target m =
     \<lparr> po_handle = ma_nextHandle m, po_OperationID = operationID, po_Kind = kind, po_Target = target,
       po_Transport = ma_transport m, po_Emitted = False, po_token = '''', po_cancel = False,
       po_invalidated = False, po_cleanup = False \<rparr>"

definition put_pending :: "pendingOperation \<Rightarrow> Manager \<Rightarrow> Manager" where
  "put_pending p m = m\<lparr> ma_pendingOperation := Some p, ma_nextHandle := ma_nextHandle m + 1 \<rparr>"

text \<open>A transport event invalidates the pending operation and cancels its context.\<close>

definition invalidate_pending :: "Manager \<Rightarrow> Manager" where
  "invalidate_pending m =
     (case ma_pendingOperation m of
        None \<Rightarrow> m
      | Some p \<Rightarrow> m\<lparr> ma_pendingOperation := Some (p\<lparr> po_invalidated := True \<rparr>),
                     ma_cancelled := (if po_cancel p then po_handle p # ma_cancelled m else ma_cancelled m) \<rparr>)"

definition consumeIdleExpiryAfterReadLocked ::
  "byte \<Rightarrow> string \<Rightarrow> string option \<Rightarrow> Manager \<Rightarrow> Manager \<times> uint64 option" where
  "consumeIdleExpiryAfterReadLocked target sourceOperationID rnd m =
     (if \<not> ma_idleExpiryPending m then (m, None)
      else (let m1 = m\<lparr> ma_idleExpiryPending := False \<rparr> in
            if ma_state m1 \<noteq> Active \<or> \<not> ma_mutexHeld m1 \<or> ma_activeTarget m1 \<noteq> target then (m1, None)
            else (let epoch = tk_TransportEpoch (ma_transport m1) in
                  (createCleanupLocked target epoch sourceOperationID rnd (toDisabledLocked m1), Some epoch))))"

definition set_epoch :: "uint64 \<Rightarrow> Manager \<Rightarrow> Manager" where
  "set_epoch epoch m = m\<lparr> ma_transport := (ma_transport m)\<lparr> tk_TransportEpoch := epoch \<rparr> \<rparr>"

section \<open>Observers and settings\<close>

definition SetCleanupDispatcher :: "bool \<Rightarrow> Manager \<Rightarrow> Manager" where
  "SetCleanupDispatcher dispatch m = m\<lparr> ma_cleanupDispatch := dispatch \<rparr>"

definition MarkQualifiedTarget :: "byte \<Rightarrow> Manager \<Rightarrow> Manager" where
  "MarkQualifiedTarget target m =
     m\<lparr> ma_qualified := insert target (ma_qualified m),
        ma_restartFences := (if ma_restarted m then insert target (ma_restartFences m) else ma_restartFences m) \<rparr>"

definition TargetBlocked :: "byte \<Rightarrow> Manager \<Rightarrow> bool" where
  "TargetBlocked target m = (if target \<in> ma_restartFences m then True else ma_cleanup m \<noteq> None)"

definition public_State :: "Manager \<Rightarrow> State" where
  "public_State m =
     (if ma_state m = Disabled \<and> (ma_cleanup m \<noteq> None \<or> ma_restarted m) then Idle else ma_state m)"

definition IsOwned :: "Manager \<Rightarrow> bool" where "IsOwned m = ma_mutexHeld m"

definition session_StatusSnapshot :: "Manager \<Rightarrow> StatusSnapshot" where
  "session_StatusSnapshot m =
     (let state = (if ma_state m = Disabled \<and> (ma_cleanup m \<noteq> None \<or> ma_restarted m) then Idle else ma_state m) in
      \<lparr> ss_State = state, ss_Owned = ma_mutexHeld m \<rparr>)"

definition DispatchEpoch :: "Manager \<Rightarrow> uint64" where "DispatchEpoch m = ma_observedEpoch m"

definition LifecycleTransportKey :: "Manager \<Rightarrow> TransportKey" where
  "LifecycleTransportKey m =
     \<lparr> tk_AdapterInstanceID = tk_AdapterInstanceID (ma_transport m), tk_TransportEpoch = ma_observedEpoch m \<rparr>"

section \<open>Admission of an emission\<close>

definition admission_state :: "pendingOperation \<Rightarrow> Manager \<Rightarrow> bool" where
  "admission_state p m =
     (case po_Kind p of
        OperationEnable \<Rightarrow> ma_state m = Enabling
      | OperationRead \<Rightarrow> ma_state m = Active
      | OperationDisable \<Rightarrow>
          if po_cleanup p then ma_state m = Disabled \<and> \<not> ma_mutexHeld m
          else ma_state m = Active \<and> ma_mutexHeld m)"

definition AdmitPendingEmission :: "string \<Rightarrow> byte \<Rightarrow> Manager \<Rightarrow> Manager \<times> bool" where
  "AdmitPendingEmission operationID target m =
     (case ma_pendingOperation m of
        None \<Rightarrow> (m, False)
      | Some p \<Rightarrow>
          if po_invalidated p \<or> po_OperationID p \<noteq> operationID \<or> po_Target p \<noteq> target then (m, False)
          else if \<not> admission_state p m then (m, False)
          else (m\<lparr> ma_pendingOperation := Some (p\<lparr> po_Emitted := True \<rparr>) \<rparr>, True))"

text \<open>With the emission lock; \<open>None\<close> when another emission holds it and the caller has to wait.\<close>

definition BeginPendingEmission :: "string \<Rightarrow> byte \<Rightarrow> Manager \<Rightarrow> (Manager \<times> bool) option" where
  "BeginPendingEmission operationID target m =
     (if ma_emissionMu m then None
      else (case AdmitPendingEmission operationID target m of
              (m1, ok) \<Rightarrow> Some (if ok then m1\<lparr> ma_emissionMu := True \<rparr> else m1, ok)))"

section \<open>Results\<close>

datatype session_result =
  ReturnedKey SessionKey
| ReturnedBytes "byte list"
| ReturnedNil
| ReturnedError session_error

definition zero_key :: SessionKey where
  "zero_key = \<lparr> ky_Transport = \<lparr> tk_AdapterInstanceID = '''', tk_TransportEpoch = 0 \<rparr>, ky_IssuerToken = '''' \<rparr>"

definition error_or_down :: "DispatchOutcome \<Rightarrow> session_result" where
  "error_or_down outcome = (case do_Err outcome of Some e \<Rightarrow> ReturnedError e | None \<Rightarrow> ReturnedError ErrTransportDown)"

definition dispatchOnce :: "bool \<Rightarrow> DispatchOutcome \<Rightarrow> DispatchOutcome" where
  "dispatchOnce dispatch outcome =
     (if \<not> dispatch then \<lparr> do_Response = [], do_Emitted = False, do_Native = NativeAmbiguous,
                            do_Transport = \<lparr> tk_AdapterInstanceID = '''', tk_TransportEpoch = 0 \<rparr>,
                            do_Err = Some ErrTransportDown \<rparr>
      else outcome)"

section \<open>Enabling\<close>

text \<open>The section before the exchange: the handle, the identifier and the token of the new operation.\<close>

definition enable_admit ::
  "session_error + string \<Rightarrow> string option \<Rightarrow> byte \<Rightarrow> Manager \<Rightarrow> Manager \<times> (session_error + nat \<times> string \<times> string)" where
  "enable_admit issued rnd target m =
     (if target \<in> ma_restartFences m then (m, Inl ErrCleanupPending)
      else if ma_cleanup m \<noteq> None then (m, Inl ErrCleanupPending)
      else if ma_state m \<noteq> Idle then (m, Inl ErrSessionBusy)
      else
        (let m1 = (gate_lock (m\<lparr> ma_state := Enabling \<rparr>))\<lparr> ma_mutexHeld := True \<rparr> in
         case issued of
           Inl e \<Rightarrow> ((releaseOwnerLocked m1)\<lparr> ma_state := Idle \<rparr>, Inl e)
         | Inr token \<Rightarrow>
             (let (opID, m2) = newCleanupAttemptID rnd m1;
                  p = (new_pending opID OperationEnable target m2)\<lparr> po_token := token, po_cancel := True \<rparr> in
              ((put_pending p m2)\<lparr> ma_activeToken := token, ma_activeTarget := target, ma_refreshFailed := False,
                                   ma_lastRefreshTransportDown := False \<rparr>,
               Inr (po_handle p, opID, token)))))"

text \<open>
  The section after it: what the call returns, and the epoch in which a clean-up is tried before it
  does. An operation that is no longer the pending one was settled by a transport event.
\<close>

definition origin_outcome :: "DispatchOutcome \<Rightarrow> cleanupObligation \<Rightarrow> cleanupObligation" where
  "origin_outcome outcome c =
     c\<lparr> co_OriginEmitted := do_Emitted outcome, co_OriginNative := do_Native outcome, co_OriginErr := do_Err outcome \<rparr>"

definition enable_interrupted :: "string \<Rightarrow> DispatchOutcome \<Rightarrow> Manager \<Rightarrow> Manager" where
  "enable_interrupted opID outcome m =
     (if \<not> do_Emitted outcome then toIdleLocked (clearCleanupForOperationLocked opID m)
      else map_cleanup (\<lambda>c. if co_sourceOperationID c = opID
                            then (origin_outcome outcome c)\<lparr> co_OriginEmitted := True \<rparr> else c) m)"

definition enable_settle ::
  "string \<Rightarrow> string \<Rightarrow> byte \<Rightarrow> bool \<Rightarrow> DispatchOutcome \<Rightarrow> string option \<Rightarrow> Manager \<Rightarrow>
   Manager \<times> uint64 option \<times> session_result" where
  "enable_settle opID token target advanced outcome rnd m =
     (let m1 = map_cleanup (origin_outcome outcome)
                 (createCleanupLocked target (tk_TransportEpoch (ma_transport m)) opID rnd m) in
      if do_Native outcome = NativeACK \<and> do_Err outcome = None \<and> \<not> advanced
      then (armIdleTimerLocked (m1\<lparr> ma_state := Active \<rparr>), None,
            ReturnedKey \<lparr> ky_Transport = ma_transport m1, ky_IssuerToken = token \<rparr>)
      else ((releaseOwnerLocked m1)\<lparr> ma_state := Disabled \<rparr>, Some (tk_TransportEpoch (ma_transport m1)),
            error_or_down outcome))"

definition enable_finish ::
  "nat \<Rightarrow> string \<Rightarrow> string \<Rightarrow> byte \<Rightarrow> DispatchOutcome \<Rightarrow> string option \<Rightarrow> Manager \<Rightarrow>
   Manager \<times> uint64 option \<times> session_result" where
  "enable_finish h opID token target outcome rnd m =
     (case ma_pendingOperation m of
        None \<Rightarrow> (m, None, error_or_down outcome)
      | Some p \<Rightarrow>
          if po_handle p \<noteq> h then (m, None, error_or_down outcome)
          else
            (let advanced = ma_pendingEpoch m > tk_TransportEpoch (po_Transport p);
                 m1 = m\<lparr> ma_pendingOperation := None \<rparr>;
                 m2 = (if advanced then set_epoch (ma_pendingEpoch m) m1 else m1) in
             if ma_state m2 \<noteq> Enabling then (enable_interrupted opID outcome m2, None, error_or_down outcome)
             else if \<not> do_Emitted outcome
               then ((releaseOwnerLocked m2)\<lparr> ma_state := Idle \<rparr>, None,
                     case do_Err outcome of Some e \<Rightarrow> ReturnedError e | None \<Rightarrow> ReturnedKey zero_key)
             else enable_settle opID token target advanced outcome rnd m2))"

section \<open>Operations of the owner\<close>

text \<open>\<^verbatim>\<open>beginOwnerOperation\<close> up to the refresh, which is due when the epoch has advanced.\<close>

definition owner_begin ::
  "byte \<Rightarrow> SessionKey option \<Rightarrow> OperationKind \<Rightarrow> string option \<Rightarrow> Manager \<Rightarrow>
   Manager \<times> (session_error + nat \<times> string \<times> uint64 option)" where
  "owner_begin target key kind rnd m =
     (if ma_state m = Refreshing then (m, Inl ErrSessionBusy)
      else if \<not> ma_mutexHeld m \<or> ma_state m \<noteq> Active then (m, Inl ErrNotActive)
      else if ma_pendingOperation m \<noteq> None then (m, Inl ErrSessionBusy)
      else if ma_activeTarget m \<noteq> target then (m, Inl ErrTargetMismatch)
      else if (case key of None \<Rightarrow> False
               | Some k \<Rightarrow> ky_Transport k \<noteq> ma_transport m \<or> ky_IssuerToken k \<noteq> ma_activeToken m)
        then (m, Inl ErrWrongToken)
      else
        (let (opID, m1) = newCleanupAttemptID rnd m;
             p = new_pending opID kind target m1;
             m2 = put_pending p m1 in
         if ma_pendingEpoch m2 \<le> tk_TransportEpoch (ma_transport m2) then (m2, Inr (po_handle p, opID, None))
         else (m2\<lparr> ma_state := Refreshing \<rparr>, Inr (po_handle p, opID, Some (ma_pendingEpoch m2)))))"

text \<open>The refresh: an error, or the key of the transport it found.\<close>

definition refreshed_with :: "Manager \<Rightarrow> session_error + TransportKey \<Rightarrow> session_error + TransportKey" where
  "refreshed_with m r = (if \<not> ma_refresh m then Inl ErrTransportDown else r)"

definition owner_rehome :: "TransportKey \<Rightarrow> Manager \<Rightarrow> Manager" where
  "owner_rehome transport m =
     armIdleTimerLocked (map_cleanup (\<lambda>c. c\<lparr> co_TransportEpoch := tk_TransportEpoch transport \<rparr>)
       (m\<lparr> ma_transport := transport, ma_observedEpoch := tk_TransportEpoch transport, ma_pendingEpoch := 0,
           ma_state := Active,
           ma_pendingOperation := map_option (\<lambda>p. p\<lparr> po_Transport := transport \<rparr>) (ma_pendingOperation m) \<rparr>))"

definition abandon_pending :: "byte \<Rightarrow> uint64 \<Rightarrow> string \<Rightarrow> string option \<Rightarrow> Manager \<Rightarrow> Manager" where
  "abandon_pending target epoch opID rnd m =
     createCleanupLocked target epoch opID rnd
       (toDisabledLocked (set_epoch epoch (m\<lparr> ma_pendingOperation := None, ma_pendingEpoch := 0 \<rparr>)))"

definition owner_refreshed ::
  "byte \<Rightarrow> nat \<Rightarrow> string \<Rightarrow> uint64 \<Rightarrow> session_error + TransportKey \<Rightarrow> string option \<Rightarrow> Manager \<Rightarrow>
   Manager \<times> session_error option" where
  "owner_refreshed target h opID attemptedEpoch r rnd m =
     (let down = (case r of Inl e \<Rightarrow> Some e | Inr _ \<Rightarrow> Some ErrTransportDown) in
      case ma_pendingOperation m of
        None \<Rightarrow> (m, down)
      | Some p \<Rightarrow>
          if po_handle p \<noteq> h \<or> \<not> ma_mutexHeld m \<or> ma_state m \<noteq> Refreshing then (m, down)
          else if po_invalidated p \<or> ma_observedEpoch m > attemptedEpoch \<or>
                  (case r of Inl _ \<Rightarrow> False | Inr t \<Rightarrow> tk_TransportEpoch t < ma_observedEpoch m)
            then (abandon_pending target (ma_observedEpoch m) opID rnd m, Some ErrTransportDown)
          else
            (case r of
               Inr t \<Rightarrow>
                 if tk_TransportEpoch t \<ge> attemptedEpoch then (owner_rehome t m, None)
                 else (abandon_pending target attemptedEpoch '''' rnd (m\<lparr> ma_lastRefreshTransportDown := True \<rparr>),
                       Some ErrTransportDown)
             | Inl e \<Rightarrow>
                 (abandon_pending target attemptedEpoch '''' rnd
                    (if is_transport_down e then m\<lparr> ma_lastRefreshTransportDown := True \<rparr>
                     else m\<lparr> ma_refreshFailed := True \<rparr>), Some e)))"

definition bindPendingContext :: "nat \<Rightarrow> Manager \<Rightarrow> Manager" where
  "bindPendingContext h m =
     (case ma_pendingOperation m of
        None \<Rightarrow> m\<lparr> ma_cancelled := h # ma_cancelled m \<rparr>
      | Some p \<Rightarrow>
          if po_handle p \<noteq> h \<or> po_invalidated p then m\<lparr> ma_cancelled := h # ma_cancelled m \<rparr>
          else m\<lparr> ma_pendingOperation := Some (p\<lparr> po_cancel := True \<rparr>) \<rparr>)"

definition read_finish ::
  "byte \<Rightarrow> nat \<Rightarrow> string \<Rightarrow> DispatchOutcome \<Rightarrow> string option \<Rightarrow> Manager \<Rightarrow> Manager \<times> uint64 option \<times> session_result" where
  "read_finish target h opID outcome rnd m =
     (case ma_pendingOperation m of
        None \<Rightarrow> (m, None, error_or_down outcome)
      | Some p \<Rightarrow>
          if po_handle p \<noteq> h then (m, None, error_or_down outcome)
          else
            (let m1 = m\<lparr> ma_pendingOperation := None \<rparr>;
                 expire = consumeIdleExpiryAfterReadLocked target opID rnd m1 in
             case do_Err outcome of
               Some e \<Rightarrow>
                 if is_transport_down e
                 then ((createCleanupLocked target (tk_TransportEpoch (ma_transport m1)) opID rnd
                          (toDisabledLocked m1))\<lparr> ma_lastRefreshTransportDown := True \<rparr>, None, ReturnedError e)
                 else (fst expire, snd expire, ReturnedError e)
             | None \<Rightarrow>
                 if do_Native outcome \<noteq> NativeACK then (fst expire, snd expire, ReturnedError ErrTransportDown)
                 else if ma_state m1 \<noteq> Active \<or> ma_transport m1 \<noteq> po_Transport p \<or> ma_activeTarget m1 \<noteq> target
                   then (fst expire, snd expire, ReturnedError ErrTransportDown)
                 else (armIdleTimerLocked (m1\<lparr> ma_idleExpiryPending := False \<rparr>), None,
                       ReturnedBytes (do_Response outcome))))"

text \<open>An admitted disable stops the idle timer before it waits for the bus.\<close>

definition disable_quiet :: "nat \<Rightarrow> Manager \<Rightarrow> Manager" where
  "disable_quiet h m =
     (if is_pending h m \<and> ma_mutexHeld m
      then m\<lparr> ma_idleTimer := False, ma_idleTimerGen := ma_idleTimerGen m + 1 \<rparr> else m)"

definition recordCleanupOutcome :: "string \<Rightarrow> uint64 \<Rightarrow> DispatchOutcome \<Rightarrow> Manager \<Rightarrow> Manager" where
  "recordCleanupOutcome attemptID epoch outcome m =
     map_cleanup (\<lambda>c. if co_GatewayCleanupAttemptID c \<noteq> attemptID \<or> \<not> co_LastAttempted c \<or> co_LastAttemptEpoch c \<noteq> epoch
                      then c
                      else c\<lparr> co_LastEmitted := do_Emitted outcome, co_LastNative := do_Native outcome,
                              co_LastErr := do_Err outcome \<rparr>) m"

text \<open>
  The section after a disable: what it returns and, when the exchange was begun, the clean-up attempt
  whose outcome is recorded next.
\<close>

definition disable_finish ::
  "byte \<Rightarrow> nat \<Rightarrow> string \<Rightarrow> DispatchOutcome \<Rightarrow> string option \<Rightarrow> Manager \<Rightarrow>
   Manager \<times> (string \<times> uint64) option \<times> session_result" where
  "disable_finish target h opID outcome rnd m =
     (case ma_pendingOperation m of
        None \<Rightarrow> (m, None, error_or_down outcome)
      | Some p \<Rightarrow>
          if po_handle p \<noteq> h then (m, None, error_or_down outcome)
          else
            (let emitted = (po_Emitted p \<or> do_Emitted outcome);
                 m1 = m\<lparr> ma_pendingOperation := None \<rparr> in
             if \<not> emitted \<and> ma_state m1 = Active \<and> ma_mutexHeld m1 \<and> ma_activeTarget m1 = target
             then (armIdleTimerLocked (m1\<lparr> ma_idleExpiryPending := False \<rparr>), None, error_or_down outcome)
             else
               (let epoch = tk_TransportEpoch (ma_transport m1);
                    m2 = (if ma_mutexHeld m1 then releaseOwnerLocked m1 else m1);
                    m3 = createCleanupLocked target epoch opID rnd (m2\<lparr> ma_state := Disabled \<rparr>);
                    m4 = map_cleanup (\<lambda>c. c\<lparr> co_LastAttemptEpoch := epoch, co_LastAttempted := True \<rparr>) m3 in
                (m4, map_option (\<lambda>c. (co_GatewayCleanupAttemptID c, epoch)) (ma_cleanup m3),
                 case do_Err outcome of Some e \<Rightarrow> ReturnedError e | None \<Rightarrow> ReturnedNil))))"

section \<open>Clean-up attempts\<close>

definition attempt_begin ::
  "uint64 \<Rightarrow> string option \<Rightarrow> Manager \<Rightarrow> Manager \<times> (string \<times> byte \<times> nat) option" where
  "attempt_begin epoch rnd m =
     (case ma_cleanup m of
        None \<Rightarrow> (m, None)
      | Some c \<Rightarrow>
          if ma_restarted m \<or> (co_LastAttempted c \<and> co_LastAttemptEpoch c = epoch) \<or> \<not> ma_cleanupDispatch m
          then (m, None)
          else
            (let c' = c\<lparr> co_LastAttemptEpoch := epoch, co_LastAttempted := True, co_TransportEpoch := epoch \<rparr>;
                 (opID, m1) = newCleanupAttemptID rnd (m\<lparr> ma_cleanup := Some c' \<rparr>);
                 p = (new_pending opID OperationDisable (co_Target c) m1)\<lparr> po_cleanup := True \<rparr> in
             (put_pending p m1, Some (co_GatewayCleanupAttemptID c, co_Target c, po_handle p))))"

definition attempt_end :: "nat \<Rightarrow> Manager \<Rightarrow> Manager" where
  "attempt_end h m = (if is_pending h m then m\<lparr> ma_pendingOperation := None \<rparr> else m)"

section \<open>The idle timer\<close>

datatype idle_next =
  IdleStale
| IdleRefresh nat string byte uint64
| IdleCleanup uint64

definition idleTimerFired :: "uint64 \<Rightarrow> string option \<Rightarrow> string option \<Rightarrow> Manager \<Rightarrow> Manager \<times> idle_next" where
  "idleTimerFired gen rnd1 rnd2 m =
     (if gen \<noteq> ma_idleTimerGen m then (m, IdleStale)
      else if ma_state m \<noteq> Active then (m, IdleStale)
      else
        (case ma_pendingOperation m of
           Some p \<Rightarrow> (if po_Kind p = OperationRead then m\<lparr> ma_idleExpiryPending := True \<rparr> else m, IdleStale)
         | None \<Rightarrow>
             (let target = ma_activeTarget m in
              if ma_pendingEpoch m > tk_TransportEpoch (ma_transport m) then
                (let (opID, m1) = newCleanupAttemptID rnd1 m;
                     p = new_pending opID OperationDisable target m1 in
                 ((put_pending p m1)\<lparr> ma_state := Refreshing \<rparr>,
                  IdleRefresh (po_handle p) opID target (ma_pendingEpoch m)))
              else
                (let epoch = tk_TransportEpoch (ma_transport m);
                     (attempt, m1) = newCleanupAttemptID rnd1 m in
                 (createCleanupLocked target epoch attempt rnd2 (toDisabledLocked m1), IdleCleanup epoch)))))"

text \<open>After the refresh an expired owner is given: \<open>None\<close> ends the callback, else the transport and whether there is a dispatcher.\<close>

definition idle_refreshed ::
  "nat \<Rightarrow> string \<Rightarrow> byte \<Rightarrow> uint64 \<Rightarrow> session_error + TransportKey \<Rightarrow> string option \<Rightarrow> Manager \<Rightarrow>
   Manager \<times> (TransportKey \<times> bool) option" where
  "idle_refreshed h opID target attemptedEpoch r rnd m =
     (case ma_pendingOperation m of
        None \<Rightarrow> (m, None)
      | Some p \<Rightarrow>
          if po_handle p \<noteq> h \<or> \<not> ma_mutexHeld m \<or> ma_state m \<noteq> Refreshing then (m, None)
          else
            (case r of
               Inl _ \<Rightarrow> (abandon_pending target (ma_observedEpoch m) opID rnd m, None)
             | Inr t \<Rightarrow>
                 if po_invalidated p \<or> tk_TransportEpoch t < attemptedEpoch \<or> tk_TransportEpoch t < ma_observedEpoch m
                 then (abandon_pending target (ma_observedEpoch m) opID rnd m, None)
                 else (m\<lparr> ma_transport := t, ma_observedEpoch := tk_TransportEpoch t, ma_pendingEpoch := 0,
                          ma_state := Active, ma_pendingOperation := Some (p\<lparr> po_Transport := t \<rparr>) \<rparr>,
                       Some (t, ma_cleanupDispatch m))))"

definition idle_undispatched :: "nat \<Rightarrow> string \<Rightarrow> byte \<Rightarrow> TransportKey \<Rightarrow> string option \<Rightarrow> Manager \<Rightarrow> Manager" where
  "idle_undispatched h opID target transport rnd m =
     (if is_pending h m
      then createCleanupLocked target (tk_TransportEpoch transport) opID rnd
             (toDisabledLocked (m\<lparr> ma_pendingOperation := None \<rparr>))
      else m)"

definition idle_finish ::
  "nat \<Rightarrow> string \<Rightarrow> byte \<Rightarrow> TransportKey \<Rightarrow> DispatchOutcome \<Rightarrow> string option \<Rightarrow> Manager \<Rightarrow> Manager" where
  "idle_finish h opID target transport outcome rnd m =
     (case ma_pendingOperation m of
        None \<Rightarrow> m
      | Some p \<Rightarrow>
          if po_handle p \<noteq> h then m
          else if po_invalidated p \<or> ma_observedEpoch m > tk_TransportEpoch transport
            then map_cleanup (\<lambda>c. c\<lparr> co_TransportEpoch := ma_observedEpoch m \<rparr>)
                   (abandon_pending target (ma_observedEpoch m) opID rnd m)
          else
            (let epoch = tk_TransportEpoch transport;
                 m1 = (releaseOwnerLocked (m\<lparr> ma_pendingOperation := None \<rparr>))\<lparr> ma_state := Disabled \<rparr> in
             map_cleanup (\<lambda>c. c\<lparr> co_LastAttempted := True, co_LastAttemptEpoch := epoch,
                                co_LastEmitted := do_Emitted outcome, co_LastNative := do_Native outcome,
                                co_LastErr := do_Err outcome \<rparr>)
               (createCleanupLocked target epoch opID rnd m1)))"

section \<open>Transport events and restart\<close>

definition unsent_enable :: "Manager \<Rightarrow> pendingOperation option" where
  "unsent_enable m =
     (case ma_pendingOperation m of
        Some p \<Rightarrow> if po_Kind p = OperationEnable \<and> \<not> po_Emitted p then Some p else None
      | None \<Rightarrow> None)"

definition drop_enable :: "pendingOperation \<Rightarrow> Manager \<Rightarrow> Manager" where
  "drop_enable p m =
     (clearCleanupForOperationLocked (po_OperationID p)
        (releaseOwnerLocked (m\<lparr> ma_pendingOperation := None, ma_pendingEpoch := 0 \<rparr>)))\<lparr> ma_state := Idle \<rparr>"

definition OnTransportDisconnect :: "string option \<Rightarrow> Manager \<Rightarrow> Manager" where
  "OnTransportDisconnect rnd m =
     (if \<not> ma_mutexHeld m then m
      else
        (let m1 = invalidate_pending m in
         case unsent_enable m1 of
           Some p \<Rightarrow> drop_enable p m1
         | None \<Rightarrow>
             (let (target, sourceID) =
                    (case ma_pendingOperation m1 of
                       Some p \<Rightarrow> if po_Kind p = OperationEnable then (po_Target p, po_OperationID p)
                                 else (ma_activeTarget m1, '''')
                     | None \<Rightarrow> (ma_activeTarget m1, '''')) in
              createCleanupLocked target (tk_TransportEpoch (ma_transport m1)) sourceID rnd (toDisabledLocked m1))))"

definition OnEpochAdvance :: "uint64 \<Rightarrow> Manager \<Rightarrow> Manager" where
  "OnEpochAdvance newEpoch m =
     (if newEpoch \<le> ma_observedEpoch m then m
      else
        (let m1 = invalidate_pending (m\<lparr> ma_observedEpoch := newEpoch, ma_lastRefreshTransportDown := False \<rparr>) in
         case (if ma_state m1 = Enabling then unsent_enable m1 else None) of
           Some p \<Rightarrow> drop_enable p (set_epoch newEpoch m1)
         | None \<Rightarrow>
             if ma_mutexHeld m1 then m1\<lparr> ma_pendingEpoch := newEpoch \<rparr>
             else (set_epoch newEpoch m1)\<lparr> ma_pendingEpoch := 0 \<rparr>))"

definition ResetForRestart :: "byte list \<Rightarrow> Manager \<Rightarrow> Manager" where
  "ResetForRestart qualifiedTargets m =
     (let m1 = drop_gate (m\<lparr> ma_idleTimer := False, ma_idleTimerGen := ma_idleTimerGen m + 1 \<rparr>);
          m2 = invalidate_pending (m1\<lparr> ma_activeToken := '''', ma_activeTarget := 0 \<rparr>) in
      m2\<lparr> ma_pendingOperation := None, ma_cleanup := None, ma_refreshFailed := False,
          ma_lastRefreshTransportDown := False, ma_pendingEpoch := 0, ma_idleExpiryPending := False,
          ma_state := Disabled, ma_restarted := True,
          ma_restartFences := ma_restartFences m2 \<union> ma_qualified m2 \<union> set qualifiedTargets,
          ma_qualified := ma_qualified m2 \<union> set qualifiedTargets \<rparr>)"

section \<open>The transitions without an exchange\<close>

definition Enable :: "session_error + string \<Rightarrow> Manager \<Rightarrow> Manager \<times> session_result" where
  "Enable issued m =
     (if ma_state m \<noteq> Idle then (m, ReturnedError ErrSessionBusy)
      else
        (let m1 = (gate_lock (m\<lparr> ma_state := Enabling \<rparr>))\<lparr> ma_mutexHeld := True \<rparr> in
         case issued of
           Inl e \<Rightarrow> ((gate_unlock m1)\<lparr> ma_mutexHeld := False, ma_state := Idle \<rparr>, ReturnedError e)
         | Inr token \<Rightarrow>
             (armIdleTimerLocked (m1\<lparr> ma_activeToken := token, ma_activeTarget := 0, ma_state := Active,
                                      ma_refreshFailed := False, ma_lastRefreshTransportDown := False \<rparr>),
              ReturnedKey \<lparr> ky_Transport = ma_transport m1, ky_IssuerToken = token \<rparr>)))"

definition Disable :: "SessionKey \<Rightarrow> Manager \<Rightarrow> Manager \<times> session_result" where
  "Disable key m =
     (if ma_state m = Refreshing then (m, ReturnedError ErrSessionBusy)
      else if ma_state m \<noteq> Active then (m, ReturnedError ErrNotActive)
      else if ky_Transport key \<noteq> ma_transport m then (m, ReturnedError ErrWrongToken)
      else if ky_IssuerToken key \<noteq> ma_activeToken m then (m, ReturnedError ErrWrongToken)
      else (toIdleLocked (toDisabledLocked m), ReturnedNil))"

definition Read :: "TransportKey \<Rightarrow> Manager \<Rightarrow> Manager \<times> session_result" where
  "Read transport m =
     (if ma_refreshFailed m \<or> ma_state m = Refreshing then (m, ReturnedError ErrSessionBusy)
      else if ma_state m \<noteq> Active then (m, ReturnedError ErrNotActive)
      else if transport \<noteq> ma_transport m then (m, ReturnedError ErrNotActive)
      else (armIdleTimerLocked m, ReturnedNil))"

section \<open>Calls and their interleaving\<close>

text \<open>
  The position of a call, with the locals it still needs: the handle and identifier of its operation,
  its target, and what it returns once a clean-up attempt is over.
\<close>

datatype session_pc =
  PcEnable byte
| PcEnableSent byte nat string string
| PcOwner OperationKind byte "SessionKey option"
| PcRefresh OperationKind byte nat string uint64
| PcBind OperationKind byte nat string
| PcQuiet byte nat string
| PcSent OperationKind byte nat string
| PcCleanup uint64 session_result
| PcCleanupBind string uint64 nat session_result
| PcCleanupSent string uint64 nat session_result
| PcRecord string uint64 DispatchOutcome session_result
| PcIdleRefresh nat string byte uint64
| PcIdleUndispatched nat string byte TransportKey
| PcIdleBind nat string byte TransportKey
| PcIdleSent nat string byte TransportKey
| PcDone session_result

text \<open>What a step of a call reads from outside: random identifiers, the refresh and the exchange.\<close>

record session_input =
  si_issued :: "session_error + string"
  si_rnd1 :: "string option"
  si_rnd2 :: "string option"
  si_refresh :: "session_error + TransportKey"
  si_outcome :: DispatchOutcome

record session_call =
  sc_dispatch :: bool
  sc_pc :: session_pc

record session_world =
  sw_manager :: Manager
  sw_calls :: "session_call list"

definition after_cleanup :: "uint64 option \<Rightarrow> session_result \<Rightarrow> session_pc" where
  "after_cleanup cleanup r = (case cleanup of None \<Rightarrow> PcDone r | Some epoch \<Rightarrow> PcCleanup epoch r)"

definition after_begin :: "OperationKind \<Rightarrow> byte \<Rightarrow> session_error + nat \<times> string \<times> uint64 option \<Rightarrow> session_pc" where
  "after_begin kind target r =
     (case r of
        Inl e \<Rightarrow> PcDone (ReturnedError e)
      | Inr (h, opID, None) \<Rightarrow> PcBind kind target h opID
      | Inr (h, opID, Some epoch) \<Rightarrow> PcRefresh kind target h opID epoch)"

definition after_fired :: "idle_next \<Rightarrow> session_pc" where
  "after_fired nxt =
     (case nxt of
        IdleStale \<Rightarrow> PcDone ReturnedNil
      | IdleRefresh h opID target epoch \<Rightarrow> PcIdleRefresh h opID target epoch
      | IdleCleanup epoch \<Rightarrow> PcCleanup epoch ReturnedNil)"

definition session_section :: "bool \<Rightarrow> session_input \<Rightarrow> session_pc \<Rightarrow> Manager \<Rightarrow> Manager \<times> session_pc" where
  "session_section dispatch x pc m =
     (case pc of
        PcEnable target \<Rightarrow>
          (let (m1, r) = enable_admit (si_issued x) (si_rnd1 x) target m in
           (m1, case r of Inl e \<Rightarrow> PcDone (ReturnedError e)
                | Inr (h, opID, token) \<Rightarrow> PcEnableSent target h opID token))
      | PcEnableSent target h opID token \<Rightarrow>
          (let (m1, cleanup, r) = enable_finish h opID token target (dispatchOnce dispatch (si_outcome x)) (si_rnd1 x) m in
           (m1, after_cleanup cleanup r))
      | PcOwner kind target key \<Rightarrow>
          (let (m1, r) = owner_begin target key kind (si_rnd1 x) m in (m1, after_begin kind target r))
      | PcRefresh kind target h opID epoch \<Rightarrow>
          (let (m1, e) = owner_refreshed target h opID epoch (refreshed_with m (si_refresh x)) (si_rnd1 x) m in
           (m1, case e of Some err \<Rightarrow> PcDone (ReturnedError err) | None \<Rightarrow> PcBind kind target h opID))
      | PcBind kind target h opID \<Rightarrow>
          (bindPendingContext h m,
           if kind = OperationDisable then PcQuiet target h opID else PcSent kind target h opID)
      | PcQuiet target h opID \<Rightarrow> (disable_quiet h m, PcSent OperationDisable target h opID)
      | PcSent kind target h opID \<Rightarrow>
          if kind = OperationDisable then
            (let (m1, attempt, r) = disable_finish target h opID (dispatchOnce dispatch (si_outcome x)) (si_rnd1 x) m in
             (m1, case attempt of None \<Rightarrow> PcDone r
                  | Some (aid, epoch) \<Rightarrow> PcRecord aid epoch (dispatchOnce dispatch (si_outcome x)) r))
          else
            (let (m1, cleanup, r) = read_finish target h opID (dispatchOnce dispatch (si_outcome x)) (si_rnd1 x) m in
             (m1, after_cleanup cleanup r))
      | PcCleanup epoch r \<Rightarrow>
          (let (m1, attempt) = attempt_begin epoch (si_rnd1 x) m in
           (m1, case attempt of None \<Rightarrow> PcDone r | Some (aid, target, h) \<Rightarrow> PcCleanupBind aid epoch h r))
      | PcCleanupBind aid epoch h r \<Rightarrow> (bindPendingContext h m, PcCleanupSent aid epoch h r)
      | PcCleanupSent aid epoch h r \<Rightarrow> (attempt_end h m, PcRecord aid epoch (si_outcome x) r)
      | PcRecord aid epoch outcome r \<Rightarrow> (recordCleanupOutcome aid epoch outcome m, PcDone r)
      | PcIdleRefresh h opID target epoch \<Rightarrow>
          (let (m1, r) = idle_refreshed h opID target epoch (refreshed_with m (si_refresh x)) (si_rnd1 x) m in
           (m1, case r of None \<Rightarrow> PcDone ReturnedNil
                | Some (transport, True) \<Rightarrow> PcIdleBind h opID target transport
                | Some (transport, False) \<Rightarrow> PcIdleUndispatched h opID target transport))
      | PcIdleUndispatched h opID target transport \<Rightarrow>
          (idle_undispatched h opID target transport (si_rnd1 x) m, PcDone ReturnedNil)
      | PcIdleBind h opID target transport \<Rightarrow> (bindPendingContext h m, PcIdleSent h opID target transport)
      | PcIdleSent h opID target transport \<Rightarrow>
          (idle_finish h opID target transport (si_outcome x) (si_rnd1 x) m, PcDone ReturnedNil)
      | PcDone r \<Rightarrow> (m, PcDone r))"

datatype session_op =
  EnableOp byte bool
| ReadOp byte bool
| DisableOp SessionKey byte bool
| TimerOp uint64 session_input
| SectionOp nat session_input
| AdmitOp string byte
| BeginEmissionOp string byte
| EndEmissionOp
| MarkOp byte
| DispatcherOp bool
| DisconnectOp "string option"
| EpochOp uint64
| RestartOp "byte list"
| BareEnableOp "session_error + string"
| BareDisableOp SessionKey
| BareReadOp TransportKey

definition new_call :: "bool \<Rightarrow> session_pc \<Rightarrow> session_world \<Rightarrow> session_world" where
  "new_call dispatch pc w = w\<lparr> sw_calls := sw_calls w @ [\<lparr> sc_dispatch = dispatch, sc_pc = pc \<rparr>] \<rparr>"

definition on_manager :: "(Manager \<Rightarrow> Manager) \<Rightarrow> session_world \<Rightarrow> session_world" where
  "on_manager f w = w\<lparr> sw_manager := f (sw_manager w) \<rparr>"

text \<open>The first section of a timer callback; the callback of a timer runs once.\<close>

definition fire_timer :: "uint64 \<Rightarrow> session_input \<Rightarrow> Manager \<Rightarrow> Manager \<times> idle_next" where
  "fire_timer gen x m =
     idleTimerFired gen (si_rnd1 x) (si_rnd2 x) (m\<lparr> ma_callbacks := remove1 gen (ma_callbacks m) \<rparr>)"

text \<open>
  Every operation marks its target first; the emission lock is free again
  when the exchange that took it returns, and an epoch advance waits for it.
\<close>

fun session_step :: "session_world \<Rightarrow> session_op \<Rightarrow> session_world" where
  "session_step w (EnableOp target dispatch) = new_call dispatch (PcEnable target) (on_manager (MarkQualifiedTarget target) w)"
| "session_step w (ReadOp target dispatch) =
     new_call dispatch (PcOwner OperationRead target None) (on_manager (MarkQualifiedTarget target) w)"
| "session_step w (DisableOp key target dispatch) =
     new_call dispatch (PcOwner OperationDisable target (Some key)) (on_manager (MarkQualifiedTarget target) w)"
| "session_step w (TimerOp gen x) =
     (if gen \<in> set (ma_callbacks (sw_manager w))
      then (let (m, nxt) = fire_timer gen x (sw_manager w) in new_call True (after_fired nxt) (on_manager (\<lambda>_. m) w))
      else w)"
| "session_step w (SectionOp i x) =
     (if i < length (sw_calls w)
      then (let c = sw_calls w ! i; (m, pc) = session_section (sc_dispatch c) x (sc_pc c) (sw_manager w) in
            w\<lparr> sw_manager := m, sw_calls := (sw_calls w)[i := c\<lparr> sc_pc := pc \<rparr>] \<rparr>)
      else w)"
| "session_step w (AdmitOp opID target) = on_manager (\<lambda>m. fst (AdmitPendingEmission opID target m)) w"
| "session_step w (BeginEmissionOp opID target) =
     on_manager (\<lambda>m. case BeginPendingEmission opID target m of None \<Rightarrow> m | Some (m1, ok) \<Rightarrow> m1) w"
| "session_step w EndEmissionOp = on_manager (\<lambda>m. m\<lparr> ma_emissionMu := False \<rparr>) w"
| "session_step w (MarkOp target) = on_manager (MarkQualifiedTarget target) w"
| "session_step w (DispatcherOp dispatch) = on_manager (SetCleanupDispatcher dispatch) w"
| "session_step w (DisconnectOp rnd) = on_manager (OnTransportDisconnect rnd) w"
| "session_step w (EpochOp epoch) = on_manager (\<lambda>m. if ma_emissionMu m then m else OnEpochAdvance epoch m) w"
| "session_step w (RestartOp targets) = on_manager (ResetForRestart targets) w"
| "session_step w (BareEnableOp issued) = on_manager (\<lambda>m. fst (Enable issued m)) w"
| "session_step w (BareDisableOp key) = on_manager (\<lambda>m. fst (Disable key m)) w"
| "session_step w (BareReadOp transport) = on_manager (\<lambda>m. fst (Read transport m)) w"

definition new_session_world :: "TransportKey \<Rightarrow> int \<Rightarrow> bool \<Rightarrow> session_world" where
  "new_session_world transport idleTimeout refresh =
     \<lparr> sw_manager = New_manager transport idleTimeout refresh, sw_calls = [] \<rparr>"

section \<open>What the theorems speak of\<close>

definition owner_states :: "State set" where
  "owner_states = {Enabling, Active, Refreshing}"

text \<open>
  The gate: the mutex is locked exactly while a session is held, which is in the three owner states;
  an obligation excludes the states before an exchange; an enabling session is that of the pending
  enable; after a restart nothing is left; a clean-up runs only without an owner; and a session that
  has ended left an obligation behind, or the process was restarted.
\<close>

definition gate_ok :: "Manager \<Rightarrow> bool" where
  "gate_ok m \<longleftrightarrow>
     \<not> ma_gateFault m \<and> ma_mu m = ma_mutexHeld m \<and> (ma_mutexHeld m \<longleftrightarrow> ma_state m \<in> owner_states) \<and>
     (ma_cleanup m \<noteq> None \<longrightarrow> ma_state m = Active \<or> ma_state m = Refreshing \<or> ma_state m = Disabled) \<and>
     (ma_state m = Enabling \<longrightarrow> (\<exists>p. ma_pendingOperation m = Some p \<and> po_Kind p = OperationEnable)) \<and>
     (\<forall>p. ma_pendingOperation m = Some p \<longrightarrow>
        (po_Kind p = OperationEnable \<longrightarrow> ma_state m = Enabling \<or> ma_state m = Disabled \<and> ma_cleanup m \<noteq> None) \<and>
        (po_cleanup p \<longrightarrow> po_Kind p = OperationDisable \<and> ma_state m = Disabled \<and> ma_cleanup m \<noteq> None)) \<and>
     (ma_restarted m \<longrightarrow> ma_state m = Disabled \<and> ma_cleanup m = None \<and> ma_pendingOperation m = None) \<and>
     (ma_state m = Disabled \<longrightarrow> ma_cleanup m \<noteq> None \<or> ma_restarted m)"

text \<open>
  No enable is admitted any more: the process was restarted, or an obligation is retained that no
  enable in flight can take back. \<open>fenced\<close> adds that there is no owner either.
\<close>

definition pending_enable :: "Manager \<Rightarrow> bool" where
  "pending_enable m = (case ma_pendingOperation m of Some p \<Rightarrow> po_Kind p = OperationEnable | None \<Rightarrow> False)"

definition bound :: "Manager \<Rightarrow> bool" where
  "bound m \<longleftrightarrow> ma_restarted m \<or> ma_cleanup m \<noteq> None \<and> \<not> pending_enable m"

definition fenced :: "Manager \<Rightarrow> bool" where
  "fenced m \<longleftrightarrow> bound m \<and> ma_state m = Disabled"

text \<open>The handle a call carries, and what it knows of the operation of that handle.\<close>

fun carries :: "session_pc \<Rightarrow> nat option" where
  "carries (PcEnableSent t h opID tok) = Some h"
| "carries (PcRefresh k t h opID e) = Some h"
| "carries (PcBind k t h opID) = Some h"
| "carries (PcQuiet t h opID) = Some h"
| "carries (PcSent k t h opID) = Some h"
| "carries (PcCleanupBind aid e h r) = Some h"
| "carries (PcCleanupSent aid e h r) = Some h"
| "carries (PcIdleRefresh h opID t e) = Some h"
| "carries (PcIdleUndispatched h opID t tr) = Some h"
| "carries (PcIdleBind h opID t tr) = Some h"
| "carries (PcIdleSent h opID t tr) = Some h"
| "carries _ = None"

definition owner_op :: "OperationKind \<Rightarrow> byte \<Rightarrow> pendingOperation \<Rightarrow> bool" where
  "owner_op k t p \<longleftrightarrow> po_Kind p = k \<and> k \<noteq> OperationEnable \<and> po_Target p = t \<and> \<not> po_cleanup p"

fun agrees :: "session_pc \<Rightarrow> pendingOperation \<Rightarrow> bool" where
  "agrees (PcEnableSent t h opID tok) p \<longleftrightarrow> po_Kind p = OperationEnable \<and> \<not> po_cleanup p"
| "agrees (PcRefresh k t h opID e) p \<longleftrightarrow> owner_op k t p"
| "agrees (PcBind k t h opID) p \<longleftrightarrow> owner_op k t p"
| "agrees (PcQuiet t h opID) p \<longleftrightarrow> owner_op OperationDisable t p"
| "agrees (PcSent k t h opID) p \<longleftrightarrow> owner_op k t p"
| "agrees (PcCleanupBind aid e h r) p \<longleftrightarrow> po_cleanup p"
| "agrees (PcCleanupSent aid e h r) p \<longleftrightarrow> po_cleanup p"
| "agrees (PcIdleRefresh h opID t e) p \<longleftrightarrow> owner_op OperationDisable t p"
| "agrees (PcIdleUndispatched h opID t tr) p \<longleftrightarrow> owner_op OperationDisable t p"
| "agrees (PcIdleBind h opID t tr) p \<longleftrightarrow> owner_op OperationDisable t p"
| "agrees (PcIdleSent h opID t tr) p \<longleftrightarrow> owner_op OperationDisable t p"
| "agrees _ p \<longleftrightarrow> True"

definition call_ok :: "Manager \<Rightarrow> session_pc \<Rightarrow> bool" where
  "call_ok m pc \<longleftrightarrow>
     (\<forall>h. carries pc = Some h \<longrightarrow> h < ma_nextHandle m \<and>
        (\<forall>p. ma_pendingOperation m = Some p \<and> po_handle p = h \<longrightarrow> agrees pc p)) \<and>
     (\<forall>t. pc = PcEnable t \<longrightarrow> t \<in> ma_qualified m) \<and>
     (\<forall>k t key. pc = PcOwner k t key \<longrightarrow> k \<noteq> OperationEnable) \<and>
     (\<forall>e r. pc = PcCleanup e r \<longrightarrow> fenced m)"

definition manager_ok :: "Manager \<Rightarrow> bool" where
  "manager_ok m \<longleftrightarrow>
     gate_ok m \<and> (\<forall>p. ma_pendingOperation m = Some p \<longrightarrow> po_handle p < ma_nextHandle m) \<and>
     (ma_restarted m \<longrightarrow> ma_qualified m \<subseteq> ma_restartFences m)"

definition session_ok :: "session_world \<Rightarrow> bool" where
  "session_ok w \<longleftrightarrow> manager_ok (sw_manager w) \<and> list_all (\<lambda>c. call_ok (sw_manager w) (sc_pc c)) (sw_calls w)"

text \<open>
  How a section may move the manager, whatever it does: the pending operation stays the one it was,
  or is a new one whose identifier is among those drawn, and nothing that was fenced is opened again.
\<close>

definition same_op :: "pendingOperation \<Rightarrow> pendingOperation \<Rightarrow> bool" where
  "same_op p p' \<longleftrightarrow>
     po_handle p' = po_handle p \<and> po_Kind p' = po_Kind p \<and> po_Target p' = po_Target p \<and>
     po_OperationID p' = po_OperationID p \<and> po_cleanup p' = po_cleanup p \<and> (po_invalidated p \<longrightarrow> po_invalidated p')"

definition moves :: "string set \<Rightarrow> Manager \<Rightarrow> Manager \<Rightarrow> bool" where
  "moves drawn m m' \<longleftrightarrow>
     ma_nextHandle m \<le> ma_nextHandle m' \<and> ma_qualified m \<subseteq> ma_qualified m' \<and> (bound m \<longrightarrow> bound m') \<and>
     (fenced m \<longrightarrow> fenced m') \<and>
     (\<forall>p'. ma_pendingOperation m' = Some p' \<longrightarrow>
        (\<exists>p. ma_pendingOperation m = Some p \<and> same_op p p') \<or>
        ma_nextHandle m \<le> po_handle p' \<and> po_OperationID p' \<in> drawn)"

definition goes :: "string set \<Rightarrow> Manager \<Rightarrow> Manager \<Rightarrow> bool" where
  "goes drawn m m' \<longleftrightarrow> manager_ok m' \<and> moves drawn m m'"

section \<open>What the helpers change\<close>

lemma gate_fields [simp]:
  "ma_state (drop_gate m) = ma_state m" "ma_cleanup (drop_gate m) = ma_cleanup m"
  "ma_pendingOperation (drop_gate m) = ma_pendingOperation m" "ma_restarted (drop_gate m) = ma_restarted m"
  "ma_nextHandle (drop_gate m) = ma_nextHandle m" "ma_qualified (drop_gate m) = ma_qualified m"
  "ma_restartFences (drop_gate m) = ma_restartFences m" "ma_mutexHeld (drop_gate m) = False"
  "ma_transport (drop_gate m) = ma_transport m" "ma_cancelled (drop_gate m) = ma_cancelled m"
  "ma_callbacks (drop_gate m) = ma_callbacks m" "ma_idleTimeout (drop_gate m) = ma_idleTimeout m"
  "ma_idleExpiryPending (drop_gate m) = ma_idleExpiryPending m" "ma_idleTimerGen (drop_gate m) = ma_idleTimerGen m"
  by (simp_all add: drop_gate_def gate_unlock_def)

lemma gate_kept [simp]:
  "ma_mu m = ma_mutexHeld m \<Longrightarrow> ma_mu (drop_gate m) = False"
  "ma_mu m = ma_mutexHeld m \<Longrightarrow> ma_gateFault (drop_gate m) = ma_gateFault m"
  by (simp_all add: drop_gate_def gate_unlock_def)

lemma attempt_id_fields [simp]:
  "ma_state (snd (newCleanupAttemptID rnd m)) = ma_state m" "ma_cleanup (snd (newCleanupAttemptID rnd m)) = ma_cleanup m"
  "ma_pendingOperation (snd (newCleanupAttemptID rnd m)) = ma_pendingOperation m"
  "ma_restarted (snd (newCleanupAttemptID rnd m)) = ma_restarted m"
  "ma_nextHandle (snd (newCleanupAttemptID rnd m)) = ma_nextHandle m"
  "ma_qualified (snd (newCleanupAttemptID rnd m)) = ma_qualified m"
  "ma_restartFences (snd (newCleanupAttemptID rnd m)) = ma_restartFences m"
  "ma_mutexHeld (snd (newCleanupAttemptID rnd m)) = ma_mutexHeld m" "ma_mu (snd (newCleanupAttemptID rnd m)) = ma_mu m"
  "ma_gateFault (snd (newCleanupAttemptID rnd m)) = ma_gateFault m"
  "ma_transport (snd (newCleanupAttemptID rnd m)) = ma_transport m"
  "ma_pendingEpoch (snd (newCleanupAttemptID rnd m)) = ma_pendingEpoch m"
  "ma_callbacks (snd (newCleanupAttemptID rnd m)) = ma_callbacks m"
  "ma_idleTimeout (snd (newCleanupAttemptID rnd m)) = ma_idleTimeout m"
  "ma_idleExpiryPending (snd (newCleanupAttemptID rnd m)) = ma_idleExpiryPending m"
  "ma_idleTimerGen (snd (newCleanupAttemptID rnd m)) = ma_idleTimerGen m"
  "ma_activeTarget (snd (newCleanupAttemptID rnd m)) = ma_activeTarget m"
  by (simp_all add: newCleanupAttemptID_def Let_def split: option.split)

lemma cleanup_fields [simp]:
  "ma_cleanup (createCleanupLocked t e src rnd m) \<noteq> None"
  "ma_cleanup m \<noteq> None \<Longrightarrow> createCleanupLocked t e src rnd m = m"
  "ma_pendingOperation (createCleanupLocked t e src rnd m) = ma_pendingOperation m"
  "ma_restarted (createCleanupLocked t e src rnd m) = ma_restarted m"
  "ma_nextHandle (createCleanupLocked t e src rnd m) = ma_nextHandle m"
  "ma_qualified (createCleanupLocked t e src rnd m) = ma_qualified m"
  "ma_restartFences (createCleanupLocked t e src rnd m) = ma_restartFences m"
  "ma_mutexHeld (createCleanupLocked t e src rnd m) = ma_mutexHeld m" "ma_mu (createCleanupLocked t e src rnd m) = ma_mu m"
  "ma_gateFault (createCleanupLocked t e src rnd m) = ma_gateFault m"
  "ma_transport (createCleanupLocked t e src rnd m) = ma_transport m"
  "ma_callbacks (createCleanupLocked t e src rnd m) = ma_callbacks m"
  "ma_idleTimeout (createCleanupLocked t e src rnd m) = ma_idleTimeout m"
  "ma_idleExpiryPending (createCleanupLocked t e src rnd m) = ma_idleExpiryPending m"
  "ma_idleTimerGen (createCleanupLocked t e src rnd m) = ma_idleTimerGen m"
  "ma_activeTarget (createCleanupLocked t e src rnd m) = ma_activeTarget m"
  by (auto simp: createCleanupLocked_def case_prod_beta split: option.split)

lemma cleanup_state: "ma_state (createCleanupLocked t e src rnd m) = (if ma_cleanup m = None then Disabled else ma_state m)"
  by (simp add: createCleanupLocked_def case_prod_beta split: option.split)

lemma cleanup_state_disabled [simp]: "ma_state m = Disabled \<Longrightarrow> ma_state (createCleanupLocked t e src rnd m) = Disabled"
  by (simp add: cleanup_state)

lemma arm_fields [simp]:
  "ma_state (armIdleTimerLocked m) = ma_state m" "ma_cleanup (armIdleTimerLocked m) = ma_cleanup m"
  "ma_pendingOperation (armIdleTimerLocked m) = ma_pendingOperation m" "ma_restarted (armIdleTimerLocked m) = ma_restarted m"
  "ma_nextHandle (armIdleTimerLocked m) = ma_nextHandle m" "ma_qualified (armIdleTimerLocked m) = ma_qualified m"
  "ma_restartFences (armIdleTimerLocked m) = ma_restartFences m" "ma_mutexHeld (armIdleTimerLocked m) = ma_mutexHeld m"
  "ma_mu (armIdleTimerLocked m) = ma_mu m" "ma_gateFault (armIdleTimerLocked m) = ma_gateFault m"
  "ma_idleTimeout (armIdleTimerLocked m) = ma_idleTimeout m" "ma_activeTarget (armIdleTimerLocked m) = ma_activeTarget m"
  "ma_idleExpiryPending (armIdleTimerLocked m) = ma_idleExpiryPending m"
  by (simp_all add: armIdleTimerLocked_def Let_def)

lemma map_cleanup_none [simp]:
  "ma_cleanup (map_cleanup f m) = None \<longleftrightarrow> ma_cleanup m = None"
  "(\<exists>y. ma_cleanup (map_cleanup f m) = Some y) \<longleftrightarrow> (\<exists>y. ma_cleanup m = Some y)"
  by (auto simp: map_cleanup_def)

lemma cleanup_exists [simp]: "\<exists>y. ma_cleanup (createCleanupLocked t e src rnd m) = Some y"
  using cleanup_fields(1) by (simp only: not_None_eq)

lemma map_cleanup_fields [simp]:
  "ma_state (map_cleanup f m) = ma_state m" "ma_pendingOperation (map_cleanup f m) = ma_pendingOperation m"
  "ma_restarted (map_cleanup f m) = ma_restarted m" "ma_nextHandle (map_cleanup f m) = ma_nextHandle m"
  "ma_qualified (map_cleanup f m) = ma_qualified m" "ma_restartFences (map_cleanup f m) = ma_restartFences m"
  "ma_mutexHeld (map_cleanup f m) = ma_mutexHeld m" "ma_mu (map_cleanup f m) = ma_mu m"
  "ma_gateFault (map_cleanup f m) = ma_gateFault m" "ma_transport (map_cleanup f m) = ma_transport m"
  "ma_callbacks (map_cleanup f m) = ma_callbacks m" "ma_idleTimeout (map_cleanup f m) = ma_idleTimeout m"
  "ma_idleExpiryPending (map_cleanup f m) = ma_idleExpiryPending m" "ma_idleTimerGen (map_cleanup f m) = ma_idleTimerGen m"
  "ma_activeTarget (map_cleanup f m) = ma_activeTarget m"
  by (simp_all add: map_cleanup_def)

lemma clear_fields [simp]:
  "ma_state (clearCleanupForOperationLocked opID m) = ma_state m"
  "ma_pendingOperation (clearCleanupForOperationLocked opID m) = ma_pendingOperation m"
  "ma_restarted (clearCleanupForOperationLocked opID m) = ma_restarted m"
  "ma_nextHandle (clearCleanupForOperationLocked opID m) = ma_nextHandle m"
  "ma_qualified (clearCleanupForOperationLocked opID m) = ma_qualified m"
  "ma_restartFences (clearCleanupForOperationLocked opID m) = ma_restartFences m"
  "ma_mutexHeld (clearCleanupForOperationLocked opID m) = ma_mutexHeld m"
  "ma_mu (clearCleanupForOperationLocked opID m) = ma_mu m"
  "ma_gateFault (clearCleanupForOperationLocked opID m) = ma_gateFault m"
  "ma_cleanup m = None \<Longrightarrow> ma_cleanup (clearCleanupForOperationLocked opID m) = None"
  "ma_callbacks (clearCleanupForOperationLocked opID m) = ma_callbacks m"
  "ma_idleTimeout (clearCleanupForOperationLocked opID m) = ma_idleTimeout m"
  "ma_idleExpiryPending (clearCleanupForOperationLocked opID m) = ma_idleExpiryPending m"
  by (simp_all add: clearCleanupForOperationLocked_def split: option.split)

lemma set_epoch_fields [simp]:
  "ma_state (set_epoch e m) = ma_state m" "ma_cleanup (set_epoch e m) = ma_cleanup m"
  "ma_pendingOperation (set_epoch e m) = ma_pendingOperation m" "ma_restarted (set_epoch e m) = ma_restarted m"
  "ma_nextHandle (set_epoch e m) = ma_nextHandle m" "ma_qualified (set_epoch e m) = ma_qualified m"
  "ma_restartFences (set_epoch e m) = ma_restartFences m" "ma_mutexHeld (set_epoch e m) = ma_mutexHeld m"
  "ma_mu (set_epoch e m) = ma_mu m" "ma_gateFault (set_epoch e m) = ma_gateFault m"
  "ma_callbacks (set_epoch e m) = ma_callbacks m" "ma_idleTimeout (set_epoch e m) = ma_idleTimeout m"
  "ma_idleExpiryPending (set_epoch e m) = ma_idleExpiryPending m" "ma_idleTimerGen (set_epoch e m) = ma_idleTimerGen m"
  "ma_activeTarget (set_epoch e m) = ma_activeTarget m"
  by (simp_all add: set_epoch_def)

section \<open>Every section keeps the gate\<close>

lemmas ok_defs = manager_ok_def gate_ok_def owner_states_def goes_def moves_def bound_def fenced_def pending_enable_def
  same_op_def

lemma release_fields [simp]:
  "ma_state (releaseOwnerLocked m) = ma_state m" "ma_cleanup (releaseOwnerLocked m) = ma_cleanup m"
  "ma_pendingOperation (releaseOwnerLocked m) = ma_pendingOperation m" "ma_restarted (releaseOwnerLocked m) = ma_restarted m"
  "ma_nextHandle (releaseOwnerLocked m) = ma_nextHandle m" "ma_qualified (releaseOwnerLocked m) = ma_qualified m"
  "ma_restartFences (releaseOwnerLocked m) = ma_restartFences m" "\<not> ma_mutexHeld (releaseOwnerLocked m)"
  "ma_mu m = ma_mutexHeld m \<Longrightarrow> ma_mu (releaseOwnerLocked m) = False"
  "ma_mu m = ma_mutexHeld m \<Longrightarrow> ma_gateFault (releaseOwnerLocked m) = ma_gateFault m"
  "ma_transport (releaseOwnerLocked m) = ma_transport m" "ma_callbacks (releaseOwnerLocked m) = ma_callbacks m"
  "ma_idleTimeout (releaseOwnerLocked m) = ma_idleTimeout m"
  "ma_idleExpiryPending (releaseOwnerLocked m) = ma_idleExpiryPending m"
  by (simp_all add: releaseOwnerLocked_def)

lemma disabled_fields [simp]:
  "ma_state (toDisabledLocked m) = Disabled" "ma_cleanup (toDisabledLocked m) = ma_cleanup m"
  "ma_pendingOperation (toDisabledLocked m) = ma_pendingOperation m" "ma_restarted (toDisabledLocked m) = ma_restarted m"
  "ma_nextHandle (toDisabledLocked m) = ma_nextHandle m" "ma_qualified (toDisabledLocked m) = ma_qualified m"
  "ma_restartFences (toDisabledLocked m) = ma_restartFences m" "\<not> ma_mutexHeld (toDisabledLocked m)"
  "ma_mu m = ma_mutexHeld m \<Longrightarrow> ma_mu (toDisabledLocked m) = False"
  "ma_mu m = ma_mutexHeld m \<Longrightarrow> ma_gateFault (toDisabledLocked m) = ma_gateFault m"
  "ma_transport (toDisabledLocked m) = ma_transport m" "ma_callbacks (toDisabledLocked m) = ma_callbacks m"
  "ma_idleTimeout (toDisabledLocked m) = ma_idleTimeout m" "\<not> ma_idleExpiryPending (toDisabledLocked m)"
  by (simp_all add: toDisabledLocked_def)

lemma goes_refl: "manager_ok m \<Longrightarrow> goes D m m"
  by (auto simp: goes_def moves_def same_op_def)

lemma manager_okD:
  assumes "manager_ok m"
  shows "ma_mu m = ma_mutexHeld m" "\<not> ma_gateFault m" "ma_mutexHeld m \<longleftrightarrow> ma_state m \<in> owner_states"
    and "ma_restarted m \<Longrightarrow> ma_state m = Disabled \<and> ma_cleanup m = None \<and> ma_pendingOperation m = None"
    and "ma_restarted m \<Longrightarrow> ma_qualified m \<subseteq> ma_restartFences m"
    and "ma_pendingOperation m = Some p \<Longrightarrow> po_handle p < ma_nextHandle m"
    and "ma_cleanup m \<noteq> None \<Longrightarrow> ma_state m = Active \<or> ma_state m = Refreshing \<or> ma_state m = Disabled"
    and "ma_state m = Enabling \<Longrightarrow> \<exists>p. ma_pendingOperation m = Some p \<and> po_Kind p = OperationEnable"
    and "ma_pendingOperation m = Some p \<Longrightarrow> po_Kind p = OperationEnable \<Longrightarrow>
           ma_state m = Enabling \<or> ma_state m = Disabled \<and> ma_cleanup m \<noteq> None"
    and "ma_pendingOperation m = Some p \<Longrightarrow> po_cleanup p \<Longrightarrow>
           po_Kind p = OperationDisable \<and> ma_state m = Disabled \<and> ma_cleanup m \<noteq> None"
    and "ma_state m = Disabled \<Longrightarrow> ma_cleanup m \<noteq> None \<or> ma_restarted m"
  using assms by (simp_all add: manager_ok_def gate_ok_def)

lemma no_obligation: "manager_ok m \<Longrightarrow> ma_state m = Idle \<or> ma_state m = Enabling \<Longrightarrow> ma_cleanup m = None"
  using manager_okD(7)[of m] by (cases "ma_cleanup m") auto

lemma held_unrestarted: "manager_ok m \<Longrightarrow> ma_mutexHeld m \<Longrightarrow> \<not> ma_restarted m"
  and held_not_fenced: "manager_ok m \<Longrightarrow> ma_mutexHeld m \<Longrightarrow> \<not> fenced m"
  using manager_okD(3,4)[of m] by (auto simp: owner_states_def fenced_def)

text \<open>The frame most sections keep, and the four ways in which they end.\<close>

definition same_frame :: "Manager \<Rightarrow> Manager \<Rightarrow> bool" where
  "same_frame m m' \<longleftrightarrow>
     ma_gateFault m' = ma_gateFault m \<and> ma_restarted m' = ma_restarted m \<and> ma_qualified m' = ma_qualified m \<and>
     ma_restartFences m' = ma_restartFences m"

definition keeps_op :: "Manager \<Rightarrow> Manager \<Rightarrow> bool" where
  "keeps_op m m' \<longleftrightarrow>
     ma_pendingOperation m' = None \<or>
     (\<exists>p p'. ma_pendingOperation m = Some p \<and> ma_pendingOperation m' = Some p' \<and> same_op p p')"

lemma goesI:
  assumes "\<not> ma_gateFault m'" and "ma_mu m' = ma_mutexHeld m'" and "ma_mutexHeld m' \<longleftrightarrow> ma_state m' \<in> owner_states"
    and "ma_cleanup m' \<noteq> None \<Longrightarrow> ma_state m' = Active \<or> ma_state m' = Refreshing \<or> ma_state m' = Disabled"
    and "ma_state m' = Enabling \<Longrightarrow> pending_enable m'"
    and "pending_enable m' \<Longrightarrow> ma_state m' = Enabling \<or> ma_state m' = Disabled \<and> ma_cleanup m' \<noteq> None"
    and "\<And>p. ma_pendingOperation m' = Some p \<Longrightarrow> po_cleanup p \<Longrightarrow>
           po_Kind p = OperationDisable \<and> ma_state m' = Disabled \<and> ma_cleanup m' \<noteq> None"
    and "ma_restarted m' \<Longrightarrow> ma_state m' = Disabled \<and> ma_cleanup m' = None \<and> ma_pendingOperation m' = None"
    and "ma_restarted m' \<Longrightarrow> ma_qualified m' \<subseteq> ma_restartFences m'"
    and "\<And>p. ma_pendingOperation m' = Some p \<Longrightarrow> po_handle p < ma_nextHandle m'"
    and "ma_nextHandle m \<le> ma_nextHandle m'" and "ma_qualified m \<subseteq> ma_qualified m'"
    and "bound m \<Longrightarrow> bound m'" and "fenced m \<Longrightarrow> ma_state m' = Disabled"
    and "\<And>p'. ma_pendingOperation m' = Some p' \<Longrightarrow>
           (\<exists>p. ma_pendingOperation m = Some p \<and> same_op p p') \<or>
           ma_nextHandle m \<le> po_handle p' \<and> po_OperationID p' \<in> D"
    and "ma_state m' = Disabled \<Longrightarrow> ma_cleanup m' \<noteq> None \<or> ma_restarted m'"
  shows "goes D m m'"
proof -
  have pe: "pending_enable m' \<longleftrightarrow> (\<exists>p. ma_pendingOperation m' = Some p \<and> po_Kind p = OperationEnable)"
    by (simp add: pending_enable_def split: option.split)
  have "gate_ok m'" unfolding gate_ok_def using assms(1-8,16) pe by metis
  then have "manager_ok m'" using assms(9,10) by (simp add: manager_ok_def)
  moreover have "moves D m m'" unfolding moves_def using assms(11-15) by (auto simp: fenced_def)
  ultimately show ?thesis by (simp add: goes_def)
qed

lemma keeps_op_cases:
  assumes "keeps_op m m'"
  obtains "ma_pendingOperation m' = None"
  | p p' where "ma_pendingOperation m = Some p" "ma_pendingOperation m' = Some p'" "same_op p p'"
  using assms unfolding keeps_op_def by (elim disjE exE conjE) auto

lemma keeps_opE:
  assumes "keeps_op m m'" and "ma_pendingOperation m' = Some p'"
  obtains p where "ma_pendingOperation m = Some p" "same_op p p'"
  using assms by (auto simp: keeps_op_def)

lemma pending_enable_kept: "keeps_op m m' \<Longrightarrow> pending_enable m' \<Longrightarrow> pending_enable m"
  by (erule keeps_op_cases) (simp_all add: pending_enable_def same_op_def)

lemma goes_end:
  assumes ok: "manager_ok m" and fr: "same_frame m m'" and op: "keeps_op m m'" "ma_nextHandle m' = ma_nextHandle m"
    and e: "\<not> ma_restarted m" "\<not> ma_mu m'" "\<not> ma_mutexHeld m'" "ma_state m' = Disabled" "ma_cleanup m' \<noteq> None"
  shows "goes D m m'"
proof (rule goesI)
  have fr': "ma_gateFault m' = ma_gateFault m" "ma_restarted m' = ma_restarted m" "ma_qualified m' = ma_qualified m"
    using fr by (simp_all add: same_frame_def)
  show "\<not> ma_gateFault m'" using manager_okD(2)[OF ok] fr' by simp
  show "ma_mutexHeld m' \<longleftrightarrow> ma_state m' \<in> owner_states" using e by (simp add: owner_states_def)
  show "bound m \<Longrightarrow> bound m'" using e fr' pending_enable_kept[OF op(1)] by (auto simp: bound_def)
  show "ma_restarted m' \<Longrightarrow> ma_state m' = Disabled \<and> ma_cleanup m' = None \<and> ma_pendingOperation m' = None"
    "ma_restarted m' \<Longrightarrow> ma_qualified m' \<subseteq> ma_restartFences m'" "ma_qualified m \<subseteq> ma_qualified m'"
    using e(1) fr' by simp_all
  fix p' assume p': "ma_pendingOperation m' = Some p'"
  then obtain p where p: "ma_pendingOperation m = Some p" "same_op p p'" by (rule keeps_opE[OF op(1)])
  show "po_handle p' < ma_nextHandle m'" using manager_okD(6)[OF ok p(1)] p(2) op(2) by (simp add: same_op_def)
  show "(\<exists>p. ma_pendingOperation m = Some p \<and> same_op p p') \<or> ma_nextHandle m \<le> po_handle p' \<and> po_OperationID p' \<in> D"
    using p by blast
  show "po_cleanup p' \<Longrightarrow> po_Kind p' = OperationDisable \<and> ma_state m' = Disabled \<and> ma_cleanup m' \<noteq> None"
    using manager_okD(10)[OF ok p(1)] p(2) e by (simp add: same_op_def)
qed (use e op in simp_all)

lemma goes_idle:
  assumes ok: "manager_ok m" and fr: "same_frame m m'" and op: "ma_pendingOperation m' = None" "ma_nextHandle m' = ma_nextHandle m"
    and e: "\<not> bound m" "\<not> ma_mu m'" "\<not> ma_mutexHeld m'" "ma_state m' = Idle" "ma_cleanup m' = None"
  shows "goes D m m'"
proof (rule goesI)
  have fr': "ma_gateFault m' = ma_gateFault m" "\<not> ma_restarted m'" "ma_qualified m' = ma_qualified m"
    using fr e(1) by (simp_all add: same_frame_def bound_def)
  show "\<not> ma_gateFault m'" using manager_okD(2)[OF ok] fr' by simp
  show "ma_mutexHeld m' \<longleftrightarrow> ma_state m' \<in> owner_states" using e by (simp add: owner_states_def)
  show "ma_restarted m' \<Longrightarrow> ma_state m' = Disabled \<and> ma_cleanup m' = None \<and> ma_pendingOperation m' = None"
    "ma_restarted m' \<Longrightarrow> ma_qualified m' \<subseteq> ma_restartFences m'" "ma_qualified m \<subseteq> ma_qualified m'"
    using fr' by simp_all
  show "fenced m \<Longrightarrow> ma_state m' = Disabled" using e(1) by (simp add: fenced_def)
qed (use e op in \<open>simp_all add: pending_enable_def\<close>)

lemma goes_owned:
  assumes ok: "manager_ok m" and fr: "same_frame m m'" and op: "keeps_op m m'" "ma_nextHandle m' = ma_nextHandle m"
    and e: "ma_mu m'" "ma_mutexHeld m'" "ma_mutexHeld m" "ma_state m' = Active \<or> ma_state m' = Refreshing"
      "ma_cleanup m \<noteq> None \<longrightarrow> ma_cleanup m' \<noteq> None" "\<not> pending_enable m'"
  shows "goes D m m'"
proof (rule goesI)
  have fr': "ma_gateFault m' = ma_gateFault m" "\<not> ma_restarted m'" "ma_qualified m' = ma_qualified m"
    using fr held_unrestarted[OF ok e(3)] by (simp_all add: same_frame_def)
  show "\<not> ma_gateFault m'" using manager_okD(2)[OF ok] fr' by simp
  show "ma_mutexHeld m' \<longleftrightarrow> ma_state m' \<in> owner_states" using e by (auto simp: owner_states_def)
  show "ma_restarted m' \<Longrightarrow> ma_state m' = Disabled \<and> ma_cleanup m' = None \<and> ma_pendingOperation m' = None"
    "ma_restarted m' \<Longrightarrow> ma_qualified m' \<subseteq> ma_restartFences m'" "ma_qualified m \<subseteq> ma_qualified m'"
    using fr' by simp_all
  show "fenced m \<Longrightarrow> ma_state m' = Disabled" using held_not_fenced[OF ok e(3)] by simp
  show "bound m \<Longrightarrow> bound m'" using e held_unrestarted[OF ok e(3)] by (auto simp: bound_def)
  fix p' assume p': "ma_pendingOperation m' = Some p'"
  then obtain p where p: "ma_pendingOperation m = Some p" "same_op p p'" by (rule keeps_opE[OF op(1)])
  show "po_handle p' < ma_nextHandle m'" using manager_okD(6)[OF ok p(1)] p(2) op(2) by (simp add: same_op_def)
  show "(\<exists>p. ma_pendingOperation m = Some p \<and> same_op p p') \<or> ma_nextHandle m \<le> po_handle p' \<and> po_OperationID p' \<in> D"
    using p by blast
  show "po_cleanup p' \<Longrightarrow> po_Kind p' = OperationDisable \<and> ma_state m' = Disabled \<and> ma_cleanup m' \<noteq> None"
    using manager_okD(10)[OF ok p(1)] manager_okD(3)[OF ok] p(2) e(3) by (simp add: same_op_def owner_states_def)
qed (use e op in \<open>auto simp: owner_states_def\<close>)

lemma goes_same:
  assumes ok: "manager_ok m" and fr: "same_frame m m'" and op: "keeps_op m m'" "ma_nextHandle m' = ma_nextHandle m"
    and e: "ma_mu m' = ma_mu m" "ma_mutexHeld m' = ma_mutexHeld m" "ma_state m' = ma_state m"
      "ma_cleanup m' = None \<longleftrightarrow> ma_cleanup m = None" "ma_state m = Enabling \<Longrightarrow> ma_pendingOperation m' \<noteq> None"
  shows "goes D m m'"
proof (rule goesI)
  have fr': "ma_gateFault m' = ma_gateFault m" "ma_restarted m' = ma_restarted m" "ma_qualified m' = ma_qualified m"
    "ma_restartFences m' = ma_restartFences m"
    using fr by (simp_all add: same_frame_def)
  show "\<not> ma_gateFault m'" using manager_okD(2)[OF ok] fr' by simp
  show "ma_mutexHeld m' \<longleftrightarrow> ma_state m' \<in> owner_states" "ma_mu m' = ma_mutexHeld m'"
    using e manager_okD(1,3)[OF ok] by simp_all
  show "ma_cleanup m' \<noteq> None \<Longrightarrow> ma_state m' = Active \<or> ma_state m' = Refreshing \<or> ma_state m' = Disabled"
    using manager_okD(7)[OF ok] e by simp
  show "pending_enable m'" if en: "ma_state m' = Enabling"
  proof -
    obtain p' where "ma_pendingOperation m' = Some p'" using e(5) en e(3) by (cases "ma_pendingOperation m'") auto
    moreover obtain p where "ma_pendingOperation m = Some p" "po_Kind p = OperationEnable"
      using manager_okD(8)[OF ok] en e(3) by auto
    ultimately show ?thesis using op(1) by (auto simp: keeps_op_def same_op_def pending_enable_def)
  qed
  have "pending_enable m \<Longrightarrow> ma_state m = Enabling \<or> ma_state m = Disabled \<and> ma_cleanup m \<noteq> None"
    using manager_okD(9)[OF ok] by (simp add: pending_enable_def split: option.splits)
  then show "pending_enable m' \<Longrightarrow> ma_state m' = Enabling \<or> ma_state m' = Disabled \<and> ma_cleanup m' \<noteq> None"
    using pending_enable_kept[OF op(1)] e by simp
  show "ma_restarted m' \<Longrightarrow> ma_state m' = Disabled \<and> ma_cleanup m' = None \<and> ma_pendingOperation m' = None"
    using manager_okD(4)[OF ok] fr' e op(1) by (auto simp: keeps_op_def)
  show "ma_restarted m' \<Longrightarrow> ma_qualified m' \<subseteq> ma_restartFences m'" "ma_qualified m \<subseteq> ma_qualified m'"
    using manager_okD(5)[OF ok] fr' by simp_all
  show "ma_state m' = Disabled \<Longrightarrow> ma_cleanup m' \<noteq> None \<or> ma_restarted m'" using manager_okD(11)[OF ok] e fr' by simp
  show "fenced m \<Longrightarrow> ma_state m' = Disabled" using e by (simp add: fenced_def)
  show "bound m \<Longrightarrow> bound m'" using e fr' pending_enable_kept[OF op(1)] by (auto simp: bound_def)
  fix p' assume p': "ma_pendingOperation m' = Some p'"
  then obtain p where p: "ma_pendingOperation m = Some p" "same_op p p'" by (rule keeps_opE[OF op(1)])
  show "po_handle p' < ma_nextHandle m'" using manager_okD(6)[OF ok p(1)] p(2) op(2) by (simp add: same_op_def)
  show "(\<exists>p. ma_pendingOperation m = Some p \<and> same_op p p') \<or> ma_nextHandle m \<le> po_handle p' \<and> po_OperationID p' \<in> D"
    using p by blast
  show "po_cleanup p' \<Longrightarrow> po_Kind p' = OperationDisable \<and> ma_state m' = Disabled \<and> ma_cleanup m' \<noteq> None"
    using manager_okD(10)[OF ok p(1)] p(2) e by (simp add: same_op_def)
qed (use op in simp_all)

text \<open>A new operation: of the owner, or of the clean-up when there is none.\<close>

lemma goes_new:
  assumes ok: "manager_ok m" and fr: "same_frame m m'" and p: "ma_pendingOperation m' = Some p" "po_handle p = ma_nextHandle m"
      "ma_nextHandle m' = ma_nextHandle m + 1" "po_OperationID p \<in> D" "po_Kind p \<noteq> OperationEnable"
    and e: "ma_mu m' = ma_mu m" "ma_mutexHeld m' = ma_mutexHeld m" "ma_cleanup m' = None \<longleftrightarrow> ma_cleanup m = None"
    and k: "po_cleanup p \<and> po_Kind p = OperationDisable \<and> fenced m \<and> \<not> ma_restarted m \<and> ma_state m' = Disabled \<or>
            \<not> po_cleanup p \<and> ma_state m = Active \<and> (ma_state m' = Active \<or> ma_state m' = Refreshing)"
  shows "goes D m m'"
proof (rule goesI)
  have ne: "\<not> pending_enable m'" using p by (simp add: pending_enable_def)
  have un: "\<not> ma_restarted m" using k manager_okD(4)[OF ok] by auto
  have fr': "ma_gateFault m' = ma_gateFault m" "ma_restarted m' = ma_restarted m" "ma_qualified m' = ma_qualified m"
    using fr by (simp_all add: same_frame_def)
  show "\<not> ma_gateFault m'" using manager_okD(2)[OF ok] fr' by simp
  show "ma_mutexHeld m' \<longleftrightarrow> ma_state m' \<in> owner_states" "ma_mu m' = ma_mutexHeld m'"
    using e manager_okD(1,3)[OF ok] k by (auto simp: owner_states_def fenced_def)
  show "ma_state m' = Enabling \<Longrightarrow> pending_enable m'" "pending_enable m' \<Longrightarrow> ma_state m' = Enabling \<or> ma_state m' = Disabled \<and> ma_cleanup m' \<noteq> None"
    "ma_cleanup m' \<noteq> None \<Longrightarrow> ma_state m' = Active \<or> ma_state m' = Refreshing \<or> ma_state m' = Disabled"
    using k ne by auto
  show "ma_restarted m' \<Longrightarrow> ma_state m' = Disabled \<and> ma_cleanup m' = None \<and> ma_pendingOperation m' = None"
    "ma_restarted m' \<Longrightarrow> ma_qualified m' \<subseteq> ma_restartFences m'" "ma_qualified m \<subseteq> ma_qualified m'"
    using un fr' by simp_all
  show "fenced m \<Longrightarrow> ma_state m' = Disabled" using k by (auto simp: fenced_def)
  show "ma_state m' = Disabled \<Longrightarrow> ma_cleanup m' \<noteq> None \<or> ma_restarted m'" using k e(3) by (auto simp: fenced_def bound_def)
  show "bound m \<Longrightarrow> bound m'" using e(3) un ne by (simp add: bound_def)
  fix p' assume p': "ma_pendingOperation m' = Some p'"
  then have eq: "p' = p" using p by simp
  show "po_handle p' < ma_nextHandle m'" using p eq by simp
  show "(\<exists>p. ma_pendingOperation m = Some p \<and> same_op p p') \<or> ma_nextHandle m \<le> po_handle p' \<and> po_OperationID p' \<in> D"
    using p eq by simp
  show "po_cleanup p' \<Longrightarrow> po_Kind p' = OperationDisable \<and> ma_state m' = Disabled \<and> ma_cleanup m' \<noteq> None"
    using k e(3) un eq by (auto simp: fenced_def bound_def)
qed (use p in simp_all)

section \<open>The sections one by one\<close>

lemma keeps_op_same [simp]: "ma_pendingOperation m' = ma_pendingOperation m \<Longrightarrow> keeps_op m m'"
  by (cases "ma_pendingOperation m") (simp_all add: keeps_op_def same_op_def)

lemma keeps_op_none [simp]: "ma_pendingOperation m' = None \<Longrightarrow> keeps_op m m'"
  by (simp add: keeps_op_def)

lemma goes_mark: "manager_ok m \<Longrightarrow> goes {} m (MarkQualifiedTarget t m)"
  by (auto simp: MarkQualifiedTarget_def manager_ok_def gate_ok_def goes_def moves_def bound_def fenced_def pending_enable_def
      same_op_def)

lemma goes_admit: "manager_ok m \<Longrightarrow> goes {} m (fst (AdmitPendingEmission opID t m))"
  by (rule goes_same)
    (auto simp: AdmitPendingEmission_def same_frame_def keeps_op_def same_op_def split: option.splits dest: manager_okD(8))

lemma goes_bind: "manager_ok m \<Longrightarrow> goes {} m (bindPendingContext h m)"
  by (rule goes_same)
    (auto simp: bindPendingContext_def same_frame_def keeps_op_def same_op_def split: option.splits dest: manager_okD(8))

lemma goes_quiet: "manager_ok m \<Longrightarrow> goes {} m (disable_quiet h m)"
  by (rule goes_same) (auto simp: disable_quiet_def same_frame_def dest: manager_okD(8))

lemma goes_record: "manager_ok m \<Longrightarrow> goes {} m (recordCleanupOutcome aid e out m)"
  by (rule goes_same) (auto simp: recordCleanupOutcome_def same_frame_def dest: manager_okD(8))

lemma goes_attempt_end:
  assumes "manager_ok m" and "\<And>p. ma_pendingOperation m = Some p \<Longrightarrow> po_handle p = h \<Longrightarrow> po_cleanup p"
  shows "goes {} m (attempt_end h m)"
proof (rule goes_same[OF assms(1)])
  show "ma_pendingOperation (attempt_end h m) \<noteq> None" if "ma_state m = Enabling"
    using manager_okD(8,10)[OF assms(1)] assms(2) that
    by (cases "ma_pendingOperation m") (auto simp: attempt_end_def is_pending_def)
qed (simp_all add: attempt_end_def same_frame_def)

text \<open>The two ways an owner is dropped.\<close>

lemma goes_disabled:
  assumes ok: "manager_ok m" and h: "\<not> ma_restarted m"
    and m0: "same_frame m m0" "keeps_op m m0" "ma_nextHandle m0 = ma_nextHandle m" "ma_mu m0 = ma_mutexHeld m0"
  shows "goes D m (createCleanupLocked t e src rnd (toDisabledLocked m0))"
  by (rule goes_end[OF ok]) (use assms in \<open>auto simp: same_frame_def keeps_op_def\<close>)

lemma goes_released:
  assumes ok: "manager_ok m" and h: "\<not> ma_restarted m"
    and m0: "same_frame m m0" "keeps_op m m0" "ma_nextHandle m0 = ma_nextHandle m" "ma_mu m0 = ma_mutexHeld m0"
  shows "goes D m (createCleanupLocked t e src rnd ((releaseOwnerLocked m0)\<lparr> ma_state := Disabled \<rparr>))"
  by (rule goes_end[OF ok]) (use assms in \<open>auto simp: same_frame_def keeps_op_def\<close>)

lemma goes_map_cleanup:
  assumes "goes D m m'"
  shows "goes D m (map_cleanup f m')"
  using assms by (simp add: goes_def manager_ok_def gate_ok_def moves_def bound_def fenced_def pending_enable_def)

lemma goes_abandon:
  assumes "manager_ok m" and "\<not> ma_restarted m" and "same_frame m m0" "ma_nextHandle m0 = ma_nextHandle m"
    "ma_mu m0 = ma_mutexHeld m0"
  shows "goes D m (abandon_pending t e opID rnd m0)"
  unfolding abandon_pending_def by (rule goes_disabled) (use assms in \<open>simp_all add: same_frame_def\<close>)

lemma goes_enable_admit:
  assumes ok: "manager_ok m"
  shows "goes {fst (newCleanupAttemptID rnd m)} m (fst (enable_admit issued rnd t m))"
proof (cases "t \<in> ma_restartFences m \<or> ma_cleanup m \<noteq> None \<or> ma_state m \<noteq> Idle")
  case True
  then show ?thesis using goes_refl[OF ok] by (auto simp: enable_admit_def)
next
  case False
  then have idle: "ma_state m = Idle" "ma_cleanup m = None" "t \<notin> ma_restartFences m" by auto
  then have free: "\<not> ma_mutexHeld m" "\<not> ma_mu m" "\<not> ma_gateFault m" "\<not> ma_restarted m"
    using manager_okD(1-4)[OF ok] by (auto simp: owner_states_def)
  show ?thesis
  proof (cases issued)
    case (Inl e)
    show ?thesis
      by (rule goes_same[OF ok]) (use idle free Inl in \<open>simp_all add: enable_admit_def gate_lock_def same_frame_def\<close>)
  next
    case (Inr tok)
    let ?m = "fst (enable_admit issued rnd t m)"
    have eff: "ma_state ?m = Enabling" "ma_mutexHeld ?m" "ma_mu ?m" "\<not> ma_gateFault ?m" "ma_cleanup ?m = None" "\<not> ma_restarted ?m"
      "ma_qualified ?m = ma_qualified m" "ma_nextHandle ?m = ma_nextHandle m + 1"
      using idle free Inr by (simp_all add: enable_admit_def gate_lock_def put_pending_def Let_def case_prod_beta)
    obtain p where p: "ma_pendingOperation ?m = Some p" "po_handle p = ma_nextHandle m" "po_Kind p = OperationEnable" "\<not> po_cleanup p"
      "po_OperationID p = fst (newCleanupAttemptID rnd m)"
      using idle free Inr by (simp add: enable_admit_def gate_lock_def put_pending_def new_pending_def Let_def case_prod_beta
          newCleanupAttemptID_def split: option.splits)
    show ?thesis
      by (rule goesI)
        (use eff p idle free in \<open>simp_all add: owner_states_def pending_enable_def bound_def fenced_def\<close>)
  qed
qed

lemma enable_settle_goes:
  assumes ok: "manager_ok m0" and m: "same_frame m0 m" "ma_pendingOperation m = None" "ma_nextHandle m = ma_nextHandle m0"
      "ma_mu m = ma_mu m0" "ma_mutexHeld m = ma_mutexHeld m0" "ma_state m0 = Enabling" "ma_cleanup m = ma_cleanup m0"
  shows "goes {} m0 (fst (enable_settle opID tok t adv out rnd m))" and "bound (fst (enable_settle opID tok t adv out rnd m))"
    and "fst (snd (enable_settle opID tok t adv out rnd m)) = Some e \<Longrightarrow> fenced (fst (enable_settle opID tok t adv out rnd m))"
proof -
  have h: "ma_mutexHeld m0" "ma_mu m0" using manager_okD(1,3)[OF ok] m(6) by (simp_all add: owner_states_def)
  have none: "ma_cleanup m0 = None" using no_obligation[OF ok] m(6) by simp
  let ?c = "map_cleanup (origin_outcome out) (createCleanupLocked t (tk_TransportEpoch (ma_transport m)) opID rnd m)"
  show "goes {} m0 (fst (enable_settle opID tok t adv out rnd m))"
  proof (cases "do_Native out = NativeACK \<and> do_Err out = None \<and> \<not> adv")
    case True
    then have "fst (enable_settle opID tok t adv out rnd m) = armIdleTimerLocked (?c\<lparr> ma_state := Active \<rparr>)"
      by (simp add: enable_settle_def Let_def)
    moreover have "goes {} m0 (armIdleTimerLocked (?c\<lparr> ma_state := Active \<rparr>))"
      by (rule goes_owned[OF ok]) (use m h none in \<open>simp_all add: same_frame_def pending_enable_def\<close>)
    ultimately show ?thesis by simp
  next
    case False
    then have "fst (enable_settle opID tok t adv out rnd m) = (releaseOwnerLocked ?c)\<lparr> ma_state := Disabled \<rparr>"
      by (auto simp: enable_settle_def Let_def)
    moreover have "goes {} m0 ((releaseOwnerLocked ?c)\<lparr> ma_state := Disabled \<rparr>)"
      by (rule goes_end[OF ok]) (use m h held_unrestarted[OF ok] in \<open>simp_all add: same_frame_def\<close>)
    ultimately show ?thesis by simp
  qed
  show "bound (fst (enable_settle opID tok t adv out rnd m))"
    using m(2) by (simp add: enable_settle_def Let_def bound_def pending_enable_def)
  show "fenced (fst (enable_settle opID tok t adv out rnd m))" if "fst (snd (enable_settle opID tok t adv out rnd m)) = Some e"
    using that m(2) by (simp add: enable_settle_def Let_def fenced_def bound_def pending_enable_def split: if_splits)
qed

lemma enable_finish_goes:
  assumes ok: "manager_ok m"
    and own: "\<And>p. ma_pendingOperation m = Some p \<Longrightarrow> po_handle p = h \<Longrightarrow> po_Kind p = OperationEnable"
  shows "goes {} m (fst (enable_finish h opID tok t out rnd m))"
    and "is_pending h m \<Longrightarrow> do_Emitted out \<Longrightarrow> bound (fst (enable_finish h opID tok t out rnd m))"
    and "fst (snd (enable_finish h opID tok t out rnd m)) = Some e \<Longrightarrow> fenced (fst (enable_finish h opID tok t out rnd m))"
proof -
  let ?f = "enable_finish h opID tok t out rnd m"
  have "goes {} m (fst ?f) \<and> (is_pending h m \<longrightarrow> do_Emitted out \<longrightarrow> bound (fst ?f)) \<and>
    (fst (snd ?f) = Some e \<longrightarrow> fenced (fst ?f))"
  proof (cases "is_pending h m")
    case False
    then have "?f = (m, None, error_or_down out)" by (auto simp: enable_finish_def is_pending_def split: option.splits)
    with False goes_refl[OF ok] show ?thesis by simp
  next
    case True
    then obtain p where p: "ma_pendingOperation m = Some p" "po_handle p = h" by (auto simp: is_pending_def split: option.splits)
    have en: "po_Kind p = OperationEnable" by (rule own[OF p])
    have nb: "\<not> bound m" "\<not> ma_restarted m" using p(1) en manager_okD(4)[OF ok] by (auto simp: bound_def pending_enable_def)
    define adv where "adv = (ma_pendingEpoch m > tk_TransportEpoch (po_Transport p))"
    define m2 where "m2 = (if adv then set_epoch (ma_pendingEpoch m) (m\<lparr> ma_pendingOperation := None \<rparr>) else m\<lparr> ma_pendingOperation := None \<rparr>)"
    have m2: "same_frame m m2" "ma_pendingOperation m2 = None" "ma_nextHandle m2 = ma_nextHandle m" "ma_mu m2 = ma_mu m"
      "ma_mutexHeld m2 = ma_mutexHeld m" "ma_state m2 = ma_state m" "ma_cleanup m2 = ma_cleanup m"
      by (simp_all add: m2_def same_frame_def)
    have f: "?f = (if ma_state m2 \<noteq> Enabling then (enable_interrupted opID out m2, None, error_or_down out)
        else if \<not> do_Emitted out then ((releaseOwnerLocked m2)\<lparr> ma_state := Idle \<rparr>, None,
               case do_Err out of Some e \<Rightarrow> ReturnedError e | None \<Rightarrow> ReturnedKey zero_key)
        else enable_settle opID tok t adv out rnd m2)"
      by (simp add: enable_finish_def p Let_def adv_def[symmetric] m2_def[symmetric])
    show ?thesis
    proof (cases "ma_state m = Enabling")
      case False
      then have dis: "ma_state m = Disabled" "ma_cleanup m \<noteq> None" using manager_okD(9)[OF ok p(1) en] by auto
      then have free: "\<not> ma_mutexHeld m" "\<not> ma_mu m" using manager_okD(1,3)[OF ok] by (simp_all add: owner_states_def)
      have i: "?f = (enable_interrupted opID out m2, None, error_or_down out)" using f False m2(6) by simp
      show ?thesis
      proof (cases "do_Emitted out")
        case True
        have "goes {} m (enable_interrupted opID out m2)"
          by (rule goes_end[OF ok]) (use True m2 dis free nb in \<open>simp_all add: enable_interrupted_def same_frame_def\<close>)
        moreover have "bound (enable_interrupted opID out m2)"
          using True m2(2,7) dis(2) by (simp add: enable_interrupted_def bound_def pending_enable_def)
        ultimately show ?thesis using i by simp
      next
        case False
        let ?c = "clearCleanupForOperationLocked opID m2"
        have e: "enable_interrupted opID out m2 = toIdleLocked ?c" using False by (simp add: enable_interrupted_def)
        have "goes {} m (toIdleLocked ?c)"
        proof (cases "ma_cleanup ?c")
          case None
          show ?thesis
            by (rule goes_idle[OF ok]) (use None m2 free nb in \<open>simp_all add: toIdleLocked_def same_frame_def\<close>)
        next
          case (Some c)
          then have "toIdleLocked ?c = ?c" by (simp add: toIdleLocked_def)
          moreover have "goes {} m ?c"
            by (rule goes_end[OF ok]) (use Some m2 dis free nb in \<open>simp_all add: same_frame_def\<close>)
          ultimately show ?thesis by simp
        qed
        then show ?thesis using i e False by simp
      qed
    next
      case True
      then have own: "ma_mutexHeld m" "ma_mu m" using manager_okD(1,3)[OF ok] by (simp_all add: owner_states_def)
      have none: "ma_cleanup m = None" using no_obligation[OF ok] True by simp
      show ?thesis
      proof (cases "do_Emitted out")
        case em: True
        have s: "?f = enable_settle opID tok t adv out rnd m2" using f True em m2(6) by simp
        show ?thesis unfolding s
          using enable_settle_goes(1,2)[OF ok m2(1-5) True m2(7)] enable_settle_goes(3)[OF ok m2(1-5) True m2(7), where e = e]
          by blast
      next
        case False
        have "goes {} m ((releaseOwnerLocked m2)\<lparr> ma_state := Idle \<rparr>)"
          by (rule goes_idle[OF ok]) (use m2 own nb none in \<open>simp_all add: same_frame_def\<close>)
        then show ?thesis using f True False m2(6) by simp
      qed
    qed
  qed
  then show "goes {} m (fst ?f)" "is_pending h m \<Longrightarrow> do_Emitted out \<Longrightarrow> bound (fst ?f)"
    "fst (snd ?f) = Some e \<Longrightarrow> fenced (fst ?f)" by blast+
qed

lemma new_owner_op:
  assumes ok: "manager_ok m" and a: "ma_state m = Active" and k: "k \<noteq> OperationEnable"
    and m1_def: "(opID, m1) = newCleanupAttemptID rnd m"
  shows "goes {opID} m (put_pending (new_pending opID k t m1) m1)"
    and "goes {opID} m ((put_pending (new_pending opID k t m1) m1)\<lparr> ma_state := Refreshing \<rparr>)"
  unfolding arg_cong[where f = snd, OF m1_def, simplified]
  by (rule goes_new[OF ok, where p = "new_pending opID k t (snd (newCleanupAttemptID rnd m))"];
      use a k in \<open>simp add: put_pending_def new_pending_def same_frame_def\<close>)+

lemma owner_begin_goes:
  assumes ok: "manager_ok m" and k: "k \<noteq> OperationEnable"
  shows "goes {fst (newCleanupAttemptID rnd m)} m (fst (owner_begin t key k rnd m))"
proof -
  let ?opID = "fst (newCleanupAttemptID rnd m)" and ?m1 = "snd (newCleanupAttemptID rnd m)"
  let ?m2 = "put_pending (new_pending ?opID k t ?m1) ?m1"
  have "fst (owner_begin t key k rnd m) = m \<or>
      ma_state m = Active \<and> (fst (owner_begin t key k rnd m) = ?m2 \<or> fst (owner_begin t key k rnd m) = ?m2\<lparr> ma_state := Refreshing \<rparr>)"
    by (simp add: owner_begin_def Let_def case_prod_beta)
  then show ?thesis using goes_refl[OF ok] new_owner_op[OF ok _ k surjective_pairing[symmetric]] by metis
qed

lemma pending_at:
  assumes "is_pending h m"
  obtains p where "ma_pendingOperation m = Some p" "po_handle p = h"
  using assms by (auto simp: is_pending_def split: option.splits)

lemma owner_unrestarted: "manager_ok m \<Longrightarrow> ma_pendingOperation m = Some p \<Longrightarrow> \<not> ma_restarted m"
  using manager_okD(4)[of m] by auto

lemma not_enabling:
  assumes "manager_ok m" "ma_pendingOperation m = Some p" "po_Kind p \<noteq> OperationEnable"
  shows "ma_state m \<noteq> Enabling" "\<not> pending_enable m"
  using manager_okD(8)[OF assms(1)] assms(2,3) by (auto simp: pending_enable_def)

lemma goes_settled:
  assumes ok: "manager_ok m" and p: "ma_pendingOperation m = Some p" "po_Kind p \<noteq> OperationEnable"
  shows "goes {} m (m\<lparr> ma_pendingOperation := None, ma_idleExpiryPending := b \<rparr>)"
    and "goes {} m (armIdleTimerLocked (m\<lparr> ma_pendingOperation := None, ma_idleExpiryPending := b \<rparr>))"
    and "goes {} m (m\<lparr> ma_pendingOperation := None \<rparr>)"
  by (rule goes_same[OF ok]; use not_enabling(1)[OF ok p] in \<open>simp add: same_frame_def\<close>)+

lemma consume_goes:
  assumes ok: "manager_ok m" and p: "ma_pendingOperation m = Some p" "po_Kind p \<noteq> OperationEnable"
    and c_def: "c = consumeIdleExpiryAfterReadLocked t src rnd (m\<lparr> ma_pendingOperation := None \<rparr>)"
  shows "goes {} m (fst c)" and "snd c = Some e \<Longrightarrow> fenced (fst c)"
proof -
  let ?m = "m\<lparr> ma_pendingOperation := None, ma_idleExpiryPending := False \<rparr>"
  have un: "\<not> ma_restarted m" by (rule owner_unrestarted[OF ok p(1)])
  have e: "goes {} m (createCleanupLocked t e' src rnd (toDisabledLocked ?m))" for e'
    by (rule goes_disabled[OF ok un]) (use manager_okD(1)[OF ok] in \<open>simp_all add: same_frame_def\<close>)
  show "goes {} m (fst c)"
    using e goes_settled(1)[OF ok p, of False] goes_settled(3)[OF ok p]
    by (simp add: c_def consumeIdleExpiryAfterReadLocked_def Let_def)
  show "fenced (fst c)" if "snd c = Some e"
    using that
    by (simp add: c_def consumeIdleExpiryAfterReadLocked_def Let_def fenced_def bound_def pending_enable_def split: if_splits)
qed

lemma read_finish_goes:
  assumes ok: "manager_ok m"
    and own: "\<And>p. ma_pendingOperation m = Some p \<Longrightarrow> po_handle p = h \<Longrightarrow> po_Kind p \<noteq> OperationEnable"
    and f_def: "f = read_finish t h opID out rnd m"
  shows "goes {} m (fst f)" and "fst (snd f) = Some e \<Longrightarrow> fenced (fst f)"
proof -
  have "goes {} m (fst f) \<and> (fst (snd f) = Some e \<longrightarrow> fenced (fst f))"
  proof (cases "is_pending h m")
    case False
    then have "f = (m, None, error_or_down out)" by (auto simp: f_def read_finish_def is_pending_def split: option.splits)
    with goes_refl[OF ok] show ?thesis by simp
  next
    case True
    then obtain p where p: "ma_pendingOperation m = Some p" "po_handle p = h" by (rule pending_at)
    have ne: "po_Kind p \<noteq> OperationEnable" by (rule own[OF p])
    have un: "\<not> ma_restarted m" by (rule owner_unrestarted[OF ok p(1)])
    let ?m = "m\<lparr> ma_pendingOperation := None \<rparr>" and ?x = "consumeIdleExpiryAfterReadLocked t opID rnd (m\<lparr> ma_pendingOperation := None \<rparr>)"
    have down: "goes {} m ((createCleanupLocked t e' opID rnd (toDisabledLocked ?m))\<lparr> ma_lastRefreshTransportDown := True \<rparr>)" for e'
      by (rule goes_end[OF ok]) (use un manager_okD(1)[OF ok] in \<open>simp_all add: same_frame_def\<close>)
    show ?thesis
      using down consume_goes[OF ok p(1) ne refl] goes_settled(2)[OF ok p(1) ne, of False] p
      by (auto simp: f_def read_finish_def Let_def split: option.split)
  qed
  then show "goes {} m (fst f)" "fst (snd f) = Some e \<Longrightarrow> fenced (fst f)" by blast+
qed

lemma disable_finish_goes:
  assumes ok: "manager_ok m"
    and own: "\<And>p. ma_pendingOperation m = Some p \<Longrightarrow> po_handle p = h \<Longrightarrow> po_Kind p \<noteq> OperationEnable"
  shows "goes {} m (fst (disable_finish t h opID out rnd m))"
proof (cases "is_pending h m")
  case False
  then have "disable_finish t h opID out rnd m = (m, None, error_or_down out)"
    by (auto simp: disable_finish_def is_pending_def split: option.splits)
  with goes_refl[OF ok] show ?thesis by simp
next
  case True
  then obtain p where p: "ma_pendingOperation m = Some p" "po_handle p = h" by (rule pending_at)
  have ne: "po_Kind p \<noteq> OperationEnable" by (rule own[OF p])
  have un: "\<not> ma_restarted m" by (rule owner_unrestarted[OF ok p(1)])
  let ?m = "m\<lparr> ma_pendingOperation := None \<rparr>"
  have "goes {} m (map_cleanup f (createCleanupLocked t e opID rnd
      ((if ma_mutexHeld ?m then releaseOwnerLocked ?m else ?m)\<lparr> ma_state := Disabled \<rparr>)))" for f e
    by (rule goes_map_cleanup, rule goes_end[OF ok])
      (use un manager_okD(1)[OF ok] in \<open>simp_all add: same_frame_def\<close>)
  then show ?thesis using goes_settled(2)[OF ok p(1) ne, of False] p
    by (simp add: disable_finish_def Let_def)
qed

lemma goes_rehome:
  assumes ok: "manager_ok m" and p: "ma_pendingOperation m = Some p" "po_Kind p \<noteq> OperationEnable" and h: "ma_mutexHeld m"
  shows "goes {} m (owner_rehome tr m)"
proof (rule goes_owned[OF ok])
  show "keeps_op m (owner_rehome tr m)" using p by (simp add: owner_rehome_def keeps_op_def same_op_def)
  show "\<not> pending_enable (owner_rehome tr m)" using p by (simp add: owner_rehome_def pending_enable_def)
qed (use h manager_okD(1)[OF ok] in \<open>simp_all add: owner_rehome_def same_frame_def\<close>)

lemma owner_refreshed_goes:
  assumes ok: "manager_ok m"
    and own: "\<And>p. ma_pendingOperation m = Some p \<Longrightarrow> po_handle p = h \<Longrightarrow> po_Kind p \<noteq> OperationEnable"
  shows "goes {} m (fst (owner_refreshed t h opID att r rnd m))"
proof (cases "is_pending h m \<and> ma_mutexHeld m \<and> ma_state m = Refreshing")
  case False
  then have "fst (owner_refreshed t h opID att r rnd m) = m"
    by (auto simp: owner_refreshed_def is_pending_def Let_def split: option.splits)
  with goes_refl[OF ok] show ?thesis by simp
next
  case True
  then obtain p where p: "ma_pendingOperation m = Some p" "po_handle p = h" by (auto elim: pending_at)
  have ne: "po_Kind p \<noteq> OperationEnable" by (rule own[OF p])
  have un: "\<not> ma_restarted m" by (rule owner_unrestarted[OF ok p(1)])
  have ab: "goes {} m (abandon_pending t e src rnd m)" "goes {} m (abandon_pending t e src rnd (m\<lparr> ma_lastRefreshTransportDown := True \<rparr>))"
    "goes {} m (abandon_pending t e src rnd (m\<lparr> ma_refreshFailed := True \<rparr>))" for e src
    by (rule goes_abandon[OF ok un]; use manager_okD(1)[OF ok] in \<open>simp add: same_frame_def\<close>)+
  show ?thesis
    using ab goes_rehome[OF ok p(1) ne] True p
    by (simp add: owner_refreshed_def Let_def split: sum.split)
qed

lemma attempt_begin_goes:
  assumes ok: "manager_ok m" and f: "fenced m"
  shows "goes {fst (newCleanupAttemptID rnd m)} m (fst (attempt_begin e rnd m))"
proof (cases "fst (attempt_begin e rnd m) = m")
  case True
  with goes_refl[OF ok] show ?thesis by simp
next
  case False
  then obtain c where c: "ma_cleanup m = Some c" "\<not> ma_restarted m" "ma_cleanupDispatch m"
      "\<not> (co_LastAttempted c \<and> co_LastAttemptEpoch c = e)"
    by (auto simp: attempt_begin_def split: option.splits if_splits)
  let ?c = "c\<lparr> co_LastAttemptEpoch := e, co_LastAttempted := True, co_TransportEpoch := e \<rparr>"
  let ?n = "newCleanupAttemptID rnd (m\<lparr> ma_cleanup := Some ?c \<rparr>)"
  let ?p = "(new_pending (fst ?n) OperationDisable (co_Target c) (snd ?n))\<lparr> po_cleanup := True \<rparr>"
  have m': "fst (attempt_begin e rnd m) = put_pending ?p (snd ?n)"
    using c by (auto simp: attempt_begin_def Let_def case_prod_beta)
  have id: "fst ?n = fst (newCleanupAttemptID rnd m)" by (simp add: newCleanupAttemptID_def Let_def split: option.split)
  show ?thesis unfolding m'
    by (rule goes_new[OF ok, where p = ?p])
      (use c f id in \<open>simp_all add: put_pending_def new_pending_def same_frame_def fenced_def\<close>)
qed

lemma idleTimerFired_goes:
  assumes ok: "manager_ok m"
  shows "goes {fst (newCleanupAttemptID rnd1 m)} m (fst (idleTimerFired gen rnd1 rnd2 m))"
    and "snd (idleTimerFired gen rnd1 rnd2 m) = IdleCleanup e \<Longrightarrow> fenced (fst (idleTimerFired gen rnd1 rnd2 m))"
proof -
  let ?f = "idleTimerFired gen rnd1 rnd2 m"
  let ?opID = "fst (newCleanupAttemptID rnd1 m)" and ?m1 = "snd (newCleanupAttemptID rnd1 m)"
  have flag: "goes D m (m\<lparr> ma_idleExpiryPending := True \<rparr>)" for D
    by (rule goes_same[OF ok]) (use manager_okD(8)[OF ok] in \<open>auto simp: same_frame_def\<close>)
  have exp: "goes D m (createCleanupLocked t e' src rnd2 (toDisabledLocked ?m1))" if "ma_state m = Active" for D t e' src
    by (rule goes_disabled[OF ok]) (use that manager_okD(1,4)[OF ok] in \<open>auto simp: same_frame_def\<close>)
  have "goes {?opID} m (fst ?f) \<and> (\<forall>e. snd ?f = IdleCleanup e \<longrightarrow> fenced (fst ?f))"
  proof (cases "gen = ma_idleTimerGen m \<and> ma_state m = Active")
    case False
    then have "?f = (m, IdleStale)" by (auto simp: idleTimerFired_def)
    with goes_refl[OF ok] show ?thesis by simp
  next
    case True
    note ref = new_owner_op(2)[OF ok _ _ surjective_pairing[symmetric], of OperationDisable rnd1 "ma_activeTarget m"]
    have f: "?f = (case ma_pendingOperation m of
           Some p \<Rightarrow> (if po_Kind p = OperationRead then m\<lparr> ma_idleExpiryPending := True \<rparr> else m, IdleStale)
         | None \<Rightarrow> if ma_pendingEpoch m > tk_TransportEpoch (ma_transport m)
             then ((put_pending (new_pending ?opID OperationDisable (ma_activeTarget m) ?m1) ?m1)\<lparr> ma_state := Refreshing \<rparr>,
                   IdleRefresh (po_handle (new_pending ?opID OperationDisable (ma_activeTarget m) ?m1)) ?opID (ma_activeTarget m) (ma_pendingEpoch m))
             else (createCleanupLocked (ma_activeTarget m) (tk_TransportEpoch (ma_transport m)) ?opID rnd2 (toDisabledLocked ?m1),
                   IdleCleanup (tk_TransportEpoch (ma_transport m))))"
      using True by (simp add: idleTimerFired_def Let_def case_prod_beta split: option.split)
    show ?thesis
    proof (cases "ma_pendingOperation m")
      case None
      then show ?thesis using True exp ref unfolding f by (simp add: fenced_def bound_def pending_enable_def)
    next
      case (Some p)
      then show ?thesis using flag goes_refl[OF ok] unfolding f by simp
    qed
  qed
  then show "goes {?opID} m (fst ?f)" "snd ?f = IdleCleanup e \<Longrightarrow> fenced (fst ?f)" by blast+
qed

lemma idle_refreshed_goes:
  assumes ok: "manager_ok m"
    and own: "\<And>p. ma_pendingOperation m = Some p \<Longrightarrow> po_handle p = h \<Longrightarrow> po_Kind p \<noteq> OperationEnable"
  shows "goes {} m (fst (idle_refreshed h opID t att r rnd m))"
proof (cases "is_pending h m \<and> ma_mutexHeld m \<and> ma_state m = Refreshing")
  case False
  then have "fst (idle_refreshed h opID t att r rnd m) = m"
    by (auto simp: idle_refreshed_def is_pending_def split: option.splits)
  with goes_refl[OF ok] show ?thesis by simp
next
  case True
  then obtain p where p: "ma_pendingOperation m = Some p" "po_handle p = h" by (auto elim: pending_at)
  have ne: "po_Kind p \<noteq> OperationEnable" by (rule own[OF p])
  have un: "\<not> ma_restarted m" by (rule owner_unrestarted[OF ok p(1)])
  have ab: "goes {} m (abandon_pending t (ma_observedEpoch m) opID rnd m)"
    by (rule goes_abandon[OF ok un]) (use manager_okD(1)[OF ok] in \<open>simp_all add: same_frame_def\<close>)
  have re: "goes {} m (m\<lparr> ma_transport := tr, ma_observedEpoch := tk_TransportEpoch tr, ma_pendingEpoch := 0,
                          ma_state := Active, ma_pendingOperation := Some (p\<lparr> po_Transport := tr \<rparr>) \<rparr>)" for tr
    by (rule goes_owned[OF ok])
      (use True p ne manager_okD(1)[OF ok] in \<open>simp_all add: same_frame_def keeps_op_def same_op_def pending_enable_def\<close>)
  show ?thesis using ab re True p by (simp add: idle_refreshed_def split: sum.split)
qed

lemma idle_end_goes:
  assumes ok: "manager_ok m"
  shows "goes {} m (idle_undispatched h opID t tr rnd m)" and "goes {} m (idle_finish h opID t tr out rnd m)"
proof -
  have un: "is_pending h m \<Longrightarrow> \<not> ma_restarted m" using owner_unrestarted[OF ok] by (auto elim: pending_at)
  have e: "goes {} m (createCleanupLocked t e opID rnd (toDisabledLocked (m\<lparr> ma_pendingOperation := None \<rparr>)))"
    "goes {} m (createCleanupLocked t e opID rnd ((releaseOwnerLocked (m\<lparr> ma_pendingOperation := None \<rparr>))\<lparr> ma_state := Disabled \<rparr>))"
    "goes {} m (abandon_pending t e opID rnd m)" if "is_pending h m" for e
    using goes_disabled[OF ok un[OF that]] goes_released[OF ok un[OF that]] goes_abandon[OF ok un[OF that]] manager_okD(1)[OF ok]
    by (simp_all add: same_frame_def)
  show "goes {} m (idle_undispatched h opID t tr rnd m)"
    using e(1) goes_refl[OF ok] by (simp add: idle_undispatched_def)
  show "goes {} m (idle_finish h opID t tr out rnd m)"
  proof (cases "is_pending h m")
    case False
    then have "idle_finish h opID t tr out rnd m = m" by (auto simp: idle_finish_def is_pending_def split: option.splits)
    with goes_refl[OF ok] show ?thesis by simp
  next
    case True
    then obtain p where p: "ma_pendingOperation m = Some p" "po_handle p = h" by (rule pending_at)
    show ?thesis using goes_map_cleanup[OF e(2)[OF True]] goes_map_cleanup[OF e(3)[OF True]] p
      by (simp add: idle_finish_def Let_def)
  qed
qed

lemma invalidate_fields [simp]:
  "ma_state (invalidate_pending m) = ma_state m" "ma_cleanup (invalidate_pending m) = ma_cleanup m"
  "ma_restarted (invalidate_pending m) = ma_restarted m" "ma_nextHandle (invalidate_pending m) = ma_nextHandle m"
  "ma_qualified (invalidate_pending m) = ma_qualified m" "ma_restartFences (invalidate_pending m) = ma_restartFences m"
  "ma_mutexHeld (invalidate_pending m) = ma_mutexHeld m" "ma_mu (invalidate_pending m) = ma_mu m"
  "ma_gateFault (invalidate_pending m) = ma_gateFault m" "ma_transport (invalidate_pending m) = ma_transport m"
  "ma_callbacks (invalidate_pending m) = ma_callbacks m" "ma_idleTimeout (invalidate_pending m) = ma_idleTimeout m"
  "ma_idleExpiryPending (invalidate_pending m) = ma_idleExpiryPending m"
  "ma_idleTimerGen (invalidate_pending m) = ma_idleTimerGen m" "ma_activeTarget (invalidate_pending m) = ma_activeTarget m"
  "ma_pendingOperation (invalidate_pending m) = map_option (\<lambda>p. p\<lparr> po_invalidated := True \<rparr>) (ma_pendingOperation m)"
  by (simp_all add: invalidate_pending_def split: option.split)

lemma keeps_op_invalidated:
  assumes "ma_pendingOperation m' = map_option (\<lambda>p. p\<lparr> po_invalidated := True \<rparr>) (ma_pendingOperation m)"
  shows "keeps_op m m'"
  using assms by (cases "ma_pendingOperation m") (simp_all add: keeps_op_def same_op_def)

lemma unsent_enableE:
  assumes "unsent_enable m = Some p"
  shows "ma_pendingOperation m = Some p" "po_Kind p = OperationEnable" "\<not> po_Emitted p"
  using assms by (auto simp: unsent_enable_def split: option.splits if_splits)

lemma drop_enable_goes:
  assumes ok: "manager_ok m" and p: "ma_pendingOperation m = Some q" "po_Kind q = OperationEnable" and s: "ma_state m = Enabling"
    and m0: "same_frame m m0" "ma_nextHandle m0 = ma_nextHandle m" "ma_mu m0 = ma_mu m" "ma_mutexHeld m0 = ma_mutexHeld m"
      "ma_cleanup m0 = ma_cleanup m"
  shows "goes D m (drop_enable p m0)"
proof -
  have none: "ma_cleanup m = None" using no_obligation[OF ok] s by simp
  have nb: "\<not> bound m" using p manager_okD(4)[OF ok] by (auto simp: bound_def pending_enable_def)
  show ?thesis
    by (rule goes_idle[OF ok]) (use m0 none nb manager_okD(1)[OF ok] in \<open>simp_all add: drop_enable_def same_frame_def\<close>)
qed

lemma disconnect_goes:
  assumes ok: "manager_ok m"
  shows "goes {} m (OnTransportDisconnect rnd m)"
proof (cases "ma_mutexHeld m")
  case False
  then show ?thesis using goes_refl[OF ok] by (simp add: OnTransportDisconnect_def)
next
  case held: True
  let ?m = "invalidate_pending m"
  have fr: "same_frame m ?m" "keeps_op m ?m" by (simp_all add: same_frame_def keeps_op_invalidated)
  show ?thesis
  proof (cases "unsent_enable ?m")
    case (Some p)
    then obtain q where q: "ma_pendingOperation m = Some q" "po_Kind q = OperationEnable"
      using unsent_enableE[OF Some] by auto
    then have "ma_state m = Enabling" using manager_okD(3)[OF ok] manager_okD(9)[OF ok q] held by (auto simp: owner_states_def)
    then show ?thesis using drop_enable_goes[OF ok q, of ?m] fr Some held by (simp add: OnTransportDisconnect_def)
  next
    case None
    have "goes {} m (createCleanupLocked t e src rnd (toDisabledLocked ?m))" for t e src
      by (rule goes_disabled[OF ok held_unrestarted[OF ok held] fr]) (use manager_okD(1)[OF ok] in simp_all)
    then show ?thesis using None held by (simp add: OnTransportDisconnect_def Let_def case_prod_beta)
  qed
qed

lemma epoch_goes:
  assumes ok: "manager_ok m"
  shows "goes {} m (OnEpochAdvance e m)"
proof (cases "e \<le> ma_observedEpoch m")
  case True
  then show ?thesis using goes_refl[OF ok] by (simp add: OnEpochAdvance_def)
next
  case new: False
  let ?m = "invalidate_pending (m\<lparr> ma_observedEpoch := e, ma_lastRefreshTransportDown := False \<rparr>)"
  have fr: "same_frame m ?m" "keeps_op m ?m" by (simp_all add: same_frame_def keeps_op_invalidated)
  have f: "OnEpochAdvance e m = (case (if ma_state ?m = Enabling then unsent_enable ?m else None) of
           Some p \<Rightarrow> drop_enable p (set_epoch e ?m)
         | None \<Rightarrow> if ma_mutexHeld ?m then ?m\<lparr> ma_pendingEpoch := e \<rparr> else (set_epoch e ?m)\<lparr> ma_pendingEpoch := 0 \<rparr>)"
    using new by (simp add: OnEpochAdvance_def Let_def)
  show ?thesis
  proof (cases "if ma_state ?m = Enabling then unsent_enable ?m else None")
    case (Some p)
    then have en: "ma_state m = Enabling" and u: "unsent_enable ?m = Some p" by (auto split: if_splits)
    obtain q where q: "ma_pendingOperation m = Some q" "po_Kind q = OperationEnable" using unsent_enableE[OF u] by auto
    have "goes {} m (drop_enable p (set_epoch e ?m))"
      by (rule drop_enable_goes[OF ok q en]) (use fr in \<open>simp_all add: same_frame_def\<close>)
    then show ?thesis unfolding f Some by simp
  next
    case None
    have k: "keeps_op m (set_epoch e ?m\<lparr> ma_pendingEpoch := 0 \<rparr>)" "keeps_op m (?m\<lparr> ma_pendingEpoch := e \<rparr>)"
      by (simp_all add: keeps_op_invalidated)
    have "goes {} m (?m\<lparr> ma_pendingEpoch := e \<rparr>)" "goes {} m ((set_epoch e ?m)\<lparr> ma_pendingEpoch := 0 \<rparr>)"
      by (rule goes_same[OF ok]; use k manager_okD(8)[OF ok] in \<open>auto simp: same_frame_def\<close>)+
    then show ?thesis unfolding f None by simp
  qed
qed

lemma restart_fields [simp]:
  "ma_state (ResetForRestart ts m) = Disabled" "ma_cleanup (ResetForRestart ts m) = None"
  "ma_pendingOperation (ResetForRestart ts m) = None" "ma_restarted (ResetForRestart ts m)"
  "ma_nextHandle (ResetForRestart ts m) = ma_nextHandle m" "\<not> ma_mutexHeld (ResetForRestart ts m)"
  "ma_qualified (ResetForRestart ts m) = ma_qualified m \<union> set ts"
  "ma_restartFences (ResetForRestart ts m) = ma_restartFences m \<union> ma_qualified m \<union> set ts"
  "ma_mu m = ma_mutexHeld m \<Longrightarrow> \<not> ma_mu (ResetForRestart ts m)"
  "ma_mu m = ma_mutexHeld m \<Longrightarrow> ma_gateFault (ResetForRestart ts m) = ma_gateFault m"
  by (simp_all add: ResetForRestart_def Let_def)

lemma restart_goes:
  assumes ok: "manager_ok m"
  shows "goes {} m (ResetForRestart ts m)" and "fenced (ResetForRestart ts m)"
proof -
  show "goes {} m (ResetForRestart ts m)"
    by (rule goesI) (use manager_okD(1,2)[OF ok] in \<open>auto simp: owner_states_def pending_enable_def bound_def fenced_def\<close>)
  show "fenced (ResetForRestart ts m)" by (simp add: fenced_def bound_def)
qed

lemma bare_goes:
  assumes ok: "manager_ok m"
  shows "goes {} m (fst (Enable issued m))" and "goes {} m (fst (Disable key m))" and "goes {} m (fst (Read tr m))"
proof -
  show "goes {} m (fst (Read tr m))"
  proof -
    have "goes {} m (armIdleTimerLocked m)"
      by (rule goes_same[OF ok]) (use manager_okD(8)[OF ok] in \<open>auto simp: same_frame_def\<close>)
    then show ?thesis using goes_refl[OF ok] by (simp add: Read_def)
  qed
  show "goes {} m (fst (Disable key m))"
  proof (cases "fst (Disable key m) = m")
    case True
    then show ?thesis using goes_refl[OF ok] by simp
  next
    case False
    then have a: "ma_state m = Active" "fst (Disable key m) = toIdleLocked (toDisabledLocked m)"
      by (auto simp: Disable_def split: if_splits)
    have un: "\<not> ma_restarted m" "ma_mu m = ma_mutexHeld m" using a(1) manager_okD(1,4)[OF ok] by auto
    have e: "\<And>p. ma_pendingOperation m = Some p \<Longrightarrow> po_Kind p \<noteq> OperationEnable \<and> \<not> po_cleanup p"
      using manager_okD(9,10)[OF ok] a(1) by fastforce
    let ?m = "toIdleLocked (toDisabledLocked m)"
    have eff: "ma_state ?m = (if ma_cleanup m = None then Idle else Disabled)" "\<not> ma_mutexHeld ?m" "\<not> ma_mu ?m"
      "ma_gateFault ?m = ma_gateFault m" "ma_cleanup ?m = ma_cleanup m" "ma_restarted ?m = ma_restarted m"
      "ma_qualified ?m = ma_qualified m" "ma_nextHandle ?m = ma_nextHandle m" "ma_pendingOperation ?m = ma_pendingOperation m"
      using un(2) by (simp_all add: toIdleLocked_def)
    have "goes {} m ?m"
    proof (rule goesI)
      fix p assume "ma_pendingOperation ?m = Some p"
      then have p: "ma_pendingOperation m = Some p" by (simp add: eff)
      show "po_cleanup p \<Longrightarrow> po_Kind p = OperationDisable \<and> ma_state ?m = Disabled \<and> ma_cleanup ?m \<noteq> None" using e[OF p] by simp
      show "po_handle p < ma_nextHandle ?m" using manager_okD(6)[OF ok p] by (simp add: eff)
      show "(\<exists>q. ma_pendingOperation m = Some q \<and> same_op q p) \<or> ma_nextHandle m \<le> po_handle p \<and> po_OperationID p \<in> {}"
        using p by (simp add: same_op_def)
    qed (use eff un a(1) e manager_okD(2)[OF ok] in \<open>auto simp: owner_states_def pending_enable_def bound_def fenced_def split: option.splits if_splits\<close>)
    then show ?thesis using a(2) by simp
  qed
  show "goes {} m (fst (Enable issued m))"
  proof (cases "ma_state m = Idle")
    case False
    then show ?thesis using goes_refl[OF ok] by (simp add: Enable_def)
  next
    case idle: True
    then have free: "\<not> ma_mutexHeld m" "\<not> ma_mu m" "\<not> ma_gateFault m" "\<not> ma_restarted m" "ma_cleanup m = None"
      using manager_okD(1-4)[OF ok] no_obligation[OF ok] by (auto simp: owner_states_def)
    have e: "\<And>p. ma_pendingOperation m = Some p \<Longrightarrow> po_Kind p \<noteq> OperationEnable \<and> \<not> po_cleanup p"
      using manager_okD(9,10)[OF ok] idle by fastforce
    show ?thesis
    proof (cases issued)
      case (Inl err)
      show ?thesis
        by (rule goes_same[OF ok])
          (use idle free Inl in \<open>simp_all add: Enable_def gate_lock_def gate_unlock_def same_frame_def\<close>)
    next
      case (Inr tok)
      let ?m = "fst (Enable issued m)"
      have eff: "ma_state ?m = Active" "ma_mutexHeld ?m" "ma_mu ?m" "\<not> ma_gateFault ?m" "ma_cleanup ?m = None" "\<not> ma_restarted ?m"
        "ma_qualified ?m = ma_qualified m" "ma_nextHandle ?m = ma_nextHandle m" "ma_pendingOperation ?m = ma_pendingOperation m"
        using idle free Inr by (simp_all add: Enable_def gate_lock_def Let_def)
      show ?thesis
      proof (rule goesI)
        fix p assume "ma_pendingOperation ?m = Some p"
        then have p: "ma_pendingOperation m = Some p" by (simp add: eff)
        show "po_cleanup p \<Longrightarrow> po_Kind p = OperationDisable \<and> ma_state ?m = Disabled \<and> ma_cleanup ?m \<noteq> None" using e[OF p] by simp
        show "po_handle p < ma_nextHandle ?m" using manager_okD(6)[OF ok p] by (simp add: eff)
        show "(\<exists>q. ma_pendingOperation m = Some q \<and> same_op q p) \<or> ma_nextHandle m \<le> po_handle p \<and> po_OperationID p \<in> {}"
          using p by (simp add: same_op_def)
      qed (use eff idle free e in \<open>auto simp: owner_states_def pending_enable_def bound_def fenced_def split: option.splits\<close>)
    qed
  qed
qed

section \<open>Calls\<close>

lemma goes_mono: "goes D m m' \<Longrightarrow> D \<subseteq> E \<Longrightarrow> goes E m m'"
  by (auto simp: goes_def moves_def)

lemma goesD:
  assumes "goes D m m'"
  shows "manager_ok m'" "ma_nextHandle m \<le> ma_nextHandle m'" "ma_qualified m \<subseteq> ma_qualified m'" "bound m \<Longrightarrow> bound m'"
    "fenced m \<Longrightarrow> fenced m'"
  using assms by (auto simp: goes_def moves_def)

lemma agrees_same: "same_op p p' \<Longrightarrow> agrees pc p \<Longrightarrow> agrees pc p'"
  by (cases pc) (simp_all add: same_op_def owner_op_def)

lemma call_ok_goes:
  assumes "goes D m m'" and "call_ok m pc"
  shows "call_ok m' pc"
proof -
  have "h < ma_nextHandle m' \<and> (\<forall>p. ma_pendingOperation m' = Some p \<and> po_handle p = h \<longrightarrow> agrees pc p)" if c: "carries pc = Some h" for h
  proof (intro conjI allI impI)
    have h: "h < ma_nextHandle m" "\<And>p. ma_pendingOperation m = Some p \<Longrightarrow> po_handle p = h \<Longrightarrow> agrees pc p"
      using assms(2) c by (auto simp: call_ok_def)
    then show "h < ma_nextHandle m'" using goesD(2)[OF assms(1)] by simp
    fix p' assume p': "ma_pendingOperation m' = Some p' \<and> po_handle p' = h"
    then consider p where "ma_pendingOperation m = Some p" "same_op p p'" | "ma_nextHandle m \<le> h"
      using assms(1) by (auto simp: goes_def moves_def)
    then show "agrees pc p'"
    proof cases
      case 1
      then show ?thesis using h(2)[OF 1(1)] p' agrees_same[OF 1(2)] by (simp add: same_op_def)
    qed (use h(1) in simp)
  qed
  then show ?thesis using assms(2) goesD(3,5)[OF assms(1)] unfolding call_ok_def by blast
qed

lemma call_ok_next:
  assumes "call_ok m pc" and "carries pc = Some h" and "carries pc' = Some h" and "\<And>p. agrees pc p \<Longrightarrow> agrees pc' p"
  shows "call_ok m pc'"
  using assms by (auto simp: call_ok_def)

lemma call_ok_new:
  assumes "manager_ok m" and "ma_pendingOperation m = Some p" and "carries pc = Some (po_handle p)" and "agrees pc p"
  shows "call_ok m pc"
  using assms manager_okD(6)[OF assms(1,2)] by (auto simp: call_ok_def)

lemma call_ok_none: "carries pc = None \<Longrightarrow> (\<And>t. pc \<noteq> PcEnable t) \<Longrightarrow> (\<And>k t key. pc \<noteq> PcOwner k t key) \<Longrightarrow>
    (\<And>e r. pc = PcCleanup e r \<Longrightarrow> fenced m) \<Longrightarrow> call_ok m pc"
  by (auto simp: call_ok_def)

lemma call_ok_over [simp]: "call_ok m (PcDone r)" "call_ok m (PcRecord aid e out r)"
  by (simp_all add: call_ok_def)

lemma call_ok_after: "(\<And>e. c = Some e \<Longrightarrow> fenced m) \<Longrightarrow> call_ok m (after_cleanup c r)"
  by (cases c) (simp_all add: call_ok_def after_cleanup_def)

lemma enable_admit_op:
  assumes "snd (enable_admit issued rnd t m) = Inr (h, opID, tok)"
  shows "\<exists>p. ma_pendingOperation (fst (enable_admit issued rnd t m)) = Some p \<and> po_handle p = h \<and>
             po_Kind p = OperationEnable \<and> \<not> po_cleanup p"
  using assms by (auto simp: enable_admit_def put_pending_def new_pending_def Let_def case_prod_beta split: if_splits sum.splits)

lemma owner_begin_op:
  assumes "snd (owner_begin t key k rnd m) = Inr (h, opID, ep)" and "k \<noteq> OperationEnable"
  shows "\<exists>p. ma_pendingOperation (fst (owner_begin t key k rnd m)) = Some p \<and> po_handle p = h \<and> owner_op k t p"
  using assms by (auto simp: owner_begin_def put_pending_def new_pending_def owner_op_def Let_def case_prod_beta split: if_splits)

lemma attempt_begin_op:
  assumes "snd (attempt_begin e rnd m) = Some (aid, t, h)"
  shows "\<exists>p. ma_pendingOperation (fst (attempt_begin e rnd m)) = Some p \<and> po_handle p = h \<and> po_cleanup p"
  using assms by (auto simp: attempt_begin_def put_pending_def new_pending_def Let_def case_prod_beta split: if_splits option.splits)

lemma idle_fired_op:
  assumes "snd (idleTimerFired gen rnd1 rnd2 m) = IdleRefresh h opID t e"
  shows "\<exists>p. ma_pendingOperation (fst (idleTimerFired gen rnd1 rnd2 m)) = Some p \<and> po_handle p = h \<and> owner_op OperationDisable t p"
  using assms by (auto simp: idleTimerFired_def put_pending_def new_pending_def owner_op_def Let_def case_prod_beta
      split: if_splits option.splits)

definition drawn :: "session_input \<Rightarrow> Manager \<Rightarrow> string set" where
  "drawn x m = {fst (newCleanupAttemptID (si_rnd1 x) m)}"

lemma call_agrees:
  assumes "call_ok m pc" and "carries pc = Some h" and "ma_pendingOperation m = Some p" and "po_handle p = h"
  shows "agrees pc p"
  using assms by (auto simp: call_ok_def)

lemma section_goes:
  assumes ok: "manager_ok m" and c: "call_ok m pc"
  shows "goes (drawn x m) m (fst (session_section d x pc m))"
proof -
  note up = goes_mono[OF _ empty_subsetI]
  have agr: "agrees pc p" if "carries pc = Some h" "ma_pendingOperation m = Some p" "po_handle p = h" for h p
    using call_agrees[OF c that] .
  show ?thesis
  proof (cases pc)
    case (PcEnable t)
    then show ?thesis using goes_enable_admit[OF ok] by (simp add: session_section_def drawn_def case_prod_beta)
  next
    case (PcEnableSent t h opID tok)
    then show ?thesis using up[OF enable_finish_goes(1)[OF ok, of h]] agr by (simp add: session_section_def case_prod_beta)
  next
    case (PcOwner k t key)
    then have "k \<noteq> OperationEnable" using c by (simp add: call_ok_def)
    then show ?thesis using owner_begin_goes[OF ok] PcOwner by (simp add: session_section_def drawn_def case_prod_beta)
  next
    case (PcRefresh k t h opID e)
    then show ?thesis using up[OF owner_refreshed_goes[OF ok, of h]] agr by (auto simp: session_section_def case_prod_beta owner_op_def)
  next
    case (PcBind k t h opID)
    then show ?thesis using up[OF goes_bind[OF ok]] by (simp add: session_section_def)
  next
    case (PcQuiet t h opID)
    then show ?thesis using up[OF goes_quiet[OF ok]] by (simp add: session_section_def)
  next
    case (PcSent k t h opID)
    then show ?thesis using up[OF read_finish_goes(1)[OF ok _ refl, of h]] up[OF disable_finish_goes[OF ok, of h]] agr
      by (auto simp: session_section_def case_prod_beta owner_op_def)
  next
    case (PcCleanup e r)
    then have "fenced m" using c by (simp add: call_ok_def)
    then show ?thesis using attempt_begin_goes[OF ok] PcCleanup by (simp add: session_section_def drawn_def case_prod_beta)
  next
    case (PcCleanupBind aid e h r)
    then show ?thesis using up[OF goes_bind[OF ok]] by (simp add: session_section_def)
  next
    case (PcCleanupSent aid e h r)
    then show ?thesis using up[OF goes_attempt_end[OF ok, of h]] agr by (simp add: session_section_def)
  next
    case (PcRecord aid e out r)
    then show ?thesis using up[OF goes_record[OF ok]] by (simp add: session_section_def)
  next
    case (PcIdleRefresh h opID t e)
    then show ?thesis using up[OF idle_refreshed_goes[OF ok, of h]] agr by (auto simp: session_section_def case_prod_beta owner_op_def)
  next
    case (PcIdleUndispatched h opID t tr)
    then show ?thesis using up[OF idle_end_goes(1)[OF ok]] by (simp add: session_section_def)
  next
    case (PcIdleBind h opID t tr)
    then show ?thesis using up[OF goes_bind[OF ok]] by (simp add: session_section_def)
  next
    case (PcIdleSent h opID t tr)
    then show ?thesis using up[OF idle_end_goes(2)[OF ok]] by (simp add: session_section_def)
  next
    case (PcDone r)
    then show ?thesis using goes_refl[OF ok] by (simp add: session_section_def)
  qed
qed

lemma section_call_ok:
  assumes ok: "manager_ok m" and c: "call_ok m pc"
  shows "call_ok (fst (session_section d x pc m)) (snd (session_section d x pc m))"
proof -
  let ?s = "session_section d x pc m"
  note g = section_goes[OF ok c, of x d]
  note ok' = goesD(1)[OF g] and c' = call_ok_goes[OF g c]
  note nxt = call_ok_next[OF c'] and fresh = call_ok_new[OF ok']
  have over: "call_ok (fst ?s) (PcDone r)" for r by (simp add: call_ok_def)
  have agr: "agrees pc p" if "carries pc = Some h" "ma_pendingOperation m = Some p" "po_handle p = h" for h p
    using call_agrees[OF c that] .
  show ?thesis
  proof (cases pc)
    case (PcEnable t)
    show ?thesis
    proof (cases "snd (enable_admit (si_issued x) (si_rnd1 x) t m)")
      case (Inl e)
      then show ?thesis using over PcEnable by (simp add: session_section_def case_prod_beta)
    next
      case (Inr q)
      obtain h opID tok where q: "q = (h, opID, tok)" by (cases q)
      show ?thesis using enable_admit_op[OF Inr[unfolded q]] fresh PcEnable Inr q
        by (auto simp: session_section_def case_prod_beta)
    qed
  next
    case (PcEnableSent t h opID tok)
    then show ?thesis using enable_finish_goes(3)[OF ok, of h] agr
      by (auto simp: session_section_def case_prod_beta intro!: call_ok_after)
  next
    case (PcOwner k t key)
    then have k: "k \<noteq> OperationEnable" using c by (simp add: call_ok_def)
    show ?thesis
    proof (cases "snd (owner_begin t key k (si_rnd1 x) m)")
      case (Inl e)
      then show ?thesis using over PcOwner by (simp add: session_section_def after_begin_def case_prod_beta)
    next
      case (Inr q)
      obtain h opID ep where q: "q = (h, opID, ep)" by (cases q)
      show ?thesis using owner_begin_op[OF Inr[unfolded q] k] fresh PcOwner Inr q
        by (cases ep) (auto simp: session_section_def after_begin_def case_prod_beta)
    qed
  next
    case (PcRefresh k t h opID e)
    then show ?thesis using over nxt[of h "PcBind k t h opID"]
      by (auto simp: session_section_def case_prod_beta split: option.split)
  next
    case (PcBind k t h opID)
    then show ?thesis using nxt[of h "PcQuiet t h opID"] nxt[of h "PcSent k t h opID"]
      by (cases "k = OperationDisable") (simp_all add: session_section_def)
  next
    case (PcQuiet t h opID)
    then show ?thesis using nxt[of h "PcSent OperationDisable t h opID"] by (simp add: session_section_def)
  next
    case (PcSent k t h opID)
    then show ?thesis using read_finish_goes(2)[OF ok _ refl, of h] agr
      by (auto simp: session_section_def case_prod_beta owner_op_def call_ok_none split: option.split intro!: call_ok_after)
  next
    case (PcCleanup e r)
    show ?thesis
    proof (cases "snd (attempt_begin e (si_rnd1 x) m)")
      case None
      then show ?thesis using over PcCleanup by (simp add: session_section_def case_prod_beta)
    next
      case (Some q)
      obtain aid t h where q: "q = (aid, t, h)" by (cases q)
      show ?thesis using attempt_begin_op[OF Some[unfolded q]] fresh PcCleanup Some q
        by (auto simp: session_section_def case_prod_beta)
    qed
  next
    case (PcCleanupBind aid e h r)
    then show ?thesis using nxt[of h "PcCleanupSent aid e h r"] by (simp add: session_section_def)
  next
    case (PcCleanupSent aid e h r)
    then show ?thesis by (simp add: session_section_def call_ok_none)
  next
    case (PcRecord aid e out r)
    then show ?thesis by (simp add: session_section_def call_ok_none)
  next
    case (PcIdleRefresh h opID t e)
    then show ?thesis using over nxt[of h "PcIdleBind h opID t tr" for tr] nxt[of h "PcIdleUndispatched h opID t tr" for tr]
      by (auto simp: session_section_def case_prod_beta split: option.split bool.split)
  next
    case (PcIdleUndispatched h opID t tr)
    then show ?thesis by (simp add: session_section_def call_ok_none)
  next
    case (PcIdleBind h opID t tr)
    then show ?thesis using nxt[of h "PcIdleSent h opID t tr"] by (simp add: session_section_def)
  next
    case (PcIdleSent h opID t tr)
    then show ?thesis by (simp add: session_section_def call_ok_none)
  next
    case (PcDone r)
    then show ?thesis by (simp add: session_section_def call_ok_none)
  qed
qed

text \<open>The identifiers an operation may draw.\<close>

fun op_drawn :: "session_op \<Rightarrow> Manager \<Rightarrow> string set" where
  "op_drawn (SectionOp i x) m = drawn x m"
| "op_drawn (TimerOp gen x) m = drawn x m"
| "op_drawn _ m = {}"

lemma goes_callbacks: "manager_ok m \<Longrightarrow> goes {} m (m\<lparr> ma_callbacks := cs \<rparr>)"
  and goes_emission: "manager_ok m \<Longrightarrow> goes {} m (m\<lparr> ma_emissionMu := b \<rparr>)"
  and goes_dispatcher: "manager_ok m \<Longrightarrow> goes {} m (SetCleanupDispatcher b m)"
  by (rule goes_same; auto simp: same_frame_def SetCleanupDispatcher_def dest: manager_okD(8))+

lemma goes_begin_emission:
  assumes ok: "manager_ok m"
  shows "goes {} m (case BeginPendingEmission opID t m of None \<Rightarrow> m | Some (m1, ok) \<Rightarrow> m1)"
proof -
  have "goes {} m ((fst (AdmitPendingEmission opID t m))\<lparr> ma_emissionMu := True \<rparr>)"
    by (rule goes_same[OF ok])
      (auto simp: AdmitPendingEmission_def same_frame_def keeps_op_def same_op_def split: option.splits dest: manager_okD(8)[OF ok])
  then show ?thesis using goes_refl[OF ok] goes_admit[OF ok, of opID t]
    by (simp add: BeginPendingEmission_def case_prod_beta)
qed

lemma goes_trans:
  assumes "goes D m m0" and "goes E m0 m'"
  shows "goes (D \<union> E) m m'"
proof -
  have "(\<exists>p. ma_pendingOperation m = Some p \<and> same_op p p') \<or> ma_nextHandle m \<le> po_handle p' \<and> po_OperationID p' \<in> D \<union> E"
    if p': "ma_pendingOperation m' = Some p'" for p'
  proof -
    consider p0 where "ma_pendingOperation m0 = Some p0" "same_op p0 p'" | "ma_nextHandle m0 \<le> po_handle p'" "po_OperationID p' \<in> E"
      using assms(2) p' by (auto simp: goes_def moves_def)
    then show ?thesis
    proof cases
      case 1
      then consider p where "ma_pendingOperation m = Some p" "same_op p p0" | "ma_nextHandle m \<le> po_handle p0" "po_OperationID p0 \<in> D"
        using assms(1) by (auto simp: goes_def moves_def)
      then show ?thesis
      proof cases
        case 1
        with \<open>same_op p0 p'\<close> show ?thesis by (auto simp: same_op_def)
      qed (use 1(2) in \<open>simp add: same_op_def\<close>)
    qed (use goesD(2)[OF assms(1)] in simp)
  qed
  then show ?thesis
    using goesD[OF assms(1)] goesD[OF assms(2)] unfolding goes_def moves_def by (meson order_trans)
qed

lemma fire_timer_goes:
  assumes ok: "manager_ok m"
  shows "goes (drawn x m) m (fst (fire_timer gen x m))" and "call_ok (fst (fire_timer gen x m)) (after_fired (snd (fire_timer gen x m)))"
proof -
  let ?m = "m\<lparr> ma_callbacks := remove1 gen (ma_callbacks m) \<rparr>"
  have g: "goes {} m ?m" by (rule goes_callbacks[OF ok])
  have d: "fst (newCleanupAttemptID (si_rnd1 x) ?m) = fst (newCleanupAttemptID (si_rnd1 x) m)"
    by (simp add: newCleanupAttemptID_def Let_def split: option.split)
  have f: "goes {fst (newCleanupAttemptID (si_rnd1 x) ?m)} ?m (fst (idleTimerFired gen (si_rnd1 x) (si_rnd2 x) ?m))"
    by (rule idleTimerFired_goes(1)[OF goesD(1)[OF g]])
  show "goes (drawn x m) m (fst (fire_timer gen x m))"
    using goes_trans[OF g f] by (simp add: fire_timer_def drawn_def d)
  show "call_ok (fst (fire_timer gen x m)) (after_fired (snd (fire_timer gen x m)))"
  proof (cases "snd (fire_timer gen x m)")
    case (IdleRefresh h opID t e)
    then show ?thesis using idle_fired_op[of gen "si_rnd1 x" "si_rnd2 x" ?m] call_ok_new[OF goesD(1)[OF f]]
      by (auto simp: fire_timer_def after_fired_def)
  next
    case (IdleCleanup e)
    then show ?thesis using idleTimerFired_goes(2)[OF goesD(1)[OF g]] by (simp add: fire_timer_def after_fired_def call_ok_none)
  qed (simp add: after_fired_def)
qed

lemma step_manager_goes:
  assumes "session_ok w"
  shows "goes (op_drawn op (sw_manager w)) (sw_manager w) (sw_manager (session_step w op))"
proof -
  let ?m = "sw_manager w"
  have ok: "manager_ok ?m" and calls: "list_all (\<lambda>c. call_ok ?m (sc_pc c)) (sw_calls w)"
    using assms by (simp_all add: session_ok_def)
  show ?thesis
  proof (cases op)
    case (SectionOp i x)
    have "call_ok ?m (sc_pc (sw_calls w ! i))" if "i < length (sw_calls w)" using calls that by (simp add: list_all_length)
    then show ?thesis using section_goes[OF ok] goes_refl[OF ok] SectionOp by (simp add: case_prod_beta Let_def)
  next
    case (TimerOp gen x)
    then show ?thesis using fire_timer_goes(1)[OF ok] goes_refl[OF ok]
      by (simp add: case_prod_beta Let_def on_manager_def new_call_def)
  qed (use goes_mark[OF ok] goes_admit[OF ok] goes_begin_emission[OF ok] goes_callbacks[OF ok] goes_emission[OF ok] goes_dispatcher[OF ok]
      disconnect_goes[OF ok] epoch_goes[OF ok] restart_goes(1)[OF ok] bare_goes[OF ok] goes_refl[OF ok]
    in \<open>auto simp: on_manager_def new_call_def\<close>)
qed

lemma session_ok_step:
  assumes ok: "session_ok w"
  shows "session_ok (session_step w op)"
proof -
  let ?m = "sw_manager w" and ?w = "session_step w op"
  have g: "goes (op_drawn op ?m) ?m (sw_manager ?w)" by (rule step_manager_goes[OF ok])
  have old: "list_all (\<lambda>c. call_ok (sw_manager ?w) (sc_pc c)) (sw_calls w)"
    using ok call_ok_goes[OF g] by (auto simp: session_ok_def list_all_iff)
  have "list_all (\<lambda>c. call_ok (sw_manager ?w) (sc_pc c)) (sw_calls ?w)"
  proof (cases op)
    case (SectionOp i x)
    show ?thesis
    proof (cases "i < length (sw_calls w)")
      case True
      let ?c = "sw_calls w ! i"
      have "call_ok ?m (sc_pc ?c)" using ok True by (simp add: session_ok_def list_all_length)
      then have "call_ok (sw_manager ?w) (snd (session_section (sc_dispatch ?c) x (sc_pc ?c) ?m))"
        using section_call_ok[of ?m "sc_pc ?c" "sc_dispatch ?c" x] ok True SectionOp
        by (simp add: session_ok_def case_prod_beta Let_def)
      then show ?thesis using old True SectionOp by (simp add: case_prod_beta Let_def list_all_length nth_list_update)
    qed (use old SectionOp in simp)
  next
    case (TimerOp gen x)
    then show ?thesis using old fire_timer_goes(2)[of ?m gen x] ok
      by (auto simp: session_ok_def case_prod_beta Let_def on_manager_def new_call_def)
  next
    case (EnableOp t d)
    then show ?thesis using old by (simp add: new_call_def on_manager_def call_ok_def MarkQualifiedTarget_def)
  qed (use old in \<open>auto simp: new_call_def on_manager_def call_ok_def\<close>)
  then show ?thesis using goesD(1)[OF g] by (simp add: session_ok_def)
qed

interpretation session_machine: kept_invariant session_step session_ok
  by unfold_locales (rule session_ok_step)

lemma session_ok_new: "session_ok (new_session_world tr timeout refresh)"
  by (simp add: session_ok_def new_session_world_def New_manager_def manager_ok_def gate_ok_def owner_states_def)

lemmas session_reachable = session_machine.run_keeps[OF session_ok_new]

lemma bound_run:
  assumes "session_ok w" and "bound (sw_manager w)"
  shows "bound (sw_manager (foldl session_step w ops))"
  using assms
proof (induction ops arbitrary: w)
  case (Cons op ops)
  then show ?case using session_ok_step goesD(4)[OF step_manager_goes] by simp
qed simp

lemma bound_refuses:
  assumes ok: "session_ok w" and b: "bound (sw_manager w)" and i: "i < length (sw_calls w)" "sc_pc (sw_calls w ! i) = PcEnable t"
  shows "session_section d x (PcEnable t) (sw_manager w) = (sw_manager w, PcDone (ReturnedError ErrCleanupPending))"
proof -
  let ?m = "sw_manager w"
  have m: "manager_ok ?m" and c: "call_ok ?m (PcEnable t)" using ok i by (auto simp: session_ok_def list_all_length)
  have "t \<in> ma_restartFences ?m \<or> ma_cleanup ?m \<noteq> None"
    using b manager_okD(5)[OF m] c by (auto simp: bound_def call_ok_def)
  then show ?thesis by (auto simp: session_section_def enable_admit_def)
qed

section \<open>No owner is forgotten\<close>

text \<open>
  The exchanges' own operations, without the transitions that isolate the gate for tests. The idle
  timer of an owner with nothing in flight is running; while a read is in flight it is running or its
  expiry is noted. Every operation of an owner is carried by exactly one call, at the stage the state
  of the session says.
\<close>

fun production :: "session_op \<Rightarrow> bool" where
  "production (BareEnableOp issued) = False"
| "production (BareDisableOp key) = False"
| "production (BareReadOp transport) = False"
| "production _ = True"

definition timer_ok :: "Manager \<Rightarrow> bool" where
  "timer_ok m \<longleftrightarrow>
     (ma_state m = Active \<and> 0 < ma_idleTimeout m \<and>
      (\<forall>p. ma_pendingOperation m = Some p \<longrightarrow> po_Kind p = OperationRead \<and> \<not> ma_idleExpiryPending m) \<longrightarrow>
        ma_idleTimerGen m \<in> set (ma_callbacks m)) \<and>
     (ma_idleExpiryPending m \<longrightarrow>
        ma_state m = Active \<and> (\<exists>p. ma_pendingOperation m = Some p \<and> po_Kind p = OperationRead)) \<and>
     (ma_state m \<in> owner_states \<longrightarrow> (\<forall>p. ma_pendingOperation m = Some p \<longrightarrow> po_Target p = ma_activeTarget m))"

fun stage :: "session_pc \<Rightarrow> State option" where
  "stage (PcEnableSent t h opID tok) = Some Enabling"
| "stage (PcRefresh k t h opID e) = Some Refreshing"
| "stage (PcBind k t h opID) = Some Active"
| "stage (PcQuiet t h opID) = Some Active"
| "stage (PcSent k t h opID) = Some Active"
| "stage (PcIdleRefresh h opID t e) = Some Refreshing"
| "stage (PcIdleUndispatched h opID t tr) = Some Active"
| "stage (PcIdleBind h opID t tr) = Some Active"
| "stage (PcIdleSent h opID t tr) = Some Active"
| "stage _ = None"

definition carried_at :: "nat \<Rightarrow> State \<Rightarrow> session_pc \<Rightarrow> bool" where
  "carried_at h s pc \<longleftrightarrow> carries pc = Some h \<and> stage pc = Some s"

definition linked :: "session_world \<Rightarrow> bool" where
  "linked w \<longleftrightarrow>
     (ma_state (sw_manager w) \<in> owner_states \<longrightarrow> (\<forall>p. ma_pendingOperation (sw_manager w) = Some p \<longrightarrow>
        (\<exists>i < length (sw_calls w). carried_at (po_handle p) (ma_state (sw_manager w)) (sc_pc (sw_calls w ! i))))) \<and>
     (ma_state (sw_manager w) = Refreshing \<longrightarrow> ma_pendingOperation (sw_manager w) \<noteq> None) \<and>
     (\<forall>i < length (sw_calls w). \<forall>j < length (sw_calls w). \<forall>h.
        carries (sc_pc (sw_calls w ! i)) = Some h \<and> carries (sc_pc (sw_calls w ! j)) = Some h \<longrightarrow> i = j)"

definition served :: "session_world \<Rightarrow> bool" where
  "served w \<longleftrightarrow> session_ok w \<and> timer_ok (sw_manager w) \<and> linked w"

text \<open>What a section of a call at \<open>pc\<close> has to leave behind.\<close>

definition serves :: "Manager \<Rightarrow> session_pc \<Rightarrow> Manager \<Rightarrow> session_pc \<Rightarrow> bool" where
  "serves m pc m' pc' \<longleftrightarrow>
     timer_ok m' \<and> (ma_state m' = Refreshing \<longrightarrow> ma_pendingOperation m' \<noteq> None) \<and>
     (ma_state m' \<in> owner_states \<longrightarrow> (\<forall>p'. ma_pendingOperation m' = Some p' \<longrightarrow>
        carried_at (po_handle p') (ma_state m') pc' \<or>
        (\<exists>p. ma_pendingOperation m = Some p \<and> po_handle p = po_handle p' \<and> ma_state m' = ma_state m \<and>
             carries pc \<noteq> Some (po_handle p)))) \<and>
     (carries pc' = carries pc \<or> carries pc' = None \<or> carries pc' = Some (ma_nextHandle m))"

lemma serves_ended:
  assumes "ma_state m' \<notin> owner_states" and "\<not> ma_idleExpiryPending m'" and "carries pc' = carries pc \<or> carries pc' = None \<or> carries pc' = Some (ma_nextHandle m)"
  shows "serves m pc m' pc'"
  using assms by (auto simp: serves_def timer_ok_def owner_states_def)

lemma serves_settled:
  assumes "ma_pendingOperation m' = None" and "ma_state m' \<noteq> Refreshing" and "timer_ok m'" and "carries pc' = carries pc \<or> carries pc' = None \<or> carries pc' = Some (ma_nextHandle m)"
  shows "serves m pc m' pc'"
  using assms by (auto simp: serves_def)

lemma serves_carried:
  assumes "ma_pendingOperation m' = Some p" and "carried_at (po_handle p) (ma_state m') pc'" and "timer_ok m'"
    and "carries pc' = carries pc \<or> carries pc' = Some (ma_nextHandle m)"
  shows "serves m pc m' pc'"
  using assms by (auto simp: serves_def)

definition same_session :: "Manager \<Rightarrow> Manager \<Rightarrow> bool" where
  "same_session m m' \<longleftrightarrow>
     ma_state m' = ma_state m \<and> ma_pendingOperation m' = ma_pendingOperation m \<and> ma_idleTimeout m' = ma_idleTimeout m \<and>
     ma_idleTimerGen m' = ma_idleTimerGen m \<and> ma_callbacks m' = ma_callbacks m \<and>
     ma_idleExpiryPending m' = ma_idleExpiryPending m \<and> ma_activeTarget m' = ma_activeTarget m"

lemma timer_ok_cong: "same_session m m' \<Longrightarrow> timer_ok m \<Longrightarrow> timer_ok m'"
  by (simp add: same_session_def timer_ok_def)

lemma serves_still:
  assumes "same_session m m'" and "timer_ok m" and "ma_state m = Refreshing \<Longrightarrow> ma_pendingOperation m \<noteq> None"
    and "\<And>p. ma_pendingOperation m = Some p \<Longrightarrow> carries pc \<noteq> Some (po_handle p)"
    and "carries pc' = carries pc \<or> carries pc' = None"
  shows "serves m pc m' pc'"
proof -
  have "ma_state m' = ma_state m" "ma_pendingOperation m' = ma_pendingOperation m" using assms(1) by (simp_all add: same_session_def)
  then show ?thesis using assms(3-5) timer_ok_cong[OF assms(1,2)] unfolding serves_def by auto
qed

lemma armed_timer_ok:
  assumes "ma_state m \<in> owner_states \<longrightarrow> (\<forall>p. ma_pendingOperation m = Some p \<longrightarrow> po_Target p = ma_activeTarget m)"
    and "\<not> ma_idleExpiryPending m"
  shows "timer_ok (armIdleTimerLocked m)"
  using assms by (simp add: timer_ok_def armIdleTimerLocked_def Let_def)

lemma idle_flag_state: "timer_ok m \<Longrightarrow> ma_state m \<noteq> Active \<Longrightarrow> \<not> ma_idleExpiryPending m"
  by (simp add: timer_ok_def)

lemma idle_flag_kind: "timer_ok m \<Longrightarrow> ma_pendingOperation m = Some p \<Longrightarrow> po_Kind p \<noteq> OperationRead \<Longrightarrow> \<not> ma_idleExpiryPending m"
  by (auto simp: timer_ok_def)

definition ready :: "Manager \<Rightarrow> session_pc \<Rightarrow> bool" where
  "ready m pc \<longleftrightarrow>
     manager_ok m \<and> timer_ok m \<and> call_ok m pc \<and> (ma_state m = Refreshing \<longrightarrow> ma_pendingOperation m \<noteq> None) \<and>
     (\<forall>p. ma_pendingOperation m = Some p \<and> carries pc = Some (po_handle p) \<and> ma_state m \<in> owner_states \<longrightarrow>
        stage pc = Some (ma_state m))"

lemma readyD:
  assumes "ready m pc"
  shows "manager_ok m" "timer_ok m" "call_ok m pc" "ma_state m = Refreshing \<Longrightarrow> ma_pendingOperation m \<noteq> None"
    "ma_pendingOperation m = Some p \<Longrightarrow> carries pc = Some (po_handle p) \<Longrightarrow> ma_state m \<in> owner_states \<Longrightarrow> stage pc = Some (ma_state m)"
  using assms by (simp_all add: ready_def)

lemma ready_still:
  assumes "ready m pc" and "same_session m m'" and "\<not> (\<exists>h. carries pc = Some h \<and> is_pending h m)"
    and "carries pc' = carries pc \<or> carries pc' = None"
  shows "serves m pc m' pc'"
  by (rule serves_still[OF assms(2) readyD(2)[OF assms(1)] readyD(4)[OF assms(1)]])
    (use assms(3,4) in \<open>auto simp: is_pending_def\<close>)

lemma same_session_refl [simp]: "same_session m m" by (simp add: same_session_def)

lemma enable_admit_serves:
  assumes r: "ready m (PcEnable t)"
  shows "serves m (PcEnable t) (fst (session_section d x (PcEnable t) m)) (snd (session_section d x (PcEnable t) m))"
proof (cases "t \<in> ma_restartFences m \<or> ma_cleanup m \<noteq> None \<or> ma_state m \<noteq> Idle")
  case True
  then have "fst (session_section d x (PcEnable t) m) = m \<and> (\<exists>e. snd (session_section d x (PcEnable t) m) = PcDone (ReturnedError e))"
    by (auto simp: session_section_def enable_admit_def)
  then show ?thesis using ready_still[OF r] by auto
next
  case False
  then have idle: "ma_state m = Idle" "ma_cleanup m = None" "t \<notin> ma_restartFences m" by auto
  have flag: "\<not> ma_idleExpiryPending m" using idle_flag_state[OF readyD(2)[OF r]] idle by simp
  show ?thesis
  proof (cases "si_issued x")
    case (Inl e)
    show ?thesis
      by (rule serves_ended) (use Inl idle flag in
        \<open>simp_all add: session_section_def enable_admit_def gate_lock_def owner_states_def Let_def\<close>)
  next
    case (Inr tok)
    let ?n = "newCleanupAttemptID (si_rnd1 x) ((gate_lock (m\<lparr> ma_state := Enabling \<rparr>))\<lparr> ma_mutexHeld := True \<rparr>)"
    let ?p = "(new_pending (fst ?n) OperationEnable t (snd ?n))\<lparr> po_token := tok, po_cancel := True \<rparr>"
    have s: "session_section d x (PcEnable t) m =
        ((put_pending ?p (snd ?n))\<lparr> ma_activeToken := tok, ma_activeTarget := t, ma_refreshFailed := False,
                                    ma_lastRefreshTransportDown := False \<rparr>, PcEnableSent t (po_handle ?p) (fst ?n) tok)"
      using idle Inr by (simp add: session_section_def enable_admit_def Let_def case_prod_beta)
    have g: "ma_nextHandle (gate_lock (m\<lparr> ma_state := Enabling \<rparr>)) = ma_nextHandle m"
      "ma_state (gate_lock (m\<lparr> ma_state := Enabling \<rparr>)) = Enabling"
      "ma_idleExpiryPending (gate_lock (m\<lparr> ma_state := Enabling \<rparr>)) = ma_idleExpiryPending m" by (simp_all add: gate_lock_def)
    show ?thesis unfolding s
      by (rule serves_carried[where p = ?p])
        (use g flag in \<open>simp_all add: put_pending_def new_pending_def carried_at_def timer_ok_def\<close>)
  qed
qed

lemma enable_finish_serves:
  assumes r: "ready m (PcEnableSent t h opID tok)"
  shows "serves m (PcEnableSent t h opID tok) (fst (session_section d x (PcEnableSent t h opID tok) m))
           (snd (session_section d x (PcEnableSent t h opID tok) m))"
proof -
  let ?pc = "PcEnableSent t h opID tok" and ?out = "dispatchOnce d (si_outcome x)"
  let ?f = "enable_finish h opID tok t ?out (si_rnd1 x) m"
  have s: "session_section d x ?pc m = (fst ?f, after_cleanup (fst (snd ?f)) (snd (snd ?f)))"
    by (simp add: session_section_def case_prod_beta)
  have car: "carries (after_cleanup c q) = None" for c q by (simp add: after_cleanup_def split: option.split)
  show ?thesis
  proof (cases "is_pending h m")
    case False
    then have "fst ?f = m" by (auto simp: enable_finish_def is_pending_def split: option.splits)
    then show ?thesis using ready_still[OF r] False s car by simp
  next
    case True
    then obtain p where p: "ma_pendingOperation m = Some p" "po_handle p = h" by (rule pending_at)
    have en: "po_Kind p = OperationEnable" using call_agrees[OF readyD(3)[OF r] _ p] by simp
    have flag: "\<not> ma_idleExpiryPending m" using idle_flag_kind[OF readyD(2)[OF r] p(1)] en by simp
    have "ma_pendingOperation (fst ?f) = None \<and> ma_state (fst ?f) \<noteq> Refreshing \<and> timer_ok (fst ?f)"
    proof (cases "ma_state m = Enabling")
      case True
      have settle: "ma_pendingOperation (fst (enable_settle opID tok t adv ?out (si_rnd1 x) m2)) = None \<and>
          ma_state (fst (enable_settle opID tok t adv ?out (si_rnd1 x) m2)) \<noteq> Refreshing \<and>
          timer_ok (fst (enable_settle opID tok t adv ?out (si_rnd1 x) m2))"
        if "ma_pendingOperation m2 = None" "\<not> ma_idleExpiryPending m2" for adv m2
        using that armed_timer_ok by (simp add: enable_settle_def Let_def timer_ok_def owner_states_def)
      have rel: "timer_ok ((releaseOwnerLocked m2)\<lparr> ma_state := Idle \<rparr>)" if "\<not> ma_idleExpiryPending m2" for m2
        using that by (simp add: timer_ok_def owner_states_def)
      show ?thesis using True p settle rel flag by (simp add: enable_finish_def Let_def)
    next
      case False
      then have dis: "ma_state m = Disabled" using manager_okD(9)[OF readyD(1)[OF r] p(1) en] by auto
      have "ma_pendingOperation (enable_interrupted opID ?out m2) = None \<and> ma_state (enable_interrupted opID ?out m2) \<noteq> Refreshing \<and>
          timer_ok (enable_interrupted opID ?out m2)"
        if "ma_pendingOperation m2 = None" "\<not> ma_idleExpiryPending m2" "ma_state m2 = Disabled" for m2
        using that by (simp add: enable_interrupted_def toIdleLocked_def timer_ok_def owner_states_def)
      then show ?thesis using dis p flag by (simp add: enable_finish_def Let_def)
    qed
    then show ?thesis unfolding s by (intro serves_settled) (simp_all add: car)
  qed
qed

lemma owner_begin_serves:
  assumes r: "ready m (PcOwner k t key)"
  shows "serves m (PcOwner k t key) (fst (session_section d x (PcOwner k t key) m)) (snd (session_section d x (PcOwner k t key) m))"
proof -
  let ?b = "owner_begin t key k (si_rnd1 x) m"
  have k: "k \<noteq> OperationEnable" using readyD(3)[OF r] by (simp add: call_ok_def)
  have s: "session_section d x (PcOwner k t key) m = (fst ?b, after_begin k t (snd ?b))"
    by (simp add: session_section_def case_prod_beta)
  show ?thesis
  proof (cases "snd ?b")
    case (Inl e)
    then have "fst ?b = m" by (auto simp: owner_begin_def Let_def case_prod_beta split: if_splits)
    then show ?thesis unfolding s using ready_still[OF r] Inl by (simp add: after_begin_def)
  next
    case (Inr q)
    let ?n = "newCleanupAttemptID (si_rnd1 x) m"
    let ?p = "new_pending (fst ?n) k t (snd ?n)"
    have a: "ma_state m = Active" "ma_pendingOperation m = None" "ma_activeTarget m = t"
      using Inr by (auto simp: owner_begin_def Let_def case_prod_beta split: if_splits)
    have flag: "\<not> ma_idleExpiryPending m" using readyD(2)[OF r] a(2) by (simp add: timer_ok_def)
    have run: "0 < ma_idleTimeout m \<Longrightarrow> ma_idleTimerGen m \<in> set (ma_callbacks m)" using readyD(2)[OF r] a by (simp add: timer_ok_def)
    have b: "?b = (put_pending ?p (snd ?n), Inr (po_handle ?p, fst ?n, None)) \<or>
             ?b = ((put_pending ?p (snd ?n))\<lparr> ma_state := Refreshing \<rparr>, Inr (po_handle ?p, fst ?n, Some (ma_pendingEpoch m)))"
      using Inr by (simp add: owner_begin_def Let_def case_prod_beta put_pending_def split: if_splits)
    have t: "timer_ok (put_pending ?p (snd ?n))" "timer_ok ((put_pending ?p (snd ?n))\<lparr> ma_state := Refreshing \<rparr>)"
      using a flag run by (simp_all add: timer_ok_def put_pending_def new_pending_def)
    from b show ?thesis
    proof
      assume b: "?b = (put_pending ?p (snd ?n), Inr (po_handle ?p, fst ?n, None))"
      show ?thesis unfolding s b
        by (rule serves_carried[where p = ?p]) (use t a in \<open>simp_all add: after_begin_def carried_at_def put_pending_def new_pending_def\<close>)
    next
      assume b: "?b = ((put_pending ?p (snd ?n))\<lparr> ma_state := Refreshing \<rparr>, Inr (po_handle ?p, fst ?n, Some (ma_pendingEpoch m)))"
      show ?thesis unfolding s b
        by (rule serves_carried[where p = ?p]) (use t in \<open>simp_all add: after_begin_def carried_at_def put_pending_def new_pending_def\<close>)
    qed
  qed
qed

lemma abandoned [simp]:
  "ma_pendingOperation (abandon_pending t e src rnd m) = None" "ma_state (abandon_pending t e src rnd m) = Disabled"
  "\<not> ma_idleExpiryPending (abandon_pending t e src rnd m)"
  by (simp_all add: abandon_pending_def)

lemma owner_refreshed_serves:
  assumes r: "ready m (PcRefresh k t h opID e)"
  shows "serves m (PcRefresh k t h opID e) (fst (session_section d x (PcRefresh k t h opID e) m))
           (snd (session_section d x (PcRefresh k t h opID e) m))"
proof -
  let ?pc = "PcRefresh k t h opID e" and ?r = "refreshed_with m (si_refresh x)"
  let ?f = "owner_refreshed t h opID e ?r (si_rnd1 x) m"
  have s: "session_section d x ?pc m = (fst ?f, case snd ?f of Some err \<Rightarrow> PcDone (ReturnedError err) | None \<Rightarrow> PcBind k t h opID)"
    by (simp add: session_section_def case_prod_beta)
  have car: "carries (case v of Some err \<Rightarrow> PcDone (ReturnedError err) | None \<Rightarrow> PcBind k t h opID) = Some h \<or>
      carries (case v of Some err \<Rightarrow> PcDone (ReturnedError err) | None \<Rightarrow> PcBind k t h opID) = None" for v
    by (cases v) simp_all
  show ?thesis
  proof (cases "is_pending h m")
    case False
    then have "fst ?f = m" by (auto simp: owner_refreshed_def is_pending_def Let_def split: option.splits)
    then show ?thesis using ready_still[OF r] False s car by simp
  next
    case True
    then obtain p where p: "ma_pendingOperation m = Some p" "po_handle p = h" by (rule pending_at)
    have ow: "owner_op k t p" using call_agrees[OF readyD(3)[OF r] _ p] by simp
    show ?thesis
    proof (cases "ma_state m \<in> owner_states")
      case False
      then have "fst ?f = m" using p by (auto simp: owner_refreshed_def Let_def owner_states_def)
      then show ?thesis unfolding s using False idle_flag_state[OF readyD(2)[OF r]] car
        by (intro serves_ended) (auto simp: owner_states_def)
    next
      case True
      then have ref: "ma_state m = Refreshing" "ma_mutexHeld m"
        using readyD(5)[OF r p(1)] p(2) manager_okD(3)[OF readyD(1)[OF r]] by simp_all
      have flag: "\<not> ma_idleExpiryPending m" using idle_flag_state[OF readyD(2)[OF r]] ref by simp
      have tgt: "po_Target p = ma_activeTarget m" using readyD(2)[OF r] True p by (simp add: timer_ok_def)
      have re: "serves m ?pc (owner_rehome tr m) (PcBind k t h opID)" for tr
      proof (rule serves_carried[where p = "p\<lparr> po_Transport := tr \<rparr>"])
        show "timer_ok (owner_rehome tr m)" unfolding owner_rehome_def
          by (rule armed_timer_ok) (use p tgt flag in simp_all)
      qed (use p in \<open>simp_all add: owner_rehome_def carried_at_def\<close>)
      have ab: "serves m ?pc (abandon_pending t' e' src rnd m0) (PcDone q)" for t' e' src rnd m0 q
        by (rule serves_ended) (simp_all add: owner_states_def)
      have ab': "serves m ?pc (abandon_pending t' e' src rnd m0) (PcBind k t h opID)" for t' e' src rnd m0
        by (rule serves_ended) (simp_all add: owner_states_def)
      show ?thesis unfolding s using re ab ab' ref p by (simp add: owner_refreshed_def Let_def split: sum.split)
    qed
  qed
qed

text \<open>Binding the context changes neither the handle of the pending operation nor anything a timer sees.\<close>

lemma bind_serves:
  assumes r: "ready m pc" and c: "carries pc = Some h" "stage pc \<noteq> Some Enabling" "carries pc' = Some h" "stage pc' = stage pc"
  shows "serves m pc (bindPendingContext h m) pc'"
proof (cases "\<exists>p. ma_pendingOperation m = Some p \<and> po_handle p = h \<and> \<not> po_invalidated p")
  case False
  then have "same_session m (bindPendingContext h m)" by (auto simp: bindPendingContext_def same_session_def split: option.split)
  moreover have "bindPendingContext h m = m\<lparr> ma_cancelled := h # ma_cancelled m \<rparr>"
    using False by (auto simp: bindPendingContext_def split: option.split)
  ultimately show ?thesis
    using readyD[OF r] timer_ok_cong c unfolding serves_def carried_at_def by (auto simp: owner_states_def)
next
  case True
  then obtain p where p: "ma_pendingOperation m = Some p" "po_handle p = h" "\<not> po_invalidated p" by blast
  have b: "bindPendingContext h m = m\<lparr> ma_pendingOperation := Some (p\<lparr> po_cancel := True \<rparr>) \<rparr>"
    using p by (simp add: bindPendingContext_def)
  have t: "timer_ok (bindPendingContext h m)" using readyD(2)[OF r] p by (simp add: b timer_ok_def)
  show ?thesis using t readyD(5)[OF r p(1)] p(2) c unfolding serves_def carried_at_def by (simp add: b)
qed

lemma quiet_serves:
  assumes r: "ready m (PcQuiet t h opID)"
  shows "serves m (PcQuiet t h opID) (disable_quiet h m) (PcSent OperationDisable t h opID)"
proof (cases "is_pending h m")
  case False
  then show ?thesis using ready_still[OF r] by (simp add: disable_quiet_def)
next
  case True
  then obtain p where p: "ma_pendingOperation m = Some p" "po_handle p = h" by (rule pending_at)
  have ow: "po_Kind p = OperationDisable" using call_agrees[OF readyD(3)[OF r] _ p] by (simp add: owner_op_def)
  have t: "timer_ok (disable_quiet h m)" using readyD(2)[OF r] p ow by (auto simp: disable_quiet_def timer_ok_def)
  show ?thesis using t readyD(5)[OF r p(1)] p unfolding serves_def carried_at_def by (simp add: disable_quiet_def)
qed

lemma consume_settles:
  assumes "timer_ok m" and p: "ma_pendingOperation m = Some p" "po_Kind p = OperationRead" "po_Target p = t" and h: "ma_mutexHeld m \<longleftrightarrow> ma_state m \<in> owner_states"
    and s: "ma_state m \<noteq> Refreshing"
    and c: "c = fst (consumeIdleExpiryAfterReadLocked t src rnd (m\<lparr> ma_pendingOperation := None \<rparr>))"
  shows "ma_pendingOperation c = None \<and> ma_state c \<noteq> Refreshing \<and> timer_ok c"
proof (cases "ma_idleExpiryPending m")
  case True
  then have "ma_state m = Active" "ma_activeTarget m = t" using assms(1) p by (auto simp: timer_ok_def owner_states_def)
  then show ?thesis using True h unfolding c by (simp add: consumeIdleExpiryAfterReadLocked_def Let_def timer_ok_def owner_states_def)
next
  case False
  then show ?thesis using assms(1) p s unfolding c by (auto simp: consumeIdleExpiryAfterReadLocked_def timer_ok_def)
qed

lemma read_finish_serves:
  assumes r: "ready m (PcSent k t h opID)" and k: "k \<noteq> OperationDisable"
  shows "serves m (PcSent k t h opID) (fst (session_section d x (PcSent k t h opID) m))
           (snd (session_section d x (PcSent k t h opID) m))"
proof -
  let ?pc = "PcSent k t h opID" and ?out = "dispatchOnce d (si_outcome x)"
  let ?f = "read_finish t h opID ?out (si_rnd1 x) m"
  have s: "session_section d x ?pc m = (fst ?f, after_cleanup (fst (snd ?f)) (snd (snd ?f)))"
    using k by (simp add: session_section_def case_prod_beta)
  have car: "carries (after_cleanup c q) = None" for c q by (simp add: after_cleanup_def split: option.split)
  show ?thesis
  proof (cases "is_pending h m")
    case False
    then have "fst ?f = m" by (auto simp: read_finish_def is_pending_def split: option.splits)
    then show ?thesis using ready_still[OF r] False s car by simp
  next
    case True
    then obtain p where p: "ma_pendingOperation m = Some p" "po_handle p = h" by (rule pending_at)
    have ow: "owner_op k t p" using call_agrees[OF readyD(3)[OF r] _ p] by simp
    then have rd: "po_Kind p = OperationRead" "po_Target p = t" using k by (cases k; simp add: owner_op_def)+
    have st: "ma_state m \<noteq> Refreshing" using readyD(5)[OF r p(1)] p(2) by (auto simp: owner_states_def)
    note con = consume_settles[OF readyD(2)[OF r] p(1) rd manager_okD(3)[OF readyD(1)[OF r]] st refl, of opID "si_rnd1 x"]
    have down: "timer_ok ((createCleanupLocked t e opID rnd (toDisabledLocked m0))\<lparr> ma_lastRefreshTransportDown := True \<rparr>)" for e rnd m0
      by (simp add: timer_ok_def owner_states_def)
    have arm: "timer_ok (armIdleTimerLocked (m\<lparr> ma_pendingOperation := None, ma_idleExpiryPending := False \<rparr>))"
      by (rule armed_timer_ok) simp_all
    have "ma_pendingOperation (fst ?f) = None \<and> ma_state (fst ?f) \<noteq> Refreshing \<and> timer_ok (fst ?f)"
      using con down arm p st by (simp add: read_finish_def Let_def split: option.split)
    then show ?thesis unfolding s by (intro serves_settled) (simp_all add: car)
  qed
qed

lemma disable_finish_serves:
  assumes r: "ready m (PcSent OperationDisable t h opID)"
  shows "serves m (PcSent OperationDisable t h opID) (fst (session_section d x (PcSent OperationDisable t h opID) m))
           (snd (session_section d x (PcSent OperationDisable t h opID) m))"
proof -
  let ?pc = "PcSent OperationDisable t h opID" and ?out = "dispatchOnce d (si_outcome x)"
  let ?f = "disable_finish t h opID ?out (si_rnd1 x) m"
  have s: "fst (session_section d x ?pc m) = fst ?f" "carries (snd (session_section d x ?pc m)) = None"
    by (auto simp: session_section_def case_prod_beta split: option.split)
  show ?thesis
  proof (cases "is_pending h m")
    case False
    then have "fst ?f = m" by (auto simp: disable_finish_def is_pending_def split: option.splits)
    then show ?thesis using ready_still[OF r] False s by simp
  next
    case True
    then obtain p where p: "ma_pendingOperation m = Some p" "po_handle p = h" by (rule pending_at)
    have ow: "po_Kind p = OperationDisable" using call_agrees[OF readyD(3)[OF r] _ p] by (simp add: owner_op_def)
    have flag: "\<not> ma_idleExpiryPending m" using idle_flag_kind[OF readyD(2)[OF r] p(1)] ow by simp
    have arm: "timer_ok (armIdleTimerLocked (m\<lparr> ma_pendingOperation := None, ma_idleExpiryPending := False \<rparr>))"
      by (rule armed_timer_ok) simp_all
    have rel: "timer_ok (map_cleanup f (createCleanupLocked t e opID rnd ((if b then releaseOwnerLocked m1 else m1)\<lparr> ma_state := Disabled \<rparr>)))"
      if "\<not> ma_idleExpiryPending m1" for f e rnd b m1
      using that by (simp add: timer_ok_def owner_states_def)
    have "ma_pendingOperation (fst ?f) = None \<and> ma_state (fst ?f) \<noteq> Refreshing \<and> timer_ok (fst ?f)"
      using arm rel[of "m\<lparr> ma_pendingOperation := None \<rparr>"] flag p by (simp add: disable_finish_def Let_def)
    then show ?thesis unfolding s by (intro serves_settled) (simp_all add: s)
  qed
qed

lemma bind_fields:
  "ma_state (bindPendingContext h m) = ma_state m" "ma_idleExpiryPending (bindPendingContext h m) = ma_idleExpiryPending m"
  "\<not> is_pending h m \<Longrightarrow> same_session m (bindPendingContext h m)"
  by (auto simp: bindPendingContext_def is_pending_def same_session_def split: option.split)

lemma attempt_end_fields:
  "ma_state (attempt_end h m) = ma_state m" "ma_idleExpiryPending (attempt_end h m) = ma_idleExpiryPending m"
  "\<not> is_pending h m \<Longrightarrow> attempt_end h m = m"
  by (simp_all add: attempt_end_def)

lemma record_same [simp]: "same_session m (recordCleanupOutcome aid e out m)"
  by (simp add: recordCleanupOutcome_def same_session_def)

lemma cleanup_serves:
  assumes r: "ready m pc" and f: "ma_state m = Disabled"
    and pc: "pc = PcCleanup e q \<or> pc = PcCleanupBind aid e h q \<or> pc = PcCleanupSent aid e h q \<or> pc = PcRecord aid e out q"
  shows "serves m pc (fst (session_section d x pc m)) (snd (session_section d x pc m))"
proof (rule serves_ended)
  have flag: "\<not> ma_idleExpiryPending m" using idle_flag_state[OF readyD(2)[OF r]] f by simp
  have att: "ma_state (fst (attempt_begin e' rnd m)) = Disabled \<and> \<not> ma_idleExpiryPending (fst (attempt_begin e' rnd m))" for e' rnd
    using f flag by (simp add: attempt_begin_def put_pending_def Let_def case_prod_beta split: option.split)
  show "ma_state (fst (session_section d x pc m)) \<notin> owner_states" "\<not> ma_idleExpiryPending (fst (session_section d x pc m))"
    using pc att f flag
    by (auto simp: session_section_def case_prod_beta owner_states_def bind_fields attempt_end_fields recordCleanupOutcome_def)
  have "carries (snd (session_section d x (PcCleanup e q) m)) \<in> {None, Some (ma_nextHandle m)}"
    by (auto simp: session_section_def case_prod_beta attempt_begin_def new_pending_def Let_def split: option.split)
  then show "carries (snd (session_section d x pc m)) = carries pc \<or> carries (snd (session_section d x pc m)) = None \<or>
      carries (snd (session_section d x pc m)) = Some (ma_nextHandle m)"
    using pc by (auto simp: session_section_def)
qed

text \<open>A clean-up that meets an owner is not the pending operation: it changes nothing the owner sees.\<close>

lemma cleanup_serves_owner:
  assumes r: "ready m pc" and f: "ma_state m \<noteq> Disabled"
    and pc: "pc = PcCleanupBind aid e h q \<or> pc = PcCleanupSent aid e h q \<or> pc = PcRecord aid e out q"
  shows "serves m pc (fst (session_section d x pc m)) (snd (session_section d x pc m))"
proof (rule ready_still[OF r])
  have np: "\<not> is_pending h m" if "carries pc = Some h" for h
  proof
    assume "is_pending h m"
    then obtain p where p: "ma_pendingOperation m = Some p" "po_handle p = h" by (rule pending_at)
    then have "po_cleanup p" using call_agrees[OF readyD(3)[OF r] that p] pc that by auto
    then show False using manager_okD(10)[OF readyD(1)[OF r] p(1)] f by simp
  qed
  then show "\<not> (\<exists>h. carries pc = Some h \<and> is_pending h m)" by blast
  show "same_session m (fst (session_section d x pc m))"
    using np pc by (auto simp: session_section_def bind_fields attempt_end_fields)
  show "carries (snd (session_section d x pc m)) = carries pc \<or> carries (snd (session_section d x pc m)) = None"
    using pc by (auto simp: session_section_def)
qed

lemma idle_refreshed_serves:
  assumes r: "ready m (PcIdleRefresh h opID t e)"
  shows "serves m (PcIdleRefresh h opID t e) (fst (session_section d x (PcIdleRefresh h opID t e) m))
           (snd (session_section d x (PcIdleRefresh h opID t e) m))"
proof -
  let ?pc = "PcIdleRefresh h opID t e" and ?f = "idle_refreshed h opID t e (refreshed_with m (si_refresh x)) (si_rnd1 x) m"
  let ?nxt = "\<lambda>v. case v of None \<Rightarrow> PcDone ReturnedNil | Some (tr, True) \<Rightarrow> PcIdleBind h opID t tr
                 | Some (tr, False) \<Rightarrow> PcIdleUndispatched h opID t tr"
  have s: "session_section d x ?pc m = (fst ?f, ?nxt (snd ?f))" by (simp add: session_section_def case_prod_beta)
  have car: "carries (?nxt v) = Some h \<or> carries (?nxt v) = None" for v by (simp split: option.split bool.split)
  show ?thesis
  proof (cases "is_pending h m")
    case False
    then have "fst ?f = m" by (auto simp: idle_refreshed_def is_pending_def split: option.splits)
    then show ?thesis using ready_still[OF r] False s car by simp
  next
    case True
    then obtain p where p: "ma_pendingOperation m = Some p" "po_handle p = h" by (rule pending_at)
    have ow: "owner_op OperationDisable t p" using call_agrees[OF readyD(3)[OF r] _ p] by simp
    show ?thesis
    proof (cases "ma_state m \<in> owner_states")
      case False
      then have "fst ?f = m" using p by (auto simp: idle_refreshed_def owner_states_def)
      then show ?thesis unfolding s using False idle_flag_state[OF readyD(2)[OF r]] car
        by (intro serves_ended) (auto simp: owner_states_def)
    next
      case True
      then have ref: "ma_state m = Refreshing" "ma_mutexHeld m"
        using readyD(5)[OF r p(1)] p(2) manager_okD(3)[OF readyD(1)[OF r]] by simp_all
      have flag: "\<not> ma_idleExpiryPending m" using idle_flag_state[OF readyD(2)[OF r]] ref by simp
      have tgt: "po_Target p = ma_activeTarget m" using readyD(2)[OF r] True p by (simp add: timer_ok_def)
      have re: "serves m ?pc (m\<lparr> ma_transport := tr, ma_observedEpoch := tk_TransportEpoch tr, ma_pendingEpoch := 0,
                          ma_state := Active, ma_pendingOperation := Some (p\<lparr> po_Transport := tr \<rparr>) \<rparr>) (?nxt (Some (tr, b)))" for tr b
        by (rule serves_carried[where p = "p\<lparr> po_Transport := tr \<rparr>"])
          (use p tgt flag ow in \<open>auto simp: carried_at_def timer_ok_def owner_op_def split: bool.split\<close>)
      have ab: "serves m ?pc (abandon_pending t' e' src rnd m0) (?nxt None)" for t' e' src rnd m0
        by (rule serves_ended) (simp_all add: owner_states_def)
      show ?thesis unfolding s using re ab ref p by (simp add: idle_refreshed_def split: sum.split)
    qed
  qed
qed

lemma idle_end_serves:
  assumes r: "ready m pc" and pc: "pc = PcIdleUndispatched h opID t tr \<or> pc = PcIdleSent h opID t tr"
  shows "serves m pc (fst (session_section d x pc m)) (snd (session_section d x pc m))"
proof -
  have s: "fst (session_section d x pc m) = (if pc = PcIdleUndispatched h opID t tr then idle_undispatched h opID t tr (si_rnd1 x) m
      else idle_finish h opID t tr (si_outcome x) (si_rnd1 x) m)" "carries (snd (session_section d x pc m)) = None" "carries pc = Some h"
    using pc by (auto simp: session_section_def)
  show ?thesis
  proof (cases "is_pending h m")
    case False
    then have "fst (session_section d x pc m) = m" unfolding s
      by (auto simp: idle_undispatched_def idle_finish_def is_pending_def split: option.splits)
    then show ?thesis using ready_still[OF r] False s by simp
  next
    case True
    then obtain p where p: "ma_pendingOperation m = Some p" "po_handle p = h" by (rule pending_at)
    have "po_Kind p = OperationDisable" using call_agrees[OF readyD(3)[OF r] _ p] pc by (auto simp: owner_op_def)
    then have flag: "\<not> ma_idleExpiryPending m" using idle_flag_kind[OF readyD(2)[OF r] p(1)] by simp
    show ?thesis
      by (rule serves_ended) (use s True p flag in \<open>auto simp: idle_undispatched_def idle_finish_def owner_states_def Let_def\<close>)
  qed
qed

lemma section_serves:
  assumes r: "ready m pc"
  shows "serves m pc (fst (session_section d x pc m)) (snd (session_section d x pc m))"
proof (cases pc)
  case (PcBind k t h opID)
  then show ?thesis using bind_serves[OF r] by (simp add: session_section_def)
next
  case (PcSent k t h opID)
  then show ?thesis using read_finish_serves disable_finish_serves r by (cases "k = OperationDisable") auto
next
  case (PcCleanup e q)
  have "ma_state m = Disabled" using readyD(3)[OF r] PcCleanup by (simp add: call_ok_def fenced_def)
  then show ?thesis using cleanup_serves[OF r] PcCleanup by blast
next
  case (PcCleanupBind aid e h q)
  then show ?thesis using cleanup_serves[OF r] cleanup_serves_owner[OF r] by blast
next
  case (PcCleanupSent aid e h q)
  then show ?thesis using cleanup_serves[OF r] cleanup_serves_owner[OF r] by blast
next
  case (PcRecord aid e out q)
  then show ?thesis using cleanup_serves[OF r] cleanup_serves_owner[OF r] by blast
next
  case (PcIdleBind h opID t tr)
  then show ?thesis using bind_serves[OF r] by (simp add: session_section_def)
next
  case (PcDone q)
  then show ?thesis using ready_still[OF r] by (simp add: session_section_def)
qed (use r enable_admit_serves enable_finish_serves owner_begin_serves owner_refreshed_serves quiet_serves idle_refreshed_serves
    idle_end_serves[OF r] in \<open>auto simp: session_section_def\<close>)

text \<open>The operations outside the calls.\<close>

definition attends :: "Manager \<Rightarrow> Manager \<Rightarrow> bool" where
  "attends m m' \<longleftrightarrow>
     timer_ok m' \<and> (ma_state m' = Refreshing \<longrightarrow> ma_pendingOperation m' \<noteq> None) \<and>
     (ma_state m' \<in> owner_states \<longrightarrow> (\<forall>p'. ma_pendingOperation m' = Some p' \<longrightarrow>
        ma_state m' = ma_state m \<and> (\<exists>p. ma_pendingOperation m = Some p \<and> po_handle p = po_handle p')))"

definition like_op :: "pendingOperation \<Rightarrow> pendingOperation \<Rightarrow> bool" where
  "like_op p p' \<longleftrightarrow> po_handle p' = po_handle p \<and> po_Kind p' = po_Kind p \<and> po_Target p' = po_Target p"

lemma attends_like:
  assumes t: "timer_ok m" and r: "ma_state m = Refreshing \<longrightarrow> ma_pendingOperation m \<noteq> None"
    and s: "ma_state m' = ma_state m" "ma_idleTimeout m' = ma_idleTimeout m" "ma_idleTimerGen m' = ma_idleTimerGen m"
      "ma_callbacks m' = ma_callbacks m" "ma_idleExpiryPending m' = ma_idleExpiryPending m" "ma_activeTarget m' = ma_activeTarget m"
    and p: "rel_option like_op (ma_pendingOperation m) (ma_pendingOperation m')"
  shows "attends m m'"
proof (cases "ma_pendingOperation m")
  case None
  then have "ma_pendingOperation m' = None" using p by simp
  then show ?thesis using None t r s by (simp add: attends_def timer_ok_def)
next
  case (Some q)
  then obtain q' where q': "ma_pendingOperation m' = Some q'" "like_op q q'" using p by (cases "ma_pendingOperation m'") auto
  then show ?thesis using Some t r s by (simp add: attends_def timer_ok_def like_op_def)
qed

lemma attends_ended: "ma_state m' \<notin> owner_states \<Longrightarrow> \<not> ma_idleExpiryPending m' \<Longrightarrow> attends m m'"
  by (auto simp: attends_def timer_ok_def owner_states_def)

lemma like_op_refl [simp]: "rel_option like_op q q" by (simp add: like_op_def option.rel_refl)

lemma like_invalidated [simp]: "rel_option like_op q (map_option (\<lambda>p. p\<lparr> po_invalidated := True \<rparr>) q)"
  by (cases q) (simp_all add: like_op_def)

lemma admit_attends:
  assumes "timer_ok m" and "ma_state m = Refreshing \<longrightarrow> ma_pendingOperation m \<noteq> None"
  shows "attends m (fst (AdmitPendingEmission opID t m))"
    and "attends m ((fst (AdmitPendingEmission opID t m))\<lparr> ma_emissionMu := True \<rparr>)"
  by (rule attends_like[OF assms]; auto simp: AdmitPendingEmission_def like_op_def split: option.split)+

lemma begin_attends:
  assumes "timer_ok m" and "ma_state m = Refreshing \<longrightarrow> ma_pendingOperation m \<noteq> None"
  shows "attends m (case BeginPendingEmission opID t m of None \<Rightarrow> m | Some (m1, ok) \<Rightarrow> m1)"
  using admit_attends[OF assms, of opID t] attends_like[OF assms, of m]
  by (simp add: BeginPendingEmission_def case_prod_beta)

lemma disconnect_attends:
  assumes ok: "manager_ok m" and t: "timer_ok m" and r: "ma_state m = Refreshing \<longrightarrow> ma_pendingOperation m \<noteq> None"
  shows "attends m (OnTransportDisconnect rnd m)"
proof (cases "ma_mutexHeld m")
  case False
  then show ?thesis using attends_like[OF t r, of m] by (simp add: OnTransportDisconnect_def)
next
  case held: True
  let ?m = "invalidate_pending m"
  show ?thesis
  proof (cases "unsent_enable ?m")
    case (Some p)
    then obtain q where q: "ma_pendingOperation m = Some q" "po_Kind q = OperationEnable" using unsent_enableE[OF Some] by auto
    then have flag: "\<not> ma_idleExpiryPending m" using idle_flag_kind[OF t q(1)] by simp
    have "attends m (drop_enable p ?m)" by (rule attends_ended) (use flag in \<open>simp_all add: drop_enable_def owner_states_def\<close>)
    then show ?thesis using Some held by (simp add: OnTransportDisconnect_def)
  next
    case None
    have "attends m (createCleanupLocked t' e src rnd (toDisabledLocked ?m))" for t' e src
      by (rule attends_ended) (simp_all add: owner_states_def)
    then show ?thesis using None held by (simp add: OnTransportDisconnect_def Let_def case_prod_beta)
  qed
qed

lemma epoch_attends:
  assumes ok: "manager_ok m" and t: "timer_ok m" and r: "ma_state m = Refreshing \<longrightarrow> ma_pendingOperation m \<noteq> None"
  shows "attends m (OnEpochAdvance e m)"
proof (cases "e \<le> ma_observedEpoch m")
  case True
  then show ?thesis using attends_like[OF t r, of m] by (simp add: OnEpochAdvance_def)
next
  case new: False
  let ?m = "invalidate_pending (m\<lparr> ma_observedEpoch := e, ma_lastRefreshTransportDown := False \<rparr>)"
  have drop: "attends m (drop_enable p (set_epoch e ?m))" if "ma_state m = Enabling" for p
    by (rule attends_ended) (use idle_flag_state[OF t] that in \<open>simp_all add: drop_enable_def owner_states_def\<close>)
  have "attends m (?m\<lparr> ma_pendingEpoch := e \<rparr>)" "attends m ((set_epoch e ?m)\<lparr> ma_pendingEpoch := 0 \<rparr>)"
    by (rule attends_like[OF t r]; simp)+
  then show ?thesis using new drop by (simp add: OnEpochAdvance_def Let_def split: option.split)
qed

lemma restart_attends: "attends m (ResetForRestart ts m)"
  by (rule attends_ended) (simp_all add: owner_states_def ResetForRestart_def Let_def)

lemma fire_attends:
  assumes t: "timer_ok m" and r: "ma_state m = Refreshing \<longrightarrow> ma_pendingOperation m \<noteq> None"
    and f: "f = fire_timer gen x m" and n: "\<forall>h opID tg e. snd f \<noteq> IdleRefresh h opID tg e"
  shows "attends m (fst f)"
proof -
  let ?m = "m\<lparr> ma_callbacks := remove1 gen (ma_callbacks m) \<rparr>"
  show ?thesis
  proof (cases "gen = ma_idleTimerGen m \<and> ma_state m = Active")
    case False
    then have m': "fst f = ?m" unfolding f fire_timer_def idleTimerFired_def by auto
    have "timer_ok ?m" using t False by (auto simp: timer_ok_def in_set_remove1)
    then show ?thesis using r unfolding m' by (simp add: attends_def)
  next
    case True
    show ?thesis
    proof (cases "ma_pendingOperation m")
      case (Some p)
      then have m': "fst f = (if po_Kind p = OperationRead then ?m\<lparr> ma_idleExpiryPending := True \<rparr> else ?m)"
        using True unfolding f fire_timer_def idleTimerFired_def by simp
      have "timer_ok (fst f)" using t True Some unfolding m' by (auto simp: timer_ok_def)
      then show ?thesis using True Some unfolding m' by (simp add: attends_def)
    next
      case None
      have e: "\<not> ma_pendingEpoch m > tk_TransportEpoch (ma_transport m)"
        using True None n unfolding f fire_timer_def idleTimerFired_def by (auto simp: Let_def case_prod_beta)
      have "fst f = createCleanupLocked (ma_activeTarget m) (tk_TransportEpoch (ma_transport m))
          (fst (newCleanupAttemptID (si_rnd1 x) ?m)) (si_rnd2 x) (toDisabledLocked (snd (newCleanupAttemptID (si_rnd1 x) ?m)))"
        using True None e unfolding f fire_timer_def idleTimerFired_def by (simp add: Let_def case_prod_beta)
      then show ?thesis by (simp add: attends_ended owner_states_def)
    qed
  qed
qed

lemma fire_refresh:
  assumes t: "timer_ok m" and f: "f = fire_timer gen x m" and n: "snd f = IdleRefresh h opID tg e"
  shows "\<exists>p. ma_pendingOperation (fst f) = Some p \<and> po_handle p = h \<and> h = ma_nextHandle m \<and> ma_state (fst f) = Refreshing \<and> timer_ok (fst f)"
proof -
  let ?m = "m\<lparr> ma_callbacks := remove1 gen (ma_callbacks m) \<rparr>"
  let ?n = "newCleanupAttemptID (si_rnd1 x) ?m"
  let ?p = "new_pending (fst ?n) OperationDisable (ma_activeTarget m) (snd ?n)"
  have a: "ma_state m = Active" "ma_pendingOperation m = None" "f = ((put_pending ?p (snd ?n))\<lparr> ma_state := Refreshing \<rparr>,
      IdleRefresh (po_handle ?p) (fst ?n) (ma_activeTarget m) (ma_pendingEpoch m))"
    using n unfolding f fire_timer_def idleTimerFired_def by (auto simp: Let_def case_prod_beta split: if_splits option.splits)
  have flag: "\<not> ma_idleExpiryPending m" using t a(2) by (simp add: timer_ok_def)
  show ?thesis using a flag n by (simp add: put_pending_def new_pending_def timer_ok_def)
qed

lemma servedD:
  assumes "served w"
  shows "session_ok w" "manager_ok (sw_manager w)" "timer_ok (sw_manager w)"
    and "ma_state (sw_manager w) = Refreshing \<longrightarrow> ma_pendingOperation (sw_manager w) \<noteq> None"
    and "i < length (sw_calls w) \<Longrightarrow> call_ok (sw_manager w) (sc_pc (sw_calls w ! i))"
  using assms by (simp_all add: served_def linked_def session_ok_def list_all_length)

text \<open>The call that carries the operation of an owner, and that it is the only one.\<close>

lemma served_call:
  assumes w: "served w" and o: "ma_state (sw_manager w) \<in> owner_states" and p: "ma_pendingOperation (sw_manager w) = Some p"
  obtains i where "i < length (sw_calls w)" "carried_at (po_handle p) (ma_state (sw_manager w)) (sc_pc (sw_calls w ! i))"
  using assms by (auto simp: served_def linked_def)

lemma served_unique:
  assumes "served w" and "i < length (sw_calls w)" "j < length (sw_calls w)"
    and "carries (sc_pc (sw_calls w ! i)) = Some h" "carries (sc_pc (sw_calls w ! j)) = Some h"
  shows "i = j"
  using assms by (auto simp: served_def linked_def)

lemma served_ready:
  assumes w: "served w" and i: "i < length (sw_calls w)"
  shows "ready (sw_manager w) (sc_pc (sw_calls w ! i))"
proof -
  have "stage (sc_pc (sw_calls w ! i)) = Some (ma_state (sw_manager w))"
    if p: "ma_pendingOperation (sw_manager w) = Some p" and c: "carries (sc_pc (sw_calls w ! i)) = Some (po_handle p)"
      and o: "ma_state (sw_manager w) \<in> owner_states" for p
  proof -
    obtain j where j: "j < length (sw_calls w)" "carried_at (po_handle p) (ma_state (sw_manager w)) (sc_pc (sw_calls w ! j))"
      using served_call[OF w o p] .
    then have "i = j" using served_unique[OF w i j(1) c] by (simp add: carried_at_def)
    then show ?thesis using j(2) by (simp add: carried_at_def)
  qed
  then show ?thesis using servedD(2,3,4)[OF w] servedD(5)[OF w i] by (simp add: ready_def)
qed

lemma served_attended:
  assumes w: "served w" and a: "attends (sw_manager w) (sw_manager w')" and ok: "session_ok w'"
    and c: "sw_calls w' = sw_calls w @ cs" "list_all (\<lambda>c. carries (sc_pc c) = None) cs"
  shows "served w'"
proof -
  have old: "i < length (sw_calls w)" if "i < length (sw_calls w')" "carries (sc_pc (sw_calls w' ! i)) = Some h" for i h
    using that c by (cases "i < length (sw_calls w)") (simp_all add: list_all_length nth_append)
  have uniq: "i = j" if "i < length (sw_calls w')" "j < length (sw_calls w')" "carries (sc_pc (sw_calls w' ! i)) = Some h"
      "carries (sc_pc (sw_calls w' ! j)) = Some h" for i j h
    using served_unique[OF w old[OF that(1,3)] old[OF that(2,4)]] that(3,4) old[OF that(1,3)] old[OF that(2,4)] c(1)
    by (simp add: nth_append)
  have "\<exists>i < length (sw_calls w'). carried_at (po_handle p') (ma_state (sw_manager w')) (sc_pc (sw_calls w' ! i))"
    if o: "ma_state (sw_manager w') \<in> owner_states" and p': "ma_pendingOperation (sw_manager w') = Some p'" for p'
  proof -
    obtain p where p: "ma_pendingOperation (sw_manager w) = Some p" "po_handle p = po_handle p'"
      "ma_state (sw_manager w') = ma_state (sw_manager w)" using a o p' by (auto simp: attends_def)
    obtain i where i: "i < length (sw_calls w)" "carried_at (po_handle p) (ma_state (sw_manager w)) (sc_pc (sw_calls w ! i))"
      using served_call[OF w _ p(1)] o p(3) by auto
    then show ?thesis using p c(1) by (intro exI[of _ i]) (simp add: nth_append)
  qed
  then show ?thesis using a ok uniq unfolding served_def linked_def attends_def by blast
qed

lemma served_section:
  assumes w: "served w" and i: "i < length (sw_calls w)"
  shows "served (session_step w (SectionOp i x))"
proof -
  let ?m = "sw_manager w" and ?w = "session_step w (SectionOp i x)" and ?pc = "sc_pc (sw_calls w ! i)"
  let ?s = "session_section (sc_dispatch (sw_calls w ! i)) x ?pc ?m"
  have w': "sw_manager ?w = fst ?s" "sw_calls ?w = (sw_calls w)[i := (sw_calls w ! i)\<lparr> sc_pc := snd ?s \<rparr>]"
    using i by (simp_all add: case_prod_beta Let_def)
  have at: "sc_pc (sw_calls ?w ! j) = (if j = i then snd ?s else sc_pc (sw_calls w ! j))" if "j < length (sw_calls w)" for j
    using that i unfolding w' by (simp add: nth_list_update)
  have len: "length (sw_calls ?w) = length (sw_calls w)" unfolding w' by simp
  have s: "serves ?m ?pc (fst ?s) (snd ?s)" by (rule section_serves[OF served_ready[OF w i]])
  have new: "carries (snd ?s) = carries ?pc \<or> carries (snd ?s) = None \<or> carries (snd ?s) = Some (ma_nextHandle ?m)"
    using s by (simp add: serves_def)
  have below: "h < ma_nextHandle ?m" if "j < length (sw_calls w)" "carries (sc_pc (sw_calls w ! j)) = Some h" for j h
    using servedD(5)[OF w that(1)] that(2) by (simp add: call_ok_def)
  have apart: "carries (sc_pc (sw_calls w ! j)) \<noteq> Some h" if "carries (snd ?s) = Some h" "j < length (sw_calls w)" "j \<noteq> i" for j h
  proof
    assume j: "carries (sc_pc (sw_calls w ! j)) = Some h"
    have "carries ?pc = Some h \<or> h = ma_nextHandle ?m" using new unfolding that(1) by (elim disjE) simp_all
    then show False
    proof
      assume "carries ?pc = Some h"
      then show False using that(3) served_unique[OF w that(2) i j] by argo
    next
      assume "h = ma_nextHandle ?m"
      then show False using below[OF that(2) j] by simp
    qed
  qed
  have uniq: "j = k" if "j < length (sw_calls w)" "k < length (sw_calls w)" "carries (sc_pc (sw_calls ?w ! j)) = Some h"
      "carries (sc_pc (sw_calls ?w ! k)) = Some h" for j k h
  proof (cases "j = i \<or> k = i")
    case True
    then show ?thesis using that(3,4) apart[of h j] apart[of h k] that(1,2)
      unfolding at[OF that(1)] at[OF that(2)] by (cases "j = i"; cases "k = i") simp_all
  next
    case False
    then show ?thesis using that(3,4) served_unique[OF w that(1,2)] unfolding at[OF that(1)] at[OF that(2)] by simp
  qed
  have "\<exists>j < length (sw_calls w). carried_at (po_handle p') (ma_state (fst ?s)) (sc_pc (sw_calls ?w ! j))"
    if o: "ma_state (fst ?s) \<in> owner_states" and p': "ma_pendingOperation (fst ?s) = Some p'" for p'
  proof (cases "carried_at (po_handle p') (ma_state (fst ?s)) (snd ?s)")
    case True
    then show ?thesis using i at[OF i] by (intro exI[of _ i]) simp
  next
    case False
    then obtain p where p: "ma_pendingOperation ?m = Some p" "po_handle p = po_handle p'" "ma_state (fst ?s) = ma_state ?m"
      "carries ?pc \<noteq> Some (po_handle p)" using s o p' by (auto simp: serves_def)
    obtain j where j: "j < length (sw_calls w)" "carried_at (po_handle p) (ma_state ?m) (sc_pc (sw_calls w ! j))"
      using served_call[OF w _ p(1)] o p(3) by auto
    then have "j \<noteq> i" using p(4) by (auto simp: carried_at_def)
    then show ?thesis using j p at[OF j(1)] by (intro exI[of _ j]) simp
  qed
  then show ?thesis
    using s session_ok_step[OF servedD(1)[OF w]] uniq unfolding served_def linked_def serves_def len w'(1) by blast
qed

lemma served_fired:
  assumes w: "served w" and f: "f = fire_timer gen x (sw_manager w)"
    and w': "w' = new_call True (after_fired (snd f)) (on_manager (\<lambda>_. fst f) w)" and ok: "session_ok w'"
  shows "served w'"
proof (cases "\<exists>h opID tg e. snd f = IdleRefresh h opID tg e")
  case False
  then have "\<forall>h opID tg e. snd f \<noteq> IdleRefresh h opID tg e" by blast
  then have a: "attends (sw_manager w) (fst f)" by (rule fire_attends[OF servedD(3,4)[OF w] f])
  have "carries (after_fired (snd f)) = None" using False by (cases "snd f") (simp_all add: after_fired_def)
  then show ?thesis
    by (intro served_attended[OF w _ ok, where cs = "[\<lparr> sc_dispatch = True, sc_pc = after_fired (snd f) \<rparr>]"])
      (use a in \<open>simp_all add: w' new_call_def on_manager_def\<close>)
next
  case True
  then obtain h opID tg e where n: "snd f = IdleRefresh h opID tg e" by blast
  let ?m = "sw_manager w" and ?pc = "PcIdleRefresh h opID tg e"
  obtain p where p: "ma_pendingOperation (fst f) = Some p" "po_handle p = h" "h = ma_nextHandle ?m"
    "ma_state (fst f) = Refreshing" "timer_ok (fst f)" using fire_refresh[OF servedD(3)[OF w] f n] by blast
  have w'': "sw_manager w' = fst f" "sw_calls w' = sw_calls w @ [\<lparr> sc_dispatch = True, sc_pc = ?pc \<rparr>]"
    by (simp_all add: w' n new_call_def on_manager_def after_fired_def)
  have "h' < ma_nextHandle ?m" if "j < length (sw_calls w)" "carries (sc_pc (sw_calls w ! j)) = Some h'" for j h'
    using servedD(5)[OF w that(1)] that(2) by (simp add: call_ok_def)
  then have old: "carries (sc_pc (sw_calls w ! j)) \<noteq> Some h" if "j < length (sw_calls w)" for j
    using that p(3) by blast
  have at: "sc_pc (sw_calls w' ! j) = (if j < length (sw_calls w) then sc_pc (sw_calls w ! j) else ?pc)"
    if "j < length (sw_calls w')" for j using that unfolding w'' by (simp add: nth_append)
  have len: "length (sw_calls w') = Suc (length (sw_calls w))" unfolding w'' by simp
  have uniq: "i = j" if "i < length (sw_calls w')" "j < length (sw_calls w')" "carries (sc_pc (sw_calls w' ! i)) = Some h'"
      "carries (sc_pc (sw_calls w' ! j)) = Some h'" for i j h'
    using that(3,4) old[of i] old[of j] served_unique[OF w, of i j h'] that(1,2)[unfolded len]
    unfolding at[OF that(1)] at[OF that(2)] by (cases "i < length (sw_calls w)"; cases "j < length (sw_calls w)") auto
  have "carried_at h Refreshing (sc_pc (sw_calls w' ! length (sw_calls w)))" unfolding w'' by (simp add: carried_at_def)
  then have "\<exists>i < length (sw_calls w'). carried_at h Refreshing (sc_pc (sw_calls w' ! i))"
    unfolding w''(2) by (metis length_append_singleton lessI)
  then have "\<forall>q. ma_pendingOperation (fst f) = Some q \<longrightarrow>
      (\<exists>i < length (sw_calls w'). carried_at (po_handle q) (ma_state (fst f)) (sc_pc (sw_calls w' ! i)))" using p(1,2,4) by simp
  moreover have "ma_pendingOperation (fst f) \<noteq> None" using p(1) by simp
  ultimately show ?thesis using p(5) ok uniq unfolding served_def linked_def w''(1) by blast
qed

lemma served_step:
  assumes w: "served w" and op: "production op"
  shows "served (session_step w op)"
proof -
  let ?m = "sw_manager w" and ?w = "session_step w op"
  note ok = session_ok_step[OF servedD(1)[OF w], of op] and t = servedD(3)[OF w] and r = servedD(4)[OF w]
  have still: "attends ?m ?m" by (rule attends_like[OF t r]) simp_all
  have mark: "attends ?m (MarkQualifiedTarget tg ?m)" for tg
    by (rule attends_like[OF t r]) (simp_all add: MarkQualifiedTarget_def)
  have set: "attends ?m (SetCleanupDispatcher b ?m)" "attends ?m (?m\<lparr> ma_emissionMu := b \<rparr>)" for b
    by (rule attends_like[OF t r]; simp add: SetCleanupDispatcher_def)+
  note att = still mark set admit_attends(1)[OF t r] begin_attends[OF t r] disconnect_attends[OF servedD(2)[OF w] t r]
    epoch_attends[OF servedD(2)[OF w] t r] restart_attends
  have plain: "served ?w" if "sw_calls ?w = sw_calls w" "attends ?m (sw_manager ?w)"
    using served_attended[OF w that(2) ok, of "[]"] that(1) by simp
  have more: "served ?w" if "sw_calls ?w = sw_calls w @ [c]" "carries (sc_pc c) = None" "attends ?m (sw_manager ?w)" for c
    using served_attended[OF w that(3) ok, of "[c]"] that(1,2) by simp
  show ?thesis
  proof (cases op)
    case (TimerOp gen x)
    then show ?thesis using w ok served_fired[OF w refl refl, of gen x]
      by (cases "gen \<in> set (ma_callbacks ?m)") (simp_all add: case_prod_beta Let_def)
  next
    case (SectionOp i x)
    then show ?thesis using w served_section[OF w, of i x] by (cases "i < length (sw_calls w)") simp_all
  next
    case (EnableOp tg d)
    then show ?thesis by (intro more[of "\<lparr> sc_dispatch = d, sc_pc = PcEnable tg \<rparr>"]) (simp_all add: new_call_def on_manager_def att)
  next
    case (ReadOp tg d)
    then show ?thesis by (intro more[of "\<lparr> sc_dispatch = d, sc_pc = PcOwner OperationRead tg None \<rparr>"]) (simp_all add: new_call_def on_manager_def att)
  next
    case (DisableOp key tg d)
    then show ?thesis by (intro more[of "\<lparr> sc_dispatch = d, sc_pc = PcOwner OperationDisable tg (Some key) \<rparr>"]) (simp_all add: new_call_def on_manager_def att)
  qed (use op in \<open>(intro plain; simp add: on_manager_def att)?; simp\<close>)+
qed

lemma served_new: "served (new_session_world tr timeout refresh)"
  using session_ok_new[of tr timeout refresh]
  by (simp add: served_def linked_def timer_ok_def new_session_world_def New_manager_def owner_states_def)

lemma served_run: "served w \<Longrightarrow> list_all production ops \<Longrightarrow> served (foldl session_step w ops)"
  by (induction ops arbitrary: w) (simp_all add: served_step)

section \<open>Every operation is settled\<close>

text \<open>How many sections a call still runs before it has settled the operation it carries.\<close>

fun sections_left :: "session_pc \<Rightarrow> nat" where
  "sections_left (PcEnableSent t h opID tok) = 1"
| "sections_left (PcRefresh k t h opID e) = 4"
| "sections_left (PcBind k t h opID) = 3"
| "sections_left (PcQuiet t h opID) = 2"
| "sections_left (PcSent k t h opID) = 1"
| "sections_left (PcIdleRefresh h opID t e) = 3"
| "sections_left (PcIdleUndispatched h opID t tr) = 1"
| "sections_left (PcIdleBind h opID t tr) = 2"
| "sections_left (PcIdleSent h opID t tr) = 1"
| "sections_left _ = 0"

definition operation_held :: "nat \<Rightarrow> Manager \<Rightarrow> bool" where
  "operation_held h m = (IsOwned m \<and> is_pending h m)"

lemma not_held_none: "ma_pendingOperation m = None \<Longrightarrow> \<not> operation_held h m"
  by (simp add: operation_held_def is_pending_def)

lemma settle_none: "ma_pendingOperation m = None \<Longrightarrow> ma_pendingOperation (fst (enable_settle opID tok t adv out rnd m)) = None"
  by (simp add: enable_settle_def Let_def)

lemma enable_finish_none:
  assumes "is_pending h m" shows "ma_pendingOperation (fst (enable_finish h opID tok t out rnd m)) = None"
proof -
  obtain p where "ma_pendingOperation m = Some p" "po_handle p = h" using assms by (rule pending_at)
  then show ?thesis by (simp add: enable_finish_def enable_interrupted_def toIdleLocked_def Let_def settle_none)
qed

lemma read_finish_none:
  assumes "is_pending h m" shows "ma_pendingOperation (fst (read_finish t h opID out rnd m)) = None"
proof -
  obtain p where "ma_pendingOperation m = Some p" "po_handle p = h" using assms by (rule pending_at)
  then show ?thesis by (simp add: read_finish_def consumeIdleExpiryAfterReadLocked_def Let_def split: option.split)
qed

lemma disable_finish_none:
  assumes "is_pending h m" shows "ma_pendingOperation (fst (disable_finish t h opID out rnd m)) = None"
proof -
  obtain p where "ma_pendingOperation m = Some p" "po_handle p = h" using assms by (rule pending_at)
  then show ?thesis by (simp add: disable_finish_def Let_def)
qed

lemma idle_end_none:
  assumes "is_pending h m"
  shows "ma_pendingOperation (idle_undispatched h opID t tr rnd m) = None" "ma_state (idle_undispatched h opID t tr rnd m) = Disabled"
    and "ma_pendingOperation (idle_finish h opID t tr out rnd m) = None" "ma_state (idle_finish h opID t tr out rnd m) = Disabled"
proof -
  obtain p where "ma_pendingOperation m = Some p" "po_handle p = h" using assms by (rule pending_at)
  then show "ma_pendingOperation (idle_undispatched h opID t tr rnd m) = None" "ma_state (idle_undispatched h opID t tr rnd m) = Disabled"
    "ma_pendingOperation (idle_finish h opID t tr out rnd m) = None" "ma_state (idle_finish h opID t tr out rnd m) = Disabled"
    using assms by (simp_all add: idle_undispatched_def idle_finish_def Let_def)
qed

lemma refreshed_settles:
  assumes p: "is_pending h m" and m: "ma_mutexHeld m" "ma_state m = Refreshing"
  shows "snd (owner_refreshed t h opID e r rnd m) \<noteq> None \<Longrightarrow> ma_pendingOperation (fst (owner_refreshed t h opID e r rnd m)) = None"
    and "snd (idle_refreshed h opID t e r rnd m) = None \<Longrightarrow>
      ma_pendingOperation (fst (idle_refreshed h opID t e r rnd m)) = None \<and> ma_state (fst (idle_refreshed h opID t e r rnd m)) = Disabled"
proof -
  obtain q where q: "ma_pendingOperation m = Some q" "po_handle q = h" using p by (rule pending_at)
  show "snd (owner_refreshed t h opID e r rnd m) \<noteq> None \<Longrightarrow> ma_pendingOperation (fst (owner_refreshed t h opID e r rnd m)) = None"
    using q m by (cases r) (auto simp: owner_refreshed_def Let_def split: if_splits)
  show "snd (idle_refreshed h opID t e r rnd m) = None \<Longrightarrow>
      ma_pendingOperation (fst (idle_refreshed h opID t e r rnd m)) = None \<and> ma_state (fst (idle_refreshed h opID t e r rnd m)) = Disabled"
    using q m by (cases r) (simp_all add: idle_refreshed_def Let_def split: if_splits)
qed

lemma section_settles:
  assumes ok: "manager_ok m" and held: "operation_held h m" and c: "carried_at h (ma_state m) pc"
    and s: "s = session_section d x pc m"
  shows "\<not> operation_held h (fst s) \<or> carries (snd s) = Some h \<and> sections_left (snd s) < sections_left pc"
proof -
  have h: "is_pending h m" "ma_mutexHeld m" using held by (simp_all add: operation_held_def IsOwned_def)
  have car: "carries pc = Some h" and st: "stage pc = Some (ma_state m)" using c by (simp_all add: carried_at_def)
  show ?thesis
  proof (cases pc)
    case (PcEnableSent t h' opID tok)
    then show ?thesis using car enable_finish_none[OF h(1)] s by (simp add: session_section_def case_prod_beta not_held_none)
  next
    case (PcRefresh k t h' opID e)
    then show ?thesis using car st s refreshed_settles(1)[OF h]
      by (cases "snd (owner_refreshed t h opID e (refreshed_with m (si_refresh x)) (si_rnd1 x) m)")
        (simp_all add: session_section_def case_prod_beta not_held_none)
  next
    case (PcSent k t h' opID)
    then show ?thesis using car read_finish_none[OF h(1)] disable_finish_none[OF h(1)] s
      by (simp add: session_section_def case_prod_beta not_held_none)
  next
    case (PcIdleRefresh h' opID t e)
    then show ?thesis using car st s refreshed_settles(2)[OF h]
      by (cases "snd (idle_refreshed h opID t e (refreshed_with m (si_refresh x)) (si_rnd1 x) m)")
        (auto simp: session_section_def case_prod_beta not_held_none split: bool.split)
  qed (use car st s idle_end_none[OF h(1)] in \<open>simp_all add: session_section_def not_held_none\<close>)
qed

definition section_count :: "nat \<Rightarrow> session_op list \<Rightarrow> nat" where
  "section_count i ops = length (filter (\<lambda>op. case op of SectionOp j x \<Rightarrow> j = i | _ \<Rightarrow> False) ops)"

lemma section_count_simps [simp]:
  "section_count i [] = 0"
  "section_count i (op # ops) = (case op of SectionOp j x \<Rightarrow> if j = i then 1 else 0 | _ \<Rightarrow> 0) + section_count i ops"
  by (simp_all add: section_count_def split: session_op.split)

lemma step_other_call:
  assumes i: "i < length (sw_calls w)" and op: "\<not> (\<exists>x. op = SectionOp i x)"
  shows "i < length (sw_calls (session_step w op))" "sw_calls (session_step w op) ! i = sw_calls w ! i"
proof -
  have "i < length (sw_calls (session_step w op)) \<and> sw_calls (session_step w op) ! i = sw_calls w ! i"
  proof (cases op)
    case (SectionOp j x)
    then have "j \<noteq> i" using op by auto
    then show ?thesis using i SectionOp by (simp add: case_prod_beta Let_def)
  qed (use i in \<open>simp_all add: new_call_def on_manager_def nth_append case_prod_beta Let_def\<close>)
  then show "i < length (sw_calls (session_step w op))" "sw_calls (session_step w op) ! i = sw_calls w ! i" by blast+
qed

lemma carried_left: "carried_at h s pc \<Longrightarrow> 0 < sections_left pc \<and> sections_left pc \<le> 4"
  by (cases pc) (simp_all add: carried_at_def)

lemma held_carried:
  assumes w: "served w" and held: "operation_held h (sw_manager w)" and i: "i < length (sw_calls w)"
    and c: "carries (sc_pc (sw_calls w ! i)) = Some h"
  shows "carried_at h (ma_state (sw_manager w)) (sc_pc (sw_calls w ! i))"
proof -
  obtain p where p: "ma_pendingOperation (sw_manager w) = Some p" "po_handle p = h"
    using held pending_at by (auto simp: operation_held_def)
  have "ma_state (sw_manager w) \<in> owner_states"
    using held manager_okD(3)[OF servedD(2)[OF w]] by (simp add: operation_held_def IsOwned_def)
  then show ?thesis using readyD(5)[OF served_ready[OF w i] p(1)] c p(2) by (simp add: carried_at_def)
qed

lemma held_settled:
  assumes "served w" and "list_all production ops" and "i < length (sw_calls w)" and "carries (sc_pc (sw_calls w ! i)) = Some h"
    and "sections_left (sc_pc (sw_calls w ! i)) \<le> section_count i ops"
  shows "\<exists>n \<le> length ops. \<not> operation_held h (sw_manager (foldl session_step w (take n ops)))"
  using assms
proof (induction ops arbitrary: w)
  case Nil
  then have "\<not> operation_held h (sw_manager w)" using held_carried[OF Nil.prems(1) _ Nil.prems(3,4)] carried_left by fastforce
  then show ?case by simp
next
  case (Cons op ops)
  let ?w = "session_step w op" and ?pc = "sc_pc (sw_calls w ! i)"
  have w': "served ?w" using served_step Cons.prems(1,2) by simp
  show ?case
  proof (cases "operation_held h (sw_manager w) \<and> operation_held h (sw_manager ?w)")
    case False
    then have "\<exists>n \<le> 1. \<not> operation_held h (sw_manager (foldl session_step w (take n (op # ops))))"
    proof (cases "operation_held h (sw_manager w)")
      case True
      with False show ?thesis by (intro exI[of _ 1]) simp
    qed (intro exI[of _ 0], simp)
    then show ?thesis by (metis le_trans length_Cons le_add2 plus_1_eq_Suc le_add1)
  next
    case held: True
    have "i < length (sw_calls ?w) \<and> carries (sc_pc (sw_calls ?w ! i)) = Some h \<and>
        sections_left (sc_pc (sw_calls ?w ! i)) \<le> section_count i ops"
    proof (cases "\<exists>x. op = SectionOp i x")
      case True
      then obtain x where op: "op = SectionOp i x" by blast
      let ?s = "session_section (sc_dispatch (sw_calls w ! i)) x ?pc (sw_manager w)"
      have at: "sw_manager ?w = fst ?s" "sc_pc (sw_calls ?w ! i) = snd ?s" "length (sw_calls ?w) = length (sw_calls w)"
        using Cons.prems(3) op by (simp_all add: case_prod_beta Let_def)
      have "carries (snd ?s) = Some h \<and> sections_left (snd ?s) < sections_left ?pc"
        using section_settles[OF servedD(2)[OF Cons.prems(1)] _ held_carried[OF Cons.prems(1) _ Cons.prems(3,4)] refl] held at(1)
        by auto
      then show ?thesis using at(2,3) Cons.prems(3,5) op by simp
    next
      case False
      then have "section_count i (op # ops) = section_count i ops" by (auto split: session_op.split)
      then show ?thesis using step_other_call[OF Cons.prems(3) False] Cons.prems(4,5) by (simp del: session_step.simps section_count_simps)
    qed
    then obtain n where "n \<le> length ops" "\<not> operation_held h (sw_manager (foldl session_step ?w (take n ops)))"
      using Cons.IH[OF w'] Cons.prems(2) by auto
    then show ?thesis by (intro exI[of _ "Suc n"]) simp
  qed
qed

section \<open>An idle owner expires\<close>

lemma fenced_run:
  assumes "session_ok w" and "fenced (sw_manager w)"
  shows "fenced (sw_manager (foldl session_step w ops))"
  using assms
proof (induction ops arbitrary: w)
  case (Cons op ops)
  then show ?case using session_ok_step goesD(5)[OF step_manager_goes] by simp
qed simp

lemma ended_fenced:
  assumes ok: "manager_ok m" and d: "ma_state m = Disabled" and n: "ma_pendingOperation m = None"
  shows "fenced m"
  using manager_okD(11)[OF ok d] d n by (auto simp: fenced_def bound_def pending_enable_def)

fun idle_call :: "session_pc \<Rightarrow> bool" where
  "idle_call (PcIdleRefresh h opID t e) = True"
| "idle_call (PcIdleUndispatched h opID t tr) = True"
| "idle_call (PcIdleBind h opID t tr) = True"
| "idle_call (PcIdleSent h opID t tr) = True"
| "idle_call _ = False"

lemma idle_refreshed_goes_on:
  assumes "is_pending h m" and "snd (idle_refreshed h opID t e r rnd m) = Some q"
  shows "is_pending h (fst (idle_refreshed h opID t e r rnd m))" "ma_state (fst (idle_refreshed h opID t e r rnd m)) = Active"
    and "ma_mutexHeld m"
  using assms by (auto simp: idle_refreshed_def is_pending_def Let_def split: if_splits option.splits sum.splits)

lemma bind_keeps: "is_pending h (bindPendingContext h' m) = is_pending h m" "ma_mutexHeld (bindPendingContext h' m) = ma_mutexHeld m"
  by (auto simp: bindPendingContext_def is_pending_def split: option.split)

lemma idle_section:
  assumes ok: "manager_ok m" "manager_ok (fst s)" and held: "operation_held h m" and c: "carried_at h (ma_state m) pc" "idle_call pc"
    and s: "s = session_section d x pc m"
  shows "fenced (fst s) \<or> operation_held h (fst s) \<and> carries (snd s) = Some h \<and> idle_call (snd s) \<and> sections_left (snd s) < sections_left pc"
proof -
  have h: "is_pending h m" "ma_mutexHeld m" using held by (simp_all add: operation_held_def IsOwned_def)
  have car: "carries pc = Some h" and st: "stage pc = Some (ma_state m)" using c by (simp_all add: carried_at_def)
  show ?thesis
  proof (cases pc)
    case (PcIdleRefresh h' opID t e)
    let ?r = "idle_refreshed h opID t e (refreshed_with m (si_refresh x)) (si_rnd1 x) m"
    have f: "fst s = fst ?r" using PcIdleRefresh car s by (simp add: session_section_def case_prod_beta)
    show ?thesis
    proof (cases "snd ?r")
      case None
      then show ?thesis using ended_fenced[OF ok(2)] refreshed_settles(2)[OF h] st PcIdleRefresh f by simp
    next
      case (Some q)
      obtain tr b where q: "q = (tr, b)" by (cases q)
      have "operation_held h (fst ?r)"
        using idle_refreshed_goes_on(1,2)[OF h(1) Some] manager_okD(3)[OF ok(2)] f
        by (simp add: operation_held_def IsOwned_def owner_states_def)
      then show ?thesis using PcIdleRefresh car s Some q f by (cases b) (simp_all add: session_section_def case_prod_beta)
    qed
  next
    case (PcIdleBind h' opID t tr)
    then show ?thesis using held car s by (simp add: session_section_def operation_held_def IsOwned_def bind_keeps)
  qed (use c car s ended_fenced[OF ok(2)] idle_end_none[OF h(1)] in \<open>simp_all add: session_section_def\<close>)
qed

lemma idle_sections_end:
  assumes "served w" and "i < length (sw_calls w)" and "carries (sc_pc (sw_calls w ! i)) = Some h"
    and "operation_held h (sw_manager w)" and "idle_call (sc_pc (sw_calls w ! i))"
    and "sections_left (sc_pc (sw_calls w ! i)) \<le> length xs"
  shows "fenced (sw_manager (foldl session_step w (map (SectionOp i) xs)))"
  using assms
proof (induction xs arbitrary: w)
  case Nil
  then show ?case using carried_left[OF held_carried[OF Nil.prems(1,4,2,3)]] by simp
next
  case (Cons x xs)
  let ?w = "session_step w (SectionOp i x)" and ?pc = "sc_pc (sw_calls w ! i)"
  let ?s = "session_section (sc_dispatch (sw_calls w ! i)) x ?pc (sw_manager w)"
  have at: "sw_manager ?w = fst ?s" "sc_pc (sw_calls ?w ! i) = snd ?s" "length (sw_calls ?w) = length (sw_calls w)"
    using Cons.prems(2) by (simp_all add: case_prod_beta Let_def)
  have w': "served ?w" by (rule served_section[OF Cons.prems(1,2)])
  have "manager_ok (fst ?s)" using servedD(2)[OF w'] at(1) by simp
  then consider "fenced (fst ?s)"
    | "operation_held h (fst ?s)" "carries (snd ?s) = Some h" "idle_call (snd ?s)" "sections_left (snd ?s) < sections_left ?pc"
    using idle_section[OF servedD(2)[OF Cons.prems(1)] _ Cons.prems(4) held_carried[OF Cons.prems(1,4,2,3)] Cons.prems(5) refl] by blast
  then show ?case
  proof cases
    case 1
    then show ?thesis using fenced_run[OF servedD(1)[OF w'], of "map (SectionOp i) xs"] at(1) by (simp del: session_step.simps)
  next
    case 2
    then have "fenced (sw_manager (foldl session_step ?w (map (SectionOp i) xs)))"
      using Cons.IH[OF w'] Cons.prems(2,6) at by (simp del: session_step.simps)
    then show ?thesis by (simp del: session_step.simps)
  qed
qed

lemma idle_owner_expires:
  assumes w: "served w" and o: "IsOwned (sw_manager w)" and n: "ma_pendingOperation (sw_manager w) = None"
    and t: "0 < ma_idleTimeout (sw_manager w)"
  shows "ma_state (sw_manager w) = Active" "ma_idleTimerGen (sw_manager w) \<in> set (ma_callbacks (sw_manager w))"
    and "length xs = 3 \<Longrightarrow> fenced (sw_manager (foldl session_step w
           (TimerOp (ma_idleTimerGen (sw_manager w)) x # map (SectionOp (length (sw_calls w))) xs)))"
proof -
  let ?m = "sw_manager w"
  have ok: "manager_ok ?m" by (rule servedD(2)[OF w])
  show a: "ma_state ?m = Active"
    using o n manager_okD(3,8)[OF ok] servedD(4)[OF w] by (auto simp: IsOwned_def owner_states_def)
  show g: "ma_idleTimerGen ?m \<in> set (ma_callbacks ?m)" using servedD(3)[OF w] a n t by (simp add: timer_ok_def)
  let ?gen = "ma_idleTimerGen ?m" and ?i = "length (sw_calls w)"
  let ?f = "fire_timer ?gen x ?m" and ?w = "session_step w (TimerOp (ma_idleTimerGen (sw_manager w)) x)"
  have w': "served ?w" by (rule served_step[OF w]) simp
  have at: "sw_manager ?w = fst ?f" "sw_calls ?w = sw_calls w @ [\<lparr> sc_dispatch = True, sc_pc = after_fired (snd ?f) \<rparr>]"
    using g by (simp_all add: case_prod_beta Let_def new_call_def on_manager_def)
  show "fenced (sw_manager (foldl session_step w (TimerOp ?gen x # map (SectionOp ?i) xs)))" if "length xs = 3"
  proof (cases "snd ?f")
    case IdleStale
    then show ?thesis using a n
      by (simp add: fire_timer_def idleTimerFired_def Let_def case_prod_beta split: if_splits)
  next
    case (IdleCleanup e)
    then have "fenced (fst ?f)" using fire_timer_goes(2)[OF ok, of ?gen x] by (simp add: after_fired_def call_ok_def)
    then show ?thesis using fenced_run[OF servedD(1)[OF w'], of "map (SectionOp ?i) xs"] at(1) by (simp del: session_step.simps)
  next
    case (IdleRefresh h opID tg e)
    obtain p where p: "ma_pendingOperation (fst ?f) = Some p" "po_handle p = h" "ma_state (fst ?f) = Refreshing"
      using fire_refresh[OF servedD(3)[OF w] refl IdleRefresh] by blast
    then have "operation_held h (sw_manager ?w)" using manager_okD(3)[OF servedD(2)[OF w']] at(1)
      by (simp add: operation_held_def IsOwned_def is_pending_def owner_states_def del: session_step.simps)
    then show ?thesis using idle_sections_end[OF w', of ?i h xs] at(2) IdleRefresh that
      by (simp add: after_fired_def del: session_step.simps)
  qed
qed

text \<open>Only a restart marks the manager as restarted.\<close>

lemma finish_restarted [simp]:
  "ma_restarted (fst (enable_settle opID tok t adv out rnd m)) = ma_restarted m"
  "ma_restarted (fst (enable_finish h opID tok t out rnd m)) = ma_restarted m"
  "ma_restarted (fst (read_finish t h opID out rnd m)) = ma_restarted m"
  "ma_restarted (fst (disable_finish t h opID out rnd m)) = ma_restarted m"
proof -
  show e: "ma_restarted (fst (enable_settle opID tok t adv out rnd m)) = ma_restarted m" for adv m
    by (simp add: enable_settle_def Let_def)
  show "ma_restarted (fst (enable_finish h opID tok t out rnd m)) = ma_restarted m"
    by (simp add: enable_finish_def enable_interrupted_def toIdleLocked_def Let_def e split: option.split)
  show "ma_restarted (fst (read_finish t h opID out rnd m)) = ma_restarted m"
    by (simp add: read_finish_def consumeIdleExpiryAfterReadLocked_def Let_def split: option.split)
  show "ma_restarted (fst (disable_finish t h opID out rnd m)) = ma_restarted m"
    by (simp add: disable_finish_def Let_def split: option.split)
qed

lemma begin_restarted [simp]:
  "ma_restarted (fst (enable_admit issued rnd t m)) = ma_restarted m"
  "ma_restarted (fst (owner_begin t key k rnd m)) = ma_restarted m"
  "ma_restarted (fst (attempt_begin e rnd m)) = ma_restarted m"
  "ma_restarted (fst (owner_refreshed t h opID e r rnd m)) = ma_restarted m"
  "ma_restarted (fst (idle_refreshed h opID t e r rnd m)) = ma_restarted m"
  by (simp_all add: enable_admit_def owner_begin_def attempt_begin_def owner_refreshed_def idle_refreshed_def owner_rehome_def
      abandon_pending_def gate_lock_def put_pending_def Let_def case_prod_beta split: option.split sum.split)

lemma section_restarted: "ma_restarted (fst (session_section d x pc m)) = ma_restarted m"
  by (cases pc) (simp_all add: session_section_def case_prod_beta bindPendingContext_def disable_quiet_def attempt_end_def
      recordCleanupOutcome_def idle_undispatched_def idle_finish_def abandon_pending_def Let_def split: option.split)

lemma sections_not_restarted:
  "ma_restarted (sw_manager (foldl session_step w (TimerOp gen x # map (SectionOp i) xs))) = ma_restarted (sw_manager w)"
proof -
  have s: "ma_restarted (sw_manager (session_step w (SectionOp i x))) = ma_restarted (sw_manager w)" for w x
    by (simp add: case_prod_beta Let_def section_restarted)
  have "ma_restarted (sw_manager (foldl session_step w (map (SectionOp i) xs))) = ma_restarted (sw_manager w)" for w
    by (induction xs arbitrary: w) (simp_all add: s del: session_step.simps)
  moreover have "ma_restarted (sw_manager (session_step w (TimerOp gen x))) = ma_restarted (sw_manager w)"
    by (simp add: case_prod_beta Let_def fire_timer_def idleTimerFired_def new_call_def on_manager_def put_pending_def split: option.split)
  ultimately show ?thesis by (simp del: session_step.simps)
qed

section \<open>Operations a transport event withdraws\<close>

definition withdrawn :: "string \<Rightarrow> Manager \<Rightarrow> bool" where
  "withdrawn opID m =
     (case ma_pendingOperation m of None \<Rightarrow> True | Some p \<Rightarrow> po_invalidated p \<or> po_OperationID p \<noteq> opID)"

text \<open>The random identifiers an operation draws are identifiers, and not this one.\<close>

fun draws_other :: "string \<Rightarrow> session_op \<Rightarrow> bool" where
  "draws_other opID (SectionOp i x) = (case si_rnd1 x of None \<Rightarrow> False | Some token \<Rightarrow> token \<noteq> opID)"
| "draws_other opID (TimerOp gen x) = (case si_rnd1 x of None \<Rightarrow> False | Some token \<Rightarrow> token \<noteq> opID)"
| "draws_other opID _ = True"

lemma draws_other_drawn: "draws_other opID op \<Longrightarrow> opID \<notin> op_drawn op m"
  by (cases op) (auto simp: drawn_def newCleanupAttemptID_def split: option.splits)

lemma withdrawn_goes:
  assumes "goes D m m'" and "opID \<notin> D" and "withdrawn opID m"
  shows "withdrawn opID m'"
proof (cases "ma_pendingOperation m'")
  case (Some p')
  then consider p where "ma_pendingOperation m = Some p" "same_op p p'" | "po_OperationID p' \<in> D"
    using assms(1) by (auto simp: goes_def moves_def)
  then show ?thesis by cases (use assms(2,3) Some in \<open>auto simp: withdrawn_def same_op_def\<close>)
qed (simp add: withdrawn_def)

lemma withdrawn_run:
  assumes "session_ok w" and "withdrawn opID (sw_manager w)" and "list_all (draws_other opID) ops"
  shows "withdrawn opID (sw_manager (foldl session_step w ops))"
  using assms
proof (induction ops arbitrary: w)
  case (Cons op ops)
  then show ?case using withdrawn_goes[OF step_manager_goes[OF Cons.prems(1)] draws_other_drawn] session_ok_step by simp
qed simp

lemma withdrawn_refused:
  assumes "withdrawn opID m"
  shows "AdmitPendingEmission opID t m = (m, False)"
    and "BeginPendingEmission opID t m = None \<or> BeginPendingEmission opID t m = Some (m, False)"
proof -
  show a: "AdmitPendingEmission opID t m = (m, False)"
    using assms by (cases "ma_pendingOperation m") (auto simp: withdrawn_def AdmitPendingEmission_def)
  show "BeginPendingEmission opID t m = None \<or> BeginPendingEmission opID t m = Some (m, False)"
    by (simp add: BeginPendingEmission_def a)
qed

lemma invalidate_withdrawn: "withdrawn opID (invalidate_pending m)"
  by (simp add: withdrawn_def invalidate_pending_def split: option.split)

lemma event_withdraws:
  "IsOwned m \<Longrightarrow> withdrawn opID (OnTransportDisconnect rnd m)"
  "ma_observedEpoch m < e \<Longrightarrow> withdrawn opID (OnEpochAdvance e m)"
  "withdrawn opID (ResetForRestart ts m)"
proof -
  have w: "withdrawn opID m'" if "ma_pendingOperation m' = ma_pendingOperation (invalidate_pending m) \<or> ma_pendingOperation m' = None" for m'
    using that invalidate_withdrawn[of opID m] by (auto simp: withdrawn_def)
  have e: "ma_pendingOperation (invalidate_pending (m\<lparr> ma_observedEpoch := e, ma_lastRefreshTransportDown := False \<rparr>)) =
      ma_pendingOperation (invalidate_pending m)" for e by (simp add: invalidate_pending_def split: option.split)
  show "IsOwned m \<Longrightarrow> withdrawn opID (OnTransportDisconnect rnd m)"
    by (rule w) (simp add: OnTransportDisconnect_def IsOwned_def Let_def case_prod_beta drop_enable_def split: option.split)
  show "ma_observedEpoch m < e \<Longrightarrow> withdrawn opID (OnEpochAdvance e m)"
    by (rule w) (auto simp: OnEpochAdvance_def Let_def drop_enable_def e split: option.split)
  show "withdrawn opID (ResetForRestart ts m)" by (rule w) (simp add: ResetForRestart_def Let_def)
qed

text \<open>The transport events that withdraw the operation in flight.\<close>

fun withdraws :: "session_op \<Rightarrow> Manager \<Rightarrow> bool" where
  "withdraws (DisconnectOp rnd) m = IsOwned m"
| "withdraws (EpochOp epoch) m = (ma_observedEpoch m < epoch \<and> \<not> ma_emissionMu m)"
| "withdraws (RestartOp targets) m = True"
| "withdraws _ m = False"

lemma step_withdraws: "withdraws op (sw_manager w) \<Longrightarrow> withdrawn opID (sw_manager (session_step w op))"
  using event_withdraws by (cases op) (simp_all add: on_manager_def)
section \<open>Correctness\<close>

text \<open>The call that carries the operation of a handle.\<close>

definition carrying_call :: "nat \<Rightarrow> session_world \<Rightarrow> nat" where
  "carrying_call h w = length (takeWhile (\<lambda>c. carries (sc_pc c) \<noteq> Some h) (sw_calls w))"

lemma carrying_call:
  assumes "i < length (sw_calls w)" and "carries (sc_pc (sw_calls w ! i)) = Some h"
  shows "carrying_call h w < length (sw_calls w)" "carries (sc_pc (sw_calls w ! carrying_call h w)) = Some h"
proof -
  let ?P = "\<lambda>c. carries (sc_pc c) \<noteq> Some h"
  have "takeWhile ?P (sw_calls w) \<noteq> sw_calls w" using assms nth_mem by (fastforce simp: takeWhile_eq_all_conv)
  then show l: "carrying_call h w < length (sw_calls w)"
    by (metis carrying_call_def le_neq_implies_less length_takeWhile_le takeWhile_eq_take take_all_iff order_refl)
  show "carries (sc_pc (sw_calls w ! carrying_call h w)) = Some h"
    using nth_length_takeWhile[of ?P "sw_calls w"] l by (simp add: carrying_call_def)
qed

text \<open>A session of one target, for the examples: the enable is admitted, acknowledged, and meets a new epoch.\<close>

definition sample_key :: TransportKey where
  "sample_key = \<lparr> tk_AdapterInstanceID = ''adapter'', tk_TransportEpoch = 1 \<rparr>"

definition sample_input :: "string \<Rightarrow> session_input" where
  "sample_input opID =
     \<lparr> si_issued = Inr ''token'', si_rnd1 = Some opID, si_rnd2 = Some ''other'', si_refresh = Inr (sample_key\<lparr> tk_TransportEpoch := 2 \<rparr>),
       si_outcome = \<lparr> do_Response = [0x4F], do_Emitted = True, do_Native = NativeACK, do_Transport = sample_key, do_Err = None \<rparr> \<rparr>"

definition sample_start :: "session_op list" where
  "sample_start = [EnableOp 8 True, SectionOp 0 (sample_input ''first'')]"

definition sample_active :: "session_op list" where
  "sample_active = sample_start @ [SectionOp 0 (sample_input ''next''), EpochOp 2]"

abbreviation sample_run :: "session_op list \<Rightarrow> session_world" where
  "sample_run \<equiv> foldl session_step (new_session_world sample_key 30 True)"

definition sample_pending :: pendingOperation where
  "sample_pending =
     \<lparr> po_handle = 0, po_OperationID = ''first'', po_Kind = OperationEnable, po_Target = 8, po_Transport = sample_key,
       po_Emitted = False, po_token = ''token'', po_cancel = True, po_invalidated = False, po_cleanup = False \<rparr>"

lemma sample_started:
  "ma_pendingOperation (sw_manager (sample_run sample_start)) = Some sample_pending"
  "sw_calls (sample_run sample_start) = [\<lparr> sc_dispatch = True, sc_pc = PcEnableSent 8 0 ''first'' ''token'' \<rparr>]"
  "IsOwned (sw_manager (sample_run sample_start))" "is_pending 0 (sw_manager (sample_run sample_start))"
  by code_simp+

lemma sample_activated:
  "ma_pendingOperation (sw_manager (sample_run sample_active)) = None" "IsOwned (sw_manager (sample_run sample_active))"
  "0 < ma_idleTimeout (sw_manager (sample_run sample_active))" "length (sw_calls (sample_run sample_active)) = 1"
  "ma_idleTimerGen (sw_manager (sample_run sample_active)) = 1"
  by code_simp+

text \<open>
  C18. The session gate is sound. Whatever sequence of calls, sections, timer callbacks, emissions,
  transport events and restarts a new manager sees, the session mutex is never locked twice and never
  released while free; it is locked exactly while the session counts as owned, which is exactly in the
  enabling, active and refreshing states; and the status a caller sees, which never shows the internal
  disabled state, says owned exactly in those states.\<close>

theorem live_gate_sound:
  "let m = sw_manager (foldl session_step (new_session_world tr timeout refresh) ops) in
   \<not> ma_gateFault m \<and> ma_mu m = IsOwned m \<and>
   IsOwned m = (ma_state m = Enabling \<or> ma_state m = Active \<or> ma_state m = Refreshing) \<and>
   public_State m \<noteq> Disabled \<and> ss_State (session_StatusSnapshot m) = public_State m \<and>
   ss_Owned (session_StatusSnapshot m) = (public_State m \<noteq> Idle)"
proof -
  let ?m = "sw_manager (foldl session_step (new_session_world tr timeout refresh) ops)"
  have ok: "manager_ok ?m" using session_reachable[of tr timeout refresh ops] by (simp add: session_ok_def)
  have s: "public_State ?m \<noteq> Disabled" "public_State ?m = (if ma_state ?m = Disabled then Idle else ma_state ?m)"
    using manager_okD(11)[OF ok] by (auto simp: public_State_def)
  have o: "IsOwned ?m = (ma_state ?m \<in> owner_states)" using manager_okD(3)[OF ok] by (simp add: IsOwned_def)
  have "ss_Owned (session_StatusSnapshot ?m) = IsOwned ?m" "ss_State (session_StatusSnapshot ?m) = public_State ?m"
    by (simp_all add: session_StatusSnapshot_def public_State_def IsOwned_def Let_def)
  then show ?thesis using manager_okD(1,2)[OF ok] s o unfolding Let_def
    by (cases "ma_state ?m") (simp_all add: IsOwned_def owner_states_def)
qed



text \<open>
  C16. What a transport event withdraws is not sent. Once the transport of an owned session is lost, a
  newer epoch is observed, or the process restarts, the operation that was in flight is refused
  admission by both entry points for ever after, whatever runs in between, as long as no
  later operation draws the same random identifier.\<close>

theorem live_withdrawn_never_emitted:
  assumes w: "w = foldl session_step (new_session_world tr timeout refresh) ops" and e: "withdraws op (sw_manager w)"
    and p: "ma_pendingOperation (sw_manager w) = Some p"
    and w': "w' = foldl session_step (session_step w op) ops'" and d: "list_all (draws_other (po_OperationID p)) ops'"
  shows "AdmitPendingEmission (po_OperationID p) t (sw_manager w') = (sw_manager w', False) \<and>
    BeginPendingEmission (po_OperationID p) t (sw_manager w') \<in> {None, Some (sw_manager w', False)}"
proof -
  have ok: "session_ok (session_step w op)" unfolding w by (rule session_ok_step[OF session_reachable])
  have "withdrawn (po_OperationID p) (sw_manager w')" unfolding w' by (rule withdrawn_run[OF ok step_withdraws[OF e] d])
  then show ?thesis using withdrawn_refused[of "po_OperationID p" "sw_manager w'" t] by blast
qed

theorem live_withdrawn_never_emitted_witness:
  "AdmitPendingEmission ''first'' 8 (sw_manager (foldl session_step (session_step (sample_run sample_start) (DisconnectOp None))
       [EnableOp 8 True, SectionOp 1 (sample_input ''second'')])) =
   (sw_manager (foldl session_step (session_step (sample_run sample_start) (DisconnectOp None))
       [EnableOp 8 True, SectionOp 1 (sample_input ''second'')]), False)"
proof -
  have d: "list_all (draws_other (po_OperationID sample_pending)) [EnableOp 8 True, SectionOp 1 (sample_input ''second'')]" by code_simp
  have e: "withdraws (DisconnectOp None) (sw_manager (sample_run sample_start))" by (simp add: sample_started)
  have "po_OperationID sample_pending = ''first''" by (simp add: sample_pending_def)
  then show ?thesis using live_withdrawn_never_emitted[OF refl e sample_started(1) refl d, of 8] by argo
qed

text \<open>
  C19. No operation of an owner is stuck. In every state the exchanges lead to, the operation an owned
  session has in flight belongs to a call, and in any continuation in which that call runs four
  of its sections there is a moment at which the operation is no longer in flight under an owner.\<close>

theorem live_operation_settles:
  assumes w: "w = foldl session_step (new_session_world tr timeout refresh) ops" and prod: "list_all production ops"
    and o: "IsOwned (sw_manager w)" and p: "ma_pendingOperation (sw_manager w) = Some p"
    and run: "list_all production ops'" "4 \<le> section_count (carrying_call (po_handle p) w) ops'"
  shows "carrying_call (po_handle p) w < length (sw_calls w) \<and>
    (\<exists>n \<le> length ops'. \<not> operation_held (po_handle p) (sw_manager (foldl session_step w (take n ops'))))"
proof -
  have s: "served w" unfolding w by (rule served_run[OF served_new prod])
  have own: "ma_state (sw_manager w) \<in> owner_states" using o manager_okD(3)[OF servedD(2)[OF s]] by (simp add: IsOwned_def)
  obtain i where "i < length (sw_calls w)" "carries (sc_pc (sw_calls w ! i)) = Some (po_handle p)"
    using served_call[OF s own p] by (auto simp: carried_at_def)
  note i = carrying_call[OF this]
  have "operation_held (po_handle p) (sw_manager w)" using o p by (simp add: operation_held_def is_pending_def)
  then have "sections_left (sc_pc (sw_calls w ! carrying_call (po_handle p) w)) \<le> 4"
    using carried_left[OF held_carried[OF s _ i]] by blast
  then show ?thesis using held_settled[OF s run(1) i] run(2) i(1) le_trans by blast
qed

theorem live_operation_settles_witness:
  "\<exists>n \<le> 4. \<not> operation_held 0 (sw_manager (foldl session_step (sample_run sample_start)
     (take n (replicate 4 (SectionOp 0 (sample_input ''next''))))))"
proof -
  have p: "list_all production sample_start" "list_all production (replicate 4 (SectionOp 0 (sample_input ''next'')))" by code_simp+
  have c: "carrying_call (po_handle sample_pending) (sample_run sample_start) = 0"
    by (simp add: carrying_call_def sample_started sample_pending_def)
  have "4 \<le> section_count 0 (replicate 4 (SectionOp 0 (sample_input ''next'')))" by (simp add: section_count_def)
  then show ?thesis
    using live_operation_settles[OF refl p(1) sample_started(3,1) p(2)] c by (simp add: sample_pending_def)
qed

text \<open>
  C30. An idle owner expires. When an owned session has nothing in flight and an idle timeout is set,
  it is active and the callback of its current timer is outstanding; and when that callback runs and
  is followed by three sections of its own, whatever the refresh and the exchange return, the session
  is owned no more and the target's obligation is on record.\<close>

theorem live_idle_owner_expires:
  assumes w: "w = foldl session_step (new_session_world tr timeout refresh) ops" and prod: "list_all production ops"
    and o: "IsOwned (sw_manager w)" and n: "ma_pendingOperation (sw_manager w) = None"
    and t: "0 < ma_idleTimeout (sw_manager w)" and xs: "length xs = 3"
    and w': "w' = foldl session_step w (TimerOp (ma_idleTimerGen (sw_manager w)) x # map (SectionOp (length (sw_calls w))) xs)"
  shows "ma_state (sw_manager w) = Active \<and> ma_idleTimerGen (sw_manager w) \<in> set (ma_callbacks (sw_manager w)) \<and>
    \<not> IsOwned (sw_manager w') \<and> (ma_cleanup (sw_manager w') \<noteq> None)"
proof -
  have s: "served w" unfolding w by (rule served_run[OF served_new prod])
  note e = idle_owner_expires[OF s o n t]
  have f: "fenced (sw_manager w')" unfolding w' by (rule e(3)[OF xs])
  have "session_ok w'" unfolding w' by (rule session_machine.run_keeps[OF servedD(1)[OF s]])
  then have m: "manager_ok (sw_manager w')" by (simp add: session_ok_def)
  have "\<not> ma_restarted (sw_manager w)" using o held_unrestarted[OF servedD(2)[OF s]] by (simp add: IsOwned_def)
  then have "\<not> ma_restarted (sw_manager w')" unfolding w' using sections_not_restarted by (simp del: session_step.simps)
  then show ?thesis using e(1,2) f manager_okD(3,11)[OF m] by (auto simp: fenced_def IsOwned_def owner_states_def)
qed

theorem live_idle_owner_expires_witness:
  "\<not> IsOwned (sw_manager (foldl session_step (sample_run sample_active)
     (TimerOp 1 (sample_input ''idle'') # map (SectionOp 1) (replicate 3 (sample_input ''next'')))))"
proof -
  have p: "list_all production sample_active" by code_simp
  have l: "length (replicate 3 (sample_input ''next'')) = 3" by simp
  show ?thesis
    using live_idle_owner_expires[OF refl p sample_activated(2,1,3) l refl, of "sample_input ''idle''"]
    unfolding sample_activated(4,5) by blast
qed

end
