(* ===== verification/Spec2Isabelle.thy ===== *)
theory Spec2Isabelle
  imports Wire_Phase Arbitration Echo_Tracker Raw_Symbols V8_Classifier Passive_Reconstructor Watch_Catalog
    Observe_First Dedup Dedup_Fanout Shadow_Cache Read_Scheduler Live_Monitor
begin

text \<open>
  A verification development for the eBUS gateway in \<^verbatim>\<open>src/\<close>: the program that shares one
  eBUS adapter between its own active traffic and external sessions, follows what happens on the
  bus, and rebuilds the traffic of other participants.

  \<^bold>\<open>The program.\<close> One goroutine reads the adapter and hands every symbol, in order, to the parts
  below; one goroutine writes. \<^verbatim>\<open>internal/adaptermux/mux.go\<close> owns them. A bid for the bus is kept
  by the arbitrator until an idle SYN; the winner becomes the owner. While an owner writes, the
  echo tracker holds the symbols whose echo must come back and the wire-phase tracker follows
  the transaction on the bus. Payload bytes with a reserved value leave the gateway as escape
  pairs, which are verified symbol by symbol. The classifier decides whether a SYN is an
  injected one that sessions must not see; an abandoned arbitration is fenced until the bus
  shows that it is idle again. Independently, the passive reconstructor turns the observed
  symbols into broadcast frames, initiator frames and request/response transactions.

  Above the bus the gateway observes before it asks. The watch catalogue lists the registers
  worth following and the activation set who follows them; the deduplicator tells for every
  passive transaction whether it is a copy of one the gateway sent or traffic of a third party,
  and fans its verdicts out to subscribers. The shadow cache keeps the last value of every
  followed register and forgets it when somebody else writes; the read scheduler serves reads
  from it while they are fresh, and otherwise sends one caller per register to the bus.
  Beside them the live-monitor session manager lends the one monitoring slot of a controller to one
  caller at a time and keeps account of every exchange whose effect on the device is not known.

  \<^bold>\<open>The theories.\<close>
  \<^item> \<^verbatim>\<open>Gateway_Prelude\<close>: machine types, the symbols and predicates taken from the protocol
    library \<^verbatim>\<open>helianthus-ebusgo\<close> as a record \<open>ebus_protocol\<close>, runs of a machine over a list of
    inputs, and the interfaces \<open>kept_invariant\<close> (operations that keep an invariant) and \<open>spending\<close>
    (a machine that comes to rest), with the lemmas every component draws from them.
  \<^item> \<^verbatim>\<open>Wire_Phase\<close>, for \<^verbatim>\<open>wire_phase.go\<close>: the transaction tracker, one function per method. It
    follows every complete transaction with its permitted retries, refines the documented phase
    machine, reports at most one retry and one end, keeps its counters in range, and is idle
    again after at most 1041 symbols.
  \<^item> \<^verbatim>\<open>Arbitration\<close>, for \<^verbatim>\<open>arbitration.go\<close>: bids, selection, ownership tokens. Every waiter gets
    exactly one result; a selection picks the best eligible bid and answers exactly the others; a
    bid after the snapshot is excluded; a token commits exactly within its ownership period.
  \<^item> \<^verbatim>\<open>Echo_Tracker\<close>, for \<^verbatim>\<open>echo_tracker.go\<close>: three parallel queues with a capacity reset
    implement one queue; a rollback is exact; own bytes are suppressed however writes and echoes
    interleave.
  \<^item> \<^verbatim>\<open>Raw_Symbols\<close>, for \<^verbatim>\<open>raw_symbols.go\<close>: the encoding of gateway writes and the escape-pair
    writer, cut at the points where the read loop, ownership transitions and lifecycle fences
    interleave. A pair is acknowledged only if both symbols were written and echoed in order,
    inside its ownership period; the expectation blocks nobody and outlives no write.
  \<^item> \<^verbatim>\<open>V8_Classifier\<close>, for \<^verbatim>\<open>v8classifier/{classifier,admin_event,mode}.go\<close> and
    \<^verbatim>\<open>arbitration_recovery.go\<close>: shadow mode predicts enforce mode exactly, the counters account for
    every event, the event buffer holds the latest 64, a fenced arbitration recovers within two
    consecutive SYN symbols, and a foreign telegram stays filtered meanwhile.
  \<^item> \<^verbatim>\<open>Passive_Reconstructor\<close>, for \<^verbatim>\<open>passive_transaction_reconstructor.go\<close>, \<^verbatim>\<open>parseFrame\<close> of
    \<^verbatim>\<open>wire_log.go\<close> and the address rules: every classified frame was on the bus, every well-formed
    transaction is reconstructed, every request has exactly one outcome.
  \<^item> \<^verbatim>\<open>Watch_Catalog\<close>, for \<^verbatim>\<open>watch_catalog.go\<close>: watch keys and their canonical text, the validation
    of descriptors, the catalogue and the activation set. The text identifies the key, the
    catalogue holds exactly the valid descriptors it was given, and the activation set implements
    a relation between keys and sources.
  \<^item> \<^verbatim>\<open>Observe_First\<close>, for \<^verbatim>\<open>observe_first_flags.go\<close> and \<^verbatim>\<open>observe_first_family_policy.go\<close>: the
    normalisation of the feature flags and the policy of a request's family.
  \<^item> \<^verbatim>\<open>Dedup\<close> and \<^verbatim>\<open>Dedup_Fanout\<close>, for \<^verbatim>\<open>active_passive_deduplicator.go\<close> and its defaults in
    \<^verbatim>\<open>config.go\<close>: every passive event is decided once, waits or was flushed; copies never outnumber
    own transactions; third-party verdicts are justified by the grace time; the digest separates
    transactions; the publication of a batch ends and loses nothing silently.
  \<^item> \<^verbatim>\<open>Shadow_Cache\<close>, for \<^verbatim>\<open>shadow_cache.go\<close>: writes with their precedence rules, invalidation, pins,
    eviction, compaction and descriptors found at run time. Every call returns; the capacity,
    the eviction order and the lock-free snapshots are right in every reachable state; a confirmed
    read that was superseded is refused; an invalidated value is not served again; writes are
    accepted in the order of observation.
  \<^item> \<^verbatim>\<open>Read_Scheduler\<close>, for \<^verbatim>\<open>semantic_read_scheduler.go\<close>: the circuit breaker, and any number of
    concurrent calls cut at the scheduler's critical sections. One caller per register is on the
    bus, nobody waits in vain, a call asks the bus at most twice, an open breaker keeps the
    register off the bus.
  \<^item> \<^verbatim>\<open>Live_Monitor\<close>, for \<^verbatim>\<open>internal/vaillant/b503session\<close>: the session manager, its calls and timer
    callbacks cut at the sections under the state lock and interleaved with emissions, transport
    events and restarts. The ownership mutex is never locked twice or released free; after an
    emitted enable no other is admitted; what a transport event withdrew is not sent; every
    operation of an owner is settled by the call that carries it; an idle owner expires.

  The properties at the end of this theory put the scheduler and the shadow cache together.

  \<^bold>\<open>Conventions.\<close> A struct is a record with the source's field names (prefixed where two structs
  share one), an enumeration a datatype, a byte an \<open>8 word\<close>, a \<^verbatim>\<open>uint64\<close> counter a \<open>64 word\<close> that
  wraps; lengths are naturals, Go \<^verbatim>\<open>int\<close> fields integers; times are integers in nanoseconds. A
  method that runs under its mutex is one function from state to state and result. A pointer
  that is compared or shared is an index into a store; a channel of capacity one is the log of
  what was sent. Errors are values. All definitions compute; the closed examples evaluate them.

  \<^bold>\<open>Bounds.\<close> No fuel is used. Most loops are over a list; the capacity loop and the publication
  loop of the deduplicator and the passes of the compactor have a termination proof, and the
  eviction loop of the shadow cache is a partial function that is proved to return in every
  reachable state. The budget of 1041
  symbols is the longest transaction the tracker can follow, two commands and two responses of
  255 data bytes each with their frames; four sections are the longest way of a session call from the
  admission of its operation to its end. The caps of 256 echoes, 64 events and 50 request bytes are
  those of the source. Claims about counters that must not wrap assume fewer than \<open>2 ^ 64\<close> steps.
  The order in which Go walks a map is an argument wherever the result depends on it.

  \<^bold>\<open>Parameters.\<close> Code outside the repository is an argument: the protocol symbols, the address
  classes, the checksum and the frame type (records \<open>ebus_protocol\<close>, \<open>passive_protocol\<close>), and the
  telegram machine the classifier drives (record \<open>telegram_fsm\<close>), the digest and checksum of the
  deduplicator (record \<open>dedup_cfg\<close>) and its observer. The clock, the result of a fetch and, for the
  session manager, the outcome of an exchange or a refresh and the random identifiers are
  arguments of the operations that read them. What a claim needs of them is a
  premise: that SYN and escape symbols differ, that the telegram machine forwards a SYN when
  idle, that initiator-class addresses obey the initiator rule.

  \<^bold>\<open>Not modelled.\<close> Goroutine scheduling below the granularity of a mutex, sockets and logs; the
  rest of the multiplexer (SYN handler, grant and absorb paths, session delivery) and the echo
  pacer, whose floating-point averages would have to be replaced by something else; the
  subscriber fan-out of the reconstructor; the goroutine that runs the shadow cache's compactor
  and its shutdown; the network surfaces, the other buses, the device-specific decoding and the
  evidence tooling, which only present or archive what these parts compute.
\<close>

section \<open>Reads and the shadow cache together\<close>

text \<open>The generation a reader sees without the lock is the generation of the key.\<close>

lemma snapshot_generation:
  assumes "shadow_ok c"
  shows "el_Generation (SnapshotEligibility t (Some key) c) = generation_of c (Canonical key)"
    and "CaptureGeneration (Some key) c = generation_of c (Canonical key)"
proof -
  have "el_Generation (SnapshotEligibility t (Some key) c) = sn_generation (loadSnapshotRecord (Canonical key) c)"
    by (simp add: SnapshotEligibility_def Let_def)
  then show "el_Generation (SnapshotEligibility t (Some key) c) = generation_of c (Canonical key)"
    using snapshot_faithful(2)[OF assms] by simp
  show "CaptureGeneration (Some key) c = generation_of c (Canonical key)"
    using snapshot_faithful(2)[OF assms] by (simp add: CaptureGeneration_def)
qed

lemma finish_error_none:
  assumes "finish_error True start None (Some r) current = (None, flag)"
  shows "current = expected_generation start (Some r)"
  using assms by (auto simp: finish_error_def Let_def split: option.splits if_splits)

lemma consult_candidate:
  assumes ok: "shadow_ok c" and con: "consultSemanticReadShadow t (Some key) maxAge c = (c', Some ca)"
  shows "shadow_ok c' \<and> ca_generation ca = generation_of c' (Canonical key)"
proof -
  obtain l where l: "Lookup t (Some key) maxAge c = (c', Some l)" "ca_generation ca = ev_Generation (lr_Entry l)"
    using con by (auto simp: consultSemanticReadShadow_def split: if_splits option.splits prod.splits)
  let ?c1 = "syncEntryPinLocked (Canonical key) c"
  have ok1: "shadow_ok ?c1" by (rule shadow_ok_sync[OF ok])
  obtain e where e: "entry_at ?c1 (Canonical key) = Some e" "ev_Generation (lr_Entry l) = se_generation e"
    using l(1) by (auto simp: Lookup_def Let_def cloneShadowEntryView_def split: option.splits)
  have s1: "states_ok ?c1" using ok1 by (simp add: shadow_ok_def)
  obtain st where "sc_keyState ?c1 (Canonical key) = Some st" "ks_generation st = se_generation e"
    using s1 e(1) by (rule states_ok_entry)
  then have "se_generation e = generation_of c (Canonical key)" by (simp add: generation_of_def)
  moreover have "generation_of c' (Canonical key) = generation_of c (Canonical key)" and "shadow_ok c'"
    using calm_lookup[OF ok, of t "Some key" maxAge] calm_generation l(1) by (metis fst_conv)+
  ultimately show ?thesis using l(2) e(2) by simp
qed

text \<open>An eligible snapshot comes from a stored value of the right age.\<close>

lemma eligible_record:
  assumes "shadowSnapshotEligibleForMaxAge (SnapshotEligibility t (Some key) c) maxAge now"
    and "r = loadSnapshotRecord (Canonical key) c"
  shows "sn_present r \<and> sn_state r = ShadowEntryStatePresent \<and> 0 \<le> now - sn_observedAt r \<and> now - sn_observedAt r \<le> maxAge"
proof (cases "sn_present r")
  case True
  let ?s = "SnapshotEligibility t (Some key) c"
  have "el_State ?s = sn_state r" "el_ObservedAt ?s = sn_observedAt r"
    using True unfolding assms(2) by (simp_all add: SnapshotEligibility_def Let_def)
  moreover have "el_State ?s = ShadowEntryStatePresent \<and> 0 \<le> now - el_ObservedAt ?s \<and> now - el_ObservedAt ?s \<le> maxAge"
    using assms(1) unfolding shadowSnapshotEligibleForMaxAge_def Let_def by (meson)
  ultimately show ?thesis using True by simp
next
  case False
  then have "\<not> el_Present (SnapshotEligibility t (Some key) c)"
    unfolding assms(2) by (simp add: SnapshotEligibility_def Let_def)
  with assms(1) show ?thesis unfolding shadowSnapshotEligibleForMaxAge_def by (meson)
qed

lemma eligible_entry:
  assumes ok: "shadow_ok c" and el: "shadowSnapshotEligibleForMaxAge (SnapshotEligibility t (Some key) c) maxAge now"
  shows "\<exists>e. entry_at c (Canonical key) = Some e \<and> se_state e = ShadowEntryStatePresent \<and>
           0 \<le> now - se_observedAt e \<and> now - se_observedAt e \<le> maxAge"
  using eligible_record[OF el snapshot_faithful(1)[OF ok, symmetric]]
  by (cases "entry_at c (Canonical key)") (simp_all add: snapshot_of_def zero_snapshot_def)

section \<open>Properties\<close>

text \<open>
  C9. A value the scheduler fetched is kept and returned only if nothing overtook it: when the second
  critical section settles without an error, then between the moment the read noted the generation
  of its register and that section, the register was not invalidated, neither while the fetch was on
  the bus nor after its value was offered to the shadow cache, whether the cache took it or not. The
  calls in between are arbitrary, but too few to turn the generation counter once round.
\<close>

theorem read_fetch_not_overtaken:
  assumes "c0 = foldl shadow_step (NewShadowCache now opts) before" and "sw_Key w = Some key"
    and "sw_Source w = ShadowWriteSourceActiveConfirmed" and "sw_StartGeneration w = CaptureGeneration (Some key) c0"
    and "Write w (foldl shadow_step c0 ops1) = Some (c2, r)"
    and "finish_error True (sw_StartGeneration w) None (Some r)
           (el_Generation (SnapshotEligibility t (Some key) (foldl shadow_step c2 ops2))) = (None, flag)"
    and "sum_list (map (bumps (Canonical key)) (ops1 @ ShadowWriteOp w # ops2)) < 2 ^ 64"
  shows "\<not> list_ex (invalidates (Canonical key)) (ops1 @ ops2)"
proof -
  let ?k = "Canonical key" and ?c1 = "foldl shadow_step c0 ops1" and ?c3 = "foldl shadow_step c2 ops2"
  have ok0: "shadow_ok c0" unfolding assms(1) by (rule reachable_ok)
  have ok1: "shadow_ok ?c1" by (rule shadow_machine.run_keeps[OF ok0])
  have c2: "c2 = shadow_step ?c1 (ShadowWriteOp w)" using assms(5) by (simp add: shadow_step_def)
  have ok2: "shadow_ok c2" unfolding c2 by (rule step_effect(1)[OF ok1])
  have ok3: "shadow_ok ?c3" by (rule shadow_machine.run_keeps[OF ok2])
  have start: "sw_StartGeneration w = generation_of c0 ?k" using assms(4) snapshot_generation(2)[OF ok0] by simp
  have final: "generation_of ?c3 ?k = expected_generation (sw_StartGeneration w) (Some r)"
    using finish_error_none[OF assms(6)] snapshot_generation(1)[OF ok3] by simp
  have few: "sum_list (map (bumps ?k) ops1) < 2 ^ 64" "sum_list (map (bumps ?k) ops2) < 2 ^ 64" using assms(7) by simp_all
  show ?thesis
  proof (cases "wr_Accepted r")
    case True
    have "generation_of ?c1 ?k = sw_StartGeneration w \<and> wr_Generation r = generation_of c2 ?k" using ok1
      by (cases rule: write_cases[where w = w]) (use assms(2,3,5) True in \<open>auto simp: admitted_def\<close>)
    then have "\<not> list_ex (invalidates ?k) ops1" "\<not> list_ex (invalidates ?k) ops2"
      using generation_unmoved(2)[OF ok0 few(1)] generation_unmoved(2)[OF ok2 few(2)] start final True
      by (simp_all add: expected_generation_def)
    then show ?thesis by simp
  next
    case False
    have all: "foldl shadow_step c0 (ops1 @ ShadowWriteOp w # ops2) = ?c3" by (simp add: c2)
    have "generation_of ?c3 ?k = generation_of c0 ?k" using final start False by (simp add: expected_generation_def)
    then have "\<not> list_ex (invalidates ?k) (ops1 @ ShadowWriteOp w # ops2)"
      using generation_unmoved(2)[OF ok0 assms(7)] unfolding all by simp
    then show ?thesis by simp
  qed
qed

theorem read_fetch_not_overtaken_witness:
  "\<not> list_ex (invalidates (Canonical example_key))
       ([ShadowEntryOp (Some example_key)] @ [ShadowLookupOp 1600 (Some example_key) 0])"
proof -
  let ?c0 = "foldl shadow_step (NewShadowCache 1000 example_shadow_options) []"
  let ?w = "example_shadow_write ''active_confirmed'' 1500 7 0"
  let ?o1 = "[ShadowEntryOp (Some example_key)]" and ?o2 = "[ShadowLookupOp 1600 (Some example_key) 0]"
  have fin: "map_option (\<lambda>(c2, r). finish_error True (sw_StartGeneration ?w) None (Some r)
      (el_Generation (SnapshotEligibility 1700 (Some example_key) (foldl shadow_step c2 ?o2))))
      (Write ?w (foldl shadow_step ?c0 ?o1)) = Some (None, False)" by code_simp
  then obtain c2 r where wr: "Write ?w (foldl shadow_step ?c0 ?o1) = Some (c2, r)"
    "finish_error True (sw_StartGeneration ?w) None (Some r)
      (el_Generation (SnapshotEligibility 1700 (Some example_key) (foldl shadow_step c2 ?o2))) = (None, False)" by auto
  have start: "sw_StartGeneration ?w = CaptureGeneration (Some example_key) ?c0" by code_simp
  have w: "sw_Key ?w = Some example_key" "sw_Source ?w = ShadowWriteSourceActiveConfirmed"
    by (simp_all add: example_shadow_write_def ShadowWriteSourceActiveConfirmed_def)
  have few: "sum_list (map (bumps (Canonical example_key)) (?o1 @ ShadowWriteOp ?w # ?o2)) < 2 ^ 64"
    by (simp add: example_shadow_write_def)
  show ?thesis by (rule read_fetch_not_overtaken[OF refl w start wr few])
qed

text \<open>
  C23. A value taken from the shadow cache is served only if nothing overtook it: when the candidate a
  read found passes its second check, the register was not invalidated between the two, and at the
  second check the cache still offers a value of that register.
\<close>

theorem read_shadow_not_overtaken:
  assumes "consultSemanticReadShadow t0 (Some key) maxAge (foldl shadow_step (NewShadowCache now opts) before) = (c1, Some ca)"
    and "revalidateSemanticReadShadowCandidate (SnapshotEligibility t1 (Some key) (foldl shadow_step c1 ops)) ca maxAge t2"
    and "sum_list (map (bumps (Canonical key)) ops) < 2 ^ 64"
  shows "\<not> list_ex (invalidates (Canonical key)) ops \<and>
         (\<exists>e. entry_at (foldl shadow_step c1 ops) (Canonical key) = Some e \<and> se_state e = ShadowEntryStatePresent \<and>
              0 \<le> t2 - se_observedAt e \<and> t2 - se_observedAt e \<le> maxAge)"
proof -
  let ?k = "Canonical key" and ?c2 = "foldl shadow_step c1 ops"
  have c1: "shadow_ok c1" "ca_generation ca = generation_of c1 ?k" using consult_candidate[OF reachable_ok assms(1)] by simp_all
  have c2: "shadow_ok ?c2" by (rule shadow_machine.run_keeps[OF c1(1)])
  have rev: "el_Generation (SnapshotEligibility t1 (Some key) ?c2) = ca_generation ca"
    "shadowSnapshotEligibleForMaxAge (SnapshotEligibility t1 (Some key) ?c2) maxAge t2"
    using assms(2) by (simp_all add: revalidateSemanticReadShadowCandidate_def split: if_splits)
  then have "\<not> list_ex (invalidates ?k) ops"
    using generation_unmoved(2)[OF c1(1) assms(3)] snapshot_generation(1)[OF c2] c1(2) by simp
  moreover note eligible_entry[OF c2 rev(2)]
  ultimately show ?thesis by blast
qed

theorem read_shadow_not_overtaken_witness:
  "\<not> list_ex (invalidates (Canonical example_key)) [ShadowRefreshOp [] 1300]"
proof -
  let ?c = "foldl shadow_step (NewShadowCache 1000 example_shadow_options) [ShadowWriteOp (example_shadow_write ''passive'' 1000 7 0)]"
  have "(case consultSemanticReadShadow 1200 (Some example_key) 5000 ?c of (c1, x) \<Rightarrow>
      (case x of None \<Rightarrow> False | Some ca \<Rightarrow>
        revalidateSemanticReadShadowCandidate (SnapshotEligibility 1400 (Some example_key)
          (foldl shadow_step c1 [ShadowRefreshOp [] 1300])) ca 5000 1400))" by code_simp
  then obtain c1 ca where r: "consultSemanticReadShadow 1200 (Some example_key) 5000 ?c = (c1, Some ca)"
    "revalidateSemanticReadShadowCandidate (SnapshotEligibility 1400 (Some example_key)
          (foldl shadow_step c1 [ShadowRefreshOp [] 1300])) ca 5000 1400"
    by (auto split: option.splits prod.splits)
  show ?thesis using read_shadow_not_overtaken[OF r] by simp
qed

end
